(* ===== verification/Xv6_Prelude.thy ===== *)
theory Xv6_Prelude
  imports Main "HOL-Library.Word"
begin

text \<open>
  Shared vocabulary of the development: how a run of kernel C code can stop without
  returning, the state monad in which the handlers are written, the weakest precondition
  calculus the component proofs use, little-endian reading and writing of multi-byte
  fields, and the generic facts about words and lists the components share.
\<close>

unbundle bit_operations_syntax

section \<open>Runs of kernel code\<close>

text \<open>
  A call into the kernel either returns a value in a new state or stops: \<open>Panic\<close> is a
  call of \<^verbatim>\<open>panic(msg)\<close> (\<^verbatim>\<open>kernel/printf.c\<close>), which never returns; \<open>Blocked\<close> is a process
  that would sleep until another process changes the state; \<open>Diverge\<close> is a loop whose
  fuel ran out; \<open>OutOfBounds\<close> is an array access the C code does not guard.
\<close>

datatype stop = Panic string | Blocked | Diverge | OutOfBounds

type_synonym ('s, 'a) km = "'s \<Rightarrow> stop + ('a \<times> 's)"

definition ret :: "'a \<Rightarrow> ('s, 'a) km" where
  "ret x s = Inr (x, s)"

definition bnd :: "('s, 'a) km \<Rightarrow> ('a \<Rightarrow> ('s, 'b) km) \<Rightarrow> ('s, 'b) km" where
  "bnd m f s = (case m s of Inl e \<Rightarrow> Inl e | Inr (x, s') \<Rightarrow> f x s')"

definition stop_with :: "stop \<Rightarrow> ('s, 'a) km" where
  "stop_with e s = Inl e"

abbreviation panic :: "string \<Rightarrow> ('s, 'a) km" where
  "panic msg \<equiv> stop_with (Panic msg)"

definition get :: "('s, 's) km" where
  "get s = Inr (s, s)"

definition modify :: "('s \<Rightarrow> 's) \<Rightarrow> ('s, unit) km" where
  "modify f s = Inr ((), f s)"

definition skip :: "('s, unit) km" where
  "skip s = Inr ((), s)"

text \<open>A counted \<^verbatim>\<open>for\<close> loop: the body once for each value, in order.\<close>

primrec for_each :: "'a list \<Rightarrow> ('a \<Rightarrow> ('s, unit) km) \<Rightarrow> ('s, unit) km" where
  "for_each [] f = skip"
| "for_each (x # xs) f = bnd (f x) (\<lambda>_. for_each xs f)"

text \<open>\<open>wp m Q s\<close>: run from \<open>s\<close>, \<open>m\<close> returns, and its result and final state satisfy \<open>Q\<close>.\<close>

definition wp :: "('s, 'a) km \<Rightarrow> ('a \<Rightarrow> 's \<Rightarrow> bool) \<Rightarrow> 's \<Rightarrow> bool" where
  "wp m Q s = (case m s of Inl _ \<Rightarrow> False | Inr (x, s') \<Rightarrow> Q x s')"

named_theorems run_simps \<open>evaluation of the monad's operations on a state\<close>
named_theorems wp_simps \<open>weakest preconditions of the monad's operations\<close>

lemma ret_run [run_simps]: "ret x s = Inr (x, s)"
  by (simp add: ret_def)

lemma get_run [run_simps]: "get s = Inr (s, s)"
  by (simp add: get_def)

lemma modify_run [run_simps]: "modify f s = Inr ((), f s)"
  by (simp add: modify_def)

lemma skip_run [run_simps]: "skip s = Inr ((), s)"
  by (simp add: skip_def)

lemma stop_run [run_simps]: "stop_with e s = Inl e"
  by (simp add: stop_with_def)

lemma bnd_run [run_simps]:
  "m s = Inr (x, s') \<Longrightarrow> bnd m f s = f x s'"
  "m s = Inl e \<Longrightarrow> bnd m f s = Inl e"
  by (simp_all add: bnd_def)

lemma bnd_eq_Inr:
  "bnd m f s = Inr r \<longleftrightarrow> (\<exists>x s'. m s = Inr (x, s') \<and> f x s' = Inr r)"
  by (auto simp: bnd_def split: sum.splits prod.splits)

lemma bnd_assoc: "bnd (bnd m f) g = bnd m (\<lambda>x. bnd (f x) g)"
  by (rule ext) (auto simp: bnd_def split: sum.splits prod.splits)

lemma wp_ret [wp_simps]: "wp (ret x) Q s = Q x s"
  by (simp add: wp_def ret_def)

lemma wp_bnd [wp_simps]: "wp (bnd m f) Q s = wp m (\<lambda>x. wp (f x) Q) s"
  by (auto simp: wp_def bnd_def split: sum.splits prod.splits)

lemma wp_get [wp_simps]: "wp get Q s = Q s s"
  by (simp add: wp_def get_def)

lemma wp_modify [wp_simps]: "wp (modify f) Q s = Q () (f s)"
  by (simp add: wp_def modify_def)

lemma wp_skip [wp_simps]: "wp skip Q s = Q () s"
  by (simp add: wp_def skip_def)

lemma wp_stop [wp_simps]: "wp (stop_with e) Q s = False"
  by (simp add: wp_def stop_with_def)

lemma wp_if [wp_simps]: "wp (if b then m else n) Q s = (if b then wp m Q s else wp n Q s)"
  by simp

lemma wp_mono: "wp m Q s \<Longrightarrow> (\<And>x t. Q x t \<Longrightarrow> R x t) \<Longrightarrow> wp m R s"
  by (auto simp: wp_def split: sum.splits prod.splits)

lemma wp_iff: "wp m Q s \<longleftrightarrow> (\<exists>x t. m s = Inr (x, t) \<and> Q x t)"
  by (auto simp: wp_def split: sum.splits prod.splits)

lemma wpI: "m s = Inr (x, t) \<Longrightarrow> Q x t \<Longrightarrow> wp m Q s"
  by (simp add: wp_def)

lemma wp_run: "m s = Inr (x, t) \<Longrightarrow> wp m Q s = Q x t"
  by (simp add: wp_def)

text \<open>\<open>keeps P m\<close>: whenever \<open>m\<close> returns, \<open>P\<close> relates the state before to the state after.\<close>

definition keeps :: "('s \<Rightarrow> 's \<Rightarrow> bool) \<Rightarrow> ('s, 'a) km \<Rightarrow> bool" where
  "keeps P m \<longleftrightarrow> (\<forall>s x t. m s = Inr (x, t) \<longrightarrow> P s t)"

named_theorems keeps_intros \<open>rules for \<open>keeps\<close> with a reflexive and transitive relation\<close>

lemma keepsD: "keeps P m \<Longrightarrow> m s = Inr (x, t) \<Longrightarrow> P s t"
  by (auto simp: keeps_def)

lemma keeps_bnd: "transp P \<Longrightarrow> keeps P m \<Longrightarrow> (\<And>x. keeps P (f x)) \<Longrightarrow> keeps P (bnd m f)"
  unfolding keeps_def bnd_eq_Inr by (metis transpD)

lemma keeps_get_bnd: "(\<And>s. keeps P (f s)) \<Longrightarrow> keeps P (bnd get f)"
  by (simp add: keeps_def bnd_def get_def)

lemma keeps_ret [keeps_intros]: "reflp P \<Longrightarrow> keeps P (ret x)"
  by (auto simp: keeps_def ret_def dest: reflpD)

lemma keeps_skip [keeps_intros]: "reflp P \<Longrightarrow> keeps P skip"
  by (auto simp: keeps_def skip_def dest: reflpD)

lemma keeps_stop [keeps_intros]: "keeps P (stop_with e)"
  by (simp add: keeps_def stop_with_def)

lemma keeps_modify: "(\<And>s. P s (f s)) \<Longrightarrow> keeps P (modify f)"
  by (simp add: keeps_def modify_def)

lemma keeps_if [keeps_intros]: "keeps P m \<Longrightarrow> keeps P n \<Longrightarrow> keeps P (if b then m else n)"
  by simp

lemma keeps_option [keeps_intros]:
  "keeps P m \<Longrightarrow> (\<And>y. keeps P (f y)) \<Longrightarrow> keeps P (case x of None \<Rightarrow> m | Some y \<Rightarrow> f y)"
  by (simp split: option.split)

lemma keeps_for_each [keeps_intros]:
  "reflp P \<Longrightarrow> transp P \<Longrightarrow> (\<And>x. keeps P (f x)) \<Longrightarrow> keeps P (for_each xs f)"
  by (induction xs) (auto intro: keeps_skip keeps_bnd)

text \<open>
  \<open>stable \<pi> m\<close>: \<open>m\<close> never changes the part \<open>\<pi>\<close> of the state. \<open>wlp m Q s\<close>: if \<open>m\<close> returns from \<open>s\<close>, its
  result and final state satisfy \<open>Q\<close>.
\<close>

definition stable :: "('s \<Rightarrow> 'v) \<Rightarrow> ('s, 'a) km \<Rightarrow> bool" where
  "stable \<pi> m \<longleftrightarrow> keeps (\<lambda>s t. \<pi> t = \<pi> s) m"

named_theorems stable_intros \<open>operations that leave a part of the state alone\<close>

lemma stableD: "stable \<pi> m \<Longrightarrow> m s = Inr (x, t) \<Longrightarrow> \<pi> t = \<pi> s"
  by (auto simp: stable_def keeps_def)

lemma stableI: "(\<And>s x t. m s = Inr (x, t) \<Longrightarrow> \<pi> t = \<pi> s) \<Longrightarrow> stable \<pi> m"
  by (auto simp: stable_def keeps_def)

lemma stable_basic [stable_intros]:
  "stable \<pi> (ret x)" "stable \<pi> skip" "stable \<pi> (stop_with e)" "stable \<pi> get"
  by (auto simp: run_simps intro!: stableI)

lemma stable_modify: "(\<And>s. \<pi> (f s) = \<pi> s) \<Longrightarrow> stable \<pi> (modify f)"
  by (auto simp: run_simps intro!: stableI)

lemma stable_bnd [stable_intros]: "stable \<pi> m \<Longrightarrow> (\<And>x. stable \<pi> (f x)) \<Longrightarrow> stable \<pi> (bnd m f)"
  unfolding stable_def keeps_def bnd_eq_Inr by metis

lemma stable_let [stable_intros]: "(\<And>x. stable \<pi> (f x)) \<Longrightarrow> stable \<pi> (let x = e in f x)"
  by simp

lemma stable_if [stable_intros]: "stable \<pi> m \<Longrightarrow> stable \<pi> n \<Longrightarrow> stable \<pi> (if b then m else n)"
  by simp

lemma stable_option [stable_intros]:
  "stable \<pi> m \<Longrightarrow> (\<And>y. stable \<pi> (f y)) \<Longrightarrow> stable \<pi> (case x of None \<Rightarrow> m | Some y \<Rightarrow> f y)"
  by (simp split: option.split)

lemma stable_sum [stable_intros]:
  "(\<And>y. stable \<pi> (f y)) \<Longrightarrow> (\<And>y. stable \<pi> (g y)) \<Longrightarrow> stable \<pi> (case x of Inl y \<Rightarrow> f y | Inr y \<Rightarrow> g y)"
  by (simp split: sum.split)

lemma stable_prod [stable_intros]: "(\<And>y z. stable \<pi> (f y z)) \<Longrightarrow> stable \<pi> (case x of (y, z) \<Rightarrow> f y z)"
  by (simp split: prod.split)

lemma stable_for_each [stable_intros]: "(\<And>x. stable \<pi> (f x)) \<Longrightarrow> stable \<pi> (for_each xs f)"
  by (induction xs) (auto intro: stable_intros)

lemma stable_comp: "stable \<pi> m \<Longrightarrow> stable (\<lambda>s. g (\<pi> s)) m"
  by (auto simp: stable_def keeps_def)

definition wlp :: "('s, 'a) km \<Rightarrow> ('a \<Rightarrow> 's \<Rightarrow> bool) \<Rightarrow> 's \<Rightarrow> bool" where
  "wlp m Q s \<longleftrightarrow> (\<forall>x t. m s = Inr (x, t) \<longrightarrow> Q x t)"

lemma wlpD: "wlp m Q s \<Longrightarrow> m s = Inr (x, t) \<Longrightarrow> Q x t"
  by (simp add: wlp_def)

lemma wlp_bnd: "wlp (bnd m f) Q s \<longleftrightarrow> wlp m (\<lambda>x. wlp (f x) Q) s"
  by (auto simp: wlp_def bnd_eq_Inr)

lemma wlp_basic:
  "wlp (ret x) Q s \<longleftrightarrow> Q x s" "wlp skip R s \<longleftrightarrow> R () s" "wlp (stop_with e) Q s" "wlp get T s \<longleftrightarrow> T s s"
  "wlp (modify g) R s \<longleftrightarrow> R () (g s)"
  by (simp_all add: wlp_def run_simps)

lemma wlp_if: "wlp (if b then m else n) Q s \<longleftrightarrow> (if b then wlp m Q s else wlp n Q s)"
  by simp

lemma wlp_mono: "wlp m Q s \<Longrightarrow> (\<And>x t. Q x t \<Longrightarrow> R x t) \<Longrightarrow> wlp m R s"
  by (auto simp: wlp_def)

lemma wlp_stable: "stable \<pi> m \<Longrightarrow> (\<And>x t. \<pi> t = \<pi> s \<Longrightarrow> Q x t) \<Longrightarrow> wlp m Q s"
  by (auto simp: wlp_def dest: stableD)

lemmas wlp_simps = wlp_bnd wlp_basic wlp_if

section \<open>Little-endian fields\<close>

text \<open>
  \<open>le_get k f\<close> is the integer whose byte \<open>i\<close> is \<open>f i\<close> for \<open>i < k\<close>; \<open>byte_of v i\<close> is byte
  \<open>i\<close> of \<open>v\<close>. RISC-V loads and stores and the on-disk structures are little-endian.
\<close>

primrec le_get :: "nat \<Rightarrow> (nat \<Rightarrow> 8 word) \<Rightarrow> 'a::len word" where
  "le_get 0 f = 0"
| "le_get (Suc k) f = ucast (f 0) OR push_bit 8 (le_get k (\<lambda>i. f (Suc i)))"

definition byte_of :: "'a::len word \<Rightarrow> nat \<Rightarrow> 8 word" where
  "byte_of v i = ucast (drop_bit (8 * i) v)"

lemma bit_byte_of: "bit (byte_of v i) j \<longleftrightarrow> j < 8 \<and> bit v (8 * i + j)"
  by (auto simp: byte_of_def bit_simps)

lemma bit_le_get:
  "bit (le_get k f :: 'a::len word) n \<longleftrightarrow>
     n < LENGTH('a) \<and> n < 8 * k \<and> bit (f (n div 8)) (n mod 8)"
proof (induction k arbitrary: f n)
  case 0
  then show ?case by simp
next
  case (Suc k)
  have l: "bit (f 0) n \<Longrightarrow> n < 8" for n
    using bit_imp_le_length [of "f 0" n] by simp
  show ?case
  proof (cases "n < 8")
    case True
    then show ?thesis by (simp add: bit_simps)
  next
    case False
    then have d: "n div 8 = Suc ((n - 8) div 8)" and m: "n mod 8 = (n - 8) mod 8"
      by (auto simp: le_div_geq le_mod_geq)
    from False show ?thesis
      using l [of n] by (auto simp: bit_simps Suc.IH d m)
  qed
qed

lemma le_get_cong:
  "(\<And>i. i < k \<Longrightarrow> f i = g i) \<Longrightarrow> (le_get k f :: 'a::len word) = le_get k g"
proof (induction k arbitrary: f g)
  case 0
  then show ?case by simp
next
  case (Suc k)
  have "(le_get k (\<lambda>i. f (Suc i)) :: 'a word) = le_get k (\<lambda>i. g (Suc i))"
    by (rule Suc.IH) (simp add: Suc.prems)
  with Suc.prems [of 0] show ?case by simp
qed

lemma le_get_byte_of:
  "LENGTH('a) \<le> 8 * k \<Longrightarrow> le_get k (byte_of v) = (v :: 'a::len word)"
  by (rule bit_word_eqI) (auto simp: bit_le_get bit_byte_of)

lemma le_get_byte_of_eq:
  "LENGTH('a) \<le> 8 * k \<Longrightarrow> (\<And>i. i < k \<Longrightarrow> f i = byte_of v i) \<Longrightarrow> le_get k f = (v :: 'a::len word)"
  by (rule trans [OF le_get_cong le_get_byte_of])

lemma le_get_zero: "(\<And>i. i < k \<Longrightarrow> f i = 0) \<Longrightarrow> le_get k f = 0"
  by (rule bit_word_eqI) (auto simp: bit_le_get less_mult_imp_div_less mult.commute)

lemma byte_of_le_get:
  assumes "i < k" and "8 * k \<le> LENGTH('a::len)"
  shows "byte_of (le_get k f :: 'a word) i = f i"
proof (rule bit_word_eqI)
  fix n assume "n < LENGTH(8)"
  then have "n < 8" by simp
  with assms show "bit (byte_of (le_get k f :: 'a word) i) n = bit (f i) n"
    by (auto simp: bit_le_get bit_byte_of)
qed

section \<open>Words\<close>

lemma unat_of_nat_lt: "n < 2 ^ LENGTH('a) \<Longrightarrow> unat (of_nat n :: 'a::len word) = n"
  by (simp add: unat_of_nat take_bit_nat_eq_self)

lemma unat_lt: "unat (x :: 'a::len word) < 2 ^ LENGTH('a)"
  by simp

lemma unat_add_nowrap:
  "unat x + unat y < 2 ^ LENGTH('a) \<Longrightarrow> unat (x + y :: 'a::len word) = unat x + unat y"
  by (simp add: unat_word_ariths)

lemma unat_m1: "unat (- 1 :: 'a::len word) = 2 ^ LENGTH('a) - 1"
  by (simp add: unsigned_minus_1_eq_mask mask_eq_exp_minus_1)

lemma uint_eq_iff: "uint x = uint y \<longleftrightarrow> x = y"
  by (simp add: word_uint_eq_iff)

lemma word_diff_lt_iff:
  fixes a d :: "'a::len word"
  assumes "unat d + n \<le> 2 ^ LENGTH('a)"
  shows "unat (a - d) < n \<longleftrightarrow> unat d \<le> unat a \<and> unat a < unat d + n"
proof (cases "d \<le> a")
  case True
  then have "unat (a - d) = unat a - unat d" by (rule unat_sub)
  with True show ?thesis by (auto simp: word_le_nat_alt)
next
  case False
  then have lt: "unat a < unat d" by (simp add: word_le_nat_alt)
  then have "unat (a - d) = 2 ^ LENGTH('a) + unat a - unat d"
    by (simp add: unat_sub_if' word_le_nat_alt)
  with assms lt show ?thesis by auto
qed

end
