(* ===== verification/Kstring.thy ===== *)
theory Kstring
  imports Xv6_Prelude
begin

text \<open>
  \<^verbatim>\<open>kernel/string.c\<close>: the byte-string routines the whole kernel calls. Memory is a total
  function from 64-bit addresses to bytes; each C loop is the recursion it performs, with
  the pointers it advances. The closed forms of the loops (which byte every address holds
  afterwards) are what the allocator, the page tables and the copy routines use.
\<close>

type_synonym addr = "64 word"
type_synonym memory = "64 word \<Rightarrow> 8 word"

section \<open>The routines\<close>

text \<open>\<open>fill m d c k\<close>: memory after the first \<open>k\<close> turns of the loop of \<^verbatim>\<open>memset\<close>.\<close>

primrec fill :: "memory \<Rightarrow> addr \<Rightarrow> 8 word \<Rightarrow> nat \<Rightarrow> memory" where
  "fill m d c 0 = m"
| "fill m d c (Suc k) = (fill m d c k)(d + of_nat k := c)"

definition memset :: "memory \<Rightarrow> addr \<Rightarrow> 32 word \<Rightarrow> 32 word \<Rightarrow> memory" where
  "memset m dst c n = fill m dst (ucast c) (unat n)"

primrec memcmp_loop :: "memory \<Rightarrow> addr \<Rightarrow> addr \<Rightarrow> nat \<Rightarrow> int" where
  "memcmp_loop m s1 s2 0 = 0"
| "memcmp_loop m s1 s2 (Suc n) =
     (if m s1 \<noteq> m s2 then uint (m s1) - uint (m s2)
      else memcmp_loop m (s1 + 1) (s2 + 1) n)"

definition memcmp :: "memory \<Rightarrow> addr \<Rightarrow> addr \<Rightarrow> 32 word \<Rightarrow> int" where
  "memcmp m v1 v2 n = memcmp_loop m v1 v2 (unat n)"

primrec copy_down :: "memory \<Rightarrow> addr \<Rightarrow> addr \<Rightarrow> nat \<Rightarrow> memory" where
  "copy_down m d s 0 = m"
| "copy_down m d s (Suc n) = copy_down (m(d - 1 := m (s - 1))) (d - 1) (s - 1) n"

primrec copy_up :: "memory \<Rightarrow> addr \<Rightarrow> addr \<Rightarrow> nat \<Rightarrow> memory" where
  "copy_up m d s 0 = m"
| "copy_up m d s (Suc n) = copy_up (m(d := m s)) (d + 1) (s + 1) n"

definition memmove :: "memory \<Rightarrow> addr \<Rightarrow> addr \<Rightarrow> 32 word \<Rightarrow> memory" where
  "memmove m dst src n =
     (if n = 0 then m
      else if src < dst \<and> src + ucast n > dst
           then copy_down m (dst + ucast n) (src + ucast n) (unat n)
           else copy_up m dst src (unat n))"

definition memcpy :: "memory \<Rightarrow> addr \<Rightarrow> addr \<Rightarrow> 32 word \<Rightarrow> memory" where
  "memcpy m dst src n = memmove m dst src n"

fun strncmp_loop :: "memory \<Rightarrow> addr \<Rightarrow> addr \<Rightarrow> nat \<Rightarrow> int" where
  "strncmp_loop m p q 0 = 0"
| "strncmp_loop m p q (Suc n) =
     (if m p \<noteq> 0 \<and> m p = m q then strncmp_loop m (p + 1) (q + 1) n
      else uint (m p) - uint (m q))"

definition strncmp :: "memory \<Rightarrow> addr \<Rightarrow> addr \<Rightarrow> 32 word \<Rightarrow> int" where
  "strncmp m p q n = strncmp_loop m p q (unat n)"

text \<open>
  \<^verbatim>\<open>strncpy\<close>: the first loop copies up to and including the NUL, the second pads. Both
  decrement \<open>n\<close> when they test it.
\<close>

primrec strncpy_pad :: "memory \<Rightarrow> addr \<Rightarrow> nat \<Rightarrow> memory" where
  "strncpy_pad m s 0 = m"
| "strncpy_pad m s (Suc n) = strncpy_pad (m(s := 0)) (s + 1) n"

primrec strncpy_loop :: "memory \<Rightarrow> addr \<Rightarrow> addr \<Rightarrow> nat \<Rightarrow> memory" where
  "strncpy_loop m s t 0 = m"
| "strncpy_loop m s t (Suc n) =
     (let m' = m(s := m t) in
      if m t \<noteq> 0 then strncpy_loop m' (s + 1) (t + 1) n
      else strncpy_pad m' (s + 1) n)"

definition strncpy :: "memory \<Rightarrow> addr \<Rightarrow> addr \<Rightarrow> 32 word \<Rightarrow> memory" where
  "strncpy m s t n = strncpy_loop m s t (nat (sint n))"

primrec safestrcpy_loop :: "memory \<Rightarrow> addr \<Rightarrow> addr \<Rightarrow> nat \<Rightarrow> memory" where
  "safestrcpy_loop m s t 0 = m(s := 0)"
| "safestrcpy_loop m s t (Suc n) =
     (let m' = m(s := m t) in
      if m t \<noteq> 0 then safestrcpy_loop m' (s + 1) (t + 1) n
      else m'(s + 1 := 0))"

definition safestrcpy :: "memory \<Rightarrow> addr \<Rightarrow> addr \<Rightarrow> 32 word \<Rightarrow> memory" where
  "safestrcpy m s t n =
     (if sint n \<le> 0 then m else safestrcpy_loop m s t (nat (sint n - 1)))"

partial_function (option) strlen_from :: "memory \<Rightarrow> addr \<Rightarrow> nat \<Rightarrow> nat option" where
  "strlen_from m s n =
     (if m (s + of_nat n) \<noteq> 0 then strlen_from m s (Suc n) else Some n)"

definition strlen :: "memory \<Rightarrow> addr \<Rightarrow> nat option" where
  "strlen m s = strlen_from m s 0"

section \<open>Closed forms of the loops\<close>

lemma unat_step_iff:
  fixes a d :: addr
  assumes "Suc n \<le> 2 ^ 64"
  shows "unat (a - d) < Suc n \<longleftrightarrow> a = d \<or> unat (a - (d + 1)) < n"
proof (cases "a = d")
  case True
  then show ?thesis by simp
next
  case False
  then have "a - d \<noteq> 0" by simp
  then have "unat (a - d - 1) = unat (a - d) - 1" and "0 < unat (a - d)"
    by (simp_all add: unat_minus_one unat_gt_0)
  then show ?thesis using False by (auto simp: algebra_simps)
qed

lemma fill_closed:
  "k \<le> 2 ^ 64 \<Longrightarrow> fill m d c k = (\<lambda>a. if unat (a - d) < k then c else m a)"
proof (induction k)
  case 0
  then show ?case by simp
next
  case (Suc k)
  have "a = d + of_nat k \<longleftrightarrow> unat (a - d) = k" for a
  proof
    assume "a = d + of_nat k"
    with Suc.prems show "unat (a - d) = k" by (simp add: unat_of_nat_lt)
  next
    assume "unat (a - d) = k"
    then have "a - d = of_nat k" by auto
    then show "a = d + of_nat k" by (simp add: algebra_simps)
  qed
  with Suc show ?case by (auto simp: fun_eq_iff less_Suc_eq)
qed

lemma copy_up_closed:
  assumes "n \<le> 2 ^ 64"
    and "\<And>i j. i < j \<Longrightarrow> j < n \<Longrightarrow> d + of_nat i \<noteq> s + of_nat j"
  shows "copy_up m d s n = (\<lambda>a. if unat (a - d) < n then m (s + (a - d)) else m a)"
  using assms
proof (induction n arbitrary: m d s)
  case 0
  then show ?case by simp
next
  case (Suc n)
  let ?m = "m(d := m s)"
  have sep: "d + 1 + of_nat i \<noteq> s + 1 + of_nat j" if "i < j" "j < n" for i j
    using Suc.prems(2) [of "Suc i" "Suc j"] that by (simp add: algebra_simps)
  have IH: "copy_up ?m (d + 1) (s + 1) n =
      (\<lambda>a. if unat (a - (d + 1)) < n then ?m (s + 1 + (a - (d + 1))) else ?m a)"
    using Suc.prems(1) sep by (intro Suc.IH) auto
  have read: "s + (a - d) \<noteq> d" if "unat (a - (d + 1)) < n" for a
  proof -
    let ?j = "Suc (unat (a - (d + 1)))"
    have "s + of_nat ?j = s + (a - d)" by (simp add: algebra_simps)
    then show ?thesis using Suc.prems(2) [of 0 ?j] that by auto
  qed
  have shift: "s + 1 + (a - (d + 1)) = s + (a - d)" for a
    by simp
  show ?case
  proof (rule ext)
    fix a
    show "copy_up m d s (Suc n) a = (if unat (a - d) < Suc n then m (s + (a - d)) else m a)"
      using Suc.prems(1) read [of a] unfolding copy_up.simps IH shift
      by (cases "a = d") (simp_all add: unat_step_iff)
  qed
qed

lemma copy_down_closed:
  assumes "n \<le> 2 ^ 64"
    and "\<And>i j. i < j \<Longrightarrow> j < n \<Longrightarrow> s - of_nat (Suc j) \<noteq> d - of_nat (Suc i)"
  shows "copy_down m d s n =
    (\<lambda>a. if unat (a - (d - of_nat n)) < n then m (s - of_nat n + (a - (d - of_nat n))) else m a)"
  using assms
proof (induction n arbitrary: m d s)
  case 0
  then show ?case by simp
next
  case (Suc n)
  let ?m = "m(d - 1 := m (s - 1))"
  define b where "b = d - of_nat (Suc n)"
  have sep: "s - 1 - of_nat (Suc j) \<noteq> d - 1 - of_nat (Suc i)" if "i < j" "j < n" for i j
    using Suc.prems(2) [of "Suc i" "Suc j"] that by (simp add: algebra_simps)
  have base: "d - 1 - of_nat n = b" "s - 1 - of_nat n = s - of_nat (Suc n)"
    by (simp_all add: b_def)
  have "copy_down ?m (d - 1) (s - 1) n =
      (\<lambda>a. if unat (a - (d - 1 - of_nat n)) < n
           then ?m (s - 1 - of_nat n + (a - (d - 1 - of_nat n))) else ?m a)"
    using Suc.prems(1) sep by (intro Suc.IH) auto
  then have IH: "copy_down ?m (d - 1) (s - 1) n =
      (\<lambda>a. if unat (a - b) < n then ?m (s - of_nat (Suc n) + (a - b)) else ?m a)"
    unfolding base .
  have last: "a = d - 1 \<longleftrightarrow> unat (a - b) = n" for a
  proof
    assume "a = d - 1"
    with Suc.prems(1) show "unat (a - b) = n" by (simp add: b_def unat_of_nat_lt)
  next
    assume "unat (a - b) = n"
    then have "a - b = of_nat n" by auto
    then show "a = d - 1" by (simp add: b_def algebra_simps)
  qed
  have read: "s - of_nat (Suc n) + (a - b) \<noteq> d - 1" if "unat (a - b) < n" for a
  proof -
    let ?k = "n - unat (a - b)"
    have "of_nat ?k = (of_nat n :: addr) - (a - b)"
      using that by (simp add: of_nat_diff)
    then have "s - of_nat (Suc ?k) = s - of_nat (Suc n) + (a - b)"
      by (simp add: algebra_simps)
    then show ?thesis using Suc.prems(2) [of 0 ?k] that by auto
  qed
  have top: "s - of_nat (Suc n) + (d - 1 - b) = s - 1"
    by (simp add: b_def)
  show ?case
  proof (rule ext)
    fix a
    show "copy_down m d s (Suc n) a =
      (if unat (a - (d - of_nat (Suc n))) < Suc n
       then m (s - of_nat (Suc n) + (a - (d - of_nat (Suc n)))) else m a)"
    proof (cases "a = d - 1")
      case True
      then have "unat (a - b) = n" and "?m a = m (s - 1)"
        and "m (s - of_nat (Suc n) + (a - b)) = m (s - 1)"
        using last [of a] arg_cong [OF top, of m] by auto
      then show ?thesis unfolding copy_down.simps IH b_def [symmetric] by (simp only: less_irrefl lessI if_True if_False)
    next
      case False
      then show ?thesis
        using read [of a] last [of a] unfolding copy_down.simps IH b_def [symmetric]
        by (simp add: less_Suc_eq)
    qed
  qed
qed

section \<open>Correctness\<close>

text \<open>The bytes of a buffer, and the C string a buffer of \<open>n\<close> bytes holds.\<close>

primrec bytes_at :: "memory \<Rightarrow> addr \<Rightarrow> nat \<Rightarrow> 8 word list" where
  "bytes_at m p 0 = []"
| "bytes_at m p (Suc n) = m p # bytes_at m (p + 1) n"

definition cstr :: "memory \<Rightarrow> addr \<Rightarrow> nat \<Rightarrow> 8 word list" where
  "cstr m p n = takeWhile (\<lambda>b. b \<noteq> 0) (bytes_at m p n)"

lemma length_bytes_at [simp]: "length (bytes_at m p n) = n"
  by (induction n arbitrary: p) auto

lemma nth_bytes_at: "i < n \<Longrightarrow> bytes_at m p n ! i = m (p + of_nat i)"
proof (induction n arbitrary: p i)
  case 0
  then show ?case by simp
next
  case (Suc n)
  then show ?case by (cases i) (simp_all add: algebra_simps)
qed

lemma bytes_at_cong:
  "(\<And>i. i < n \<Longrightarrow> m (p + of_nat i) = m' (q + of_nat i)) \<Longrightarrow> bytes_at m p n = bytes_at m' q n"
  by (rule nth_equalityI) (simp_all add: nth_bytes_at)

lemma cstr_simps [simp]:
  "cstr m p 0 = []"
  "cstr m p (Suc n) = (if m p \<noteq> 0 then m p # cstr m (p + 1) n else [])"
  by (simp_all add: cstr_def)

lemma length_cstr: "length (cstr m p n) \<le> n"
  unfolding cstr_def using length_takeWhile_le [of _ "bytes_at m p n"] by simp

lemma nat_eq_of_addr_eq:
  fixes a b :: addr
  assumes "a + of_nat i = b + of_nat j"
    and "unat a + i < 2 ^ 64" and "unat b + j < 2 ^ 64"
  shows "unat a + i = unat b + j"
proof -
  have "unat (a + of_nat i) = unat a + i" "unat (b + of_nat j) = unat b + j"
    using assms(2,3) by (simp_all add: unat_add_nowrap unat_of_nat_lt)
  with assms(1) show ?thesis by simp
qed

lemma unat_ucast_len: "unat (ucast (n :: 32 word) :: addr) = unat n"
  using unat_lt [of n] by (simp add: unsigned_ucast_eq take_bit_nat_eq_self)

lemma memset_closed:
  "memset m d c n = (\<lambda>a. if unat (a - d) < unat n then ucast c else m a)"
proof -
  have "unat n < 2 ^ 32" using unat_lt [of n] by simp
  then show ?thesis by (simp add: memset_def fill_closed)
qed

text \<open>
  C32. \<^verbatim>\<open>memmove\<close> is a correct overlapping copy: whatever the overlap of source and
  destination, afterwards each byte of the destination is the byte the source held
  before the call, and no other byte of memory changes. (The buffers must not run past
  the end of the address space; the source must end before its very last byte, since
  \<^verbatim>\<open>s + n\<close> is computed in 64 bits.)
\<close>

theorem memmove_correct:
  assumes dst: "unat dst + unat n \<le> 2 ^ 64" and src: "unat src + unat n < 2 ^ 64"
  shows "memmove m dst src n =
    (\<lambda>a. if unat (a - dst) < unat n then m (src + (a - dst)) else m a)"
proof (cases "n = 0")
  case True
  then show ?thesis by (simp add: memmove_def)
next
  case n: False
  have len: "unat n \<le> 2 ^ 64" using dst by simp
  have se: "unat (src + ucast n) = unat src + unat n"
    using src by (simp add: unat_add_nowrap unat_ucast_len)
  show ?thesis
  proof (cases "src < dst \<and> src + ucast n > dst")
    case True
    have "src + ucast n - of_nat (Suc j) \<noteq> dst + ucast n - of_nat (Suc i)"
      if "i < j" "j < unat n" for i j
    proof
      assume eq: "src + ucast n - of_nat (Suc j) = dst + ucast n - of_nat (Suc i)"
      then have "src + of_nat (unat n - Suc j) = dst + of_nat (unat n - Suc i)"
        using that by (simp add: of_nat_diff algebra_simps)
      then have "unat src + (unat n - Suc j) = unat dst + (unat n - Suc i)"
        using that dst src by (intro nat_eq_of_addr_eq) auto
      with that True show False by (auto simp: word_less_nat_alt)
    qed
    then have "copy_down m (dst + ucast n) (src + ucast n) (unat n) =
      (\<lambda>a. if unat (a - dst) < unat n then m (src + (a - dst)) else m a)"
      using copy_down_closed [OF len, of "src + ucast n" "dst + ucast n" m]
      by (simp cong: if_cong)
    with n True show ?thesis by (simp add: memmove_def)
  next
    case False
    have "dst + of_nat i \<noteq> src + of_nat j" if "i < j" "j < unat n" for i j
    proof
      assume "dst + of_nat i = src + of_nat j"
      then have "unat dst + i = unat src + j"
        using that dst src by (intro nat_eq_of_addr_eq) auto
      with that False se show False by (auto simp: word_less_nat_alt)
    qed
    then have "copy_up m dst src (unat n) =
      (\<lambda>a. if unat (a - dst) < unat n then m (src + (a - dst)) else m a)"
      using len by (intro copy_up_closed)
    with n False show ?thesis unfolding memmove_def by argo
  qed
qed

theorem memmove_correct_witness:
  "memmove (\<lambda>a. ucast a) 102 100 4 104 = 102 \<and> memmove (\<lambda>a. ucast a) 102 100 4 107 = 107"
  by (subst (1 2) memmove_correct) simp_all


lemma memcmp_loop_zero_iff:
  "memcmp_loop m p q n = 0 \<longleftrightarrow> bytes_at m p n = bytes_at m q n"
  by (induction n arbitrary: p q) (auto simp: uint_eq_iff)

lemma strncmp_loop_zero_iff: "strncmp_loop m p q n = 0 \<longleftrightarrow> cstr m p n = cstr m q n"
  by (induction n arbitrary: p q) (auto simp: uint_eq_iff uint_0_iff split: if_splits)

lemma strncpy_pad_closed:
  "n \<le> 2 ^ 64 \<Longrightarrow> strncpy_pad m s n = (\<lambda>a. if unat (a - s) < n then 0 else m a)"
proof (induction n arbitrary: m s)
  case 0
  then show ?case by simp
next
  case (Suc n)
  then show ?case by (auto simp: fun_eq_iff unat_step_iff)
qed

lemma strncpy_loop_frame:
  "n \<le> 2 ^ 64 \<Longrightarrow> n \<le> unat (a - s) \<Longrightarrow> strncpy_loop m s t n a = m a"
proof (induction n arbitrary: m s t)
  case 0
  then show ?case by simp
next
  case (Suc n)
  then have "\<not> unat (a - s) < Suc n" by simp
  with Suc.prems(1) have ne: "a \<noteq> s" and le: "n \<le> unat (a - (s + 1))"
    by (auto simp: unat_step_iff)
  with Suc.prems(1) Suc.IH [OF _ le] show ?case
    by (simp add: Let_def strncpy_pad_closed)
qed

lemma strncpy_loop_bytes:
  assumes "n \<le> 2 ^ 64"
    and "\<And>i j. i < n \<Longrightarrow> j < n \<Longrightarrow> s + of_nat i \<noteq> t + of_nat j"
  shows "bytes_at (strncpy_loop m s t n) s n =
    cstr m t n @ replicate (n - length (cstr m t n)) 0"
  using assms
proof (induction n arbitrary: m s t)
  case 0
  then show ?case by simp
next
  case (Suc n)
  let ?m = "m(s := m t)"
  have sep: "s + 1 + of_nat i \<noteq> t + 1 + of_nat j" if "i < n" "j < n" for i j
    using Suc.prems(2) [of "Suc i" "Suc j"] that by (simp add: algebra_simps)
  have src: "t + 1 + of_nat j \<noteq> s" if "j < n" for j
    using Suc.prems(2) [of 0 "Suc j"] that by (auto simp: algebra_simps)
  have far: "n \<le> unat (s - (s + 1))"
    using Suc.prems(1) by (simp add: unat_m1)
  have same: "cstr ?m (t + 1) n = cstr m (t + 1) n"
    unfolding cstr_def using src by (intro arg_cong2 [where f = takeWhile] refl bytes_at_cong) auto
  show ?case
  proof (cases "m t = 0")
    case True
    have "bytes_at (strncpy_pad ?m (s + 1) n) (s + 1) n = replicate n 0"
      using Suc.prems(1)
      by (intro nth_equalityI) (simp_all add: nth_bytes_at strncpy_pad_closed unat_of_nat_lt)
    with True Suc.prems(1) far show ?thesis
      by (simp add: Let_def strncpy_pad_closed)
  next
    case False
    have "bytes_at (strncpy_loop ?m (s + 1) (t + 1) n) (s + 1) n =
        cstr ?m (t + 1) n @ replicate (n - length (cstr ?m (t + 1) n)) 0"
      using Suc.prems(1) sep by (intro Suc.IH) auto
    moreover have "strncpy_loop ?m (s + 1) (t + 1) n s = ?m s"
      using Suc.prems(1) far by (intro strncpy_loop_frame) auto
    ultimately show ?thesis using False same by (simp add: Let_def)
  qed
qed

lemma cstr_zero_free: "b \<in> set (cstr m p n) \<Longrightarrow> b \<noteq> 0"
  by (auto simp: cstr_def dest: set_takeWhileD)

lemma takeWhile_cstr [simp]:
  "takeWhile (\<lambda>b. b \<noteq> 0) (cstr m p n @ replicate k 0) = cstr m p n"
  by (cases k) (auto simp: takeWhile_append dest: cstr_zero_free)

lemma nat_sint_nonneg: "0 \<le> sint (n :: 32 word) \<Longrightarrow> nat (sint n) = unat n"
  using sint_lt [of n] by (simp add: unat_eq_nat_uint uint_sint take_bit_int_eq_self)

lemma bytes_disjoint_cong:
  assumes "\<And>i j. i < n \<Longrightarrow> j < n \<Longrightarrow> s + of_nat i \<noteq> t + of_nat j"
    and "\<And>a. n \<le> unat (a - s) \<Longrightarrow> m' a = m a"
  shows "bytes_at m' t n = bytes_at m t n"
proof (rule bytes_at_cong)
  fix j assume j: "j < n"
  have "\<not> unat (t + of_nat j - s) < n"
  proof
    assume i: "unat (t + of_nat j - s) < n"
    have "s + of_nat (unat (t + of_nat j - s)) = t + of_nat j" by simp
    with assms(1) [OF i j] show False by simp
  qed
  then show "m' (t + of_nat j) = m (t + of_nat j)" using assms(2) by simp
qed

text \<open>
  \<^verbatim>\<open>strncpy\<close> into an \<open>n\<close>-byte field that does not overlap the source stores the source
  string cut at \<open>n\<close> bytes and padded with NULs to exactly \<open>n\<close> bytes, changes nothing
  outside the field, and \<^verbatim>\<open>strncmp\<close> then finds the field equal to the source: the
  contract directory entries rely on (\<^verbatim>\<open>dirlink\<close> copies a name, \<^verbatim>\<open>namecmp\<close> compares it).
\<close>

theorem strncpy_strncmp:
  assumes n: "0 \<le> sint n"
    and sep: "\<And>i j. i < unat n \<Longrightarrow> j < unat n \<Longrightarrow> s + of_nat i \<noteq> t + of_nat j"
  shows "bytes_at (strncpy m s t n) s (unat n) =
      cstr m t (unat n) @ replicate (unat n - length (cstr m t (unat n))) 0
    \<and> strncmp (strncpy m s t n) s t n = 0
    \<and> (\<forall>a. unat n \<le> unat (a - s) \<longrightarrow> strncpy m s t n a = m a)"
proof (intro conjI allI impI)
  have len: "unat n \<le> 2 ^ 64" using unat_lt [of n] by simp
  have frame: "strncpy m s t n a = m a" if "unat n \<le> unat (a - s)" for a
    using that len n by (simp add: strncpy_def nat_sint_nonneg strncpy_loop_frame)
  show bytes: "bytes_at (strncpy m s t n) s (unat n) =
      cstr m t (unat n) @ replicate (unat n - length (cstr m t (unat n))) 0"
    using n len sep by (simp add: strncpy_def nat_sint_nonneg strncpy_loop_bytes)
  have "bytes_at (strncpy m s t n) t (unat n) = bytes_at m t (unat n)"
    using sep frame by (rule bytes_disjoint_cong)
  then have "cstr (strncpy m s t n) t (unat n) = cstr m t (unat n)"
    by (simp add: cstr_def)
  moreover have "cstr (strncpy m s t n) s (unat n) = cstr m t (unat n)"
    using bytes by (simp add: cstr_def [of "strncpy m s t n"])
  ultimately show "strncmp (strncpy m s t n) s t n = 0"
    by (simp add: strncmp_def strncmp_loop_zero_iff)
  show "strncpy m s t n a = m a" if "unat n \<le> unat (a - s)" for a
    using that by (rule frame)
qed

theorem strncpy_strncmp_witness:
  "strncmp (strncpy ((\<lambda>_. 7)(101 := 0)) 200 100 14) 200 100 14 = 0"
proof (rule strncpy_strncmp [THEN conjunct2, THEN conjunct1])
  show "0 \<le> sint (14 :: 32 word)" by simp
  fix i j assume "i < unat (14 :: 32 word)" "j < unat (14 :: 32 word)"
  then show "(200 :: addr) + of_nat i \<noteq> 100 + of_nat j"
    using nat_eq_of_addr_eq [of 200 i 100 j] by auto
qed

lemma safestrcpy_loop_frame:
  "Suc n \<le> 2 ^ 64 \<Longrightarrow> n < unat (a - s) \<Longrightarrow> safestrcpy_loop m s t n a = m a"
proof (induction n arbitrary: m s t)
  case 0
  then show ?case by (auto simp: fun_upd_apply)
next
  case (Suc n)
  then have "\<not> unat (a - s) < Suc (Suc n)" by simp
  with Suc.prems(1) have ne: "a \<noteq> s" and "\<not> unat (a - (s + 1)) < Suc n"
    by (auto simp only: unat_step_iff [of "Suc n"])
  then have lt: "n < unat (a - (s + 1))" by simp
  then have "a \<noteq> s + 1" by auto
  with Suc.prems(1) ne Suc.IH [OF _ lt] show ?case
    by (simp add: Let_def)
qed

lemma safestrcpy_loop_cstr:
  assumes "Suc n < 2 ^ 64"
    and "\<And>i j. i \<le> n \<Longrightarrow> j \<le> n \<Longrightarrow> s + of_nat i \<noteq> t + of_nat j"
  shows "cstr (safestrcpy_loop m s t n) s (Suc n) = cstr m t n"
  using assms
proof (induction n arbitrary: m s t)
  case 0
  then show ?case by simp
next
  case (Suc n)
  let ?m = "m(s := m t)"
  have sep: "s + 1 + of_nat i \<noteq> t + 1 + of_nat j" if "i \<le> n" "j \<le> n" for i j
    using Suc.prems(2) [of "Suc i" "Suc j"] that by (simp add: algebra_simps)
  have src: "t + 1 + of_nat j \<noteq> s" if "j \<le> n" for j
    using Suc.prems(2) [of 0 "Suc j"] that by (auto simp: algebra_simps)
  have same: "cstr ?m (t + 1) n = cstr m (t + 1) n"
    unfolding cstr_def using src by (intro arg_cong2 [where f = takeWhile] refl bytes_at_cong) auto
  have far: "n < unat (s - (s + 1))"
    using Suc.prems(1) by (simp add: unat_m1)
  show ?case
  proof (cases "m t = 0")
    case True
    then show ?thesis by (simp add: Let_def)
  next
    case False
    have "cstr (safestrcpy_loop ?m (s + 1) (t + 1) n) (s + 1) (Suc n) = cstr ?m (t + 1) n"
      using Suc.prems(1) sep by (intro Suc.IH) auto
    moreover have "safestrcpy_loop ?m (s + 1) (t + 1) n s = ?m s"
      using Suc.prems(1) far by (intro safestrcpy_loop_frame) auto
    ultimately show ?thesis using False same
      by (simp add: Let_def del: cstr_simps(2) add: cstr_simps(2) [of _ s] cstr_simps(2) [of m t])
  qed
qed

text \<open>
  \<^verbatim>\<open>safestrcpy\<close> into an \<open>n\<close>-byte buffer (\<open>n > 0\<close>) always leaves a NUL-terminated string
  there: the longest prefix of the source that leaves room for the NUL. It writes at most
  the \<open>n\<close> bytes of the buffer.
\<close>

theorem safestrcpy_terminates_string:
  assumes n: "0 < sint n"
    and sep: "\<And>i j. i < unat n \<Longrightarrow> j < unat n \<Longrightarrow> s + of_nat i \<noteq> t + of_nat j"
  shows "cstr (safestrcpy m s t n) s (unat n) = cstr m t (unat n - 1)
    \<and> length (cstr (safestrcpy m s t n) s (unat n)) < unat n
    \<and> (\<forall>a. unat n \<le> unat (a - s) \<longrightarrow> safestrcpy m s t n a = m a)"
proof (intro conjI allI impI)
  have k: "nat (sint n) = unat n" using n by (simp add: nat_sint_nonneg)
  then obtain k where k: "unat n = Suc k" "nat (sint n - 1) = k"
    using n by (cases "unat n") auto
  have len: "Suc k < 2 ^ 64" using unat_lt [of n] k(1) by simp
  show eq: "cstr (safestrcpy m s t n) s (unat n) = cstr m t (unat n - 1)"
    using n k len sep safestrcpy_loop_cstr [of k s t m]
    by (simp add: safestrcpy_def del: cstr_simps)
  show "length (cstr (safestrcpy m s t n) s (unat n)) < unat n"
    unfolding eq using length_cstr [of m t "unat n - 1"] k(1) by simp
  show "safestrcpy m s t n a = m a" if "unat n \<le> unat (a - s)" for a
    using that n k len by (simp add: safestrcpy_def safestrcpy_loop_frame)
qed

theorem safestrcpy_witness:
  "length (cstr (safestrcpy (\<lambda>_. 7) 200 100 16) 200 (unat (16 :: 32 word))) < unat (16 :: 32 word)"
proof (rule safestrcpy_terminates_string [THEN conjunct2, THEN conjunct1])
  show "0 < sint (16 :: 32 word)" by simp
  fix i j assume "i < unat (16 :: 32 word)" "j < unat (16 :: 32 word)"
  then show "(200 :: addr) + of_nat i \<noteq> 100 + of_nat j"
    using nat_eq_of_addr_eq [of 200 i 100 j] by auto
qed

text \<open>\<^verbatim>\<open>strlen\<close> returns, and counts the bytes before the first NUL, when there is one.\<close>

lemma strlen_from_step:
  "m (s + of_nat n) \<noteq> 0 \<Longrightarrow> strlen_from m s n = strlen_from m s (Suc n)"
  "m (s + of_nat n) = 0 \<Longrightarrow> strlen_from m s n = Some n"
  by (simp_all add: strlen_from.simps [of m s n])

lemma strlen_Some:
  assumes "m (s + of_nat k) = 0" and "\<And>i. i < k \<Longrightarrow> m (s + of_nat i) \<noteq> 0"
  shows "strlen m s = Some k"
proof -
  have "strlen_from m s (k - j) = Some k" if "j \<le> k" for j
    using that
  proof (induction j)
    case 0
    with assms(1) show ?case by (simp add: strlen_from_step)
  next
    case (Suc j)
    then have "k - Suc j < k" "Suc (k - Suc j) = k - j" by auto
    with Suc assms(2) [of "k - Suc j"] show ?case by (simp add: strlen_from_step)
  qed
  from this [of k] show ?thesis by (simp add: strlen_def)
qed

end
