(* ===== verification/Phys_Mem.thy ===== *)
theory Phys_Mem
  imports Kstring
begin

text \<open>
  Physical memory as the kernel sees it: byte memory with 64-bit little-endian loads and
  stores, the page-size macros of \<^verbatim>\<open>kernel/riscv.h\<close> and the layout constants of
  \<^verbatim>\<open>kernel/memlayout.h\<close>. The state record \<open>phys\<close> is the bottom of the chain of records
  the components extend.
\<close>

record phys =
  mem :: memory

abbreviation PGSIZE :: "'a::numeral" where "PGSIZE \<equiv> 4096"
abbreviation KERNBASE :: addr where "KERNBASE \<equiv> 0x80000000"
abbreviation PHYSTOP :: addr where "PHYSTOP \<equiv> 0x88000000"

definition PGROUNDUP :: "addr \<Rightarrow> addr" where
  "PGROUNDUP sz = (sz + PGSIZE - 1) AND NOT (PGSIZE - 1)"

definition PGROUNDDOWN :: "addr \<Rightarrow> addr" where
  "PGROUNDDOWN a = a AND NOT (PGSIZE - 1)"

definition load64 :: "memory \<Rightarrow> addr \<Rightarrow> 64 word" where
  "load64 m a = le_get 8 (\<lambda>i. m (a + of_nat i))"

definition store64 :: "memory \<Rightarrow> addr \<Rightarrow> 64 word \<Rightarrow> memory" where
  "store64 m a v = (\<lambda>x. if unat (x - a) < 8 then byte_of v (unat (x - a)) else m x)"

section \<open>Loads and stores\<close>

lemma load64_store64_same [simp]: "load64 (store64 m a v) a = v"
  unfolding load64_def by (rule le_get_byte_of_eq) (simp_all add: store64_def unat_of_nat_lt)

lemma load64_cong: "(\<And>x. unat (x - a) < 8 \<Longrightarrow> m x = m' x) \<Longrightarrow> load64 m a = load64 m' a"
  unfolding load64_def by (rule le_get_cong) (simp add: unat_of_nat_lt)

lemma load64_zero: "(\<And>x. unat (x - a) < 8 \<Longrightarrow> m x = 0) \<Longrightarrow> load64 m a = 0"
  unfolding load64_def by (rule le_get_zero) (simp add: unat_of_nat_lt)

lemma dvd_less_add_le:
  fixes d x y :: nat
  assumes "d dvd x" "d dvd y" "x < y"
  shows "x + d \<le> y"
proof -
  have "d dvd y - x" and "0 < y - x" using assms by (simp_all add: dvd_diff_nat)
  then have "d \<le> y - x" by (rule dvd_imp_le)
  with assms(3) show ?thesis by simp
qed

lemma div_same_block:
  fixes a d x :: nat
  assumes "a \<le> x" "x < a + d" "a mod d = 0"
  shows "x div d = a div d"
proof -
  obtain k where "a = d * k" using assms(3) by (auto simp: mod_eq_0_iff_dvd)
  moreover obtain j where "x = a + j" "j < d" using assms(1,2) by (metis le_iff_add add_less_cancel_left)
  ultimately show ?thesis by simp
qed

definition aligned8 :: "addr \<Rightarrow> bool" where
  "aligned8 a \<longleftrightarrow> unat a mod 8 = 0"

lemma unat_sub_dvd:
  fixes a b :: addr
  assumes "d dvd 2 ^ 64" and "d dvd unat a" and "d dvd unat b"
  shows "d dvd unat (a - b)"
  using assms by (auto simp: unat_sub_if' dvd_diff_nat)

lemma aligned8_diff: "aligned8 a \<Longrightarrow> aligned8 b \<Longrightarrow> a \<noteq> b \<Longrightarrow> 8 \<le> unat (a - b)"
proof -
  assume "aligned8 a" "aligned8 b" and ne: "a \<noteq> b"
  then have "8 dvd unat (a - b)"
    by (intro unat_sub_dvd) (auto simp: aligned8_def)
  moreover have "unat (a - b) \<noteq> 0" using ne by (simp add: unat_eq_zero)
  ultimately show ?thesis by (auto dest: dvd_imp_le)
qed

lemma range8_disjoint:
  assumes "aligned8 a" "aligned8 b" "a \<noteq> b" and "unat (x - b) < 8"
  shows "\<not> unat (x - a) < 8"
proof
  assume x: "unat (x - a) < 8"
  have "unat (a - b) < 8 \<or> unat (b - a) < 8"
  proof (cases "x - a \<le> x - b")
    case True
    then have "unat ((x - b) - (x - a)) = unat (x - b) - unat (x - a)" by (rule unat_sub)
    then show ?thesis using assms(4) by (simp add: less_imp_diff_less)
  next
    case False
    then have "unat ((x - a) - (x - b)) = unat (x - a) - unat (x - b)" by (intro unat_sub) simp
    then show ?thesis using x by (simp add: less_imp_diff_less)
  qed
  then show False using assms aligned8_diff [of a b] aligned8_diff [of b a] by auto
qed

lemma load64_store64_other:
  "aligned8 a \<Longrightarrow> aligned8 b \<Longrightarrow> a \<noteq> b \<Longrightarrow> load64 (store64 m a v) b = load64 m b"
  by (rule load64_cong) (simp add: store64_def range8_disjoint)

section \<open>Pages\<close>

lemma and_not_4095: "(a :: addr) AND - 4096 = push_bit 12 (drop_bit 12 a)"
proof -
  have "a AND NOT (mask 12) = push_bit 12 (drop_bit 12 a)"
    by (rule bit_word_eqI) (auto simp: bit_simps)
  then show ?thesis by (simp add: mask_eq_exp_minus_1)
qed

lemma unat_PGROUNDDOWN: "unat (PGROUNDDOWN a) = unat a div 4096 * 4096"
proof -
  have "unat a div 4096 * 4096 < 2 ^ 64"
    using unat_lt [of a] div_times_less_eq_dividend [of "unat a" 4096] by (simp del: unat_lt)
  then show ?thesis
    by (simp add: PGROUNDDOWN_def and_not_4095 push_bit_eq_mult drop_bit_eq_div
        unat_word_ariths unat_div)
qed

definition page_aligned :: "addr \<Rightarrow> bool" where
  "page_aligned p \<longleftrightarrow> unat p mod 4096 = 0"

lemma page_aligned_iff_mod: "page_aligned p \<longleftrightarrow> p mod PGSIZE = 0"
  by (simp add: page_aligned_def word_unat_eq_iff unat_mod)

lemma page_aligned_PGROUNDDOWN [simp]: "page_aligned (PGROUNDDOWN a)"
  by (simp add: page_aligned_def unat_PGROUNDDOWN)

lemma unat_page_nowrap: "page_aligned p \<Longrightarrow> unat p + 4096 \<le> 2 ^ 64"
  using unat_lt [of p] dvd_less_add_le [of 4096 "unat p" "2 ^ 64"]
  by (simp add: page_aligned_def dvd_eq_mod_eq_0)

text \<open>An address lies in the page of an aligned \<open>p\<close> exactly when rounding it down gives \<open>p\<close>.\<close>

lemma in_page_iff:
  assumes "page_aligned p"
  shows "unat (a - p) < 4096 \<longleftrightarrow> PGROUNDDOWN a = p"
proof -
  have "unat (a - p) < 4096 \<longleftrightarrow> unat p \<le> unat a \<and> unat a < unat p + 4096"
    by (rule word_diff_lt_iff) (use unat_page_nowrap [OF assms] in simp)
  also have "\<dots> \<longleftrightarrow> unat a div 4096 * 4096 = unat p"
    using assms by (auto simp: page_aligned_def)
  finally show ?thesis by (simp add: word_unat_eq_iff unat_PGROUNDDOWN)
qed

lemma PGROUNDDOWN_aligned [simp]: "page_aligned p \<Longrightarrow> PGROUNDDOWN p = p"
  using in_page_iff [of p p] by simp

lemma page_offset:
  assumes "page_aligned p" and "k < 4096"
  shows "PGROUNDDOWN (p + of_nat k) = p" and "unat (p + of_nat k) = unat p + k"
proof -
  have "unat (p + of_nat k - p) = k" using assms(2) by (simp add: unat_of_nat_lt)
  then show "PGROUNDDOWN (p + of_nat k) = p"
    using assms in_page_iff [of p "p + of_nat k"] by simp
  show "unat (p + of_nat k) = unat p + k"
    using assms unat_page_nowrap [OF assms(1)] by (simp add: unat_add_nowrap unat_of_nat_lt)
qed

lemma aligned8_page: "page_aligned p \<Longrightarrow> aligned8 p"
  by (auto simp: page_aligned_def aligned8_def)

lemma aligned8_entry: "page_aligned p \<Longrightarrow> i < 512 \<Longrightarrow> aligned8 (p + of_nat (8 * i))"
  using page_offset(2) [of p "8 * i"] by (auto simp: page_aligned_def aligned8_def)

lemma word8_in_page:
  assumes "aligned8 a" and "unat (x - a) < 8"
  shows "PGROUNDDOWN x = PGROUNDDOWN a"
proof -
  have "unat a + 8 \<le> 2 ^ 64"
    using assms(1) unat_lt [of a] dvd_less_add_le [of 8 "unat a" "2 ^ 64"]
    by (simp add: aligned8_def dvd_eq_mod_eq_0)
  then have "unat a \<le> unat x" "unat x < unat a + 8"
    using assms(2) word_diff_lt_iff [of a 8 x] by simp_all
  moreover have "unat a mod 8 = 0" using assms(1) by (simp add: aligned8_def)
  ultimately have "unat x div 8 = unat a div 8" by (rule div_same_block)
  then have "unat x div (8 * 512) = unat a div (8 * 512)" by (simp only: div_mult2_eq)
  then have "unat (PGROUNDDOWN x) = unat (PGROUNDDOWN a)" by (simp add: unat_PGROUNDDOWN)
  then show ?thesis by (rule word_unat_eq_iff [THEN iffD2])
qed

lemma unat_PGROUNDUP:
  assumes "unat a + 4095 < 2 ^ 64"
  shows "unat (PGROUNDUP a) = (unat a + 4095) div 4096 * 4096"
proof -
  have "PGROUNDUP a = PGROUNDDOWN (a + 4095)"
    by (simp add: PGROUNDUP_def PGROUNDDOWN_def algebra_simps)
  moreover have "unat (a + 4095) = unat a + 4095"
    using assms unat_add_nowrap [of a 4095] by simp
  ultimately show ?thesis by (simp add: unat_PGROUNDDOWN)
qed

lemma page_aligned_PGROUNDUP [simp]: "page_aligned (PGROUNDUP a)"
proof -
  have "PGROUNDUP a = PGROUNDDOWN (a + 4095)"
    by (simp add: PGROUNDUP_def PGROUNDDOWN_def algebra_simps)
  then show ?thesis by simp
qed

text \<open>Two memories that agree on a page agree on the words it holds.\<close>

definition same_page :: "memory \<Rightarrow> memory \<Rightarrow> addr \<Rightarrow> bool" where
  "same_page m m' p \<longleftrightarrow> (\<forall>a. PGROUNDDOWN a = p \<longrightarrow> m a = m' a)"

lemma same_page_refl [simp]: "same_page m m p"
  by (simp add: same_page_def)

lemma same_page_trans: "same_page m m' p \<Longrightarrow> same_page m' m'' p \<Longrightarrow> same_page m m'' p"
  by (simp add: same_page_def)

lemma load64_same_page:
  "same_page m m' (PGROUNDDOWN a) \<Longrightarrow> aligned8 a \<Longrightarrow> load64 m a = load64 m' a"
  by (rule load64_cong) (auto simp: same_page_def dest: word8_in_page)

lemma memset_page: 
  "page_aligned p \<Longrightarrow>
   memset m p c PGSIZE = (\<lambda>a. if PGROUNDDOWN a = p then ucast c else m a)"
  by (simp add: memset_closed in_page_iff)

lemma same_page_memset: "page_aligned p \<Longrightarrow> p \<noteq> q \<Longrightarrow> same_page m (memset m p c PGSIZE) q"
  by (auto simp: same_page_def memset_page)

lemma same_page_store64:
  "aligned8 a \<Longrightarrow> PGROUNDDOWN a \<noteq> q \<Longrightarrow> same_page m (store64 m a v) q"
  by (auto simp: same_page_def store64_def dest: word8_in_page)

end
