(* ===== verification/Kalloc.thy ===== *)
theory Kalloc
  imports Phys_Mem
begin

text \<open>
  \<^verbatim>\<open>kernel/kalloc.c\<close>: the physical page allocator. The free list is threaded through the
  free pages themselves (\<^verbatim>\<open>struct run\<close> is the first word of a free page), so the model
  keeps it in memory: \<open>freelist\<close> is the head pointer and each link is a 64-bit load.
  \<open>kend\<close> is the linker symbol \<^verbatim>\<open>end\<close>. The critical sections under \<^verbatim>\<open>kmem.lock\<close> are atomic.
\<close>

record kmem_st = phys +
  freelist :: addr
  kend :: addr

section \<open>Operations\<close>

definition kfree :: "addr \<Rightarrow> ('z kmem_st_scheme, unit) km" where
  "kfree pa = bnd get (\<lambda>s.
     if pa mod PGSIZE \<noteq> 0 \<or> pa < kend s \<or> pa \<ge> PHYSTOP then panic ''kfree''
     else bnd (modify (\<lambda>s. s\<lparr>mem := memset (mem s) pa 1 PGSIZE\<rparr>)) (\<lambda>_.
          bnd (modify (\<lambda>s. s\<lparr>mem := store64 (mem s) pa (freelist s)\<rparr>)) (\<lambda>_.
          modify (\<lambda>s. s\<lparr>freelist := pa\<rparr>))))"

definition kalloc :: "('z kmem_st_scheme, addr) km" where
  "kalloc = bnd get (\<lambda>s.
     let r = freelist s in
     bnd (if r \<noteq> 0 then modify (\<lambda>s. s\<lparr>freelist := load64 (mem s) r\<rparr>) else skip) (\<lambda>_.
     bnd (if r \<noteq> 0 then modify (\<lambda>s. s\<lparr>mem := memset (mem s) r 5 PGSIZE\<rparr>) else skip) (\<lambda>_.
     ret r)))"

text \<open>The loop of \<^verbatim>\<open>freerange\<close>; the fuel bounds the number of pages below \<open>pa_end\<close>.\<close>

primrec freerange_loop :: "nat \<Rightarrow> addr \<Rightarrow> addr \<Rightarrow> ('z kmem_st_scheme, unit) km" where
  "freerange_loop 0 p pa_end = stop_with Diverge"
| "freerange_loop (Suc fuel) p pa_end =
     (if p + PGSIZE \<le> pa_end
      then bnd (kfree p) (\<lambda>_. freerange_loop fuel (p + PGSIZE) pa_end)
      else skip)"

definition freerange :: "addr \<Rightarrow> addr \<Rightarrow> ('z kmem_st_scheme, unit) km" where
  "freerange pa_start pa_end =
     freerange_loop (Suc (unat pa_end div PGSIZE)) (PGROUNDUP pa_start) pa_end"

definition kinit :: "('z kmem_st_scheme, unit) km" where
  "kinit = bnd get (\<lambda>s. freerange (kend s) PHYSTOP)"

section \<open>The free list in memory\<close>

primrec flist :: "memory \<Rightarrow> addr \<Rightarrow> addr list \<Rightarrow> bool" where
  "flist m p [] \<longleftrightarrow> p = 0"
| "flist m p (a # as) \<longleftrightarrow> p = a \<and> p \<noteq> 0 \<and> flist m (load64 m a) as"

definition page_ok :: "'z kmem_st_scheme \<Rightarrow> addr \<Rightarrow> bool" where
  "page_ok s p \<longleftrightarrow> page_aligned p \<and> kend s \<le> p \<and> p < PHYSTOP \<and> p \<noteq> 0"

definition free_pages :: "'z kmem_st_scheme \<Rightarrow> addr list \<Rightarrow> bool" where
  "free_pages s ps \<longleftrightarrow>
     flist (mem s) (freelist s) ps \<and> distinct ps \<and> (\<forall>p\<in>set ps. page_ok s p)"

lemma page_ok_cong: "kend t = kend s \<Longrightarrow> page_ok t = page_ok s"
  by (simp add: page_ok_def fun_eq_iff)

lemma flist_cong:
  "flist m p ps \<Longrightarrow> \<forall>q\<in>set ps. page_aligned q \<and> same_page m m' q \<Longrightarrow> flist m' p ps"
proof (induction ps arbitrary: p)
  case Nil
  then show ?case by simp
next
  case (Cons a ps)
  then have "load64 m a = load64 m' a"
    by (intro load64_same_page) (auto simp: aligned8_page)
  with Cons show ?case by auto
qed

lemma flist_unique: "flist m p ps \<Longrightarrow> flist m p qs \<Longrightarrow> ps = qs"
proof (induction ps arbitrary: p qs)
  case Nil
  then show ?case by (cases qs) auto
next
  case (Cons a ps)
  then show ?case by (cases qs) auto
qed

lemma kfree_run:
  assumes "page_ok s pa"
  shows "kfree pa s = Inr ((), s\<lparr>mem := store64 (memset (mem s) pa 1 PGSIZE) pa (freelist s),
                                 freelist := pa\<rparr>)"
  using assms by (simp add: kfree_def page_ok_def page_aligned_iff_mod run_simps not_le not_less)

lemma kalloc_run:
  "kalloc s = (if freelist s = 0 then Inr (0, s)
     else Inr (freelist s, s\<lparr>freelist := load64 (mem s) (freelist s),
                             mem := memset (mem s) (freelist s) 5 PGSIZE\<rparr>))"
  by (simp add: kalloc_def Let_def run_simps)

lemma kfree_free_pages:
  assumes fp: "free_pages s ps" and ok: "page_ok s pa" and new: "pa \<notin> set ps"
  obtains t where "kfree pa s = Inr ((), t)" and "free_pages t (pa # ps)"
    and "kend t = kend s" and "\<And>q. q \<noteq> pa \<Longrightarrow> same_page (mem s) (mem t) q"
proof -
  let ?m = "store64 (memset (mem s) pa 1 PGSIZE) pa (freelist s)"
  let ?t = "s\<lparr>mem := ?m, freelist := pa\<rparr>"
  have al: "page_aligned pa" using ok by (simp add: page_ok_def)
  have frame: "same_page (mem s) ?m q" if "q \<noteq> pa" for q
    using that al aligned8_page [OF al]
    by (intro same_page_trans [OF same_page_memset same_page_store64]) auto
  have "flist (mem s) (freelist s) ps" and "\<forall>q\<in>set ps. page_aligned q \<and> q \<noteq> pa"
    using fp new by (auto simp: free_pages_def page_ok_def)
  then have "flist ?m (freelist s) ps"
    using frame by (blast intro: flist_cong)
  then have "free_pages ?t (pa # ps)"
    using fp ok new by (auto simp: free_pages_def page_ok_def)
  moreover have "kfree pa s = Inr ((), ?t)" using ok by (rule kfree_run)
  ultimately show ?thesis using frame by (intro that [of ?t]) simp_all
qed

lemma kalloc_free_pages:
  assumes fp: "free_pages s (p # ps)"
  obtains t where "kalloc s = Inr (p, t)" and "free_pages t ps"
    and "kend t = kend s" and "\<And>q. q \<noteq> p \<Longrightarrow> same_page (mem s) (mem t) q"
proof -
  let ?m = "memset (mem s) p 5 PGSIZE"
  let ?t = "s\<lparr>freelist := load64 (mem s) p, mem := ?m\<rparr>"
  have hd: "freelist s = p" "p \<noteq> 0" and al: "page_aligned p"
    using fp by (auto simp: free_pages_def page_ok_def)
  have frame: "same_page (mem s) ?m q" if "q \<noteq> p" for q
    using that al by (intro same_page_memset) auto
  have "flist (mem s) (load64 (mem s) p) ps"
    and "\<forall>q\<in>set ps. page_aligned q \<and> q \<noteq> p"
    using fp by (auto simp: free_pages_def page_ok_def)
  then have "flist ?m (load64 (mem s) p) ps"
    using frame by (blast intro: flist_cong)
  then have "free_pages ?t ps"
    using fp by (auto simp: free_pages_def page_ok_def)
  moreover have "kalloc s = Inr (p, ?t)" using hd by (simp add: kalloc_run)
  ultimately show ?thesis using frame by (intro that [of ?t]) simp_all
qed

text \<open>The allocator changes memory and the head of its list, nothing else of the state.\<close>

definition mem_only :: "'z kmem_st_scheme \<Rightarrow> 'z kmem_st_scheme \<Rightarrow> bool" where
  "mem_only s t \<longleftrightarrow> t = s\<lparr>mem := mem t, freelist := freelist t\<rparr>"

lemma mem_only_refl [simp]: "mem_only s s"
  by (simp add: mem_only_def)

lemma mem_only_trans: "mem_only s t \<Longrightarrow> mem_only t u \<Longrightarrow> mem_only s u"
  unfolding mem_only_def by (cases s, cases t, cases u) simp

lemma mem_only_mem [simp]: "mem_only s (s\<lparr>mem := m\<rparr>)"
  by (simp add: mem_only_def)

lemma mem_only_kend: "mem_only s t \<Longrightarrow> kend t = kend s"
  unfolding mem_only_def by (cases s, cases t) simp

lemma kalloc_mem_only: "kalloc s = Inr (r, t) \<Longrightarrow> mem_only s t"
  by (auto simp: kalloc_run mem_only_def split: if_splits)

lemma kfree_mem_only: "page_ok s p \<Longrightarrow> kfree p s = Inr (r, t) \<Longrightarrow> mem_only s t"
  by (auto simp: kfree_run mem_only_def)

lemma free_pages_frame:
  assumes "free_pages s ps" and "\<And>q. q \<in> set ps \<Longrightarrow> same_page (mem s) m q"
  shows "free_pages (s\<lparr>mem := m\<rparr>) ps"
proof -
  have "flist (mem s) (freelist s) ps" and "\<forall>q\<in>set ps. page_aligned q"
    using assms(1) by (auto simp: free_pages_def page_ok_def)
  then have "flist m (freelist s) ps"
    using assms(2) by (blast intro: flist_cong)
  with assms(1) show ?thesis by (auto simp: free_pages_def page_ok_def)
qed

lemma kalloc_empty: "free_pages s [] \<Longrightarrow> kalloc s = Inr (0, s)"
  by (simp add: free_pages_def kalloc_run)

section \<open>The allocator's contract\<close>

text \<open>
  What the page tables, the pipes and the process table rely on: an allocator hands out
  a free page and touches no byte outside it, a freed page is free again, and running out
  is reported by a null pointer.
\<close>

locale page_allocator =
  fixes alloc :: "('s, addr) km"
    and release_page :: "addr \<Rightarrow> ('s, unit) km"
    and avail :: "'s \<Rightarrow> addr list \<Rightarrow> bool"
    and bytes :: "'s \<Rightarrow> memory"
    and usable :: "'s \<Rightarrow> addr \<Rightarrow> bool"
  assumes alloc_some: "avail s (p # ps) \<Longrightarrow>
      \<exists>t. alloc s = Inr (p, t) \<and> avail t ps \<and> usable t = usable s \<and>
          (\<forall>q. q \<noteq> p \<longrightarrow> same_page (bytes s) (bytes t) q)"
    and alloc_none: "avail s [] \<Longrightarrow> alloc s = Inr (0, s)"
    and release_some: "avail s ps \<Longrightarrow> usable s p \<Longrightarrow> p \<notin> set ps \<Longrightarrow>
      \<exists>t. release_page p s = Inr ((), t) \<and> avail t (p # ps) \<and> usable t = usable s \<and>
          (\<forall>q. q \<noteq> p \<longrightarrow> same_page (bytes s) (bytes t) q)"
    and avail_usable: "avail s ps \<Longrightarrow> p \<in> set ps \<Longrightarrow> usable s p"
    and avail_distinct: "avail s ps \<Longrightarrow> distinct ps"
    and usable_page: "usable s p \<Longrightarrow> page_aligned p \<and> p \<noteq> 0"
begin

lemma alloc_returns:
  assumes "avail s ps"
  shows "wp alloc (\<lambda>r t. r = (case ps of [] \<Rightarrow> 0 | p # _ \<Rightarrow> p) \<and> avail t (tl ps) \<and> usable t = usable s) s"
proof (cases ps)
  case Nil
  with assms alloc_none show ?thesis by (simp add: wp_def)
next
  case (Cons p qs)
  with assms alloc_some [of s p qs] show ?thesis by (auto simp: wp_iff)
qed

text \<open>A page is not handed out twice before it is freed, and is usable.\<close>

lemma alloc_fresh:
  assumes "avail s (p # ps)"
  shows "\<exists>t. alloc s = Inr (p, t) \<and> avail t ps \<and> p \<notin> set ps \<and> usable t p"
  using alloc_some [OF assms] avail_distinct [OF assms] avail_usable [OF assms] by auto

text \<open>The allocator is a stack: the page freed last is the one allocated next.\<close>

lemma alloc_after_release:
  assumes "avail s ps" and "usable s p" and "p \<notin> set ps"
  shows "wp (bnd (release_page p) (\<lambda>_. alloc)) (\<lambda>r t. r = p \<and> avail t ps) s"
proof -
  obtain u where u: "release_page p s = Inr ((), u)" "avail u (p # ps)"
    using release_some [OF assms] by blast
  then obtain t where "alloc u = Inr (p, t)" "avail t ps"
    using alloc_some by blast
  with u show ?thesis by (simp add: wp_def bnd_def)
qed

end

interpretation km: page_allocator kalloc kfree free_pages mem page_ok
proof unfold_locales
  fix s :: "'a kmem_st_scheme" and p ps
  show "\<exists>t. kalloc s = Inr (p, t) \<and> free_pages t ps \<and> page_ok t = page_ok s \<and>
      (\<forall>q. q \<noteq> p \<longrightarrow> same_page (mem s) (mem t) q)" if "free_pages s (p # ps)"
    by (rule kalloc_free_pages [OF that]) (blast intro: page_ok_cong)
  show "\<exists>t. kfree p s = Inr ((), t) \<and> free_pages t (p # ps) \<and> page_ok t = page_ok s \<and>
      (\<forall>q. q \<noteq> p \<longrightarrow> same_page (mem s) (mem t) q)"
    if "free_pages s ps" "page_ok s p" "p \<notin> set ps"
    by (rule kfree_free_pages [OF that]) (blast intro: page_ok_cong)
qed (auto simp: free_pages_def page_ok_def kalloc_empty)

section \<open>Properties\<close>

text \<open>
  C26. Freeing a page and allocating again returns that page and restores the free list:
  \<^verbatim>\<open>kfree\<close> threads the page into the list through its own first word and \<^verbatim>\<open>kalloc\<close> reads
  it back, without a panic.
\<close>

theorem kfree_kalloc_roundtrip:
  assumes "free_pages s ps" and "page_ok s pa" and "pa \<notin> set ps"
  shows "wp (bnd (kfree pa) (\<lambda>_. kalloc)) (\<lambda>r t. r = pa \<and> free_pages t ps) s"
  using assms by (rule km.alloc_after_release)

definition boot_mem :: kmem_st where
  "boot_mem = \<lparr>mem = (\<lambda>_. 0), freelist = 0, kend = 0x80020000\<rparr>"

theorem kfree_kalloc_roundtrip_witness:
  "wp (bnd (kfree 0x80020000) (\<lambda>_. kalloc)) (\<lambda>r t. r = 0x80020000 \<and> free_pages t []) boot_mem"
  by (rule kfree_kalloc_roundtrip)
    (simp_all add: boot_mem_def free_pages_def page_ok_def page_aligned_def)


text \<open>The loop of \<^verbatim>\<open>freerange\<close> adds every page from \<open>p\<close> up to \<open>pa_end\<close>.\<close>

lemma freerange_loop_frees:
  assumes "free_pages s ps" and "set ps = {q. page_aligned q \<and> lo \<le> q \<and> q < p}"
    and "page_aligned p" and "page_aligned pa_end" and "lo \<le> p" and "p \<le> pa_end"
    and "kend s \<le> lo" and "0 < lo" and "pa_end \<le> PHYSTOP"
    and "(unat pa_end - unat p) div 4096 < fuel"
  shows "wp (freerange_loop fuel p pa_end)
    (\<lambda>_ t. kend t = kend s \<and>
       (\<exists>qs. free_pages t qs \<and> set qs = {q. page_aligned q \<and> lo \<le> q \<and> q < pa_end})) s"
  using assms
proof (induction fuel arbitrary: s ps p)
  case 0
  then show ?case by simp
next
  case (Suc fuel)
  note pre = Suc.prems
  have nowrap: "unat (p + 4096) = unat p + 4096" if "p < pa_end"
  proof -
    have "unat p + 4096 \<le> unat pa_end"
      using that pre(3,4) dvd_less_add_le [of 4096 "unat p" "unat pa_end"]
      by (simp add: page_aligned_def dvd_eq_mod_eq_0 word_less_nat_alt)
    then show ?thesis using unat_lt [of pa_end] unat_add_nowrap [of p 4096] by simp
  qed
  show ?case
  proof (cases "p < pa_end")
    case True
    have step: "unat p + 4096 \<le> unat pa_end"
      using True pre(3,4) dvd_less_add_le [of 4096 "unat p" "unat pa_end"]
      by (simp add: page_aligned_def dvd_eq_mod_eq_0 word_less_nat_alt)
    have ok: "page_ok s p"
      using pre(3,5,8) order_trans [OF pre(7,5)] less_le_trans [OF True pre(9)]
      by (auto simp: page_ok_def)
    have new: "p \<notin> set ps" using pre(2) by simp
    obtain t where t: "kfree p s = Inr ((), t)" "free_pages t (p # ps)" "kend t = kend s"
      using kfree_free_pages [OF pre(1) ok new] by metis
    have al: "page_aligned (p + 4096)"
      using pre(3) nowrap [OF True] by (simp add: page_aligned_def)
    have le: "p + 4096 \<le> pa_end" using step nowrap [OF True] by (simp add: word_le_nat_alt)
    have "q = p" if q: "page_aligned q" "q < p + 4096" "\<not> q < p" for q
    proof -
      have "unat (q - p) < 4096"
        using q nowrap [OF True] unat_page_nowrap [OF pre(3)]
        by (simp add: word_diff_lt_iff word_less_nat_alt)
      then have "PGROUNDDOWN q = p" using in_page_iff [OF pre(3)] by simp
      with q(1) show ?thesis by simp
    qed
    moreover have "p < p + 4096" using nowrap [OF True] by (simp add: word_less_nat_alt)
    ultimately have set: "set (p # ps) = {q. page_aligned q \<and> lo \<le> q \<and> q < p + 4096}"
      using pre(2,3,5) by (auto dest: less_trans)
    have "(unat pa_end - unat (p + 4096)) div 4096 < fuel"
      using pre(10) step nowrap [OF True] by (auto simp: le_div_geq)
    then have "wp (freerange_loop fuel (p + 4096) pa_end)
      (\<lambda>_ t'. kend t' = kend t \<and>
        (\<exists>qs. free_pages t' qs \<and> set qs = {q. page_aligned q \<and> lo \<le> q \<and> q < pa_end})) t"
      using t set al pre(4-9) le \<open>p < p + 4096\<close> by (intro Suc.IH [of t "p # ps"]) auto
    then show ?thesis using t le by (simp add: wp_def bnd_def)
  next
    case False
    then have "p = pa_end" using pre(6) by simp
    moreover have "\<not> pa_end + 4096 \<le> pa_end"
      using pre(9) unat_add_nowrap [of pa_end 4096] by (simp add: word_le_nat_alt)
    ultimately show ?thesis using pre(1,2) by (auto simp: wp_simps)
  qed
qed

text \<open>
  C25. After \<^verbatim>\<open>kinit\<close>, run with an empty free list, the free list holds exactly the whole
  pages between the end of the kernel image and \<^verbatim>\<open>PHYSTOP\<close>, each once; the boot does not
  panic and the loop ends.
\<close>

theorem kinit_frees_all_pages:
  assumes "freelist s = 0" and "0 < kend s" and "kend s \<le> PHYSTOP"
  shows "wp kinit (\<lambda>_ t. \<exists>ps. free_pages t ps \<and>
      set ps = {p. page_aligned p \<and> kend s \<le> p \<and> p < PHYSTOP}) s"
proof -
  let ?lo = "PGROUNDUP (kend s)"
  have e: "unat (kend s) \<le> unat PHYSTOP" "unat PHYSTOP = 0x88000000"
    using assms(3) by (simp_all add: word_le_nat_alt)
  then have lo: "unat ?lo = (unat (kend s) + 4095) div 4096 * 4096"
    by (intro unat_PGROUNDUP) simp
  have ge: "kend s \<le> ?lo" and le: "?lo \<le> PHYSTOP"
    using lo e by (simp_all add: word_le_nat_alt)
  have pos: "0 < ?lo" using ge assms(2) by simp
  have same: "?lo \<le> p \<longleftrightarrow> kend s \<le> p" if "page_aligned p" for p
  proof -
    have "unat p = unat p div 4096 * 4096" using that by (auto simp: page_aligned_def)
    then obtain k where k: "unat p = k * 4096" by metis
    have "(unat (kend s) + 4095) div 4096 < Suc k" if "unat (kend s) \<le> k * 4096"
      by (rule less_mult_imp_div_less) (use that in simp)
    with lo k ge show ?thesis by (auto simp: word_le_nat_alt)
  qed
  have "wp (freerange_loop (Suc (unat PHYSTOP div 4096)) ?lo PHYSTOP)
      (\<lambda>_ t. kend t = kend s \<and>
        (\<exists>qs. free_pages t qs \<and> set qs = {q. page_aligned q \<and> ?lo \<le> q \<and> q < PHYSTOP})) s"
    using assms(1) ge le pos e page_aligned_PGROUNDUP [of "kend s"]
    by (intro freerange_loop_frees [of s "[]"])
      (auto simp: free_pages_def page_aligned_def less_Suc_eq_le div_le_mono)
  then show ?thesis
    unfolding kinit_def freerange_def wp_bnd wp_get
    by (rule wp_mono) (use same in \<open>auto 4 4\<close>)
qed

theorem kinit_frees_all_pages_witness:
  "wp kinit (\<lambda>_ t. \<exists>ps. free_pages t ps \<and>
      set ps = {p. page_aligned p \<and> kend boot_mem \<le> p \<and> p < PHYSTOP}) boot_mem"
  by (rule kinit_frees_all_pages) (simp_all add: boot_mem_def)

end
