(* ===== verification/Vm.thy ===== *)
theory Vm
  imports Kalloc
begin

text \<open>
  \<^verbatim>\<open>kernel/vm.c\<close> (with \<^verbatim>\<open>proc_mapstacks\<close> of \<^verbatim>\<open>kernel/proc.c\<close>): Sv39 page tables held in
  physical memory, and the routines that copy between kernel and user memory. A page table
  is the address of its root page; page-table entries are 64-bit loads and stores. \<open>psz\<close>
  and \<open>ppagetable\<close> are the two fields of \<^verbatim>\<open>myproc()\<close> that \<^verbatim>\<open>vmfault\<close> reads. Console output is
  not part of the state.
\<close>

record vm_st = kmem_st +
  psz :: addr
  ppagetable :: addr

section \<open>Page-table entries (\<^verbatim>\<open>kernel/riscv.h\<close>, \<^verbatim>\<open>kernel/memlayout.h\<close>)\<close>

abbreviation PTE_V :: "64 word" where "PTE_V \<equiv> 1"
abbreviation PTE_R :: "64 word" where "PTE_R \<equiv> 2"
abbreviation PTE_W :: "64 word" where "PTE_W \<equiv> 4"
abbreviation PTE_X :: "64 word" where "PTE_X \<equiv> 8"
abbreviation PTE_U :: "64 word" where "PTE_U \<equiv> 16"
abbreviation MAXVA :: addr where "MAXVA \<equiv> 0x4000000000"
abbreviation TRAMPOLINE :: addr where "TRAMPOLINE \<equiv> MAXVA - PGSIZE"
abbreviation TRAPFRAME :: addr where "TRAPFRAME \<equiv> TRAMPOLINE - PGSIZE"
abbreviation UART0 :: addr where "UART0 \<equiv> 0x10000000"
abbreviation VIRTIO0 :: addr where "VIRTIO0 \<equiv> 0x10001000"
abbreviation PLIC :: addr where "PLIC \<equiv> 0x0c000000"
abbreviation NPROC :: nat where "NPROC \<equiv> 64"

definition PA2PTE :: "addr \<Rightarrow> 64 word" where
  "PA2PTE pa = push_bit 10 (drop_bit 12 pa)"

definition PTE2PA :: "64 word \<Rightarrow> addr" where
  "PTE2PA pte = push_bit 12 (drop_bit 10 pte)"

definition PTE_FLAGS :: "64 word \<Rightarrow> 64 word" where
  "PTE_FLAGS pte = pte AND 0x3FF"

definition PX :: "nat \<Rightarrow> addr \<Rightarrow> 64 word" where
  "PX level va = drop_bit (12 + 9 * level) va AND 0x1FF"

definition KSTACK :: "nat \<Rightarrow> addr" where
  "KSTACK p = TRAMPOLINE - (of_nat p + 1) * 2 * PGSIZE"

section \<open>Walking and mapping\<close>

text \<open>\<open>walk_level l\<close> is the loop of \<^verbatim>\<open>walk\<close> with \<open>l\<close> levels still to descend.\<close>

primrec walk_level :: "nat \<Rightarrow> addr \<Rightarrow> addr \<Rightarrow> bool \<Rightarrow> ('z kmem_st_scheme, addr) km" where
  "walk_level 0 pagetable va alloc = ret (pagetable + 8 * PX 0 va)"
| "walk_level (Suc l) pagetable va alloc =
     (let pte = pagetable + 8 * PX (Suc l) va in
      bnd get (\<lambda>s.
        if load64 (mem s) pte AND PTE_V \<noteq> 0
        then walk_level l (PTE2PA (load64 (mem s) pte)) va alloc
        else if \<not> alloc then ret 0
        else bnd kalloc (\<lambda>pt.
          if pt = 0 then ret 0
          else bnd (modify (\<lambda>s. s\<lparr>mem := memset (mem s) pt 0 PGSIZE\<rparr>)) (\<lambda>_.
               bnd (modify (\<lambda>s. s\<lparr>mem := store64 (mem s) pte (PA2PTE pt OR PTE_V)\<rparr>)) (\<lambda>_.
               walk_level l pt va alloc)))))"

definition walk :: "addr \<Rightarrow> addr \<Rightarrow> bool \<Rightarrow> ('z kmem_st_scheme, addr) km" where
  "walk pagetable va alloc =
     (if va \<ge> MAXVA then panic ''walk'' else walk_level 2 pagetable va alloc)"

definition walkaddr :: "addr \<Rightarrow> addr \<Rightarrow> ('z kmem_st_scheme, addr) km" where
  "walkaddr pagetable va =
     (if va \<ge> MAXVA then ret 0
      else bnd (walk pagetable va False) (\<lambda>pte.
        if pte = 0 then ret 0
        else bnd get (\<lambda>s.
          if load64 (mem s) pte AND PTE_V = 0 then ret 0
          else if load64 (mem s) pte AND PTE_U = 0 then ret 0
          else ret (PTE2PA (load64 (mem s) pte)))))"

primrec mappages_loop ::
  "nat \<Rightarrow> addr \<Rightarrow> addr \<Rightarrow> addr \<Rightarrow> addr \<Rightarrow> 64 word \<Rightarrow> ('z kmem_st_scheme, int) km" where
  "mappages_loop 0 pagetable a last_a pa perm = stop_with Diverge"
| "mappages_loop (Suc fuel) pagetable a last_a pa perm =
     bnd (walk pagetable a True) (\<lambda>pte.
       if pte = 0 then ret (- 1)
       else bnd get (\<lambda>s.
         if load64 (mem s) pte AND PTE_V \<noteq> 0 then panic ''mappages: remap''
         else bnd (modify (\<lambda>s. s\<lparr>mem := store64 (mem s) pte (PA2PTE pa OR perm OR PTE_V)\<rparr>)) (\<lambda>_.
           if a = last_a then ret 0
           else mappages_loop fuel pagetable (a + PGSIZE) last_a (pa + PGSIZE) perm)))"

definition mappages ::
  "addr \<Rightarrow> addr \<Rightarrow> 64 word \<Rightarrow> addr \<Rightarrow> 64 word \<Rightarrow> ('z kmem_st_scheme, int) km" where
  "mappages pagetable va sz pa perm =
     (if va mod PGSIZE \<noteq> 0 then panic ''mappages: va not aligned''
      else if sz mod PGSIZE \<noteq> 0 then panic ''mappages: size not aligned''
      else if sz = 0 then panic ''mappages: size''
      else mappages_loop (unat sz div PGSIZE) pagetable va (va + sz - PGSIZE) pa perm)"

definition kvmmap ::
  "addr \<Rightarrow> addr \<Rightarrow> addr \<Rightarrow> 64 word \<Rightarrow> 64 word \<Rightarrow> ('z kmem_st_scheme, unit) km" where
  "kvmmap kpgtbl va pa sz perm =
     bnd (mappages kpgtbl va sz pa perm) (\<lambda>r. if r \<noteq> 0 then panic ''kvmmap'' else skip)"

definition proc_mapstacks :: "addr \<Rightarrow> ('z kmem_st_scheme, unit) km" where
  "proc_mapstacks kpgtbl = for_each [0..<NPROC] (\<lambda>p.
     bnd kalloc (\<lambda>pa.
       if pa = 0 then panic ''kalloc''
       else kvmmap kpgtbl (KSTACK p) pa PGSIZE (PTE_R OR PTE_W)))"

text \<open>\<open>etext\<close> and \<open>trampoline\<close> are linker symbols.\<close>

definition kvmmake :: "addr \<Rightarrow> addr \<Rightarrow> ('z kmem_st_scheme, addr) km" where
  "kvmmake etext trampoline =
     bnd kalloc (\<lambda>kpgtbl.
     bnd (modify (\<lambda>s. s\<lparr>mem := memset (mem s) kpgtbl 0 PGSIZE\<rparr>)) (\<lambda>_.
     bnd (kvmmap kpgtbl UART0 UART0 PGSIZE (PTE_R OR PTE_W)) (\<lambda>_.
     bnd (kvmmap kpgtbl VIRTIO0 VIRTIO0 PGSIZE (PTE_R OR PTE_W)) (\<lambda>_.
     bnd (kvmmap kpgtbl PLIC PLIC 0x4000000 (PTE_R OR PTE_W)) (\<lambda>_.
     bnd (kvmmap kpgtbl KERNBASE KERNBASE (etext - KERNBASE) (PTE_R OR PTE_X)) (\<lambda>_.
     bnd (kvmmap kpgtbl etext etext (PHYSTOP - etext) (PTE_R OR PTE_W)) (\<lambda>_.
     bnd (kvmmap kpgtbl TRAMPOLINE trampoline PGSIZE (PTE_R OR PTE_X)) (\<lambda>_.
     bnd (proc_mapstacks kpgtbl) (\<lambda>_.
     ret kpgtbl)))))))))"

section \<open>User address spaces\<close>

definition uvmcreate :: "('z kmem_st_scheme, addr) km" where
  "uvmcreate = bnd kalloc (\<lambda>pagetable.
     if pagetable = 0 then ret 0
     else bnd (modify (\<lambda>s. s\<lparr>mem := memset (mem s) pagetable 0 PGSIZE\<rparr>)) (\<lambda>_. ret pagetable))"

primrec uvmunmap_loop :: "nat \<Rightarrow> addr \<Rightarrow> addr \<Rightarrow> addr \<Rightarrow> bool \<Rightarrow> ('z kmem_st_scheme, unit) km" where
  "uvmunmap_loop 0 pagetable a aend do_free = stop_with Diverge"
| "uvmunmap_loop (Suc fuel) pagetable a aend do_free =
     (if a < aend
      then bnd (walk pagetable a False) (\<lambda>pte.
        if pte = 0 then uvmunmap_loop fuel pagetable (a + PGSIZE) aend do_free
        else bnd get (\<lambda>s.
          if load64 (mem s) pte AND PTE_V = 0
          then uvmunmap_loop fuel pagetable (a + PGSIZE) aend do_free
          else bnd (if do_free then kfree (PTE2PA (load64 (mem s) pte)) else skip) (\<lambda>_.
               bnd (modify (\<lambda>s. s\<lparr>mem := store64 (mem s) pte 0\<rparr>)) (\<lambda>_.
               uvmunmap_loop fuel pagetable (a + PGSIZE) aend do_free))))
      else skip)"

definition uvmunmap :: "addr \<Rightarrow> addr \<Rightarrow> 64 word \<Rightarrow> bool \<Rightarrow> ('z kmem_st_scheme, unit) km" where
  "uvmunmap pagetable va npages do_free =
     (if va mod PGSIZE \<noteq> 0 then panic ''uvmunmap: not aligned''
      else uvmunmap_loop (Suc (unat npages)) pagetable va (va + npages * PGSIZE) do_free)"

definition uvmdealloc :: "addr \<Rightarrow> addr \<Rightarrow> addr \<Rightarrow> ('z kmem_st_scheme, addr) km" where
  "uvmdealloc pagetable oldsz newsz =
     (if newsz \<ge> oldsz then ret oldsz
      else bnd (if PGROUNDUP newsz < PGROUNDUP oldsz
                then let npages = ucast ((PGROUNDUP oldsz - PGROUNDUP newsz) div PGSIZE) :: 32 word
                     in uvmunmap pagetable (PGROUNDUP newsz) (scast npages) True
                else skip) (\<lambda>_.
           ret newsz))"

primrec uvmalloc_loop ::
  "nat \<Rightarrow> addr \<Rightarrow> addr \<Rightarrow> addr \<Rightarrow> addr \<Rightarrow> 64 word \<Rightarrow> ('z kmem_st_scheme, addr) km" where
  "uvmalloc_loop 0 pagetable a oldsz newsz xperm = stop_with Diverge"
| "uvmalloc_loop (Suc fuel) pagetable a oldsz newsz xperm =
     (if a < newsz
      then bnd kalloc (\<lambda>pg.
        if pg = 0 then bnd (uvmdealloc pagetable a oldsz) (\<lambda>_. ret 0)
        else bnd (modify (\<lambda>s. s\<lparr>mem := memset (mem s) pg 0 PGSIZE\<rparr>)) (\<lambda>_.
             bnd (mappages pagetable a PGSIZE pg (PTE_R OR PTE_U OR xperm)) (\<lambda>r.
               if r \<noteq> 0
               then bnd (kfree pg) (\<lambda>_. bnd (uvmdealloc pagetable a oldsz) (\<lambda>_. ret 0))
               else uvmalloc_loop fuel pagetable (a + PGSIZE) oldsz newsz xperm)))
      else ret newsz)"

definition uvmalloc :: "addr \<Rightarrow> addr \<Rightarrow> addr \<Rightarrow> 64 word \<Rightarrow> ('z kmem_st_scheme, addr) km" where
  "uvmalloc pagetable oldsz newsz xperm =
     (if newsz < oldsz then ret oldsz
      else let oldsz = PGROUNDUP oldsz in
           uvmalloc_loop (Suc (Suc (unat newsz div PGSIZE))) pagetable oldsz oldsz newsz xperm)"

text \<open>\<open>freewalk d\<close>: the recursion of \<^verbatim>\<open>freewalk\<close> through at most \<open>d\<close> levels of tables.\<close>

primrec freewalk_depth :: "nat \<Rightarrow> addr \<Rightarrow> ('z kmem_st_scheme, unit) km" where
  "freewalk_depth 0 pagetable = stop_with Diverge"
| "freewalk_depth (Suc d) pagetable =
     bnd (for_each [0..<512] (\<lambda>i.
       bnd get (\<lambda>s.
         let pte = load64 (mem s) (pagetable + of_nat (8 * i)) in
         if pte AND PTE_V \<noteq> 0 \<and> pte AND (PTE_R OR PTE_W OR PTE_X) = 0
         then bnd (freewalk_depth d (PTE2PA pte)) (\<lambda>_.
              modify (\<lambda>s. s\<lparr>mem := store64 (mem s) (pagetable + of_nat (8 * i)) 0\<rparr>))
         else if pte AND PTE_V \<noteq> 0 then panic ''freewalk: leaf''
         else skip))) (\<lambda>_.
     kfree pagetable)"

definition freewalk :: "addr \<Rightarrow> ('z kmem_st_scheme, unit) km" where
  "freewalk pagetable = freewalk_depth 3 pagetable"

definition uvmfree :: "addr \<Rightarrow> addr \<Rightarrow> ('z kmem_st_scheme, unit) km" where
  "uvmfree pagetable sz =
     bnd (if sz > 0 then uvmunmap pagetable 0 (PGROUNDUP sz div PGSIZE) True else skip) (\<lambda>_.
     freewalk pagetable)"

primrec uvmcopy_loop :: "nat \<Rightarrow> addr \<Rightarrow> addr \<Rightarrow> addr \<Rightarrow> addr \<Rightarrow> ('z kmem_st_scheme, int) km" where
  "uvmcopy_loop 0 old new i sz = stop_with Diverge"
| "uvmcopy_loop (Suc fuel) old new i sz =
     (if i < sz
      then bnd (walk old i False) (\<lambda>pte.
        if pte = 0 then uvmcopy_loop fuel old new (i + PGSIZE) sz
        else bnd get (\<lambda>s.
          let e = load64 (mem s) pte in
          if e AND PTE_V = 0 then uvmcopy_loop fuel old new (i + PGSIZE) sz
          else bnd kalloc (\<lambda>pg.
            if pg = 0 then bnd (uvmunmap new 0 (i div PGSIZE) True) (\<lambda>_. ret (- 1))
            else bnd (modify (\<lambda>s. s\<lparr>mem := memmove (mem s) pg (PTE2PA e) PGSIZE\<rparr>)) (\<lambda>_.
                 bnd (mappages new i PGSIZE pg (PTE_FLAGS e)) (\<lambda>r.
                   if r \<noteq> 0
                   then bnd (kfree pg) (\<lambda>_. bnd (uvmunmap new 0 (i div PGSIZE) True) (\<lambda>_. ret (- 1)))
                   else uvmcopy_loop fuel old new (i + PGSIZE) sz)))))
      else ret 0)"

definition uvmcopy :: "addr \<Rightarrow> addr \<Rightarrow> addr \<Rightarrow> ('z kmem_st_scheme, int) km" where
  "uvmcopy old new sz = uvmcopy_loop (Suc (Suc (unat sz div PGSIZE))) old new 0 sz"

definition uvmclear :: "addr \<Rightarrow> addr \<Rightarrow> ('z kmem_st_scheme, unit) km" where
  "uvmclear pagetable va =
     bnd (walk pagetable va False) (\<lambda>pte.
       if pte = 0 then panic ''uvmclear''
       else modify (\<lambda>s. s\<lparr>mem := store64 (mem s) pte (load64 (mem s) pte AND NOT PTE_U)\<rparr>))"

section \<open>Page faults and copies between kernel and user memory\<close>

definition ismapped :: "addr \<Rightarrow> addr \<Rightarrow> ('z kmem_st_scheme, bool) km" where
  "ismapped pagetable va =
     bnd (walk pagetable va False) (\<lambda>pte.
       if pte = 0 then ret False
       else bnd get (\<lambda>s. ret (load64 (mem s) pte AND PTE_V \<noteq> 0)))"

definition vmfault :: "addr \<Rightarrow> addr \<Rightarrow> ('z vm_st_scheme, addr) km" where
  "vmfault pagetable va = bnd get (\<lambda>s.
     if va \<ge> psz s then ret 0
     else let va = PGROUNDDOWN va in
       bnd (ismapped pagetable va) (\<lambda>b.
         if b then ret 0
         else bnd kalloc (\<lambda>pg.
           if pg = 0 then ret 0
           else bnd (modify (\<lambda>s. s\<lparr>mem := memset (mem s) pg 0 PGSIZE\<rparr>)) (\<lambda>_.
                bnd (mappages (ppagetable s) va PGSIZE pg (PTE_W OR PTE_U OR PTE_R)) (\<lambda>r.
                  if r \<noteq> 0 then bnd (kfree pg) (\<lambda>_. ret 0) else ret pg)))))"

primrec copyout_loop :: "nat \<Rightarrow> addr \<Rightarrow> addr \<Rightarrow> addr \<Rightarrow> 64 word \<Rightarrow> ('z vm_st_scheme, int) km" where
  "copyout_loop 0 pagetable dstva src len = stop_with Diverge"
| "copyout_loop (Suc fuel) pagetable dstva src len =
     (if len > 0
      then let va0 = PGROUNDDOWN dstva in
        if va0 \<ge> MAXVA then ret (- 1)
        else bnd (walkaddr pagetable va0) (\<lambda>pa.
             bnd (if pa = 0 then vmfault pagetable va0 else ret pa) (\<lambda>pa0.
               if pa0 = 0 then ret (- 1)
               else bnd (walk pagetable va0 False) (\<lambda>pte.
                    bnd get (\<lambda>s.
                      if load64 (mem s) pte AND PTE_W = 0 then ret (- 1)
                      else let n = min (PGSIZE - (dstva - va0)) len in
                        bnd (modify (\<lambda>s. s\<lparr>mem := memmove (mem s) (pa0 + (dstva - va0)) src (ucast n)\<rparr>)) (\<lambda>_.
                        copyout_loop fuel pagetable (va0 + PGSIZE) (src + n) (len - n))))))
      else ret 0)"

definition copyout :: "addr \<Rightarrow> addr \<Rightarrow> addr \<Rightarrow> 64 word \<Rightarrow> ('z vm_st_scheme, int) km" where
  "copyout pagetable dstva src len = copyout_loop (Suc (unat len)) pagetable dstva src len"

primrec copyin_loop :: "nat \<Rightarrow> addr \<Rightarrow> addr \<Rightarrow> addr \<Rightarrow> 64 word \<Rightarrow> ('z vm_st_scheme, int) km" where
  "copyin_loop 0 pagetable dst srcva len = stop_with Diverge"
| "copyin_loop (Suc fuel) pagetable dst srcva len =
     (if len > 0
      then let va0 = PGROUNDDOWN srcva in
        bnd (walkaddr pagetable va0) (\<lambda>pa.
        bnd (if pa = 0 then vmfault pagetable va0 else ret pa) (\<lambda>pa0.
          if pa0 = 0 then ret (- 1)
          else let n = min (PGSIZE - (srcva - va0)) len in
            bnd (modify (\<lambda>s. s\<lparr>mem := memmove (mem s) dst (pa0 + (srcva - va0)) (ucast n)\<rparr>)) (\<lambda>_.
            copyin_loop fuel pagetable (dst + n) (va0 + PGSIZE) (len - n))))
      else ret 0)"

definition copyin :: "addr \<Rightarrow> addr \<Rightarrow> addr \<Rightarrow> 64 word \<Rightarrow> ('z vm_st_scheme, int) km" where
  "copyin pagetable dst srcva len = copyin_loop (Suc (unat len)) pagetable dst srcva len"

text \<open>The inner loop of \<^verbatim>\<open>copyinstr\<close>: memory, whether a NUL was copied, what is left of \<open>max\<close>.\<close>

primrec copystr :: "nat \<Rightarrow> addr \<Rightarrow> addr \<Rightarrow> 64 word \<Rightarrow> memory \<Rightarrow> memory \<times> bool \<times> 64 word \<times> addr" where
  "copystr 0 p dst mx m = (m, False, mx, dst)"
| "copystr (Suc n) p dst mx m =
     (if m p = 0 then (m(dst := 0), True, mx, dst)
      else copystr n (p + 1) (dst + 1) (mx - 1) (m(dst := m p)))"

primrec copyinstr_loop :: "nat \<Rightarrow> addr \<Rightarrow> addr \<Rightarrow> addr \<Rightarrow> 64 word \<Rightarrow> ('z kmem_st_scheme, int) km" where
  "copyinstr_loop 0 pagetable dst srcva mx = stop_with Diverge"
| "copyinstr_loop (Suc fuel) pagetable dst srcva mx =
     (if mx > 0
      then let va0 = PGROUNDDOWN srcva in
        bnd (walkaddr pagetable va0) (\<lambda>pa0.
          if pa0 = 0 then ret (- 1)
          else let n = min (PGSIZE - (srcva - va0)) mx in
            bnd get (\<lambda>s.
              let (m', got_null, mx', dst') =
                    copystr (unat n) (pa0 + (srcva - va0)) dst mx (mem s) in
              bnd (modify (\<lambda>s. s\<lparr>mem := m'\<rparr>)) (\<lambda>_.
                if got_null then ret 0
                else copyinstr_loop fuel pagetable dst' (va0 + PGSIZE) mx')))
      else ret (- 1))"

definition copyinstr :: "addr \<Rightarrow> addr \<Rightarrow> addr \<Rightarrow> 64 word \<Rightarrow> ('z kmem_st_scheme, int) km" where
  "copyinstr pagetable dst srcva mx = copyinstr_loop (Suc (unat mx)) pagetable dst srcva mx"

end
