(* ===== verification/Vm_Table.thy ===== *)
theory Vm_Table
  imports Vm
begin

text \<open>
  The abstract reading of a page table: \<open>tbl\<close> descends from the root without allocating,
  \<open>leaf\<close> is the page-table entry a virtual address resolves to (0 when a table is missing),
  and \<open>pt_inv\<close> says that the tables form a tree. The lemmas show how writing one entry,
  adding one table, and changing memory outside the tables affect \<open>leaf\<close>.
\<close>

section \<open>Entries\<close>

lemma bit_lt_of_unat_lt:
  assumes "unat (a :: addr) < 2 ^ k" and "bit a n"
  shows "n < k"
proof (rule ccontr)
  assume "\<not> n < k"
  have "bit (unat a) n" using assms(2) by (simp add: bit_unsigned_iff)
  moreover have "unat a < 2 ^ n"
    using assms(1) \<open>\<not> n < k\<close> by (intro less_le_trans [OF assms(1)] power_increasing) auto
  ultimately show False
    by (simp add: bit_iff_odd div_less)
qed

lemma bit_page_aligned: "page_aligned p \<Longrightarrow> bit p n \<Longrightarrow> 12 \<le> n"
proof -
  assume "page_aligned p" and b: "bit p n"
  then have "p = push_bit 12 (drop_bit 12 p)"
    using PGROUNDDOWN_aligned [of p] by (simp add: PGROUNDDOWN_def and_not_4095)
  with b have "bit (push_bit 12 (drop_bit 12 p)) n" by simp
  then show ?thesis by (simp add: bit_push_bit_iff)
qed

lemma PTE2PA_entry:
  assumes "page_aligned pa" and "unat pa < 2 ^ 56" and "unat fl < 2 ^ 10"
  shows "PTE2PA (PA2PTE pa OR fl) = pa"
proof (rule bit_word_eqI)
  fix n assume "n < LENGTH(64)"
  then show "bit (PTE2PA (PA2PTE pa OR fl)) n = bit pa n"
    using bit_page_aligned [OF assms(1), of n] bit_lt_of_unat_lt [OF assms(2), of n]
      bit_lt_of_unat_lt [OF assms(3), of "n - 2"]
    by (auto simp: PTE2PA_def PA2PTE_def bit_simps)
qed

lemma PTE_FLAGS_entry:
  assumes "unat fl < 2 ^ 10"
  shows "PTE_FLAGS (PA2PTE pa OR fl) = fl"
proof -
  have "(PA2PTE pa OR fl) AND mask 10 = fl"
  proof (rule bit_word_eqI)
    fix n assume "n < LENGTH(64)"
    then show "bit ((PA2PTE pa OR fl) AND mask 10) n = bit fl n"
      using bit_lt_of_unat_lt [OF assms, of n]
      by (auto simp: PTE_FLAGS_def PA2PTE_def bit_simps)
  qed
  then show ?thesis by (simp add: PTE_FLAGS_def mask_eq_exp_minus_1)
qed

lemma and_V_iff: "e AND PTE_V \<noteq> 0 \<longleftrightarrow> bit e 0"
  by (simp add: and_one_eq bit_0 odd_iff_mod_2_eq_one)

lemma page_aligned_PTE2PA [simp]: "page_aligned (PTE2PA e)"
proof -
  have "drop_bit 12 (push_bit 12 (drop_bit 10 e)) = take_bit 52 (drop_bit 10 e)"
    by (rule bit_word_eqI) (auto simp: bit_simps)
  then have "PGROUNDDOWN (PTE2PA e) = PTE2PA e"
    by (auto simp: PGROUNDDOWN_def and_not_4095 PTE2PA_def intro!: bit_word_eqI simp: bit_simps)
  then show ?thesis by (metis page_aligned_PGROUNDDOWN)
qed

section \<open>Descending\<close>

definition ix :: "nat \<Rightarrow> addr \<Rightarrow> nat" where
  "ix k va = unat (PX (2 - k) va)"

definition ent :: "addr \<Rightarrow> nat \<Rightarrow> addr \<Rightarrow> addr" where
  "ent p k va = p + of_nat (8 * ix k va)"

lemma PX_lt: "unat (PX l va) < 512"
proof -
  have "PX l va \<le> 0x1FF" by (simp add: PX_def word_and_le1)
  then show ?thesis by (simp add: word_le_nat_alt)
qed

lemma ix_lt [simp]: "ix k va < 512"
  by (simp add: ix_def PX_lt)

lemma ent_code: "k \<le> 2 \<Longrightarrow> p + 8 * PX (2 - k) va = ent p k va"
  by (simp add: ent_def ix_def)

lemma ent_props:
  assumes "page_aligned p"
  shows aligned8_ent: "aligned8 (ent p k va)"
    and page_ent: "PGROUNDDOWN (ent p k va) = p"
    and unat_ent: "unat (ent p k va) = unat p + 8 * ix k va"
proof -
  have i: "8 * ix k va < 4096" using ix_lt [of k va] by linarith
  show "aligned8 (ent p k va)" using assms ix_lt unfolding ent_def by (rule aligned8_entry)
  show "PGROUNDDOWN (ent p k va) = p" "unat (ent p k va) = unat p + 8 * ix k va"
    using page_offset [OF assms i] by (simp_all add: ent_def del: of_nat_mult)
qed

lemma ent_eq_iff:
  assumes "page_aligned p" "page_aligned q"
  shows "ent p k va = ent q k' va' \<longleftrightarrow> p = q \<and> ix k va = ix k' va'"
proof
  assume eq: "ent p k va = ent q k' va'"
  then have "p = q" using page_ent [OF assms(1), of k va] page_ent [OF assms(2), of k' va'] by simp
  then show "p = q \<and> ix k va = ix k' va'"
    using eq unat_ent [OF assms(1), of k va] unat_ent [OF assms(2), of k' va'] by simp
qed (simp add: ent_def)

lemma ent_nonzero: "page_aligned p \<Longrightarrow> p \<noteq> 0 \<Longrightarrow> ent p k va \<noteq> 0"
  using unat_ent [of p k va] by (metis add_is_0 unat_0 unat_eq_zero)

primrec tbl :: "memory \<Rightarrow> addr \<Rightarrow> nat \<Rightarrow> addr \<Rightarrow> addr option" where
  "tbl m root 0 va = Some root"
| "tbl m root (Suc k) va =
     (case tbl m root k va of
        None \<Rightarrow> None
      | Some p \<Rightarrow> if load64 m (ent p k va) AND PTE_V \<noteq> 0
                  then Some (PTE2PA (load64 m (ent p k va))) else None)"

definition leaf :: "memory \<Rightarrow> addr \<Rightarrow> addr \<Rightarrow> 64 word" where
  "leaf m root va = (case tbl m root 2 va of None \<Rightarrow> 0 | Some p \<Rightarrow> load64 m (ent p 2 va))"

definition eqpath :: "nat \<Rightarrow> addr \<Rightarrow> addr \<Rightarrow> bool" where
  "eqpath k va va' \<longleftrightarrow> (\<forall>j<k. ix j va = ix j va')"

definition pt_inv :: "memory \<Rightarrow> addr \<Rightarrow> bool" where
  "pt_inv m root \<longleftrightarrow>
     (\<forall>k va p. k \<le> 2 \<longrightarrow> tbl m root k va = Some p \<longrightarrow> page_aligned p \<and> p \<noteq> 0) \<and>
     (\<forall>k k' va va' p. k \<le> 2 \<longrightarrow> k' \<le> 2 \<longrightarrow>
        tbl m root k va = Some p \<longrightarrow> tbl m root k' va' = Some p \<longrightarrow> k = k' \<and> eqpath k va va')"

definition tables :: "memory \<Rightarrow> addr \<Rightarrow> addr set" where
  "tables m root = {p. \<exists>k va. k \<le> 2 \<and> tbl m root k va = Some p}"

lemma tablesI: "k \<le> 2 \<Longrightarrow> tbl m root k va = Some p \<Longrightarrow> p \<in> tables m root"
  by (auto simp: tables_def)

lemma root_in_tables [simp]: "root \<in> tables m root"
  by (rule tablesI [of 0]) simp_all

lemma pt_path_props:
  assumes "pt_inv m root" "k \<le> 2" "tbl m root k va = Some p"
  shows pt_aligned: "page_aligned p" and pt_nonzero: "p \<noteq> 0"
  using assms by (auto simp: pt_inv_def)

lemma pt_inj:
  assumes "pt_inv m root" "k \<le> 2" "k' \<le> 2" "tbl m root k va = Some p" "tbl m root k' va' = Some p"
  shows "k = k' \<and> eqpath k va va'"
  using assms unfolding pt_inv_def by blast

lemma eqpath_Suc: "eqpath (Suc k) va va' \<longleftrightarrow> eqpath k va va' \<and> ix k va = ix k va'"
  by (auto simp: eqpath_def less_Suc_eq)

lemma eqpath_refl [simp]: "eqpath k va va"
  by (simp add: eqpath_def)

lemma eqpath_sym: "eqpath k va va' \<Longrightarrow> eqpath k va' va"
  by (simp add: eqpath_def)

lemma eqpath_le: "eqpath k va va' \<Longrightarrow> j \<le> k \<Longrightarrow> eqpath j va va'"
  by (auto simp: eqpath_def)

lemma eqpath_trans: "eqpath k va va' \<Longrightarrow> eqpath k va' vb \<Longrightarrow> eqpath k va vb"
  by (simp add: eqpath_def)

lemma tbl_None_mono: "tbl m root k va = None \<Longrightarrow> k \<le> j \<Longrightarrow> tbl m root j va = None"
  by (induction j) (auto simp: le_Suc_eq)

lemma tbl_eqpath: "eqpath k va va' \<Longrightarrow> tbl m root k va = tbl m root k va'"
  by (induction k) (auto simp: eqpath_Suc ent_def split: option.splits)

lemma leaf_eqpath: "eqpath 3 va va' \<Longrightarrow> leaf m root va = leaf m root va'"
  using tbl_eqpath [of 2 va va' m root]
  by (auto simp: leaf_def ent_def eqpath_Suc numeral_3_eq_3 numeral_2_eq_2 split: option.splits)

section \<open>Virtual pages\<close>

lemma bit_PX: "bit (PX l va) i \<longleftrightarrow> i < 9 \<and> bit va (12 + 9 * l + i)"
proof -
  have "PX l va = drop_bit (12 + 9 * l) va AND mask 9"
    by (simp add: PX_def mask_eq_exp_minus_1)
  then show ?thesis by (auto simp: bit_simps)
qed

lemma ix_eq_iff: "ix k va = ix k va' \<longleftrightarrow> (\<forall>i<9. bit va (12 + 9 * (2 - k) + i) = bit va' (12 + 9 * (2 - k) + i))"
proof -
  have "ix k va = ix k va' \<longleftrightarrow> PX (2 - k) va = PX (2 - k) va'"
    by (simp add: ix_def word_unat_eq_iff)
  also have "\<dots> \<longleftrightarrow> (\<forall>i. bit (PX (2 - k) va) i = bit (PX (2 - k) va') i)"
    by (auto intro: bit_eqI)
  finally show ?thesis by (auto simp: bit_PX)
qed

lemma bit_PGROUNDDOWN: "bit (PGROUNDDOWN a) n \<longleftrightarrow> 12 \<le> n \<and> bit a n"
  by (auto simp: PGROUNDDOWN_def and_not_4095 bit_simps dest: bit_imp_le_length)

text \<open>Below \<^verbatim>\<open>MAXVA\<close>, two addresses take the same path exactly when they share a page.\<close>

lemma eqpath3_iff:
  assumes "va < MAXVA" "va' < MAXVA"
  shows "eqpath 3 va va' \<longleftrightarrow> PGROUNDDOWN va = PGROUNDDOWN va'"
proof -
  have hi: "n < 39" if "bit a n" "a < MAXVA" for a :: addr and n
    using bit_lt_of_unat_lt [of a 39 n] that by (simp add: word_less_nat_alt)
  have "eqpath 3 va va' \<longleftrightarrow> (\<forall>n. 12 \<le> n \<and> n < 39 \<longrightarrow> bit va n = bit va' n)"
  proof
    assume eq: "eqpath 3 va va'"
    show "\<forall>n. 12 \<le> n \<and> n < 39 \<longrightarrow> bit va n = bit va' n"
    proof (intro allI impI)
      fix n :: nat assume n: "12 \<le> n \<and> n < 39"
      define k where "k = 2 - (n - 12) div 9"
      define i where "i = (n - 12) mod 9"
      have "(n - 12) div 9 \<le> 2" using n by auto
      then have kn: "12 + 9 * (2 - k) + i = n" and "k < 3" and "i < 9"
        using n unfolding k_def i_def by (auto simp: mult_div_mod_eq)
      then have "bit va (12 + 9 * (2 - k) + i) = bit va' (12 + 9 * (2 - k) + i)"
        using eq unfolding eqpath_def ix_eq_iff by blast
      then show "bit va n = bit va' n" by (simp only: kn)
    qed
  next
    assume "\<forall>n. 12 \<le> n \<and> n < 39 \<longrightarrow> bit va n = bit va' n"
    then show "eqpath 3 va va'" by (auto simp: eqpath_def ix_eq_iff)
  qed
  also have "\<dots> \<longleftrightarrow> (\<forall>n. bit (PGROUNDDOWN va) n = bit (PGROUNDDOWN va') n)"
    using hi assms by (auto simp: bit_PGROUNDDOWN)
  also have "\<dots> \<longleftrightarrow> PGROUNDDOWN va = PGROUNDDOWN va'"
    by (auto intro: bit_eqI)
  finally show ?thesis .
qed

section \<open>Changing memory\<close>

text \<open>Memory outside the tables does not matter.\<close>

lemma tbl_frame:
  assumes "pt_inv m root" and "\<And>p. p \<in> tables m root \<Longrightarrow> same_page m m' p" and "k \<le> 2"
  shows "tbl m' root k va = tbl m root k va"
  using assms(3)
proof (induction k)
  case 0
  then show ?case by simp
next
  case (Suc k)
  then have IH: "tbl m' root k va = tbl m root k va" by simp
  have "load64 m (ent p k va) = load64 m' (ent p k va)" if "tbl m root k va = Some p" for p
    using that Suc.prems assms(2) [OF tablesI [OF _ that]] pt_aligned [OF assms(1) _ that]
    by (intro load64_same_page) (simp_all add: page_ent aligned8_ent)
  with IH show ?case by (simp split: option.splits)
qed

lemma tables_frame:
  assumes "pt_inv m root" and "\<And>p. p \<in> tables m root \<Longrightarrow> same_page m m' p"
  shows "tables m' root = tables m root" and "pt_inv m' root" and "leaf m' root = leaf m root"
proof -
  have eq: "tbl m' root k va = tbl m root k va" if "k \<le> 2" for k va
    using assms that by (rule tbl_frame)
  show "tables m' root = tables m root" by (simp add: tables_def eq cong: conj_cong)
  show "pt_inv m' root" using assms(1) by (simp add: pt_inv_def eq)
  have "load64 m (ent p 2 va) = load64 m' (ent p 2 va)" if "tbl m root 2 va = Some p" for p va
    using assms(2) [OF tablesI [OF _ that]] pt_aligned [OF assms(1) _ that]
    by (intro load64_same_page) (simp_all add: page_ent aligned8_ent)
  then show "leaf m' root = leaf m root"
    by (auto simp: leaf_def fun_eq_iff eq split: option.splits)
qed

text \<open>Writing the entry for \<open>va\<close> in its table at depth \<open>k\<close>: the levels above do not change.\<close>

lemma tbl_store_above:
  assumes inv: "pt_inv m root" and k: "k \<le> 2" and p: "tbl m root k va = Some p" and j: "j \<le> k"
  shows "tbl (store64 m (ent p k va) e) root j va' = tbl m root j va'"
  using j
proof (induction j)
  case 0
  then show ?case by simp
next
  case (Suc j)
  then have IH: "tbl (store64 m (ent p k va) e) root j va' = tbl m root j va'" by simp
  have "load64 (store64 m (ent p k va) e) (ent q j va') = load64 m (ent q j va')"
    if q: "tbl m root j va' = Some q" for q
  proof (rule load64_store64_other)
    have al: "page_aligned p" "page_aligned q"
      using pt_aligned [OF inv k p] pt_aligned [OF inv _ q] Suc.prems k by auto
    then show "aligned8 (ent p k va)" "aligned8 (ent q j va')" by (simp_all add: aligned8_ent)
    have "p \<noteq> q"
    proof
      assume "p = q"
      with p q Suc.prems k pt_inj [OF inv k _ p, of j va'] show False by simp
    qed
    with al show "ent p k va \<noteq> ent q j va'" by (simp add: ent_eq_iff)
  qed
  with IH show ?case by (simp split: option.splits)
qed

lemma load_store_level:
  assumes inv: "pt_inv m root" and k: "k \<le> 2" and p: "tbl m root k va = Some p"
    and q: "tbl m root k va' = Some q"
  shows "load64 (store64 m (ent p k va) e) (ent q k va') =
    (if eqpath (Suc k) va va' then e else load64 m (ent q k va'))"
proof -
  have al: "page_aligned p" "page_aligned q"
    using pt_aligned [OF inv k p] pt_aligned [OF inv k q] by auto
  have "p = q \<longleftrightarrow> eqpath k va va'"
    using pt_inj [OF inv k k p, of va'] q p tbl_eqpath [of k va va' m root] by auto
  then have "ent p k va = ent q k va' \<longleftrightarrow> eqpath (Suc k) va va'"
    using al by (simp add: ent_eq_iff eqpath_Suc)
  with al show ?thesis
    by (auto simp: load64_store64_other aligned8_ent)
qed

lemma leaf_store:
  assumes inv: "pt_inv m root" and p: "tbl m root 2 va = Some p"
  shows "leaf (store64 m (ent p 2 va) e) root va' =
      (if eqpath 3 va va' then e else leaf m root va')"
    and "pt_inv (store64 m (ent p 2 va) e) root"
    and "tables (store64 m (ent p 2 va) e) root = tables m root"
proof -
  let ?m = "store64 m (ent p 2 va) e"
  have eq: "tbl ?m root j vb = tbl m root j vb" if "j \<le> 2" for j vb
    using tbl_store_above [OF inv _ p that] by simp
  have 3: "Suc 2 = 3" by simp
  have none: "tbl m root 2 va' \<noteq> None" if "eqpath 3 va va'"
    using that p tbl_eqpath [of 2 va va' m root] eqpath_le [OF that, of 2] by auto
  show "leaf ?m root va' = (if eqpath 3 va va' then e else leaf m root va')"
    using load_store_level [OF inv _ p, of va'] none
    by (auto simp: leaf_def eq 3 split: option.splits)
  show "pt_inv ?m root" using inv by (simp add: pt_inv_def eq)
  show "tables ?m root = tables m root" by (simp add: tables_def eq cong: conj_cong)
qed

text \<open>
  Hanging a zeroed page \<open>q\<close>, not yet a table, into the table of \<open>va\<close> at depth \<open>k < 2\<close>: \<open>q\<close>
  becomes the table below, the tree stays a tree, and no address resolves differently.
\<close>

lemma tbl_new_table:
  assumes inv: "pt_inv m root" and k: "k < 2" and p: "tbl m root k va = Some p"
    and inval: "load64 m (ent p k va) AND PTE_V = 0"
    and q: "page_aligned q" "q \<noteq> 0" "unat q < 2 ^ 56" "q \<notin> tables m root"
    and zero: "\<And>a. PGROUNDDOWN a = q \<Longrightarrow> m a = 0"
  defines "m' \<equiv> store64 m (ent p k va) (PA2PTE q OR PTE_V)"
  shows "j \<le> 2 \<Longrightarrow> tbl m' root j va' =
    (if k < j \<and> eqpath (Suc k) va va' then (if j = Suc k then Some q else None)
     else tbl m root j va')"
proof (induction j)
  case 0
  then show ?case by simp
next
  case (Suc j)
  have pal: "page_aligned p" using pt_aligned [OF inv _ p] k by simp
  have e: "PTE2PA (PA2PTE q OR PTE_V) = q" "(PA2PTE q OR PTE_V) AND PTE_V \<noteq> 0"
    using q PTE2PA_entry [of q 1] by (simp_all add: and_V_iff bit_simps)
  have IH: "tbl m' root j va' =
    (if k < j \<and> eqpath (Suc k) va va' then (if j = Suc k then Some q else None)
     else tbl m root j va')"
    using Suc by simp
  consider "Suc j \<le> k" | "j = k" | "k < j" by linarith
  then show ?case
  proof cases
    case 1
    then show ?thesis
      unfolding m'_def using tbl_store_above [OF inv _ p, of "Suc j" _ va'] k by simp
  next
    case 2
    then have "tbl m' root j va' = tbl m root j va'" using IH by simp
    moreover have "load64 m' (ent r k va') =
        (if eqpath (Suc k) va va' then PA2PTE q OR PTE_V else load64 m (ent r k va'))"
      if "tbl m root k va' = Some r" for r
      unfolding m'_def using load_store_level [OF inv _ p that] k by simp
    moreover have "tbl m root k va' = Some p" if "eqpath (Suc k) va va'"
      using p tbl_eqpath [of k va va' m root] eqpath_le [OF that, of k] by simp
    ultimately show ?thesis using 2 e by (auto split: option.splits)
  next
    case 3
    show ?thesis
    proof (cases "eqpath (Suc k) va va'")
      case True
      have "p \<noteq> q" using q(4) tablesI [of k m root va p] p k by auto
      then have "load64 m' (ent q j va') = load64 m (ent q j va')"
        unfolding m'_def using pal q(1)
        by (intro load64_store64_other) (auto simp: aligned8_ent ent_eq_iff)
      also have "\<dots> = 0"
        using zero q(1) by (intro load64_zero) (auto simp: page_ent dest!: word8_in_page [OF aligned8_ent [OF q(1)]])
      finally show ?thesis using IH 3 True by (auto split: option.splits)
    next
      case False
      then have same: "tbl m' root j va' = tbl m root j va'" using IH by simp
      have "load64 m' (ent r j va') = load64 m (ent r j va')" if r: "tbl m root j va' = Some r" for r
      proof -
        have "page_aligned r" using pt_aligned [OF inv _ r] Suc.prems by simp
        moreover have "p \<noteq> r"
          using pt_inj [OF inv _ _ p, of j va'] r k 3 Suc.prems by auto
        ultimately show ?thesis
          unfolding m'_def using pal by (intro load64_store64_other) (auto simp: aligned8_ent ent_eq_iff)
      qed
      then show ?thesis using same False by (simp split: option.splits)
    qed
  qed
qed

lemma new_table:
  assumes inv: "pt_inv m root" and k: "k < 2" and p: "tbl m root k va = Some p"
    and inval: "load64 m (ent p k va) AND PTE_V = 0"
    and q: "page_aligned q" "q \<noteq> 0" "unat q < 2 ^ 56" "q \<notin> tables m root"
    and zero: "\<And>a. PGROUNDDOWN a = q \<Longrightarrow> m a = 0"
  defines "m' \<equiv> store64 m (ent p k va) (PA2PTE q OR PTE_V)"
  shows "pt_inv m' root" and "leaf m' root = leaf m root"
    and "tables m' root = insert q (tables m root)" and "tbl m' root (Suc k) va = Some q"
proof -
  have eq: "tbl m' root j va' =
    (if k < j \<and> eqpath (Suc k) va va' then (if j = Suc k then Some q else None)
     else tbl m root j va')" if "j \<le> 2" for j va'
    unfolding m'_def using tbl_new_table [OF inv k p inval q zero that] by blast
  show "tbl m' root (Suc k) va = Some q" using k by (subst eq) auto
  have old: "tbl m root j va' \<noteq> Some q" if "j \<le> 2" for j va'
    using q(4) tablesI [OF that] by auto
  have cases: "r = q \<and> j = Suc k \<and> eqpath (Suc k) va va' \<or> r \<noteq> q \<and> tbl m root j va' = Some r"
    if "tbl m' root j va' = Some r" "j \<le> 2" for j va' r
    using that old [of j va'] by (auto simp: eq split: if_splits)
  show "pt_inv m' root"
    unfolding pt_inv_def
  proof (intro conjI allI impI)
    fix j va' r assume "j \<le> 2" "tbl m' root j va' = Some r"
    then show "page_aligned r" "r \<noteq> 0"
      using cases q pt_aligned [OF inv] pt_nonzero [OF inv] by blast+
  next
    fix j j' va1 va2 r
    assume j: "j \<le> 2" "j' \<le> 2" and r: "tbl m' root j va1 = Some r" "tbl m' root j' va2 = Some r"
    have "j = j' \<and> eqpath j va1 va2"
      using cases [OF r(1) j(1)] cases [OF r(2) j(2)] pt_inj [OF inv j]
        eqpath_trans [OF eqpath_sym, of "Suc k" va va1 va2] by auto
    then show "j = j'" "eqpath j va1 va2" by auto
  qed
  have none: "tbl m root 2 va' = None" if "eqpath (Suc k) va va'" for va'
  proof -
    have "tbl m root (Suc k) va' = tbl m root (Suc k) va"
      using tbl_eqpath [OF that] by simp
    then have "tbl m root (Suc k) va' = None" using p inval by simp
    then show ?thesis by (rule tbl_None_mono) (use k in simp)
  qed
  have zero_leaf: "load64 m' (ent q 2 va') = 0" for va'
  proof -
    have pal: "page_aligned p" using pt_aligned [OF inv _ p] k by simp
    have "p \<noteq> q" using q(4) tablesI [of k m root va p] p k by auto
    then have "load64 m' (ent q 2 va') = load64 m (ent q 2 va')"
      unfolding m'_def using pal q(1)
      by (intro load64_store64_other) (auto simp: aligned8_ent ent_eq_iff)
    also have "\<dots> = 0"
      using zero q(1)
      by (intro load64_zero) (auto simp: page_ent dest!: word8_in_page [OF aligned8_ent [OF q(1)]])
    finally show ?thesis .
  qed
  show "leaf m' root = leaf m root"
  proof
    fix va'
    show "leaf m' root va' = leaf m root va'"
    proof (cases "eqpath (Suc k) va va'")
      case True
      with none [OF True] zero_leaf k show ?thesis by (auto simp: leaf_def eq)
    next
      case False
      have "load64 m' (ent r 2 va') = load64 m (ent r 2 va')" if r: "tbl m root 2 va' = Some r" for r
      proof -
        have "page_aligned r" "page_aligned p" "p \<noteq> r"
          using pt_aligned [OF inv _ r] pt_aligned [OF inv _ p] pt_inj [OF inv _ _ p, of 2 va'] r k
          by auto
        then show ?thesis
          unfolding m'_def by (intro load64_store64_other) (auto simp: aligned8_ent ent_eq_iff)
      qed
      with False show ?thesis by (auto simp: leaf_def eq split: option.splits)
    qed
  qed
  show "tables m' root = insert q (tables m root)"
  proof (rule set_eqI)
    fix r
    have "r \<in> tables m' root" if "r \<in> tables m root"
    proof -
      obtain j va' where j: "j \<le> 2" "tbl m root j va' = Some r" using \<open>r \<in> tables m root\<close> by (auto simp: tables_def)
      have "\<not> (k < j \<and> eqpath (Suc k) va va')"
      proof
        assume a: "k < j \<and> eqpath (Suc k) va va'"
        have "tbl m root (Suc k) va' = None"
          using tbl_eqpath [of "Suc k" va va' m root] a p inval by simp
        then have "tbl m root j va' = None" by (rule tbl_None_mono) (use a in simp)
        with j show False by simp
      qed
      with j show ?thesis by (intro tablesI [of j _ _ va']) (auto simp: eq)
    qed
    moreover have "q \<in> tables m' root"
      using \<open>tbl m' root (Suc k) va = Some q\<close> k by (intro tablesI [of "Suc k" _ _ va]) auto
    moreover have "r = q \<or> r \<in> tables m root" if "r \<in> tables m' root"
      using that cases by (fastforce simp: tables_def)
    ultimately show "r \<in> tables m' root \<longleftrightarrow> r \<in> insert q (tables m root)" by auto
  qed
qed

section \<open>Walking\<close>

definition vminv :: "'z kmem_st_scheme \<Rightarrow> addr \<Rightarrow> addr list \<Rightarrow> bool" where
  "vminv s root ps \<longleftrightarrow>
     pt_inv (mem s) root \<and> free_pages s ps \<and> tables (mem s) root \<inter> set ps = {}"

lemma walk_level_lookup:
  assumes "pt_inv (mem s) root" and "tbl (mem s) root k va = Some p" and "k + l = 2"
  shows "walk_level l p va False s =
    Inr (case tbl (mem s) root 2 va of None \<Rightarrow> 0 | Some q \<Rightarrow> ent q 2 va, s)"
  using assms(2,3)
proof (induction l arbitrary: k p)
  case 0
  then show ?case using ent_code [of 2 p va] by (simp add: run_simps)
next
  case (Suc l)
  then have k: "2 - k = Suc l" "k \<le> 2" by auto
  let ?e = "load64 (mem s) (ent p k va)"
  have code: "p + 8 * PX (Suc l) va = ent p k va" using ent_code [of k p va] k by simp
  show ?case
  proof (cases "?e AND PTE_V = 0")
    case True
    then have "tbl (mem s) root (Suc k) va = None" using Suc.prems by simp
    then have "tbl (mem s) root 2 va = None"
      by (rule tbl_None_mono) (use Suc.prems(2) in simp)
    with True show ?thesis by (simp add: code run_simps Let_def)
  next
    case False
    then have "tbl (mem s) root (Suc k) va = Some (PTE2PA ?e)" using Suc.prems by simp
    from Suc.IH [OF this] Suc.prems(2) False show ?thesis by (simp add: code run_simps Let_def)
  qed
qed

lemma walk_lookup:
  assumes "pt_inv (mem s) root" and "va < MAXVA"
  shows "walk root va False s =
    Inr (case tbl (mem s) root 2 va of None \<Rightarrow> 0 | Some q \<Rightarrow> ent q 2 va, s)"
  using walk_level_lookup [OF assms(1), of 0 va root 2] assms(2)
  by (auto simp: walk_def)

text \<open>What an allocating walk does to the state: it may turn free pages into tables.\<close>

definition grown :: "addr \<Rightarrow> nat \<Rightarrow> 'z kmem_st_scheme \<Rightarrow> addr list \<Rightarrow> 'z kmem_st_scheme \<Rightarrow> addr list \<Rightarrow> bool" where
  "grown root l s ps t ps' \<longleftrightarrow>
     vminv t root ps' \<and> mem_only s t \<and>
     (\<exists>us. ps = us @ ps' \<and> length us \<le> l \<and>
        tables (mem t) root = tables (mem s) root \<union> set us) \<and>
     (\<forall>x. x \<notin> tables (mem s) root \<union> set ps \<longrightarrow> same_page (mem s) (mem t) x)"

lemma grown_refl: "vminv s root ps \<Longrightarrow> grown root l s ps s ps"
  by (auto simp: grown_def)

lemma grown_trans:
  assumes "grown root l s ps t qs" and "grown root l' t qs u rs"
  shows "grown root (l + l') s ps u rs"
proof -
  obtain us vs where us: "ps = us @ qs" "length us \<le> l" "tables (mem t) root = tables (mem s) root \<union> set us"
    and vs: "qs = vs @ rs" "length vs \<le> l'" "tables (mem u) root = tables (mem t) root \<union> set vs"
    using assms unfolding grown_def by blast
  then have "ps = (us @ vs) @ rs \<and> length (us @ vs) \<le> l + l' \<and>
      tables (mem u) root = tables (mem s) root \<union> set (us @ vs)" by auto
  moreover have "same_page (mem s) (mem u) x" if "x \<notin> tables (mem s) root \<union> set ps" for x
  proof (rule same_page_trans)
    show "same_page (mem s) (mem t) x" using assms(1) that by (simp add: grown_def)
    have "x \<notin> tables (mem t) root \<union> set qs" using that us by auto
    then show "same_page (mem t) (mem u) x" using assms(2) by (simp add: grown_def)
  qed
  moreover have "mem_only s u"
    using assms by (intro mem_only_trans [of s t u]) (simp_all add: grown_def)
  moreover have "vminv u root rs"
    using assms by (simp add: grown_def)
  ultimately show ?thesis unfolding grown_def by blast
qed

lemma walk_level_alloc_step:
  assumes inv: "vminv s root (q # qs)" and p: "tbl (mem s) root k va = Some p" and k: "k < 2"
    and inval: "load64 (mem s) (ent p k va) AND PTE_V = 0"
  obtains t where "kalloc s = Inr (q, t)"
    and "grown root 1 s (q # qs)
      (t\<lparr>mem := store64 (memset (mem t) q 0 PGSIZE) (ent p k va) (PA2PTE q OR PTE_V)\<rparr>) qs"
    and "tbl (store64 (memset (mem t) q 0 PGSIZE) (ent p k va) (PA2PTE q OR PTE_V)) root (Suc k) va = Some q"
    and "leaf (store64 (memset (mem t) q 0 PGSIZE) (ent p k va) (PA2PTE q OR PTE_V)) root = leaf (mem s) root"
    and "q \<noteq> 0"
proof -
  have pt: "pt_inv (mem s) root" and fp: "free_pages s (q # qs)"
    and disj: "tables (mem s) root \<inter> set (q # qs) = {}"
    using inv by (auto simp: vminv_def)
  obtain t where t: "kalloc s = Inr (q, t)" "free_pages t qs"
    and fr: "\<And>x. x \<noteq> q \<Longrightarrow> same_page (mem s) (mem t) x"
    using kalloc_free_pages [OF fp] by metis
  have q: "page_aligned q" "q \<noteq> 0" "unat q < 2 ^ 56" "q \<notin> set qs"
    using fp by (auto simp: free_pages_def page_ok_def word_less_nat_alt)
  let ?m2 = "memset (mem t) q 0 PGSIZE"
  let ?m3 = "store64 ?m2 (ent p k va) (PA2PTE q OR PTE_V)"
  have fr2: "same_page (mem s) ?m2 x" if "x \<noteq> q" for x
    using that by (intro same_page_trans [OF fr same_page_memset [OF q(1)]]) auto
  have qt: "q \<notin> tables (mem s) root" using disj by auto
  have tfr: "same_page (mem s) ?m2 x" if "x \<in> tables (mem s) root" for x
    using fr2 that qt by metis
  have fr3: "tables ?m2 root = tables (mem s) root" "pt_inv ?m2 root"
    "leaf ?m2 root = leaf (mem s) root"
    by (rule tables_frame [OF pt tfr], assumption)+
  have p2: "tbl ?m2 root k va = Some p" using tbl_frame [OF pt tfr, of k va] p k by simp
  have pal: "page_aligned p" and pin: "p \<in> tables (mem s) root"
    using pt_aligned [OF pt _ p] tablesI [OF _ p] k by auto
  have "load64 ?m2 (ent p k va) = load64 (mem s) (ent p k va)"
    using tfr [OF pin] pal
    by (intro load64_same_page [symmetric]) (simp_all add: page_ent aligned8_ent)
  then have inval2: "load64 ?m2 (ent p k va) AND PTE_V = 0" using inval by simp
  have zero: "?m2 a = 0" if "PGROUNDDOWN a = q" for a
    using that q(1) by (simp add: memset_page)
  have qt2: "q \<notin> tables ?m2 root" using qt fr3(1) by simp
  have nt: "pt_inv ?m3 root" "leaf ?m3 root = leaf (mem s) root"
    "tables ?m3 root = insert q (tables (mem s) root)" "tbl ?m3 root (Suc k) va = Some q"
    using new_table [OF fr3(2) k p2 inval2 q(1-3) qt2 zero] fr3(1,3) by simp_all
  have same3: "same_page ?m2 ?m3 x" if "x \<noteq> p" for x
    using that pal by (intro same_page_store64) (simp_all add: aligned8_ent page_ent)
  have "same_page (mem t) ?m3 x" if "x \<in> set qs" for x
  proof -
    have "x \<noteq> q" "x \<noteq> p" using that q(4) pin disj by auto
    then show ?thesis
      by (intro same_page_trans [OF same_page_memset [OF q(1)] same3]) auto
  qed
  then have "free_pages (t\<lparr>mem := ?m3\<rparr>) qs" using t(2) by (intro free_pages_frame)
  moreover have "tables ?m3 root \<inter> set qs = {}" using nt(3) disj q(4) by auto
  ultimately have "vminv (t\<lparr>mem := ?m3\<rparr>) root qs" using nt(1) by (simp add: vminv_def)
  moreover have "mem_only s (t\<lparr>mem := ?m3\<rparr>)"
    using kalloc_mem_only [OF t(1)] mem_only_mem by (rule mem_only_trans)
  moreover have "same_page (mem s) ?m3 x" if "x \<notin> tables (mem s) root \<union> set (q # qs)" for x
    using that pin by (intro same_page_trans [OF fr2 same3]) auto
  moreover have "\<exists>us. q # qs = us @ qs \<and> length us \<le> 1 \<and> tables ?m3 root = tables (mem s) root \<union> set us"
    using nt(3) by (intro exI [of _ "[q]"]) auto
  ultimately have "grown root 1 s (q # qs) (t\<lparr>mem := ?m3\<rparr>) qs"
    by (simp add: grown_def)
  then show ?thesis by (rule that [OF t(1) _ nt(4) nt(2) q(2)])
qed

lemma grown_mono: "grown root l s ps t ps' \<Longrightarrow> l \<le> l' \<Longrightarrow> grown root l' s ps t ps'"
  by (auto simp: grown_def)

lemma walk_level_alloc:
  assumes "vminv s root ps" and "tbl (mem s) root k va = Some p" and "k + l = 2"
  shows "\<exists>r t ps'. walk_level l p va True s = Inr (r, t) \<and> grown root l s ps t ps' \<and>
    leaf (mem t) root = leaf (mem s) root \<and>
    (if r = 0 then ps' = [] \<and> length ps < l
     else \<exists>q. tbl (mem t) root 2 va = Some q \<and> r = ent q 2 va)"
  using assms
proof (induction l arbitrary: s ps k p)
  case 0
  then have "pt_inv (mem s) root" and k: "k = 2" by (simp_all add: vminv_def)
  then have "ent p 2 va \<noteq> 0"
    using 0 pt_aligned [of "mem s" root 2 va p] pt_nonzero [of "mem s" root 2 va p]
    by (intro ent_nonzero) auto
  moreover have "p + 8 * PX 0 va = ent p 2 va" using ent_code [of 2 p va] by simp
  ultimately show ?case using 0 k grown_refl [OF 0(1)] by (auto simp: run_simps)
next
  case (Suc l)
  then have k: "2 - k = Suc l" "k \<le> 2" "k < 2" by auto
  let ?e = "load64 (mem s) (ent p k va)"
  have code: "p + 8 * PX (Suc l) va = ent p k va" using ent_code [of k p va] k by simp
  show ?case
  proof (cases "?e AND PTE_V = 0")
    case False
    then have "tbl (mem s) root (Suc k) va = Some (PTE2PA ?e)" using Suc.prems(2) by simp
    moreover have "Suc k + l = 2" using Suc.prems(3) by simp
    moreover have "walk_level (Suc l) p va True s = walk_level l (PTE2PA ?e) va True s"
      using False by (simp add: code Let_def run_simps)
    moreover have "length ps < l \<Longrightarrow> length ps < Suc l" by simp
    ultimately show ?thesis
      using Suc.IH [OF Suc.prems(1), of "Suc k" "PTE2PA ?e"] grown_mono [of root l s ps _ _ "Suc l"]
      by (fastforce split: if_splits)
  next
    case True
    show ?thesis
    proof (cases ps)
      case Nil
      then have "kalloc s = Inr (0, s)"
        using Suc.prems(1) by (simp add: vminv_def kalloc_empty)
      then have "walk_level (Suc l) p va True s = Inr (0, s)"
        using True by (simp add: code Let_def run_simps)
      with Nil grown_refl [OF Suc.prems(1)] show ?thesis by auto
    next
      case (Cons q qs)
      let ?st = "\<lambda>t. t\<lparr>mem := store64 (memset (mem t) q 0 PGSIZE) (ent p k va) (PA2PTE q OR PTE_V)\<rparr>"
      obtain t where t: "kalloc s = Inr (q, t)" and g: "grown root 1 s (q # qs) (?st t) qs"
        and q: "tbl (mem (?st t)) root (Suc k) va = Some q" and lf: "leaf (mem (?st t)) root = leaf (mem s) root"
        and "q \<noteq> 0"
        using walk_level_alloc_step [OF Suc.prems(1) [unfolded Cons] Suc.prems(2) k(3) True] by auto
      have "walk_level (Suc l) p va True s = walk_level l q va True (?st t)"
        using True t \<open>q \<noteq> 0\<close> by (simp add: code Let_def run_simps)
      moreover obtain r u us where "walk_level l q va True (?st t) = Inr (r, u)" "grown root l (?st t) qs u us"
        "leaf (mem u) root = leaf (mem (?st t)) root"
        "if r = 0 then us = [] \<and> length qs < l
         else \<exists>q. tbl (mem u) root 2 va = Some q \<and> r = ent q 2 va"
        using Suc.IH [of "?st t" qs "Suc k" q] g q Suc.prems(3) by (auto simp: grown_def)
      moreover from this(2) have "grown root (Suc l) s ps u us"
        using grown_trans [OF g] Cons by simp
      ultimately show ?thesis using lf Cons
        by (intro exI [of _ r] exI [of _ u] exI [of _ us]) (auto split: if_splits)
    qed
  qed
qed

lemma walk_alloc:
  assumes "vminv s root ps" and "va < MAXVA"
  shows "\<exists>r t ps'. walk root va True s = Inr (r, t) \<and> grown root 2 s ps t ps' \<and>
    leaf (mem t) root = leaf (mem s) root \<and>
    (if r = 0 then ps' = [] \<and> length ps < 2
     else \<exists>q. tbl (mem t) root 2 va = Some q \<and> r = ent q 2 va)"
  using walk_level_alloc [OF assms(1), of 0 va root 2] assms(2) by (auto simp: walk_def)

end
