(* ===== verification/Vm_Map.thy ===== *)
theory Vm_Map
  imports Vm_Table
begin

text \<open>
  What \<^verbatim>\<open>mappages\<close>, \<^verbatim>\<open>uvmunmap\<close>, \<^verbatim>\<open>uvmalloc\<close> and \<^verbatim>\<open>walkaddr\<close> (\<^verbatim>\<open>kernel/vm.c\<close>) do to an address
  space: each is characterised by its effect on \<open>leaf\<close>, the entry every virtual address
  resolves to, and on the list of free pages.
\<close>

section \<open>Ranges of virtual pages\<close>

definition in_range :: "addr \<Rightarrow> nat \<Rightarrow> addr \<Rightarrow> bool" where
  "in_range va n v \<longleftrightarrow> unat va \<le> unat v \<and> unat v < unat va + 4096 * n"

lemma unat_add_of_nat:
  fixes a :: addr
  assumes "unat a + k < 2 ^ 64"
  shows "unat (a + of_nat k) = unat a + k"
proof -
  have "unat (of_nat k :: addr) = k" using assms by (intro unat_of_nat_lt) simp
  with assms show ?thesis by (subst unat_add_nowrap) simp_all
qed

lemma in_range_0 [simp]: "\<not> in_range va 0 v"
  by (simp add: in_range_def)

lemma in_range_1: "page_aligned va \<Longrightarrow> in_range va (Suc 0) v \<longleftrightarrow> PGROUNDDOWN v = va"
  using in_page_iff [of va v] word_diff_lt_iff [of va 4096 v] unat_page_nowrap [of va]
  by (simp add: in_range_def)

lemma next_page:
  assumes "page_aligned va" and "unat va + 4096 * Suc n \<le> unat MAXVA"
  shows "unat (va + 4096) = unat va + 4096" and "page_aligned (va + 4096)"
    and "in_range va (Suc n) v \<longleftrightarrow> PGROUNDDOWN v = va \<or> in_range (va + 4096) n v"
    and "PGROUNDDOWN v = va \<Longrightarrow> \<not> in_range (va + 4096) n v"
    and "va < MAXVA"
proof -
  show u: "unat (va + 4096) = unat va + 4096"
    using assms(2) unat_add_nowrap [of va 4096] by simp
  then show "page_aligned (va + 4096)" using assms(1) by (simp add: page_aligned_def)
  show "in_range va (Suc n) v \<longleftrightarrow> PGROUNDDOWN v = va \<or> in_range (va + 4096) n v"
    and "PGROUNDDOWN v = va \<Longrightarrow> \<not> in_range (va + 4096) n v"
    using in_range_1 [OF assms(1), of v] u by (auto simp: in_range_def)
  show "va < MAXVA" using assms(2) by (simp add: word_less_nat_alt)
qed

section \<open>Writing a leaf entry\<close>

lemma grown_store_leaf:
  assumes g: "grown root l s ps t ps'" and q: "tbl (mem t) root 2 va = Some q"
  shows "grown root l s ps (t\<lparr>mem := store64 (mem t) (ent q 2 va) e\<rparr>) ps'"
proof -
  let ?m = "store64 (mem t) (ent q 2 va) e"
  have inv: "pt_inv (mem t) root" and fp: "free_pages t ps'"
    and disj: "tables (mem t) root \<inter> set ps' = {}"
    using g by (simp_all add: grown_def vminv_def)
  have al: "page_aligned q" and qt: "q \<in> tables (mem t) root"
    using pt_aligned [OF inv _ q] tablesI [OF _ q] by simp_all
  have same: "same_page (mem t) ?m x" if "x \<noteq> q" for x
    using that al by (intro same_page_store64) (simp_all add: aligned8_ent page_ent)
  have "free_pages (t\<lparr>mem := ?m\<rparr>) ps'"
    using fp by (rule free_pages_frame) (rule same, use qt disj in auto)
  then have "vminv (t\<lparr>mem := ?m\<rparr>) root ps'"
    using leaf_store(2,3) [OF inv q] disj by (simp add: vminv_def)
  moreover obtain us where us: "ps = us @ ps'" "length us \<le> l"
    "tables (mem t) root = tables (mem s) root \<union> set us"
    using g by (auto simp: grown_def)
  moreover have "same_page (mem s) ?m x" if "x \<notin> tables (mem s) root \<union> set ps" for x
  proof (rule same_page_trans)
    show "same_page (mem s) (mem t) x" using g that by (simp add: grown_def)
    show "same_page (mem t) ?m x" using us that qt by (intro same) auto
  qed
  moreover have "mem_only s (t\<lparr>mem := ?m\<rparr>)"
    using g by (intro mem_only_trans [OF _ mem_only_mem]) (simp add: grown_def)
  ultimately show ?thesis
    using leaf_store(3) [OF inv q] by (auto simp: grown_def)
qed

lemma leaf_walked: "tbl m root 2 va = Some q \<Longrightarrow> load64 m (ent q 2 va) = leaf m root va"
  by (simp add: leaf_def)

section \<open>mappages\<close>

definition entry :: "addr \<Rightarrow> 64 word \<Rightarrow> 64 word" where
  "entry pa perm = PA2PTE pa OR perm OR PTE_V"

text \<open>The address space \<open>f\<close> with \<open>n\<close> pages from \<open>va\<close> mapped to the physical pages from \<open>pa\<close>.\<close>

definition mapped :: "(addr \<Rightarrow> 64 word) \<Rightarrow> addr \<Rightarrow> nat \<Rightarrow> addr \<Rightarrow> 64 word \<Rightarrow> addr \<Rightarrow> 64 word" where
  "mapped f va n pa perm v =
     (if in_range va n v then entry (pa + (PGROUNDDOWN v - va)) perm else f v)"

lemma mapped_0 [simp]: "mapped f va 0 pa perm = f"
  by (simp add: mapped_def fun_eq_iff)

lemma mapped_Suc:
  assumes "page_aligned va" and "unat va + 4096 * Suc n \<le> unat MAXVA"
    and "f' v = (if PGROUNDDOWN v = va then entry pa perm else f v)"
  shows "mapped f' (va + 4096) n (pa + 4096) perm v = mapped f va (Suc n) pa perm v"
  using next_page(3,4) [OF assms(1,2), of v] assms(3) by (auto simp: mapped_def)

lemma mappages_step:
  assumes inv: "vminv s root ps" and al: "page_aligned va" and va: "va < MAXVA"
    and free: "leaf (mem s) root va AND PTE_V = 0"
  obtains t ps' where "walk root va True s = Inr (0, t)" "grown root 2 s ps t ps'"
      "leaf (mem t) root = leaf (mem s) root" "ps' = []" "length ps < 2"
  | pte t ps' where "walk root va True s = Inr (pte, t)" "pte \<noteq> 0" "load64 (mem t) pte AND PTE_V = 0"
      "grown root 2 s ps (t\<lparr>mem := store64 (mem t) pte e\<rparr>) ps'"
      "\<And>v. v < MAXVA \<Longrightarrow> leaf (store64 (mem t) pte e) root v =
        (if PGROUNDDOWN v = va then e else leaf (mem s) root v)"
proof -
  obtain r t ps' where w: "walk root va True s = Inr (r, t)" "grown root 2 s ps t ps'"
    "leaf (mem t) root = leaf (mem s) root"
    and r: "if r = 0 then ps' = [] \<and> length ps < 2
     else \<exists>q. tbl (mem t) root 2 va = Some q \<and> r = ent q 2 va"
    using walk_alloc [OF inv va] by blast
  show ?thesis
  proof (cases "r = 0")
    case True
    with w r show ?thesis by (intro that(1) [of t ps']) auto
  next
    case False
    then obtain q where q: "tbl (mem t) root 2 va = Some q" "r = ent q 2 va" using r by auto
    have "pt_inv (mem t) root" using w(2) by (simp add: grown_def vminv_def)
    then have lf: "leaf (store64 (mem t) r e) root v =
        (if PGROUNDDOWN v = va then e else leaf (mem s) root v)" if "v < MAXVA" for v
      using leaf_store(1) [of "mem t" root va q e v] q w(3) eqpath3_iff [OF va that] al by auto
    have "load64 (mem t) r AND PTE_V = 0" using leaf_walked [OF q(1)] free w(3) q(2) by simp
    from that(2) [OF w(1) False this] show ?thesis
      using grown_store_leaf [OF w(2) q(1)] lf q(2) by blast
  qed
qed

lemma mappages_loop_run:
  assumes "vminv s root ps" and "page_aligned va" and "unat va + 4096 * Suc n \<le> unat MAXVA"
    and "last_a = va + of_nat (4096 * n)" and "n < fuel"
    and "\<forall>v<MAXVA. in_range va (Suc n) v \<longrightarrow> leaf (mem s) root v AND PTE_V = 0"
  shows "\<exists>r t ps' k. mappages_loop fuel root va last_a pa perm s = Inr (r, t) \<and>
    grown root (2 * Suc n) s ps t ps' \<and>
    (r = 0 \<and> k = Suc n \<or> r = - 1 \<and> k \<le> n \<and> ps' = [] \<and> length ps < 2 * Suc n) \<and>
    (\<forall>v<MAXVA. leaf (mem t) root v = mapped (leaf (mem s) root) va k pa perm v)"
  using assms
proof (induction n arbitrary: fuel s ps va pa)
  case (0 fuel s ps va pa)
  then obtain f where f: "fuel = Suc f" by (cases fuel) auto
  have va: "va < MAXVA" using next_page(5) 0 by blast
  have free: "leaf (mem s) root va AND PTE_V = 0" using 0(6) va in_range_1 [OF 0(2)] 0(2) by simp
  show ?case
  proof (rule mappages_step [OF 0(1,2) va free, where e = "entry pa perm"])
    fix t ps' assume "walk root va True s = Inr (0, t)" "grown root 2 s ps t ps'"
      "leaf (mem t) root = leaf (mem s) root" "ps' = []" "length ps < 2"
    then show ?thesis
      by (intro exI [of _ "- 1"] exI [of _ t] exI [of _ ps'] exI [of _ 0]) (simp add: f run_simps)
  next
    fix pte t ps' assume h: "walk root va True s = Inr (pte, t)" "pte \<noteq> 0" "load64 (mem t) pte AND PTE_V = 0"
      "grown root 2 s ps (t\<lparr>mem := store64 (mem t) pte (entry pa perm)\<rparr>) ps'"
      "\<And>v. v < MAXVA \<Longrightarrow> leaf (store64 (mem t) pte (entry pa perm)) root v =
        (if PGROUNDDOWN v = va then entry pa perm else leaf (mem s) root v)"
    then show ?thesis using 0(4)
      by (intro exI [of _ 0] exI [of _ "t\<lparr>mem := store64 (mem t) pte (entry pa perm)\<rparr>"] exI [of _ ps'] exI [of _ "Suc 0"])
        (simp add: f run_simps mapped_def in_range_1 [OF 0(2)] entry_def)
  qed
next
  case (Suc n fuel s ps va pa)
  then obtain f where f: "fuel = Suc f" by (cases fuel) auto
  note np = next_page [OF Suc.prems(2,3)]
  have va: "va < MAXVA" using np(5) .
  have free: "leaf (mem s) root va AND PTE_V = 0" using Suc.prems(2,6) va np(3) [of va] by simp
  have "unat last_a = unat va + 4096 * Suc n"
    unfolding Suc.prems(4) using Suc.prems(3) by (intro unat_add_of_nat) simp
  then have ne: "va \<noteq> last_a" by auto
  show ?case
  proof (rule mappages_step [OF Suc.prems(1,2) va free, where e = "entry pa perm"])
    fix t ps' assume h: "walk root va True s = Inr (0, t)" "grown root 2 s ps t ps'"
      "leaf (mem t) root = leaf (mem s) root" "ps' = []" "length ps < 2"
    then show ?thesis using grown_mono [OF h(2), of "2 * Suc (Suc n)"]
      by (intro exI [of _ "- 1"] exI [of _ t] exI [of _ ps'] exI [of _ 0]) (simp add: f run_simps)
  next
    fix pte and t :: "'a kmem_st_scheme" and qs
    let ?t = "t\<lparr>mem := store64 (mem t) pte (entry pa perm)\<rparr>"
    assume h: "walk root va True s = Inr (pte, t)" "pte \<noteq> 0" "load64 (mem t) pte AND PTE_V = 0"
      "grown root 2 s ps ?t qs"
      "\<And>v. v < MAXVA \<Longrightarrow> leaf (store64 (mem t) pte (entry pa perm)) root v =
        (if PGROUNDDOWN v = va then entry pa perm else leaf (mem s) root v)"
    have run: "mappages_loop fuel root va last_a pa perm s =
        mappages_loop f root (va + 4096) last_a (pa + 4096) perm ?t"
      using h ne by (simp add: f run_simps entry_def)
    have inv: "vminv ?t root qs" using h(4) by (simp add: grown_def)
    have up: "unat (va + 4096) + 4096 * Suc n \<le> unat MAXVA" using np(1) Suc.prems(3) by simp
    have la: "last_a = va + 4096 + of_nat (4096 * n)" using Suc.prems(4) by simp
    have fr: "\<forall>v<MAXVA. in_range (va + 4096) (Suc n) v \<longrightarrow> leaf (mem ?t) root v AND PTE_V = 0"
      using h(5) Suc.prems(6) np(3,4) by simp
    have "n < f" using Suc.prems(5) f by simp
    from Suc.IH [OF inv np(2) up la this fr, of "pa + 4096"]
    obtain r u rs k where u: "mappages_loop f root (va + 4096) last_a (pa + 4096) perm ?t = Inr (r, u)"
      "grown root (2 * Suc n) ?t qs u rs"
      "r = 0 \<and> k = Suc n \<or> r = - 1 \<and> k \<le> n \<and> rs = [] \<and> length qs < 2 * Suc n"
      "\<forall>v<MAXVA. leaf (mem u) root v = mapped (leaf (mem ?t) root) (va + 4096) k (pa + 4096) perm v"
      by blast
    have g: "grown root (2 * Suc (Suc n)) s ps u rs"
      using grown_trans [OF h(4) u(2)] by simp
    have len: "length ps < 2 * Suc (Suc n)" if "length qs < 2 * Suc n"
      using h(4) that by (auto simp: grown_def)
    have k: "unat va + 4096 * Suc k \<le> unat MAXVA" using u(3) Suc.prems(3) by auto
    have lf: "leaf (mem u) root v = mapped (leaf (mem s) root) va (Suc k) pa perm v" if "v < MAXVA" for v
      using u(4) that h(5) [OF that] mapped_Suc [OF Suc.prems(2) k, of "leaf (mem ?t) root" v] by simp
    show ?thesis
      by (intro exI [of _ r] exI [of _ u] exI [of _ rs] exI [of _ "Suc k"])
        (use run u(1,3) g lf len in auto)
  qed
qed

lemma mappages_run:
  assumes "vminv s root ps" and "page_aligned va" and "sz mod PGSIZE = 0" and "sz \<noteq> 0"
    and "unat va + unat sz \<le> unat MAXVA"
    and "\<forall>v<MAXVA. in_range va (unat sz div 4096) v \<longrightarrow> leaf (mem s) root v AND PTE_V = 0"
  obtains r t ps' k where "mappages root va sz pa perm s = Inr (r, t)"
    and "grown root (2 * (unat sz div 4096)) s ps t ps'"
    and "r = 0 \<and> k = unat sz div 4096 \<or>
      r = - 1 \<and> k < unat sz div 4096 \<and> ps' = [] \<and> length ps < 2 * (unat sz div 4096)"
    and "\<forall>v<MAXVA. leaf (mem t) root v = mapped (leaf (mem s) root) va k pa perm v"
proof -
  have dv: "unat sz = 4096 * (unat sz div 4096)"
    using assms(3) page_aligned_iff_mod [of sz] by (auto simp: page_aligned_def)
  moreover have "unat sz \<noteq> 0" using assms(4) by (simp add: unat_eq_zero)
  ultimately obtain n where n: "unat sz div 4096 = Suc n" by (cases "unat sz div 4096") auto
  have "of_nat (unat sz) = (of_nat (4096 * Suc n) :: addr)" using dv n by (simp only:)
  then have "sz = of_nat (4096 * Suc n)" by (simp del: of_nat_mult of_nat_Suc)
  then have la: "va + sz - PGSIZE = va + of_nat (4096 * n)" by simp
  have up: "unat va + 4096 * Suc n \<le> unat MAXVA" using assms(5) dv n by simp
  have fr: "\<forall>v<MAXVA. in_range va (Suc n) v \<longrightarrow> leaf (mem s) root v AND PTE_V = 0"
    using assms(6) n by simp
  obtain r t ps' k where run: "mappages_loop (Suc n) root va (va + sz - PGSIZE) pa perm s = Inr (r, t)"
    and g: "grown root (2 * Suc n) s ps t ps'"
    and k: "r = 0 \<and> k = Suc n \<or> r = - 1 \<and> k \<le> n \<and> ps' = [] \<and> length ps < 2 * Suc n"
    and lf: "\<forall>v<MAXVA. leaf (mem t) root v = mapped (leaf (mem s) root) va k pa perm v"
    using mappages_loop_run [OF assms(1,2) up la lessI fr, of pa perm] by blast
  have "mappages root va sz pa perm s = Inr (r, t)"
    using run assms(2-4) n by (simp add: mappages_def page_aligned_iff_mod)
  then show ?thesis by (rule that [where k = k]) (use g k lf n in auto)
qed

section \<open>walkaddr\<close>

lemma walkaddr_run:
  assumes "pt_inv (mem s) root"
  shows "walkaddr root va s =
    Inr (let e = leaf (mem s) root va in
         if va < MAXVA \<and> e AND PTE_V \<noteq> 0 \<and> e AND PTE_U \<noteq> 0 then PTE2PA e else 0, s)"
proof (cases "tbl (mem s) root 2 va")
  case None
  then show ?thesis using walk_lookup [OF assms, of va]
    by (auto simp: walkaddr_def run_simps leaf_def Let_def not_le)
next
  case (Some q)
  then have "ent q 2 va \<noteq> 0"
    using pt_aligned [OF assms _ Some] pt_nonzero [OF assms _ Some] by (intro ent_nonzero) auto
  with Some show ?thesis using walk_lookup [OF assms, of va]
    by (auto simp: walkaddr_def run_simps leaf_def Let_def not_le)
qed

section \<open>uvmunmap\<close>

text \<open>The physical pages mapped by \<open>n\<close> virtual pages from \<open>va\<close>, in order.\<close>

primrec upages :: "(addr \<Rightarrow> 64 word) \<Rightarrow> addr \<Rightarrow> nat \<Rightarrow> addr list" where
  "upages f va 0 = []"
| "upages f va (Suc n) =
     (if f va AND PTE_V \<noteq> 0 then [PTE2PA (f va)] else []) @ upages f (va + 4096) n"

text \<open>
  The free list after the pages \<open>us\<close> were freed one after the other; tables and every page
  outside \<open>us\<close> keep their place and contents.
\<close>

definition shrunk :: "addr \<Rightarrow> 'z kmem_st_scheme \<Rightarrow> addr list \<Rightarrow> addr list \<Rightarrow> 'z kmem_st_scheme \<Rightarrow> bool" where
  "shrunk root s ps us t \<longleftrightarrow>
     vminv t root (rev us @ ps) \<and> mem_only s t \<and> tables (mem t) root = tables (mem s) root \<and>
     (\<forall>x. x \<notin> tables (mem s) root \<union> set us \<longrightarrow> same_page (mem s) (mem t) x)"

lemma shrunk_refl: "vminv s root ps \<Longrightarrow> shrunk root s ps [] s"
  by (simp add: shrunk_def)

lemma shrunk_trans:
  assumes "shrunk root s ps us t" and "shrunk root t (rev us @ ps) vs u"
  shows "shrunk root s ps (us @ vs) u"
proof -
  have "same_page (mem s) (mem u) x" if "x \<notin> tables (mem s) root \<union> set (us @ vs)" for x
    by (rule same_page_trans [of _ "mem t"]) (use assms that in \<open>simp_all add: shrunk_def\<close>)
  moreover have "mem_only s u"
    by (rule mem_only_trans [of s t u]) (use assms in \<open>simp_all add: shrunk_def\<close>)
  ultimately show ?thesis using assms by (simp add: shrunk_def)
qed

lemma shrunk_store_leaf:
  assumes sh: "shrunk root s ps us t" and q: "tbl (mem t) root 2 va = Some q"
  shows "shrunk root s ps us (t\<lparr>mem := store64 (mem t) (ent q 2 va) e\<rparr>)"
proof -
  have "vminv t root (rev us @ ps)" using sh by (simp add: shrunk_def)
  then have "grown root 0 t (rev us @ ps) (t\<lparr>mem := store64 (mem t) (ent q 2 va) e\<rparr>) (rev us @ ps)"
    by (intro grown_store_leaf [OF grown_refl q])
  then have g: "vminv (t\<lparr>mem := store64 (mem t) (ent q 2 va) e\<rparr>) root (rev us @ ps)"
    "tables (store64 (mem t) (ent q 2 va) e) root = tables (mem t) root"
    by (auto simp: grown_def)
  have inv: "pt_inv (mem t) root" using sh by (simp add: shrunk_def vminv_def)
  have al: "page_aligned q" and qt: "q \<in> tables (mem t) root"
    using pt_aligned [OF inv _ q] tablesI [OF _ q] by simp_all
  have "same_page (mem s) (store64 (mem t) (ent q 2 va) e) x" if "x \<notin> tables (mem s) root \<union> set us" for x
  proof (rule same_page_trans)
    show "same_page (mem s) (mem t) x" using sh that by (simp add: shrunk_def)
    have "x \<noteq> q" using qt that sh by (auto simp: shrunk_def)
    then show "same_page (mem t) (store64 (mem t) (ent q 2 va) e) x"
      using al by (intro same_page_store64) (simp_all add: aligned8_ent page_ent)
  qed
  moreover have "mem_only s (t\<lparr>mem := store64 (mem t) (ent q 2 va) e\<rparr>)"
    using sh by (intro mem_only_trans [OF _ mem_only_mem]) (simp add: shrunk_def)
  ultimately show ?thesis using g sh by (simp add: shrunk_def)
qed

lemma shrunk_kfree:
  assumes inv: "vminv s root ps" and ok: "page_ok s p" and new: "p \<notin> set ps" "p \<notin> tables (mem s) root"
  obtains t where "kfree p s = Inr ((), t)" and "shrunk root s ps [p] t"
    and "leaf (mem t) root = leaf (mem s) root" and "tbl (mem t) root 2 va = tbl (mem s) root 2 va"
proof -
  have pt: "pt_inv (mem s) root" and fp: "free_pages s ps" and disj: "tables (mem s) root \<inter> set ps = {}"
    using inv by (simp_all add: vminv_def)
  obtain t where t: "kfree p s = Inr ((), t)" "free_pages t (p # ps)"
    and fr: "\<And>x. x \<noteq> p \<Longrightarrow> same_page (mem s) (mem t) x"
    using kfree_free_pages [OF fp ok new(1)] by metis
  have tfr: "same_page (mem s) (mem t) x" if "x \<in> tables (mem s) root" for x
    using fr that new(2) by metis
  have tf: "tables (mem t) root = tables (mem s) root" "pt_inv (mem t) root"
    "leaf (mem t) root = leaf (mem s) root"
    by (rule tables_frame [OF pt tfr], assumption)+
  have "vminv t root (p # ps)" using tf t(2) disj new by (auto simp: vminv_def)
  then have "shrunk root s ps [p] t"
    using tf fr kfree_mem_only [OF ok t(1)] by (simp add: shrunk_def)
  moreover have "tbl (mem t) root 2 va = tbl (mem s) root 2 va"
    by (rule tbl_frame [OF pt tfr]) simp_all
  ultimately show ?thesis using t(1) tf(3) by (intro that)
qed

lemma upages_cong:
  "page_aligned va \<Longrightarrow> unat va + 4096 * n \<le> unat MAXVA \<Longrightarrow>
   \<forall>v<MAXVA. in_range va n v \<longrightarrow> f v = g v \<Longrightarrow> upages f va n = upages g va n"
proof (induction n arbitrary: va)
  case 0
  then show ?case by simp
next
  case (Suc n)
  note np = next_page [OF Suc.prems(1,2)]
  have "upages f (va + 4096) n = upages g (va + 4096) n"
    using Suc.prems(2,3) np(1,2,3) by (intro Suc.IH) auto
  moreover have "f va = g va" using Suc.prems(1,3) np(3) [of va] np(5) by simp
  ultimately show ?case by simp
qed

lemma uvmunmap_step:
  assumes inv: "vminv s root ps" and al: "page_aligned va" and va: "va < MAXVA" and "va < aend"
    and own: "do_free \<Longrightarrow> \<forall>p\<in>set (upages (leaf (mem s) root) va 1).
        page_ok s p \<and> p \<notin> set ps \<and> p \<notin> tables (mem s) root"
  obtains t where "uvmunmap_loop (Suc fuel) root va aend do_free s =
      uvmunmap_loop fuel root (va + 4096) aend do_free t"
    and "shrunk root s ps (if do_free then upages (leaf (mem s) root) va 1 else []) t"
    and "\<And>v. v < MAXVA \<Longrightarrow> leaf (mem t) root v =
      (if PGROUNDDOWN v = va \<and> leaf (mem s) root v AND PTE_V \<noteq> 0 then 0 else leaf (mem s) root v)"
proof (cases "leaf (mem s) root va AND PTE_V = 0")
  case True
  have pt: "pt_inv (mem s) root" using inv by (simp add: vminv_def)
  have nv: "leaf (mem s) root v AND PTE_V = 0" if "v < MAXVA" "PGROUNDDOWN v = va" for v
    using True leaf_eqpath [of va v "mem s" root] eqpath3_iff [OF va that(1)] that(2) al by auto
  have "uvmunmap_loop (Suc fuel) root va aend do_free s =
      uvmunmap_loop fuel root (va + 4096) aend do_free s"
    using True walk_lookup [OF pt va] assms(4) by (auto simp: run_simps leaf_def split: option.splits)
  then show ?thesis by (rule that) (use shrunk_refl [OF inv] True in simp, use nv in auto)
next
  case False
  have pt: "pt_inv (mem s) root" using inv by (simp add: vminv_def)
  from False obtain q where q: "tbl (mem s) root 2 va = Some q"
    by (auto simp: leaf_def split: option.splits)
  have nz: "ent q 2 va \<noteq> 0"
    using pt_aligned [OF pt _ q] pt_nonzero [OF pt _ q] by (intro ent_nonzero) auto
  let ?p = "PTE2PA (leaf (mem s) root va)"
  obtain t where t: "(if do_free then kfree ?p else skip) s = Inr ((), t)"
    "shrunk root s ps (if do_free then [?p] else []) t"
    "leaf (mem t) root = leaf (mem s) root" "tbl (mem t) root 2 va = Some q"
  proof (cases do_free)
    case True
    then have "page_ok s ?p" "?p \<notin> set ps" "?p \<notin> tables (mem s) root"
      using own False by simp_all
    then show ?thesis using shrunk_kfree [OF inv, of ?p va] that True q by auto
  next
    case False
    then show ?thesis using that [of s] shrunk_refl [OF inv] q by (simp add: run_simps)
  qed
  let ?t = "t\<lparr>mem := store64 (mem t) (ent q 2 va) 0\<rparr>"
  have "uvmunmap_loop (Suc fuel) root va aend do_free s =
      uvmunmap_loop fuel root (va + 4096) aend do_free ?t"
    using False walk_lookup [OF pt va] assms(4) q nz t(1)
    by (auto simp: run_simps leaf_walked [OF q] split: if_splits)
  moreover have "shrunk root s ps (if do_free then upages (leaf (mem s) root) va 1 else []) ?t"
    using shrunk_store_leaf [OF t(2,4), of 0] False by (simp split: if_splits)
  moreover have ptt: "pt_inv (mem t) root" using t(2) by (simp add: shrunk_def vminv_def)
  have "leaf (mem ?t) root v =
      (if PGROUNDDOWN v = va \<and> leaf (mem s) root v AND PTE_V \<noteq> 0 then 0 else leaf (mem s) root v)"
    if "v < MAXVA" for v
    using leaf_store(1) [OF ptt t(4), of 0 v] eqpath3_iff [OF va that] al t(3) False
      leaf_eqpath [of va v "mem s" root] by auto
  ultimately show ?thesis using that by blast
qed

text \<open>The address space after \<open>n\<close> pages from \<open>va\<close> were unmapped.\<close>

definition unmapped :: "(addr \<Rightarrow> 64 word) \<Rightarrow> addr \<Rightarrow> nat \<Rightarrow> addr \<Rightarrow> 64 word" where
  "unmapped f va n v = (if in_range va n v \<and> f v AND PTE_V \<noteq> 0 then 0 else f v)"

lemma shrunk_page_ok: "shrunk root s ps us t \<Longrightarrow> page_ok t = page_ok s"
  by (rule page_ok_cong) (simp add: shrunk_def mem_only_kend)

lemma uvmunmap_loop_run:
  assumes "vminv s root ps" and "page_aligned va" and "unat va + 4096 * n \<le> unat MAXVA"
    and "aend = va + of_nat (4096 * n)" and "n < fuel"
    and "us = (if do_free then upages (leaf (mem s) root) va n else [])"
    and "distinct us" and "\<forall>p\<in>set us. page_ok s p \<and> p \<notin> set ps \<and> p \<notin> tables (mem s) root"
  shows "\<exists>t. uvmunmap_loop fuel root va aend do_free s = Inr ((), t) \<and> shrunk root s ps us t \<and>
    (\<forall>v<MAXVA. leaf (mem t) root v = unmapped (leaf (mem s) root) va n v)"
  using assms
proof (induction n arbitrary: fuel s ps va us)
  case 0
  then show ?case
    by (cases fuel) (auto simp: run_simps unmapped_def in_range_def shrunk_refl)
next
  case (Suc n)
  obtain f where f: "fuel = Suc f" using Suc.prems(5) by (cases fuel) auto
  note np = next_page [OF Suc.prems(2,3)]
  let ?lf = "leaf (mem s) root"
  let ?vs = "if do_free then upages ?lf va 1 else []"
  let ?ws = "if do_free then upages ?lf (va + 4096) n else []"
  have us: "us = ?vs @ ?ws" using Suc.prems(6) by simp
  have "unat aend = unat va + 4096 * Suc n"
    unfolding Suc.prems(4) using Suc.prems(3) by (intro unat_add_of_nat) simp
  then have lt: "va < aend" by (simp add: word_less_nat_alt)
  have "\<forall>p\<in>set (upages ?lf va 1). page_ok s p \<and> p \<notin> set ps \<and> p \<notin> tables (mem s) root" if do_free
    using Suc.prems(8) us that by auto
  then obtain t where t: "uvmunmap_loop fuel root va aend do_free s =
      uvmunmap_loop f root (va + 4096) aend do_free t" "shrunk root s ps ?vs t"
    "\<And>v. v < MAXVA \<Longrightarrow> leaf (mem t) root v =
      (if PGROUNDDOWN v = va \<and> ?lf v AND PTE_V \<noteq> 0 then 0 else ?lf v)"
    using uvmunmap_step [OF Suc.prems(1,2) np(5) lt] f by metis
  have inv: "vminv t root (rev ?vs @ ps)" using t(2) by (simp add: shrunk_def)
  have up: "unat (va + 4096) + 4096 * n \<le> unat MAXVA" using np(1) Suc.prems(3) by simp
  have ae: "aend = va + 4096 + of_nat (4096 * n)" using Suc.prems(4) by simp
  have "upages (leaf (mem t) root) (va + 4096) n = upages ?lf (va + 4096) n"
    by (rule upages_cong [OF np(2) up]) (use t(3) np(4) in auto)
  then have ws: "?ws = (if do_free then upages (leaf (mem t) root) (va + 4096) n else [])" by simp
  have tb: "tables (mem t) root = tables (mem s) root" using t(2) by (simp add: shrunk_def)
  have own: "\<forall>p\<in>set ?ws. page_ok t p \<and> p \<notin> set (rev ?vs @ ps) \<and> p \<notin> tables (mem t) root"
    unfolding tb shrunk_page_ok [OF t(2)] using Suc.prems(7,8) unfolding us by auto
  have "distinct ?ws" "n < f" using Suc.prems(7,5) us f by auto
  from Suc.IH [OF inv np(2) up ae this(2) ws this(1) own] obtain u where
    u: "uvmunmap_loop f root (va + 4096) aend do_free t = Inr ((), u)"
    "shrunk root t (rev ?vs @ ps) ?ws u"
    "\<forall>v<MAXVA. leaf (mem u) root v = unmapped (leaf (mem t) root) (va + 4096) n v"
    by blast
  have "leaf (mem u) root v = unmapped ?lf va (Suc n) v" if "v < MAXVA" for v
    using u(3) that t(3) [OF that] np(3,4) [of v] by (auto simp: unmapped_def)
  then show ?case using t(1) u(1) shrunk_trans [OF t(2) u(2)] us by auto
qed

lemma uvmunmap_run:
  assumes "vminv s root ps" and "page_aligned va" and "unat va + 4096 * unat npages \<le> unat MAXVA"
    and "us = (if do_free then upages (leaf (mem s) root) va (unat npages) else [])"
    and "distinct us" and "\<forall>p\<in>set us. page_ok s p \<and> p \<notin> set ps \<and> p \<notin> tables (mem s) root"
  shows "\<exists>t. uvmunmap root va npages do_free s = Inr ((), t) \<and> shrunk root s ps us t \<and>
    (\<forall>v<MAXVA. leaf (mem t) root v = unmapped (leaf (mem s) root) va (unat npages) v)"
proof -
  have "va + npages * PGSIZE = va + of_nat (4096 * unat npages)" by simp
  from uvmunmap_loop_run [OF assms(1-3) this lessI assms(4-6)] show ?thesis
    using assms(2) by (simp add: uvmunmap_def page_aligned_iff_mod)
qed

section \<open>uvmalloc\<close>

text \<open>
  \<open>consumes\<close>: free pages were taken and perhaps given back, some became tables; nothing else
  of memory changed.
\<close>

definition consumes :: "addr \<Rightarrow> 'z kmem_st_scheme \<Rightarrow> addr list \<Rightarrow> 'z kmem_st_scheme \<Rightarrow> addr list \<Rightarrow> bool" where
  "consumes root s ps t ps' \<longleftrightarrow>
     vminv t root ps' \<and> mem_only s t \<and> set ps' \<subseteq> set ps \<and>
     tables (mem s) root \<subseteq> tables (mem t) root \<and>
     tables (mem t) root \<subseteq> tables (mem s) root \<union> set ps \<and>
     (\<forall>x. x \<notin> tables (mem s) root \<union> set ps \<longrightarrow> same_page (mem s) (mem t) x)"

lemma consumes_refl: "vminv s root ps \<Longrightarrow> consumes root s ps s ps"
  by (simp add: consumes_def)

lemma consumes_trans:
  assumes "consumes root s ps t qs" and "consumes root t qs u rs"
  shows "consumes root s ps u rs"
proof -
  have "same_page (mem s) (mem u) x" if "x \<notin> tables (mem s) root \<union> set ps" for x
  proof (rule same_page_trans)
    show "same_page (mem s) (mem t) x" using assms(1) that by (simp add: consumes_def)
    have "x \<notin> tables (mem t) root \<union> set qs" using assms(1) that by (auto simp: consumes_def)
    then show "same_page (mem t) (mem u) x" using assms(2) by (simp add: consumes_def)
  qed
  moreover have "mem_only s u"
    by (rule mem_only_trans [of s t u]) (use assms in \<open>simp_all add: consumes_def\<close>)
  ultimately show ?thesis using assms unfolding consumes_def by blast
qed

lemma grown_consumes: "grown root l s ps t ps' \<Longrightarrow> consumes root s ps t ps'"
  by (auto simp: grown_def consumes_def)

lemma consumes_shrunk:
  assumes "consumes root s ps t ps'" and "shrunk root t ps' us u" and "set us \<subseteq> set ps"
  shows "consumes root s ps u (rev us @ ps')"
proof -
  have "same_page (mem s) (mem u) x" if "x \<notin> tables (mem s) root \<union> set ps" for x
  proof (rule same_page_trans)
    show "same_page (mem s) (mem t) x" using assms(1) that by (simp add: consumes_def)
    have "x \<notin> tables (mem t) root \<union> set us" using assms(1,3) that by (auto simp: consumes_def)
    then show "same_page (mem t) (mem u) x" using assms(2) by (simp add: shrunk_def)
  qed
  moreover have "mem_only s u"
    by (rule mem_only_trans [of s t u]) (use assms in \<open>simp_all add: consumes_def shrunk_def\<close>)
  ultimately show ?thesis using assms by (simp add: consumes_def shrunk_def)
qed

lemma consumes_kalloc:
  assumes inv: "vminv s root (p # ps)"
  obtains t where "kalloc s = Inr (p, t)" and "p \<noteq> 0" and "page_aligned p" and "unat p < 2 ^ 56"
    and "consumes root s (p # ps) (t\<lparr>mem := memset (mem t) p c PGSIZE\<rparr>) ps"
    and "leaf (memset (mem t) p c PGSIZE) root = leaf (mem s) root"
    and "tables (memset (mem t) p c PGSIZE) root = tables (mem s) root"
proof -
  have pt: "pt_inv (mem s) root" and fp: "free_pages s (p # ps)"
    and disj: "tables (mem s) root \<inter> set (p # ps) = {}"
    using inv by (simp_all add: vminv_def)
  obtain t where t: "kalloc s = Inr (p, t)" "free_pages t ps"
    and fr: "\<And>x. x \<noteq> p \<Longrightarrow> same_page (mem s) (mem t) x"
    using kalloc_free_pages [OF fp] by metis
  have p: "page_aligned p" "p \<noteq> 0" "p \<notin> set ps" "unat p < 2 ^ 56"
    using fp by (auto simp: free_pages_def page_ok_def word_less_nat_alt)
  let ?m = "memset (mem t) p c PGSIZE"
  have fr2: "same_page (mem s) ?m x" if "x \<noteq> p" for x
    using that by (intro same_page_trans [OF fr same_page_memset [OF p(1)]]) auto
  have tfr: "same_page (mem s) ?m x" if "x \<in> tables (mem s) root" for x
    by (rule fr2) (use that disj in auto)
  have tf: "tables ?m root = tables (mem s) root" "pt_inv ?m root" "leaf ?m root = leaf (mem s) root"
    by (rule tables_frame [OF pt tfr], assumption)+
  have "free_pages (t\<lparr>mem := ?m\<rparr>) ps"
    using t(2) by (rule free_pages_frame) (rule same_page_memset [OF p(1)], use p(3) in auto)
  then have "vminv (t\<lparr>mem := ?m\<rparr>) root ps" using tf disj by (auto simp: vminv_def)
  moreover have "mem_only s (t\<lparr>mem := ?m\<rparr>)"
    using kalloc_mem_only [OF t(1)] mem_only_mem by (rule mem_only_trans)
  ultimately have "consumes root s (p # ps) (t\<lparr>mem := ?m\<rparr>) ps"
    using tf(1) fr2 by (auto simp: consumes_def)
  then show ?thesis using that t(1) p tf by blast
qed

end
