(* ===== verification/Vm_Alloc.thy ===== *)
theory Vm_Alloc
  imports Vm_Map
begin

text \<open>
  \<^verbatim>\<open>uvmalloc\<close> and \<^verbatim>\<open>uvmdealloc\<close> (\<^verbatim>\<open>kernel/vm.c\<close>): growing a user address space maps fresh zeroed
  pages, or leaves the address space as it was. The properties of the page-table operations
  and a concrete address space at which they apply close the theory.
\<close>

section \<open>One page\<close>

lemma mappages_one:
  assumes inv: "vminv s root ps" and al: "page_aligned a" and a: "unat a + 4096 \<le> unat MAXVA"
    and free: "\<And>v. v < MAXVA \<Longrightarrow> PGROUNDDOWN v = a \<Longrightarrow> leaf (mem s) root v AND PTE_V = 0"
  obtains r t ps' where "mappages root a PGSIZE p perm s = Inr (r, t)" and "grown root 2 s ps t ps'"
    and "r = 0 \<or> r = - 1 \<and> ps' = [] \<and> length ps < 2"
    and "\<And>v. v < MAXVA \<Longrightarrow> leaf (mem t) root v =
      (if r = 0 \<and> PGROUNDDOWN v = a then entry p perm else leaf (mem s) root v)"
proof -
  have one: "in_range a 1 v \<longleftrightarrow> PGROUNDDOWN v = a" for v using in_range_1 [OF al] by simp
  have f: "\<forall>v<MAXVA. in_range a (unat (PGSIZE :: addr) div 4096) v \<longrightarrow> leaf (mem s) root v AND PTE_V = 0"
    using free one by simp
  have b: "(4096 :: addr) mod PGSIZE = 0" "(4096 :: addr) \<noteq> 0" "unat a + unat (4096 :: addr) \<le> unat MAXVA"
    using a by simp_all
  show ?thesis
  proof (rule mappages_run [OF inv al b f, where pa = p and perm = perm])
    fix r t ps' k
    assume h: "mappages root a PGSIZE p perm s = Inr (r, t)"
      "grown root (2 * (unat (PGSIZE :: addr) div 4096)) s ps t ps'"
      "r = 0 \<and> k = unat (PGSIZE :: addr) div 4096 \<or>
       r = - 1 \<and> k < unat (PGSIZE :: addr) div 4096 \<and> ps' = [] \<and> length ps < 2 * (unat (PGSIZE :: addr) div 4096)"
      "\<forall>v<MAXVA. leaf (mem t) root v = mapped (leaf (mem s) root) a k p perm v"
    have "leaf (mem t) root v =
      (if r = 0 \<and> PGROUNDDOWN v = a then entry p perm else leaf (mem s) root v)" if "v < MAXVA" for v
      using h(3,4) that one [of v] by (auto simp: mapped_def)
    then show ?thesis using that [OF h(1), of ps'] h(2,3) by auto
  qed
qed

lemma uvmalloc_step:
  fixes xperm :: "64 word"
  assumes inv: "vminv s root ps" and al: "page_aligned a" and a: "unat a + 4096 \<le> unat MAXVA"
    and lt: "a < newsz" and free: "\<forall>v<MAXVA. PGROUNDDOWN v = a \<longrightarrow> leaf (mem s) root v = 0"
  defines "perm \<equiv> PTE_R OR PTE_U OR xperm"
  obtains t p ps' where "uvmalloc_loop (Suc fuel) root a oldsz newsz xperm s =
        uvmalloc_loop fuel root (a + 4096) oldsz newsz xperm t"
      "consumes root s ps t ps'" "length ps \<le> length ps' + 3"
      "p \<in> set ps" "p \<notin> set ps'" "p \<notin> tables (mem t) root" "\<forall>x. PGROUNDDOWN x = p \<longrightarrow> mem t x = 0"
      "\<forall>v<MAXVA. leaf (mem t) root v = (if PGROUNDDOWN v = a then entry p perm else leaf (mem s) root v)"
  | t ps' where "uvmalloc_loop (Suc fuel) root a oldsz newsz xperm s =
        bnd (uvmdealloc root a oldsz) (\<lambda>_. ret 0) t"
      "consumes root s ps t ps'" "length ps < 3"
      "\<forall>v<MAXVA. leaf (mem t) root v = leaf (mem s) root v"
proof (cases ps)
  case Nil
  then have "kalloc s = Inr (0, s)" using inv by (simp add: vminv_def kalloc_empty)
  then show ?thesis using that(2) [of s ps] consumes_refl [OF inv] lt Nil by (simp add: run_simps)
next
  case (Cons p qs)
  obtain t where t: "kalloc s = Inr (p, t)" "p \<noteq> 0" "page_aligned p" "unat p < 2 ^ 56"
    and con: "consumes root s (p # qs) (t\<lparr>mem := memset (mem t) p 0 PGSIZE\<rparr>) qs"
    and lf: "leaf (memset (mem t) p 0 PGSIZE) root = leaf (mem s) root"
    and tb: "tables (memset (mem t) p 0 PGSIZE) root = tables (mem s) root"
    using consumes_kalloc [OF inv [unfolded Cons], of 0] by metis
  let ?t = "t\<lparr>mem := memset (mem t) p 0 PGSIZE\<rparr>"
  have invt: "vminv ?t root qs" using con by (simp add: consumes_def)
  have pn: "p \<notin> set qs" "p \<notin> tables (mem s) root" and ok: "page_ok s p"
    using inv Cons by (auto simp: vminv_def free_pages_def)
  obtain r u us where u: "mappages root a PGSIZE p perm ?t = Inr (r, u)" "grown root 2 ?t qs u us"
    "r = 0 \<or> r = - 1 \<and> us = [] \<and> length qs < 2"
    "\<And>v. v < MAXVA \<Longrightarrow> leaf (mem u) root v =
      (if r = 0 \<and> PGROUNDDOWN v = a then entry p perm else leaf (mem s) root v)"
    by (rule mappages_one [OF invt al a, where p = p and perm = perm]) (use free lf in auto)
  have cu: "consumes root s ps u us"
    using consumes_trans [OF con grown_consumes [OF u(2)]] Cons by simp
  have pt: "p \<notin> tables (mem u) root" "p \<notin> set us"
    using u(2) pn tb by (auto simp: grown_def)
  have "same_page (mem ?t) (mem u) p" using u(2) pn tb by (simp add: grown_def)
  then have zero: "\<forall>x. PGROUNDDOWN x = p \<longrightarrow> mem u x = 0"
    using t(3) by (auto simp: same_page_def memset_page)
  have len: "length ps \<le> length us + 3" using u(2) Cons by (auto simp: grown_def)
  have run: "uvmalloc_loop (Suc fuel) root a oldsz newsz xperm s =
    (if r = 0 then uvmalloc_loop fuel root (a + 4096) oldsz newsz xperm u
     else bnd (kfree p) (\<lambda>_. bnd (uvmdealloc root a oldsz) (\<lambda>_. ret 0)) u)"
    using t(1,2) lt u(1) by (simp add: run_simps perm_def)
  show ?thesis
  proof (cases "r = 0")
    case True
    then have "\<forall>v<MAXVA. leaf (mem u) root v = (if PGROUNDDOWN v = a then entry p perm else leaf (mem s) root v)"
      using u(4) by simp
    then show ?thesis
      using that(1) [OF _ cu len _ pt(2,1) zero] run True Cons by simp
  next
    case False
    have uok: "page_ok u p" using ok page_ok_cong [OF mem_only_kend, of s u] cu by (simp add: consumes_def)
    have invu: "vminv u root us" using cu by (simp add: consumes_def)
    obtain w where w: "kfree p u = Inr ((), w)" "shrunk root u us [p] w" "leaf (mem w) root = leaf (mem u) root"
      using shrunk_kfree [OF invu uok pt(2,1)] by metis
    have "consumes root s ps w ([p] @ us)"
      using consumes_shrunk [OF cu w(2)] Cons by simp
    moreover have "\<forall>v<MAXVA. leaf (mem w) root v = leaf (mem s) root v"
      using u(4) False w(3) by simp
    moreover have "length ps < 3" using u(3) False Cons by simp
    ultimately show ?thesis
      using that(2) [of w "p # us"] run False w(1) by (simp add: run_simps)
  qed
qed

section \<open>uvmdealloc\<close>

lemma int_pages:
  assumes "unat (w :: addr) < 2 ^ 31"
  shows "scast (ucast w :: 32 word) = w"
proof (rule bit_word_eqI)
  fix n assume "n < LENGTH(64)"
  then show "bit (scast (ucast w :: 32 word) :: addr) n = bit w n"
    using bit_lt_of_unat_lt [OF assms, of n] bit_lt_of_unat_lt [OF assms, of 31]
    by (auto simp: bit_simps min_def)
qed

lemma PGROUNDUP_aligned [simp]: "page_aligned a \<Longrightarrow> PGROUNDUP a = a"
  using page_offset(1) [of a 4095]
  by (simp add: PGROUNDUP_def PGROUNDDOWN_def algebra_simps)

lemma page_add:
  assumes "page_aligned a" and "unat a + 4096 * i \<le> unat MAXVA"
  shows "unat (a + of_nat (4096 * i)) = unat a + 4096 * i" and "page_aligned (a + of_nat (4096 * i))"
proof -
  show "unat (a + of_nat (4096 * i)) = unat a + 4096 * i"
    using assms(2) by (intro unat_add_of_nat) simp
  with assms(1) show "page_aligned (a + of_nat (4096 * i))" by (simp only: page_aligned_def) simp
qed

text \<open>Giving back the \<open>i\<close> pages from \<open>a\<close>: what \<^verbatim>\<open>uvmalloc\<close> does when it runs out.\<close>

lemma uvmdealloc_run:
  assumes inv: "vminv s root ps" and al: "page_aligned a" and up: "unat a + 4096 * i \<le> unat MAXVA"
    and us: "upages (leaf (mem s) root) a i = us"
    and own: "distinct us" "\<forall>p\<in>set us. page_ok s p \<and> p \<notin> set ps \<and> p \<notin> tables (mem s) root"
  obtains r t where "uvmdealloc root (a + of_nat (4096 * i)) a s = Inr (r, t)" and "shrunk root s ps us t"
    and "\<forall>v<MAXVA. leaf (mem t) root v = unmapped (leaf (mem s) root) a i v"
proof (cases "i = 0")
  case True
  then show ?thesis
    using that [of a s] us shrunk_refl [OF inv] by (simp add: uvmdealloc_def run_simps unmapped_def)
next
  case False
  let ?b = "a + of_nat (4096 * i)"
  note b = page_add [OF al up]
  have i: "4096 * i < 2 ^ 64" "i < 2 ^ 31" using up by simp_all
  have "unat ((?b - a) div 4096) = i"
    using i(1) by (simp add: unat_div unat_of_nat_lt del: of_nat_mult)
  then have n: "unat (scast (ucast ((?b - a) div 4096) :: 32 word) :: addr) = i"
    using i(2) by (subst int_pages) simp_all
  have lt: "a < ?b" and nle: "\<not> ?b \<le> a"
    unfolding word_less_nat_alt word_le_nat_alt using b(1) False by simp_all
  obtain t where "uvmunmap root a (scast (ucast ((?b - a) div 4096) :: 32 word)) True s = Inr ((), t)"
    and t: "shrunk root s ps us t" "\<forall>v<MAXVA. leaf (mem t) root v = unmapped (leaf (mem s) root) a i v"
    using uvmunmap_run [OF inv al, of "scast (ucast ((?b - a) div 4096) :: 32 word)" us True]
      up us own unfolding n by auto
  then have "uvmdealloc root ?b a s = Inr (a, t)"
    using lt nle al b(2) by (simp add: uvmdealloc_def Let_def run_simps del: of_nat_mult)
  then show ?thesis by (rule that) (use t in simp_all)
qed

section \<open>The loop of uvmalloc\<close>

text \<open>
  After \<open>i\<close> rounds from the state \<open>s\<^sub>0\<close>: the pages \<open>us\<close>, taken from the free pages \<open>ps\<^sub>0\<close>, hold zeros
  and are mapped in order from \<open>a\<^sub>0\<close>; every other address resolves as in \<open>s\<^sub>0\<close>.
\<close>

definition uv_inv ::
  "addr \<Rightarrow> addr \<Rightarrow> 64 word \<Rightarrow> 'z kmem_st_scheme \<Rightarrow> addr list \<Rightarrow> 'z kmem_st_scheme \<Rightarrow> addr list \<Rightarrow> addr list \<Rightarrow> bool" where
  "uv_inv root a0 perm s0 ps0 s ps us \<longleftrightarrow>
     consumes root s0 ps0 s ps \<and>
     distinct us \<and> set us \<subseteq> set ps0 \<and> set us \<inter> (set ps \<union> tables (mem s) root) = {} \<and>
     (\<forall>p\<in>set us. \<forall>x. PGROUNDDOWN x = p \<longrightarrow> mem s x = 0) \<and>
     (\<forall>i<length us. leaf (mem s) root (a0 + of_nat (4096 * i)) = entry (us ! i) perm) \<and>
     (\<forall>v<MAXVA. \<not> in_range a0 (length us) v \<longrightarrow> leaf (mem s) root v = leaf (mem s0) root v)"

lemma uv_inv_start: "vminv s root ps \<Longrightarrow> uv_inv root a0 perm s ps s ps []"
  by (simp add: uv_inv_def consumes_refl)

lemma uv_inv_step:
  assumes inv: "uv_inv root a0 perm s0 ps0 s ps us"
    and al: "page_aligned a0" and up: "unat a0 + 4096 * Suc (length us) \<le> unat MAXVA"
    and con: "consumes root s ps t ps'"
    and p: "p \<in> set ps" "p \<notin> set ps'" "p \<notin> tables (mem t) root" "\<forall>x. PGROUNDDOWN x = p \<longrightarrow> mem t x = 0"
    and lf: "\<forall>v<MAXVA. leaf (mem t) root v =
      (if PGROUNDDOWN v = a0 + of_nat (4096 * length us) then entry p perm else leaf (mem s) root v)"
  shows "uv_inv root a0 perm s0 ps0 t ps' (us @ [p])"
proof -
  let ?n = "length us"
  have us: "distinct us" "set us \<subseteq> set ps0" "set us \<inter> (set ps \<union> tables (mem s) root) = {}"
    and c0: "consumes root s0 ps0 s ps"
    using inv by (simp_all add: uv_inv_def)
  have sub: "set ps \<subseteq> set ps0" using c0 by (simp add: consumes_def)
  have sub': "set ps' \<subseteq> set ps" "tables (mem t) root \<subseteq> tables (mem s) root \<union> set ps"
    using con(1) by (simp_all add: consumes_def)
  have same: "same_page (mem s) (mem t) q" if "q \<in> set us" for q
    using con(1) us(3) that by (auto simp: consumes_def)
  have "mem t x = 0" if "q \<in> set us" "PGROUNDDOWN x = q" for q x
    using same [OF that(1)] inv that by (simp add: uv_inv_def same_page_def)
  then have zero: "\<forall>q\<in>set (us @ [p]). \<forall>x. PGROUNDDOWN x = q \<longrightarrow> mem t x = 0" using p(4) by auto
  have addr: "unat (a0 + of_nat (4096 * i)) = unat a0 + 4096 * i" "page_aligned (a0 + of_nat (4096 * i))"
    "a0 + of_nat (4096 * i) < MAXVA" if "i \<le> ?n" for i
  proof -
    have "unat a0 + 4096 * i < unat MAXVA" using up that by simp
    then show "unat (a0 + of_nat (4096 * i)) = unat a0 + 4096 * i" "page_aligned (a0 + of_nat (4096 * i))"
      using page_add [OF al, of i] by simp_all
    with \<open>unat a0 + 4096 * i < unat MAXVA\<close> show "a0 + of_nat (4096 * i) < MAXVA"
      by (simp only: word_less_nat_alt)
  qed
  have "leaf (mem t) root (a0 + of_nat (4096 * i)) = entry ((us @ [p]) ! i) perm" if "i < Suc ?n" for i
  proof (cases "i = ?n")
    case True
    then show ?thesis using lf addr [of i] by simp
  next
    case False
    then have i: "i < ?n" using that by simp
    have "a0 + of_nat (4096 * i) \<noteq> a0 + of_nat (4096 * ?n)"
      using addr(1) [of i] addr(1) [of ?n] i by (metis add_left_cancel less_irrefl mult_cancel1 less_imp_le order_refl zero_neq_numeral)
    then show ?thesis using lf addr [of i] i inv by (simp add: uv_inv_def nth_append del: of_nat_mult)
  qed
  moreover have "leaf (mem t) root v = leaf (mem s0) root v" if "v < MAXVA" "\<not> in_range a0 (Suc ?n) v" for v
  proof -
    have "\<not> in_range a0 ?n v" using that(2) by (auto simp: in_range_def)
    moreover have "PGROUNDDOWN v \<noteq> a0 + of_nat (4096 * ?n)"
      using that(2) in_range_1 [OF addr(2) [of ?n], of v] addr(1) [of ?n] by (auto simp: in_range_def)
    ultimately show ?thesis using lf that(1) inv by (simp add: uv_inv_def)
  qed
  moreover have "set (us @ [p]) \<inter> (set ps' \<union> tables (mem t) root) = {}"
    using us(3) sub' p(2,3) by auto
  moreover have "distinct (us @ [p])" "set (us @ [p]) \<subseteq> set ps0"
    using us p(1) sub by auto
  ultimately show ?thesis
    using zero consumes_trans [OF c0 con(1)] inv unfolding uv_inv_def by auto
qed

lemma uv_inv_frame:
  assumes inv: "uv_inv root a0 perm s0 ps0 s ps us" and con: "consumes root s ps t ps'"
    and lf: "\<forall>v<MAXVA. leaf (mem t) root v = leaf (mem s) root v"
    and al: "page_aligned a0" and up: "unat a0 + 4096 * length us \<le> unat MAXVA"
  shows "uv_inv root a0 perm s0 ps0 t ps' us"
proof -
  have us: "set us \<inter> (set ps \<union> tables (mem s) root) = {}" and c0: "consumes root s0 ps0 s ps"
    using inv by (simp_all add: uv_inv_def)
  have sub: "set ps' \<subseteq> set ps" "tables (mem t) root \<subseteq> tables (mem s) root \<union> set ps"
    using con by (simp_all add: consumes_def)
  have same: "same_page (mem s) (mem t) q" if "q \<in> set us" for q
    using con us that by (auto simp: consumes_def)
  have "mem t x = 0" if "q \<in> set us" "PGROUNDDOWN x = q" for q x
    using same [OF that(1)] inv that by (simp add: uv_inv_def same_page_def)
  moreover have "leaf (mem t) root (a0 + of_nat (4096 * i)) = entry (us ! i) perm" if "i < length us" for i
  proof -
    have "unat a0 + 4096 * i < unat MAXVA" using up that by simp
    then have "a0 + of_nat (4096 * i) < MAXVA"
      using page_add(1) [OF al, of i] by (simp only: word_less_nat_alt)
    then show ?thesis using lf inv that by (simp add: uv_inv_def)
  qed
  moreover have "set us \<inter> (set ps' \<union> tables (mem t) root) = {}" using us sub by auto
  ultimately show ?thesis
    using consumes_trans [OF c0 con] inv lf unfolding uv_inv_def by simp
qed

lemma unat_or_lt:
  assumes "unat (a :: addr) < 2 ^ k" "unat b < 2 ^ k"
  shows "unat (a OR b) < 2 ^ k"
proof -
  have "take_bit k (a OR b) = a OR b"
    using bit_lt_of_unat_lt [OF assms(1)] bit_lt_of_unat_lt [OF assms(2)]
    by (intro bit_word_eqI) (auto simp: bit_simps)
  then have "unat (a OR b) = take_bit k (unat (a OR b))" by (metis unsigned_take_bit_eq)
  then show ?thesis by (metis take_bit_nat_less_exp)
qed

lemma entry_decode:
  assumes "page_aligned p" "unat p < 2 ^ 56" "unat perm < 2 ^ 10"
  shows "PTE2PA (entry p perm) = p" and "entry p perm AND PTE_V \<noteq> 0"
proof -
  have "unat (perm OR PTE_V) < 2 ^ 10" using assms(3) by (intro unat_or_lt) simp_all
  then show "PTE2PA (entry p perm) = p"
    unfolding entry_def using assms by (simp add: PTE2PA_entry)
  show "entry p perm AND PTE_V \<noteq> 0" by (simp add: entry_def and_V_iff bit_simps)
qed

lemma upages_entries:
  assumes "\<forall>i<length us. f (a + of_nat (4096 * i)) = entry (us ! i) perm"
    and "\<forall>p\<in>set us. page_aligned p \<and> unat p < 2 ^ 56" and "unat perm < 2 ^ 10"
  shows "upages f a (length us) = us"
  using assms(1,2)
proof (induction us arbitrary: a)
  case Nil
  then show ?case by simp
next
  case (Cons p us)
  have "f a = entry p perm" using Cons.prems(1) [rule_format, of 0] by simp
  moreover have "f (a + 4096 + of_nat (4096 * i)) = entry (us ! i) perm" if "i < length us" for i
    using Cons.prems(1) [rule_format, of "Suc i"] that by (simp add: algebra_simps)
  ultimately show ?case
    using Cons.IH [of "a + 4096"] Cons.prems(2) entry_decode [of p perm] assms(3) by simp
qed

lemma in_range_page:
  assumes "page_aligned a" "unat a + 4096 * n \<le> unat MAXVA" "in_range a n v"
  obtains i where "i < n" "PGROUNDDOWN v = a + of_nat (4096 * i)"
proof -
  define i where "i = (unat v - unat a) div 4096"
  have r: "unat a \<le> unat v" "unat v < unat a + 4096 * n" using assms(3) by (auto simp: in_range_def)
  have i: "i < n" using r unfolding i_def by (intro less_mult_imp_div_less) simp
  have "4096 * i \<le> unat v - unat a" "unat v - unat a < 4096 * i + 4096"
    unfolding i_def by (simp_all add: dividend_less_times_div)
  moreover have b: "unat a + 4096 * i \<le> unat MAXVA" using assms(2) i by simp
  ultimately have "in_range (a + of_nat (4096 * i)) (Suc 0) v"
    using r page_add(1) [OF assms(1) b] by (simp add: in_range_def del: of_nat_mult) linarith
  then have "PGROUNDDOWN v = a + of_nat (4096 * i)"
    using in_range_1 [OF page_add(2) [OF assms(1) b]] by blast
  with i show ?thesis by (rule that)
qed

lemma leaf_page:
  assumes "v < MAXVA"
  shows "leaf m root v = leaf m root (PGROUNDDOWN v)"
proof -
  have "PGROUNDDOWN v < MAXVA"
    using assms unat_PGROUNDDOWN [of v] div_times_less_eq_dividend [of "unat v" 4096]
    by (simp add: word_less_nat_alt)
  then show ?thesis using assms by (intro leaf_eqpath) (simp add: eqpath3_iff)
qed

text \<open>Running out after some rounds gives every page back and restores the address space.\<close>

lemma uv_inv_abort:
  assumes inv: "uv_inv root a0 perm s0 ps0 s ps us" and inv0: "vminv s0 root ps0"
    and al: "page_aligned a0" and up: "unat a0 + 4096 * length us \<le> unat MAXVA"
    and perm: "unat perm < 2 ^ 10"
    and free: "\<forall>v<MAXVA. in_range a0 (length us) v \<longrightarrow> leaf (mem s0) root v = 0"
  obtains t ps' where "bnd (uvmdealloc root (a0 + of_nat (4096 * length us)) a0) (\<lambda>_. ret 0) s = Inr (0 :: addr, t)"
    and "consumes root s0 ps0 t ps'" and "\<forall>v<MAXVA. leaf (mem t) root v = leaf (mem s0) root v"
proof -
  have c0: "consumes root s0 ps0 s ps" and us: "distinct us" "set us \<subseteq> set ps0"
    "set us \<inter> (set ps \<union> tables (mem s) root) = {}"
    and ent: "\<forall>i<length us. leaf (mem s) root (a0 + of_nat (4096 * i)) = entry (us ! i) perm"
    using inv by (simp_all add: uv_inv_def)
  have ok0: "\<forall>p\<in>set us. page_ok s0 p" using us(2) inv0 by (auto simp: vminv_def free_pages_def)
  then have ok: "\<forall>p\<in>set us. page_ok s p"
    using page_ok_cong [OF mem_only_kend, of s0 s] c0 by (simp add: consumes_def)
  have pg: "\<forall>p\<in>set us. page_aligned p \<and> unat p < 2 ^ 56"
    using ok by (auto simp: page_ok_def word_less_nat_alt)
  have "vminv s root ps" using c0 by (simp add: consumes_def)
  then obtain r t where t: "uvmdealloc root (a0 + of_nat (4096 * length us)) a0 s = Inr (r, t)"
    "shrunk root s ps us t" "\<forall>v<MAXVA. leaf (mem t) root v = unmapped (leaf (mem s) root) a0 (length us) v"
    using uvmdealloc_run [OF _ al up upages_entries [OF ent pg perm] us(1)] ok us(3) by blast
  have "leaf (mem t) root v = leaf (mem s0) root v" if v: "v < MAXVA" for v
  proof (cases "in_range a0 (length us) v")
    case True
    then obtain i where i: "i < length us" "PGROUNDDOWN v = a0 + of_nat (4096 * i)"
      using in_range_page [OF al up] by blast
    then have "leaf (mem s) root v = entry (us ! i) perm" using leaf_page [OF v] ent by metis
    moreover have "entry (us ! i) perm AND PTE_V \<noteq> 0" by (simp add: entry_def and_V_iff bit_simps)
    ultimately show ?thesis using t(3) v True free by (simp add: unmapped_def)
  next
    case False
    then show ?thesis using t(3) v inv by (simp add: unmapped_def uv_inv_def)
  qed
  then show ?thesis
    using that [of t "rev us @ ps"] t(1) consumes_shrunk [OF c0 t(2) us(2)] by (simp add: run_simps)
qed

lemma uvmalloc_loop_run:
  assumes "uv_inv root a0 (PTE_R OR PTE_U OR xperm) s0 ps0 s ps us" and inv0: "vminv s0 root ps0"
    and al: "page_aligned a0" and up: "unat a0 + 4096 * n \<le> unat MAXVA"
    and perm: "unat (PTE_R OR PTE_U OR xperm) < 2 ^ 10"
    and free: "\<forall>v<MAXVA. in_range a0 n v \<longrightarrow> leaf (mem s0) root v = 0"
    and stop: "\<forall>i\<le>n. a0 + of_nat (4096 * i) < newsz \<longleftrightarrow> i < n"
    and "length us + k = n" and "k < fuel" and "length ps0 \<le> length ps + 3 * length us"
  shows "\<exists>r t ps'. uvmalloc_loop fuel root (a0 + of_nat (4096 * length us)) a0 newsz xperm s = Inr (r, t) \<and>
    (r = newsz \<and> (\<exists>us. length us = n \<and> uv_inv root a0 (PTE_R OR PTE_U OR xperm) s0 ps0 t ps' us) \<or>
     r = 0 \<and> length ps0 < 3 * n \<and> consumes root s0 ps0 t ps' \<and>
     (\<forall>v<MAXVA. leaf (mem t) root v = leaf (mem s0) root v))"
  using assms(1,8-)
proof (induction k arbitrary: fuel s ps us)
  case 0
  then obtain f where "fuel = Suc f" by (cases fuel) auto
  moreover have "\<not> a0 + of_nat (4096 * length us) < newsz" using stop 0(2) by simp
  ultimately have "uvmalloc_loop fuel root (a0 + of_nat (4096 * length us)) a0 newsz xperm s = Inr (newsz, s)"
    by (simp add: run_simps)
  then show ?case using 0(1,2) by auto
next
  case (Suc k)
  then obtain f where f: "fuel = Suc f" by (cases fuel) auto
  let ?perm = "PTE_R OR PTE_U OR xperm"
  let ?a = "a0 + of_nat (4096 * length us)"
  have n: "length us < n" using Suc.prems(2) by simp
  then have lt: "?a < newsz" using stop by simp
  have b: "unat a0 + 4096 * length us \<le> unat MAXVA" "unat a0 + 4096 * Suc (length us) \<le> unat MAXVA"
    using n up by simp_all
  note a = page_add [OF al b(1)]
  have a1: "unat ?a + 4096 \<le> unat MAXVA" using a(1) b(2) by simp
  have inv: "vminv s root ps" using Suc.prems(1) by (simp add: uv_inv_def consumes_def)
  have fr: "\<forall>v<MAXVA. PGROUNDDOWN v = ?a \<longrightarrow> leaf (mem s) root v = 0"
  proof (intro allI impI)
    fix v assume v: "v < MAXVA" "PGROUNDDOWN v = ?a"
    then have "in_range ?a (Suc 0) v" using in_range_1 [OF a(2)] by blast
    then have "in_range a0 n v" "\<not> in_range a0 (length us) v" using a(1) n by (auto simp: in_range_def)
    then show "leaf (mem s) root v = 0" using free v(1) Suc.prems(1) by (simp add: uv_inv_def)
  qed
  show ?case
  proof (rule uvmalloc_step [OF inv a(2) a1 lt fr, of f a0 xperm])
    fix t p ps'
    assume run: "uvmalloc_loop (Suc f) root ?a a0 newsz xperm s =
        uvmalloc_loop f root (?a + 4096) a0 newsz xperm t"
      and h: "consumes root s ps t ps'" "length ps \<le> length ps' + 3"
      "p \<in> set ps" "p \<notin> set ps'" "p \<notin> tables (mem t) root" "\<forall>x. PGROUNDDOWN x = p \<longrightarrow> mem t x = 0"
      "\<forall>v<MAXVA. leaf (mem t) root v = (if PGROUNDDOWN v = ?a then entry p ?perm else leaf (mem s) root v)"
    have "uv_inv root a0 ?perm s0 ps0 t ps' (us @ [p])"
      by (rule uv_inv_step [OF Suc.prems(1) al b(2) h(1,3-)])
    moreover have "?a + 4096 = a0 + of_nat (4096 * length (us @ [p]))" by (simp add: algebra_simps)
    moreover have "length (us @ [p]) + k = n" "k < f" "length ps0 \<le> length ps' + 3 * length (us @ [p])"
      using Suc.prems(2-4) f h(2) by simp_all
    ultimately show ?thesis unfolding f run using Suc.IH by presburger
  next
    fix t ps'
    assume run: "uvmalloc_loop (Suc f) root ?a a0 newsz xperm s =
        bnd (uvmdealloc root ?a a0) (\<lambda>_. ret 0) t"
      and h: "consumes root s ps t ps'" "length ps < 3"
      "\<forall>v<MAXVA. leaf (mem t) root v = leaf (mem s) root v"
    have "uv_inv root a0 ?perm s0 ps0 t ps' us"
      by (rule uv_inv_frame [OF Suc.prems(1) h(1,3) al b(1)])
    moreover have "\<forall>v<MAXVA. in_range a0 (length us) v \<longrightarrow> leaf (mem s0) root v = 0"
      using free n by (auto simp: in_range_def)
    ultimately obtain u qs where "bnd (uvmdealloc root ?a a0) (\<lambda>_. ret 0) t = Inr (0 :: addr, u)"
      "consumes root s0 ps0 u qs" "\<forall>v<MAXVA. leaf (mem u) root v = leaf (mem s0) root v"
      using uv_inv_abort [OF _ inv0 al b(1) perm] by blast
    moreover have "length ps0 < 3 * n" using Suc.prems(4) h(2) n by simp
    ultimately show ?thesis unfolding f run
      by (intro exI [of _ 0] exI [of _ u] exI [of _ qs]) simp
  qed
qed

lemma page_count:
  fixes w k :: nat
  shows "4096 * k < w \<longleftrightarrow> k < (w + 4095) div 4096"
proof -
  have "k < (w + 4095) div 4096 \<longleftrightarrow> Suc k * 4096 \<le> w + 4095"
    by (simp add: Suc_le_eq [symmetric] less_eq_div_iff_mult_less_eq)
  also have "\<dots> \<longleftrightarrow> 4096 * k < w" by auto
  finally show ?thesis by simp
qed

lemma uvmalloc_run:
  assumes inv: "vminv s root ps" and le: "oldsz \<le> newsz" and mx: "newsz \<le> MAXVA"
    and perm: "unat xperm < 2 ^ 10"
    and n: "n = (unat newsz + 4095) div 4096 - (unat oldsz + 4095) div 4096"
    and free: "\<forall>v<MAXVA. in_range (PGROUNDUP oldsz) n v \<longrightarrow> leaf (mem s) root v = 0"
  shows "\<exists>r t ps'. uvmalloc root oldsz newsz xperm s = Inr (r, t) \<and>
    (r = newsz \<and> (\<exists>us. length us = n \<and>
       uv_inv root (PGROUNDUP oldsz) (PTE_R OR PTE_U OR xperm) s ps t ps' us) \<or>
     r = 0 \<and> length ps < 3 * n \<and> consumes root s ps t ps' \<and>
     (\<forall>v<MAXVA. leaf (mem t) root v = leaf (mem s) root v))"
proof -
  let ?a0 = "PGROUNDUP oldsz"
  have w: "unat oldsz \<le> unat newsz" "unat newsz \<le> unat MAXVA"
    using le mx by (simp_all add: word_le_nat_alt)
  define A where "A = (unat oldsz + 4095) div 4096"
  define N where "N = (unat newsz + 4095) div 4096"
  have a0: "unat ?a0 = 4096 * A" using w by (subst unat_PGROUNDUP) (simp_all add: A_def)
  have "A \<le> N" unfolding A_def N_def using w(1) by (intro div_le_mono) simp
  then have nA: "A + n = N" using n by (simp add: A_def N_def)
  have "N \<le> (unat MAXVA + 4095) div 4096" unfolding N_def using w(2) by (intro div_le_mono) simp
  then have N: "4096 * N \<le> unat MAXVA" by simp
  have al: "page_aligned ?a0" by simp
  have up: "unat ?a0 + 4096 * n \<le> unat MAXVA" using a0 nA N by linarith
  have stop: "\<forall>i\<le>n. ?a0 + of_nat (4096 * i) < newsz \<longleftrightarrow> i < n"
  proof (intro allI impI)
    fix i assume "i \<le> n"
    then have "unat ?a0 + 4096 * i \<le> unat MAXVA" using up by simp
    then have "unat (?a0 + of_nat (4096 * i)) = 4096 * (A + i)"
      using page_add(1) [OF al, of i] a0 by simp
    then show "?a0 + of_nat (4096 * i) < newsz \<longleftrightarrow> i < n"
      unfolding word_less_nat_alt using page_count [of "A + i" "unat newsz"] nA
      by (auto simp: N_def [symmetric])
  qed
  have fl: "unat (PTE_R OR PTE_U OR xperm) < 2 ^ 10"
    using perm by (intro unat_or_lt) simp_all
  have "(unat newsz + 4095) div 4096 \<le> unat newsz div 4096 + 1" by linarith
  then have fuel: "n < Suc (Suc (unat newsz div 4096))" using n by linarith
  have "\<not> newsz < oldsz" using le by simp
  then show ?thesis
    using uvmalloc_loop_run [OF uv_inv_start [OF inv] inv al up fl free stop _ fuel]
    by (simp add: uvmalloc_def Let_def)
qed

section \<open>Properties\<close>

text \<open>
  C21. Mapping a page-aligned range none of whose pages is mapped: \<^verbatim>\<open>mappages\<close> does not panic
  and keeps the tables a tree, disjoint from the free pages. When it returns 0 every address
  of the range resolves to its page of the physical range with the requested permissions
  and every other address resolves as before; it returns -1 only when the free pages run
  out. Memory outside the tables and the free pages is untouched.
\<close>

theorem mappages_maps_range:
  assumes "vminv s root ps" and "page_aligned va" and "sz mod PGSIZE = 0" and "sz \<noteq> 0"
    and "unat va + unat sz \<le> unat MAXVA"
    and "\<forall>v<MAXVA. in_range va (unat sz div 4096) v \<longrightarrow> leaf (mem s) root v AND PTE_V = 0"
  shows "wp (mappages root va sz pa perm) (\<lambda>r t. \<exists>ps'.
      grown root (2 * (unat sz div 4096)) s ps t ps' \<and>
      (r = 0 \<and> (\<forall>v<MAXVA. leaf (mem t) root v =
          (if in_range va (unat sz div 4096) v
           then PA2PTE (pa + (PGROUNDDOWN v - va)) OR perm OR PTE_V
           else leaf (mem s) root v))
       \<or> r = - 1 \<and> ps' = [] \<and> length ps < 2 * (unat sz div 4096))) s"
proof (rule mappages_run [OF assms, where pa = pa and perm = perm])
  fix r t ps' k
  assume "mappages root va sz pa perm s = Inr (r, t)"
    "grown root (2 * (unat sz div 4096)) s ps t ps'"
    "r = 0 \<and> k = unat sz div 4096 \<or>
      r = - 1 \<and> k < unat sz div 4096 \<and> ps' = [] \<and> length ps < 2 * (unat sz div 4096)"
    "\<forall>v<MAXVA. leaf (mem t) root v = mapped (leaf (mem s) root) va k pa perm v"
  then show ?thesis unfolding wp_iff mapped_def entry_def
    by (intro exI [of _ r] exI [of _ t] conjI exI [of _ ps']) auto
qed

text \<open>
  C22. Unmapping a page-aligned range with \<^verbatim>\<open>do_free\<close> whose mapped pages are owned by it: every
  mapping of the range is gone, every other address resolves as before, and the pages it
  mapped are now free, each once. No panic, and the loop ends.
\<close>

theorem uvmunmap_frees_range:
  assumes "vminv s root ps" and "page_aligned va" and "unat va + 4096 * unat npages \<le> unat MAXVA"
    and "distinct (upages (leaf (mem s) root) va (unat npages))"
    and "\<forall>p\<in>set (upages (leaf (mem s) root) va (unat npages)).
      page_ok s p \<and> p \<notin> set ps \<and> p \<notin> tables (mem s) root"
  shows "wp (uvmunmap root va npages True) (\<lambda>_ t.
      vminv t root (rev (upages (leaf (mem s) root) va (unat npages)) @ ps) \<and>
      tables (mem t) root = tables (mem s) root \<and>
      (\<forall>v<MAXVA. leaf (mem t) root v AND PTE_V \<noteq> 0 \<longleftrightarrow>
         leaf (mem s) root v AND PTE_V \<noteq> 0 \<and> \<not> in_range va (unat npages) v) \<and>
      (\<forall>v<MAXVA. \<not> in_range va (unat npages) v \<longrightarrow> leaf (mem t) root v = leaf (mem s) root v)) s"
proof -
  obtain t where "uvmunmap root va npages True s = Inr ((), t)"
    and t: "shrunk root s ps (upages (leaf (mem s) root) va (unat npages)) t"
    "\<forall>v<MAXVA. leaf (mem t) root v = unmapped (leaf (mem s) root) va (unat npages) v"
    using uvmunmap_run [OF assms(1-3), of _ True] assms(4,5) by auto
  moreover have "leaf (mem t) root v AND PTE_V \<noteq> 0 \<longleftrightarrow>
      leaf (mem s) root v AND PTE_V \<noteq> 0 \<and> \<not> in_range va (unat npages) v" if "v < MAXVA" for v
    using t(2) that by (auto simp: unmapped_def)
  ultimately show ?thesis by (simp add: wp_iff shrunk_def unmapped_def)
qed

text \<open>
  C20. Growing a user address space is all or nothing. When \<^verbatim>\<open>uvmalloc\<close> returns the new size,
  every page between the rounded old size and the new size is mapped, readable and for the
  user, to its own page that was free before, is neither free nor a table now, and holds
  zeros; every other address resolves as before. Otherwise it returns 0, which happens only
  when free pages run out, and every address resolves as before.
\<close>

theorem uvmalloc_all_or_nothing:
  assumes "vminv s root ps" and "oldsz \<le> newsz" and "newsz \<le> MAXVA" and "unat xperm < 2 ^ 10"
    and "n = (unat newsz + 4095) div 4096 - (unat oldsz + 4095) div 4096"
    and "\<forall>v<MAXVA. in_range (PGROUNDUP oldsz) n v \<longrightarrow> leaf (mem s) root v = 0"
  shows "wp (uvmalloc root oldsz newsz xperm) (\<lambda>r t. \<exists>ps'. consumes root s ps t ps' \<and>
      (r = newsz \<and>
       (\<exists>us. length us = n \<and> distinct us \<and> set us \<subseteq> set ps - (set ps' \<union> tables (mem t) root) \<and>
          (\<forall>i<n. leaf (mem t) root (PGROUNDUP oldsz + of_nat (4096 * i)) =
             PA2PTE (us ! i) OR (PTE_R OR PTE_U OR xperm) OR PTE_V) \<and>
          (\<forall>p\<in>set us. \<forall>x. PGROUNDDOWN x = p \<longrightarrow> mem t x = 0)) \<and>
       (\<forall>v<MAXVA. \<not> in_range (PGROUNDUP oldsz) n v \<longrightarrow> leaf (mem t) root v = leaf (mem s) root v)
       \<or> r = 0 \<and> length ps < 3 * n \<and> (\<forall>v<MAXVA. leaf (mem t) root v = leaf (mem s) root v))) s"
proof -
  obtain r t ps' where run: "uvmalloc root oldsz newsz xperm s = Inr (r, t)"
    and c: "r = newsz \<and> (\<exists>us. length us = n \<and>
        uv_inv root (PGROUNDUP oldsz) (PTE_R OR PTE_U OR xperm) s ps t ps' us) \<or>
      r = 0 \<and> length ps < 3 * n \<and> consumes root s ps t ps' \<and>
      (\<forall>v<MAXVA. leaf (mem t) root v = leaf (mem s) root v)"
    using uvmalloc_run [OF assms] by blast
  from c show ?thesis
  proof
    assume "r = newsz \<and> (\<exists>us. length us = n \<and>
        uv_inv root (PGROUNDUP oldsz) (PTE_R OR PTE_U OR xperm) s ps t ps' us)"
    then obtain us where us: "r = newsz" "length us = n"
      "uv_inv root (PGROUNDUP oldsz) (PTE_R OR PTE_U OR xperm) s ps t ps' us" by blast
    then have "set us \<subseteq> set ps - (set ps' \<union> tables (mem t) root)" by (auto simp: uv_inv_def)
    with us run show ?thesis unfolding wp_iff uv_inv_def entry_def
      by (intro exI [of _ r] exI [of _ t] conjI exI [of _ ps'] disjI1 exI [of _ us]) simp_all
  qed (use run in \<open>auto simp: wp_iff\<close>)
qed

section \<open>A concrete address space\<close>

text \<open>An empty root page and three free pages.\<close>

definition vm_boot :: kmem_st where
  "vm_boot = \<lparr>mem = store64 (store64 (\<lambda>_. 0) 0x87001000 0x87002000) 0x87002000 0x87003000,
     freelist = 0x87001000, kend = 0x80020000\<rparr>"

lemma empty_table:
  assumes al: "page_aligned root" "root \<noteq> 0" and zero: "\<And>a. PGROUNDDOWN a = root \<Longrightarrow> m a = 0"
  shows "pt_inv m root" and "tables m root = {root}" and "leaf m root = (\<lambda>_. 0)"
proof -
  have z: "load64 m (ent root 0 va) = 0" for va
    using zero al(1)
    by (intro load64_zero) (auto simp: page_ent dest!: word8_in_page [OF aligned8_ent [OF al(1)]])
  have none: "tbl m root (Suc k) va = None" for k va
    using tbl_None_mono [of m root "Suc 0" va "Suc k"] z by simp
  have t: "tbl m root k va = Some p \<longleftrightarrow> k = 0 \<and> p = root" for k va p
    using none by (cases k) auto
  show "pt_inv m root" using al by (auto simp: pt_inv_def t eqpath_def)
  show "tables m root = {root}" by (auto simp: tables_def t)
  show "leaf m root = (\<lambda>_. 0)" using none [of 1] by (simp add: leaf_def fun_eq_iff numeral_2_eq_2)
qed

lemma vm_boot_space:
  "vminv vm_boot 0x87000000 [0x87001000, 0x87002000, 0x87003000]"
  "leaf (mem vm_boot) 0x87000000 = (\<lambda>_. 0)"
proof -
  have al: "page_aligned 0x87000000" "aligned8 0x87001000" "aligned8 0x87002000" "aligned8 0x87003000"
    "page_aligned 0x87001000" "page_aligned 0x87002000" "page_aligned 0x87003000"
    by (simp_all add: page_aligned_def aligned8_def)
  have "same_page (\<lambda>_. 0) (mem vm_boot) 0x87000000"
    unfolding vm_boot_def using al
    by (auto intro: same_page_trans [OF same_page_store64 same_page_store64])
  then have "mem vm_boot a = 0" if "PGROUNDDOWN a = 0x87000000" for a
    using that by (simp add: same_page_def)
  note e = empty_table [OF al(1) _ this, simplified]
  have z: "load64 (\<lambda>_. 0) a = 0" for a by (rule load64_zero) simp
  have "free_pages vm_boot [0x87001000, 0x87002000, 0x87003000]"
    using al by (simp add: free_pages_def page_ok_def vm_boot_def load64_store64_other z)
  then show "vminv vm_boot 0x87000000 [0x87001000, 0x87002000, 0x87003000]"
    using e by (simp add: vminv_def)
  show "leaf (mem vm_boot) 0x87000000 = (\<lambda>_. 0)" using e by simp
qed

theorem mappages_maps_range_witness:
  "wp (mappages 0x87000000 0 PGSIZE 0x80020000 PTE_R) (\<lambda>r t. \<exists>ps'.
      grown 0x87000000 (2 * (unat (PGSIZE :: addr) div 4096)) vm_boot [0x87001000, 0x87002000, 0x87003000] t ps' \<and>
      (r = 0 \<and> (\<forall>v<MAXVA. leaf (mem t) 0x87000000 v =
          (if in_range 0 (unat (PGSIZE :: addr) div 4096) v
           then PA2PTE (0x80020000 + (PGROUNDDOWN v - 0)) OR PTE_R OR PTE_V
           else leaf (mem vm_boot) 0x87000000 v))
       \<or> r = - 1 \<and> ps' = [] \<and> length [0x87001000, 0x87002000, 0x87003000 :: addr] < 2 * (unat (PGSIZE :: addr) div 4096))) vm_boot"
  by (rule mappages_maps_range) (simp_all add: vm_boot_space page_aligned_def)

lemma vm_boot_grow:
  obtains t ps' p where "uvmalloc 0x87000000 0 0x1000 PTE_W vm_boot = Inr (0x1000, t)"
    and "vminv t 0x87000000 ps'" and "upages (leaf (mem t) 0x87000000) 0 1 = [p]"
    and "page_ok t p" and "p \<notin> set ps'" and "p \<notin> tables (mem t) 0x87000000"
    and "leaf (mem t) 0x87000000 0 = entry p (PTE_R OR PTE_U OR PTE_W)"
proof -
  let ?ps = "[0x87001000, 0x87002000, 0x87003000] :: addr list"
  have a: "(0 :: addr) \<le> 0x1000" "(0x1000 :: addr) \<le> MAXVA" "unat PTE_W < 2 ^ 10"
    "1 = (unat (0x1000 :: addr) + 4095) div 4096 - (unat (0 :: addr) + 4095) div 4096"
    "\<forall>v<MAXVA. in_range (PGROUNDUP 0) 1 v \<longrightarrow> leaf (mem vm_boot) 0x87000000 v = 0"
    by (simp_all add: vm_boot_space)
  obtain r t ps' us where t: "uvmalloc 0x87000000 0 0x1000 PTE_W vm_boot = Inr (r, t)" "r = 0x1000"
    "length us = 1" "uv_inv 0x87000000 (PGROUNDUP 0) (PTE_R OR PTE_U OR PTE_W) vm_boot ?ps t ps' us"
    using uvmalloc_run [OF vm_boot_space(1) a] by auto
  have us: "consumes 0x87000000 vm_boot ?ps t ps'" "set us \<subseteq> set ?ps"
    "set us \<inter> (set ps' \<union> tables (mem t) 0x87000000) = {}"
    "\<forall>i<length us. leaf (mem t) 0x87000000 (PGROUNDUP 0 + of_nat (4096 * i)) = entry (us ! i) (PTE_R OR PTE_U OR PTE_W)"
    using t(4) unfolding uv_inv_def by blast+
  have ok: "\<forall>p\<in>set us. page_ok vm_boot p"
    using us(2) vm_boot_space(1) unfolding vminv_def free_pages_def by blast
  then have pg: "\<forall>p\<in>set us. page_aligned p \<and> unat p < 2 ^ 56"
    by (auto simp: page_ok_def word_less_nat_alt)
  obtain p where p: "us = [p]" using t(3) by (cases us) auto
  have "upages (leaf (mem t) 0x87000000) (PGROUNDUP 0) (length us) = us"
    using us(4) pg by (rule upages_entries) simp
  then have "upages (leaf (mem t) 0x87000000) 0 1 = [p]" by (simp add: p PGROUNDUP_def)
  moreover have "page_ok t p"
    using page_ok_cong [OF mem_only_kend, of vm_boot t] us(1) ok p by (simp add: consumes_def)
  moreover have "vminv t 0x87000000 ps'" using us(1) by (simp only: consumes_def)
  moreover have "p \<notin> set ps'" "p \<notin> tables (mem t) 0x87000000" using us(3) p by auto
  moreover have "leaf (mem t) 0x87000000 0 = entry p (PTE_R OR PTE_U OR PTE_W)"
    using us(4) [rule_format, of 0] by (simp add: p PGROUNDUP_def)
  ultimately show ?thesis using that t(1,2) by blast
qed

theorem uvmunmap_frees_range_witness:
  "wp (bnd (uvmalloc 0x87000000 0 0x1000 PTE_W) (\<lambda>_. uvmunmap 0x87000000 0 1 True))
     (\<lambda>_ t. leaf (mem t) 0x87000000 0 AND PTE_V = 0 \<and> (\<exists>p ps'. vminv t 0x87000000 (p # ps'))) vm_boot"
proof (rule vm_boot_grow)
  fix t ps' p
  assume t: "uvmalloc 0x87000000 0 0x1000 PTE_W vm_boot = Inr (0x1000, t)" "vminv t 0x87000000 ps'"
    and u: "upages (leaf (mem t) 0x87000000) 0 1 = [p]"
    and p: "page_ok t p" "p \<notin> set ps'" "p \<notin> tables (mem t) 0x87000000"
  have one: "unat (1 :: addr) = 1" by simp
  have "wp (uvmunmap 0x87000000 0 1 True)
     (\<lambda>_ t. leaf (mem t) 0x87000000 0 AND PTE_V = 0 \<and> (\<exists>p ps'. vminv t 0x87000000 (p # ps'))) t"
  proof (rule wp_mono [OF uvmunmap_frees_range [OF t(2), of 0 1, unfolded one u]])
    fix r w
    assume h: "vminv w 0x87000000 (rev [p] @ ps') \<and> tables (mem w) 0x87000000 = tables (mem t) 0x87000000 \<and>
      (\<forall>v<MAXVA. leaf (mem w) 0x87000000 v AND PTE_V \<noteq> 0 \<longleftrightarrow>
         leaf (mem t) 0x87000000 v AND PTE_V \<noteq> 0 \<and> \<not> in_range 0 1 v) \<and>
      (\<forall>v<MAXVA. \<not> in_range 0 1 v \<longrightarrow> leaf (mem w) 0x87000000 v = leaf (mem t) 0x87000000 v)"
    have "(0 :: addr) < MAXVA" "in_range 0 1 0" by (simp_all add: in_range_def)
    with h have "leaf (mem w) 0x87000000 0 AND PTE_V = 0" by blast
    with h show "leaf (mem w) 0x87000000 0 AND PTE_V = 0 \<and> (\<exists>p ps'. vminv w 0x87000000 (p # ps'))"
      by auto
  qed (use p in \<open>simp_all add: page_aligned_def\<close>)
  then show ?thesis using t(1) by (simp add: wp_def bnd_def)
qed

theorem uvmalloc_all_or_nothing_witness:
  "wp (uvmalloc 0x87000000 0 0x1000 PTE_W) (\<lambda>r t. r = 0x1000 \<and>
     (\<exists>p. leaf (mem t) 0x87000000 0 = PA2PTE p OR (PTE_R OR PTE_U OR PTE_W) OR PTE_V)) vm_boot"
proof -
  have a: "(0 :: addr) \<le> 0x1000" "(0x1000 :: addr) \<le> MAXVA" "unat PTE_W < 2 ^ 10"
    "1 = (unat (0x1000 :: addr) + 4095) div 4096 - (unat (0 :: addr) + 4095) div 4096"
    "\<forall>v<MAXVA. in_range (PGROUNDUP 0) 1 v \<longrightarrow> leaf (mem vm_boot) 0x87000000 v = 0"
    by (simp_all add: vm_boot_space)
  show ?thesis
    by (rule wp_mono [OF uvmalloc_all_or_nothing [OF vm_boot_space(1) a]])
      (auto simp: PGROUNDUP_def)
qed

end
