(* ===== verification/Sleeplock.thy ===== *)
theory Sleeplock
  imports Xv6_Prelude
begin

text \<open>
  \<^verbatim>\<open>kernel/sleeplock.c\<close>: locks held across sleeps. The spin lock inside makes each operation
  atomic. A process that finds the lock taken sleeps until another process releases it, so
  an acquisition from a state in which the lock is taken is \<open>Blocked\<close>. The name of the lock
  serves debugging only and is left out.
\<close>

record sleeplock =
  sl_locked :: bool
  sl_pid :: int

definition initsleeplock :: sleeplock where
  "initsleeplock = \<lparr>sl_locked = False, sl_pid = 0\<rparr>"

definition acquiresleep :: "int \<Rightarrow> sleeplock \<Rightarrow> stop + sleeplock" where
  "acquiresleep pid lk =
     (if sl_locked lk then Inl Blocked else Inr (lk\<lparr>sl_locked := True, sl_pid := pid\<rparr>))"

definition releasesleep :: "sleeplock \<Rightarrow> sleeplock" where
  "releasesleep lk = lk\<lparr>sl_locked := False, sl_pid := 0\<rparr>"

definition holdingsleep :: "int \<Rightarrow> sleeplock \<Rightarrow> bool" where
  "holdingsleep pid lk \<longleftrightarrow> sl_locked lk \<and> sl_pid lk = pid"

lemma acquire_holds: "acquiresleep pid lk = Inr lk' \<Longrightarrow> holdingsleep pid lk'"
  by (auto simp: acquiresleep_def holdingsleep_def split: if_splits)

lemma acquire_excludes: "acquiresleep pid lk = Inr lk' \<Longrightarrow> acquiresleep pid' lk' = Inl Blocked"
  by (auto simp: acquiresleep_def split: if_splits)

lemma release_acquire: "\<exists>lk'. acquiresleep pid (releasesleep lk) = Inr lk'"
  by (simp add: acquiresleep_def releasesleep_def)

end
