(* ===== verification/Bio.thy ===== *)
theory Bio
  imports Vm Sleeplock
begin

text \<open>
  \<^verbatim>\<open>kernel/bio.c\<close>: the buffer cache. Buffers are numbered 0 to \<^verbatim>\<open>NBUF\<close>-1 and \<open>HEAD\<close> is
  \<^verbatim>\<open>bcache.head\<close>; \<open>b_prev\<close> and \<open>b_next\<close> are the list pointers. A block is its \<^verbatim>\<open>BSIZE\<close> bytes.
  \<open>disk\<close> is what the device holds and \<open>disk_writes\<close> the blocks written so far, oldest first.
  Sections under \<^verbatim>\<open>bcache.lock\<close> are atomic. \<open>disk_rw\<close> is the contract of \<^verbatim>\<open>virtio_disk_rw\<close> at the
  moment it returns: the block was transferred.
\<close>

type_synonym block = "10 word \<Rightarrow> 8 word"
type_synonym uint = "32 word"

record buf =
  b_valid :: bool
  b_disk :: bool
  b_dev :: uint
  b_blockno :: uint
  b_lock :: sleeplock
  b_refcnt :: uint
  b_prev :: nat
  b_next :: nat
  b_data :: block

record bio_st = vm_st +
  mypid :: int
  bufs :: "nat \<Rightarrow> buf"
  disk :: "uint \<Rightarrow> block"
  disk_writes :: "(uint \<times> block) list"

abbreviation NBUF :: nat where "NBUF \<equiv> 30"
abbreviation HEAD :: nat where "HEAD \<equiv> 30"
abbreviation BSIZE :: nat where "BSIZE \<equiv> 1024"
abbreviation ROOTDEV :: uint where "ROOTDEV \<equiv> 1"

definition upd :: "nat \<Rightarrow> (buf \<Rightarrow> buf) \<Rightarrow> (nat \<Rightarrow> buf) \<Rightarrow> (nat \<Rightarrow> buf)" where
  "upd b f B = B(b := f (B b))"

definition upd_buf :: "nat \<Rightarrow> (buf \<Rightarrow> buf) \<Rightarrow> ('z bio_st_scheme, unit) km" where
  "upd_buf b f = modify (\<lambda>s. s\<lparr>bufs := upd b f (bufs s)\<rparr>)"

text \<open>Moving a buffer behind the head: the last four pointer writes of \<^verbatim>\<open>binit\<close>'s loop and of \<^verbatim>\<open>brelse\<close>.\<close>

definition push_front :: "nat \<Rightarrow> (nat \<Rightarrow> buf) \<Rightarrow> (nat \<Rightarrow> buf)" where
  "push_front b B =
     (let B = upd b (\<lambda>x. x\<lparr>b_next := b_next (B HEAD)\<rparr>) B;
          B = upd b (\<lambda>x. x\<lparr>b_prev := HEAD\<rparr>) B;
          B = upd (b_next (B HEAD)) (\<lambda>x. x\<lparr>b_prev := b\<rparr>) B
      in upd HEAD (\<lambda>x. x\<lparr>b_next := b\<rparr>) B)"

definition unlink :: "nat \<Rightarrow> (nat \<Rightarrow> buf) \<Rightarrow> (nat \<Rightarrow> buf)" where
  "unlink b B =
     (let B = upd (b_next (B b)) (\<lambda>x. x\<lparr>b_prev := b_prev (B b)\<rparr>) B
      in upd (b_prev (B b)) (\<lambda>x. x\<lparr>b_next := b_next (B b)\<rparr>) B)"

definition binit :: "('z bio_st_scheme, unit) km" where
  "binit =
     bnd (upd_buf HEAD (\<lambda>x. x\<lparr>b_prev := HEAD\<rparr>)) (\<lambda>_.
     bnd (upd_buf HEAD (\<lambda>x. x\<lparr>b_next := HEAD\<rparr>)) (\<lambda>_.
     for_each [0..<NBUF] (\<lambda>b.
       modify (\<lambda>s. s\<lparr>bufs := push_front b (upd b (\<lambda>x. x\<lparr>b_lock := initsleeplock\<rparr>) (bufs s))\<rparr>))))"

definition lock_buf :: "nat \<Rightarrow> ('z bio_st_scheme, unit) km" where
  "lock_buf b = bnd get (\<lambda>s.
     case acquiresleep (mypid s) (b_lock (bufs s b)) of
       Inl e \<Rightarrow> stop_with e
     | Inr lk \<Rightarrow> upd_buf b (\<lambda>x. x\<lparr>b_lock := lk\<rparr>))"

primrec bget_cached :: "nat \<Rightarrow> nat \<Rightarrow> uint \<Rightarrow> uint \<Rightarrow> ('z bio_st_scheme, nat option) km" where
  "bget_cached 0 b dev blockno = stop_with Diverge"
| "bget_cached (Suc fuel) b dev blockno =
     (if b = HEAD then ret None
      else bnd get (\<lambda>s.
        if b_dev (bufs s b) = dev \<and> b_blockno (bufs s b) = blockno then ret (Some b)
        else bget_cached fuel (b_next (bufs s b)) dev blockno))"

primrec bget_unused :: "nat \<Rightarrow> nat \<Rightarrow> ('z bio_st_scheme, nat option) km" where
  "bget_unused 0 b = stop_with Diverge"
| "bget_unused (Suc fuel) b =
     (if b = HEAD then ret None
      else bnd get (\<lambda>s.
        if b_refcnt (bufs s b) = 0 then ret (Some b)
        else bget_unused fuel (b_prev (bufs s b))))"

definition bget :: "uint \<Rightarrow> uint \<Rightarrow> ('z bio_st_scheme, nat) km" where
  "bget dev blockno = bnd get (\<lambda>s.
     bnd (bget_cached (Suc NBUF) (b_next (bufs s HEAD)) dev blockno) (\<lambda>hit.
     case hit of
       Some b \<Rightarrow>
         bnd (upd_buf b (\<lambda>x. x\<lparr>b_refcnt := b_refcnt x + 1\<rparr>)) (\<lambda>_.
         bnd (lock_buf b) (\<lambda>_. ret b))
     | None \<Rightarrow>
         bnd (bget_unused (Suc NBUF) (b_prev (bufs s HEAD))) (\<lambda>lru.
         case lru of
           Some b \<Rightarrow>
             bnd (upd_buf b (\<lambda>x. x\<lparr>b_dev := dev, b_blockno := blockno, b_valid := False, b_refcnt := 1\<rparr>)) (\<lambda>_.
             bnd (lock_buf b) (\<lambda>_. ret b))
         | None \<Rightarrow> panic ''bget: no buffers'')))"

definition disk_rw :: "nat \<Rightarrow> bool \<Rightarrow> ('z bio_st_scheme, unit) km" where
  "disk_rw b write =
     (if write
      then modify (\<lambda>s. s\<lparr>disk := (disk s)(b_blockno (bufs s b) := b_data (bufs s b)),
             disk_writes := disk_writes s @ [(b_blockno (bufs s b), b_data (bufs s b))]\<rparr>)
      else modify (\<lambda>s. s\<lparr>bufs := upd b (\<lambda>x. x\<lparr>b_data := disk s (b_blockno x)\<rparr>) (bufs s)\<rparr>))"

definition bread :: "uint \<Rightarrow> uint \<Rightarrow> ('z bio_st_scheme, nat) km" where
  "bread dev blockno =
     bnd (bget dev blockno) (\<lambda>b.
     bnd get (\<lambda>s.
       if \<not> b_valid (bufs s b)
       then bnd (disk_rw b False) (\<lambda>_.
            bnd (upd_buf b (\<lambda>x. x\<lparr>b_valid := True\<rparr>)) (\<lambda>_.
            ret b))
       else ret b))"

definition bwrite :: "nat \<Rightarrow> ('z bio_st_scheme, unit) km" where
  "bwrite b = bnd get (\<lambda>s.
     if \<not> holdingsleep (mypid s) (b_lock (bufs s b)) then panic ''bwrite''
     else disk_rw b True)"

definition brelse :: "nat \<Rightarrow> ('z bio_st_scheme, unit) km" where
  "brelse b = bnd get (\<lambda>s.
     if \<not> holdingsleep (mypid s) (b_lock (bufs s b)) then panic ''brelse''
     else
       bnd (upd_buf b (\<lambda>x. x\<lparr>b_lock := releasesleep (b_lock x)\<rparr>)) (\<lambda>_.
       bnd (upd_buf b (\<lambda>x. x\<lparr>b_refcnt := b_refcnt x - 1\<rparr>)) (\<lambda>_.
       bnd get (\<lambda>s.
         if b_refcnt (bufs s b) = 0
         then modify (\<lambda>s. s\<lparr>bufs := push_front b (unlink b (bufs s))\<rparr>)
         else skip))))"

definition bpin :: "nat \<Rightarrow> ('z bio_st_scheme, unit) km" where
  "bpin b = upd_buf b (\<lambda>x. x\<lparr>b_refcnt := b_refcnt x + 1\<rparr>)"

definition bunpin :: "nat \<Rightarrow> ('z bio_st_scheme, unit) km" where
  "bunpin b = upd_buf b (\<lambda>x. x\<lparr>b_refcnt := b_refcnt x - 1\<rparr>)"

text \<open>A write by the holder of \<open>b\<close> into \<^verbatim>\<open>b->data\<close>.\<close>

definition set_data :: "nat \<Rightarrow> (block \<Rightarrow> block) \<Rightarrow> ('z bio_st_scheme, unit) km" where
  "set_data b f = upd_buf b (\<lambda>x. x\<lparr>b_data := f (b_data x)\<rparr>)"

section \<open>The LRU list\<close>

primrec chain :: "(nat \<Rightarrow> buf) \<Rightarrow> nat \<Rightarrow> nat list \<Rightarrow> nat \<Rightarrow> bool" where
  "chain B a [] c \<longleftrightarrow> b_next (B a) = c \<and> b_prev (B c) = a"
| "chain B a (x # xs) c \<longleftrightarrow> b_next (B a) = x \<and> b_prev (B x) = a \<and> chain B x xs c"

definition lru :: "(nat \<Rightarrow> buf) \<Rightarrow> nat list \<Rightarrow> bool" where
  "lru B xs \<longleftrightarrow> chain B HEAD xs HEAD \<and> distinct xs \<and> set xs = {..<NBUF}"

lemma chain_cong:
  "(\<And>x. x \<in> insert a (set xs) \<Longrightarrow> b_next (B x) = b_next (B' x)) \<Longrightarrow>
   (\<And>x. x \<in> insert c (set xs) \<Longrightarrow> b_prev (B x) = b_prev (B' x)) \<Longrightarrow>
   chain B a xs c \<longleftrightarrow> chain B' a xs c"
proof (induction xs arbitrary: a)
  case Nil
  then show ?case by auto
next
  case (Cons x xs)
  have "chain B x xs c \<longleftrightarrow> chain B' x xs c" by (rule Cons.IH) (use Cons.prems in auto)
  then show ?case using Cons.prems by auto
qed

lemma chain_append: "chain B a (xs @ y # ys) c \<longleftrightarrow> chain B a xs y \<and> chain B y ys c"
  by (induction xs arbitrary: a) auto

lemma upd_apply: "upd b f B x = (if x = b then f (B x) else B x)"
  by (simp add: upd_def)

lemma lru_length: "lru B xs \<Longrightarrow> length xs = NBUF"
  by (metis lru_def distinct_card card_lessThan)

lemma chain_push_front:
  assumes "chain B HEAD xs HEAD" and "distinct (HEAD # b # xs)"
  shows "chain (push_front b B) HEAD (b # xs) HEAD"
proof (cases xs)
  case Nil
  then show ?thesis using assms by (simp add: push_front_def Let_def upd_apply)
next
  case (Cons y ys)
  have "chain (push_front b B) y ys HEAD \<longleftrightarrow> chain B y ys HEAD"
    by (rule chain_cong) (use assms Cons in \<open>auto simp: push_front_def Let_def upd_apply\<close>)
  then show ?thesis using assms Cons by (auto simp: push_front_def Let_def upd_apply)
qed

lemma chain_unlink:
  assumes "chain B HEAD (ys @ b # zs) HEAD" and "distinct (HEAD # ys @ b # zs)"
  shows "chain (unlink b B) HEAD (ys @ zs) HEAD"
proof -
  let ?B = "unlink b B"
  have c: "chain B HEAD ys b" "chain B b zs HEAD" using assms(1) by (simp_all add: chain_append)
  show ?thesis
  proof (cases ys rule: rev_cases)
    case Nil
    show ?thesis
    proof (cases zs)
      case Nil
      then show ?thesis using c \<open>ys = []\<close> assms(2) by (auto simp: unlink_def Let_def upd_apply)
    next
      case (Cons q zs')
      have "chain ?B q zs' HEAD \<longleftrightarrow> chain B q zs' HEAD"
        by (rule chain_cong) (use c assms(2) Cons \<open>ys = []\<close> in \<open>auto simp: unlink_def Let_def upd_apply\<close>)
      then show ?thesis using c assms(2) Cons \<open>ys = []\<close> by (auto simp: unlink_def Let_def upd_apply)
    qed
  next
    case (snoc ys' p)
    have p: "chain B HEAD ys' p" "b_next (B p) = b" "b_prev (B b) = p"
      using c(1) snoc by (simp_all add: chain_append)
    have "chain ?B HEAD ys' p \<longleftrightarrow> chain B HEAD ys' p"
      by (rule chain_cong; cases zs) (use c p assms(2) snoc in \<open>auto simp: unlink_def Let_def upd_apply\<close>)
    moreover have "chain ?B p zs HEAD"
    proof (cases zs)
      case Nil
      then show ?thesis using c p assms(2) snoc by (auto simp: unlink_def Let_def upd_apply)
    next
      case (Cons q zs')
      have "chain ?B q zs' HEAD \<longleftrightarrow> chain B q zs' HEAD"
        by (rule chain_cong) (use c p assms(2) Cons snoc in \<open>auto simp: unlink_def Let_def upd_apply\<close>)
      then show ?thesis using c p assms(2) Cons snoc by (auto simp: unlink_def Let_def upd_apply)
    qed
    ultimately show ?thesis using p snoc by (simp add: chain_append)
  qed
qed

text \<open>Releasing a buffer moves it to the front of the list.\<close>

lemma lru_release:
  assumes "lru B xs" and "b < NBUF"
  shows "lru (push_front b (unlink b B)) (b # remove1 b xs)"
proof -
  have xs: "chain B HEAD xs HEAD" "distinct xs" "set xs = {..<NBUF}" using assms(1) by (simp_all add: lru_def)
  then obtain ys zs where split: "xs = ys @ b # zs" "b \<notin> set ys"
    using assms(2) by (metis lessThan_iff split_list_first)
  have d: "distinct (HEAD # ys @ b # zs)" using xs split by (metis distinct.simps(2) lessThan_iff less_irrefl)
  have r: "remove1 b xs = ys @ zs" using split by (simp add: remove1_append)
  have "chain (push_front b (unlink b B)) HEAD (b # ys @ zs) HEAD"
    using chain_unlink [OF xs(1) [unfolded split] d] d by (intro chain_push_front) auto
  moreover have "set (b # ys @ zs) = {..<NBUF}" using xs(3) split by auto
  ultimately show ?thesis using d r by (simp add: lru_def)
qed

lemma lru_cong:
  "lru B xs \<Longrightarrow> (\<And>x. b_next (B' x) = b_next (B x) \<and> b_prev (B' x) = b_prev (B x)) \<Longrightarrow> lru B' xs"
  using chain_cong [of HEAD xs B B' HEAD] by (simp add: lru_def)

lemma bget_cached_run:
  assumes "chain (bufs s) a xs HEAD" and "HEAD \<notin> set xs" and "length xs < fuel"
  shows "bget_cached fuel (b_next (bufs s a)) dev blockno s =
    Inr (find (\<lambda>b. b_dev (bufs s b) = dev \<and> b_blockno (bufs s b) = blockno) xs, s)"
  using assms
proof (induction xs arbitrary: a fuel)
  case Nil
  then show ?case by (cases fuel) (simp_all add: run_simps)
next
  case (Cons x xs)
  then obtain f where "fuel = Suc f" by (cases fuel) auto
  with Cons show ?case by (simp add: run_simps)
qed

lemma bget_unused_run:
  assumes "chain (bufs s) HEAD xs c" and "HEAD \<notin> set xs" and "length xs < fuel"
  shows "bget_unused fuel (b_prev (bufs s c)) s = Inr (find (\<lambda>b. b_refcnt (bufs s b) = 0) (rev xs), s)"
  using assms
proof (induction xs arbitrary: c fuel rule: rev_induct)
  case Nil
  then show ?case by (cases fuel) (simp_all add: run_simps)
next
  case (snoc x xs)
  then obtain f where "fuel = Suc f" by (cases fuel) auto
  moreover have "b_prev (bufs s c) = x" "chain (bufs s) HEAD xs x"
    using snoc.prems(1) by (simp_all add: chain_append)
  ultimately show ?case using snoc by (simp add: run_simps)
qed

end
