(* ===== verification/Block.thy ===== *)
theory Block
  imports Bio
begin

text \<open>
  Fields of the on-disk structures: little-endian integers at byte offsets of a block, as
  the kernel reads and writes them through pointers into \<^verbatim>\<open>b->data\<close>.
\<close>

definition get_le :: "nat \<Rightarrow> block \<Rightarrow> nat \<Rightarrow> 'a::len word" where
  "get_le k b off = le_get k (\<lambda>i. b (of_nat (off + i)))"

definition put_le :: "nat \<Rightarrow> block \<Rightarrow> nat \<Rightarrow> 'a::len word \<Rightarrow> block" where
  "put_le k b off v =
     (\<lambda>x. if off \<le> unat x \<and> unat x < off + k then byte_of v (unat x - off) else b x)"

abbreviation get32 :: "block \<Rightarrow> nat \<Rightarrow> uint" where "get32 \<equiv> get_le 4"
abbreviation put32 :: "block \<Rightarrow> nat \<Rightarrow> uint \<Rightarrow> block" where "put32 \<equiv> put_le 4"
abbreviation get16 :: "block \<Rightarrow> nat \<Rightarrow> 16 word" where "get16 \<equiv> get_le 2"
abbreviation put16 :: "block \<Rightarrow> nat \<Rightarrow> 16 word \<Rightarrow> block" where "put16 \<equiv> put_le 2"

lemma unat_offset: "n < BSIZE \<Longrightarrow> unat (of_nat n :: 10 word) = n"
  by (simp add: unat_of_nat_lt)

lemma get_put_same:
  assumes "off + k \<le> BSIZE" and "LENGTH('a) = 8 * k"
  shows "get_le k (put_le k b off v) off = (v :: 'a::len word)"
  unfolding get_le_def
  by (rule le_get_byte_of_eq) (use assms in \<open>simp_all add: put_le_def unat_offset del: of_nat_add\<close>)

lemma get_put_other:
  assumes "off + k \<le> BSIZE" and "off' + k' \<le> BSIZE" and "off + k \<le> off' \<or> off' + k' \<le> off"
  shows "(get_le k (put_le k' b off' (v :: 'b::len word)) off :: 'a::len word) = get_le k b off"
  unfolding get_le_def
  by (rule le_get_cong) (use assms in \<open>auto simp: put_le_def unat_offset simp del: of_nat_add\<close>)

lemma put_put_same: "put_le k (put_le k b off u) off (v :: 'a::len word) = put_le k b off v"
  by (simp add: put_le_def fun_eq_iff)

lemma put_le_apply:
  "put_le k b off v x = (if off \<le> unat x \<and> unat x < off + k then byte_of v (unat x - off) else b x)"
  by (simp add: put_le_def)

lemma put_get_same:
  assumes "off + k \<le> BSIZE" and "8 * k = LENGTH('a)"
  shows "put_le k b off (get_le k b off :: 'a::len word) = b"
proof
  fix x
  have "byte_of (get_le k b off :: 'a word) (unat x - off) = b x" if "off \<le> unat x" "unat x < off + k"
    unfolding get_le_def using that assms by (subst byte_of_le_get) simp_all
  then show "put_le k b off (get_le k b off :: 'a word) x = b x" by (simp add: put_le_def)
qed

end
