(* ===== verification/Log.thy ===== *)
theory Log
  imports Block
begin

text \<open>
  \<^verbatim>\<open>kernel/log.c\<close>: the redo log that makes file-system transactions atomic with respect to
  crashes. \<open>lh_n\<close> and \<open>lh_block\<close> are the in-memory header \<^verbatim>\<open>log.lh\<close>. Sections under \<^verbatim>\<open>log.lock\<close> are
  atomic; \<^verbatim>\<open>commit\<close> runs without it, but while \<^verbatim>\<open>committing\<close> is set no operation is in progress
  and none can begin. A process that would sleep on \<^verbatim>\<open>&log\<close> is \<open>Blocked\<close>; \<^verbatim>\<open>wakeup\<close> has no effect
  on this state.
\<close>

record log_st = bio_st +
  log_start :: uint
  log_outstanding :: int
  log_committing :: bool
  log_dev :: uint
  lh_n :: int
  lh_block :: "nat \<Rightarrow> uint"

abbreviation LOGBLOCKS :: nat where "LOGBLOCKS \<equiv> 30"
abbreviation MAXOPBLOCKS :: int where "MAXOPBLOCKS \<equiv> 10"

text \<open>The block number of slot \<open>i\<close> of the log; slot 0 is the header's neighbour.\<close>

definition log_slot :: "uint \<Rightarrow> nat \<Rightarrow> uint" where
  "log_slot start tail = start + of_nat tail + 1"

definition read_lh_block :: "nat \<Rightarrow> ('z log_st_scheme, uint) km" where
  "read_lh_block i =
     (if i < LOGBLOCKS then bnd get (\<lambda>s. ret (lh_block s i)) else stop_with OutOfBounds)"

definition install_one :: "bool \<Rightarrow> nat \<Rightarrow> ('z log_st_scheme, unit) km" where
  "install_one recovering tail = bnd get (\<lambda>s.
     bnd (bread (log_dev s) (log_slot (log_start s) tail)) (\<lambda>lbuf.
     bnd (read_lh_block tail) (\<lambda>dst.
     bnd (bread (log_dev s) dst) (\<lambda>dbuf.
     bnd get (\<lambda>s.
     bnd (set_data dbuf (\<lambda>_. b_data (bufs s lbuf))) (\<lambda>_.
     bnd (bwrite dbuf) (\<lambda>_.
     bnd (if \<not> recovering then bunpin dbuf else skip) (\<lambda>_.
     bnd (brelse lbuf) (\<lambda>_.
     brelse dbuf)))))))))"

definition install_trans :: "bool \<Rightarrow> ('z log_st_scheme, unit) km" where
  "install_trans recovering = bnd get (\<lambda>s. for_each [0..<nat (lh_n s)] (install_one recovering))"

definition read_head :: "('z log_st_scheme, unit) km" where
  "read_head = bnd get (\<lambda>s.
     bnd (bread (log_dev s) (log_start s)) (\<lambda>b.
     bnd get (\<lambda>s.
     let hb = b_data (bufs s b) in
     bnd (modify (\<lambda>s. s\<lparr>lh_n := sint (get32 hb 0)\<rparr>)) (\<lambda>_.
     bnd (for_each [0..<nat (sint (get32 hb 0))] (\<lambda>i.
            if i < LOGBLOCKS
            then modify (\<lambda>s. s\<lparr>lh_block := (lh_block s)(i := get32 hb (4 + 4 * i))\<rparr>)
            else stop_with OutOfBounds)) (\<lambda>_.
     brelse b)))))"

definition write_head :: "('z log_st_scheme, unit) km" where
  "write_head = bnd get (\<lambda>s.
     bnd (bread (log_dev s) (log_start s)) (\<lambda>b.
     bnd (set_data b (\<lambda>hb. put32 hb 0 (word_of_int (lh_n s)))) (\<lambda>_.
     bnd (for_each [0..<nat (lh_n s)] (\<lambda>i.
            bnd (read_lh_block i) (\<lambda>n.
            set_data b (\<lambda>hb. put32 hb (4 + 4 * i) n)))) (\<lambda>_.
     bnd (bwrite b) (\<lambda>_.
     brelse b)))))"

definition recover_from_log :: "('z log_st_scheme, unit) km" where
  "recover_from_log =
     bnd read_head (\<lambda>_.
     bnd (install_trans True) (\<lambda>_.
     bnd (modify (\<lambda>s. s\<lparr>lh_n := 0\<rparr>)) (\<lambda>_.
     write_head)))"

definition initlog :: "uint \<Rightarrow> uint \<Rightarrow> ('z log_st_scheme, unit) km" where
  "initlog dev logstart =
     (if 4 + 4 * LOGBLOCKS \<ge> BSIZE then panic ''initlog: too big logheader''
      else bnd (modify (\<lambda>s. s\<lparr>log_start := logstart, log_dev := dev\<rparr>)) (\<lambda>_.
           recover_from_log))"

definition begin_op :: "('z log_st_scheme, unit) km" where
  "begin_op = bnd get (\<lambda>s.
     if log_committing s then stop_with Blocked
     else if lh_n s + (log_outstanding s + 1) * MAXOPBLOCKS > int LOGBLOCKS then stop_with Blocked
     else modify (\<lambda>s. s\<lparr>log_outstanding := log_outstanding s + 1\<rparr>))"

definition write_log_one :: "nat \<Rightarrow> ('z log_st_scheme, unit) km" where
  "write_log_one tail = bnd get (\<lambda>s.
     bnd (bread (log_dev s) (log_slot (log_start s) tail)) (\<lambda>to.
     bnd (read_lh_block tail) (\<lambda>src.
     bnd (bread (log_dev s) src) (\<lambda>from.
     bnd get (\<lambda>s.
     bnd (set_data to (\<lambda>_. b_data (bufs s from))) (\<lambda>_.
     bnd (bwrite to) (\<lambda>_.
     bnd (brelse from) (\<lambda>_.
     brelse to))))))))"

definition write_log :: "('z log_st_scheme, unit) km" where
  "write_log = bnd get (\<lambda>s. for_each [0..<nat (lh_n s)] write_log_one)"

definition commit :: "('z log_st_scheme, unit) km" where
  "commit = bnd get (\<lambda>s.
     if lh_n s > 0
     then bnd write_log (\<lambda>_.
          bnd write_head (\<lambda>_.
          bnd (install_trans False) (\<lambda>_.
          bnd (modify (\<lambda>s. s\<lparr>lh_n := 0\<rparr>)) (\<lambda>_.
          write_head))))
     else skip)"

definition end_op :: "('z log_st_scheme, unit) km" where
  "end_op =
     bnd (modify (\<lambda>s. s\<lparr>log_outstanding := log_outstanding s - 1\<rparr>)) (\<lambda>_.
     bnd get (\<lambda>s.
     if log_committing s then panic ''log.committing''
     else if log_outstanding s = 0
     then bnd (modify (\<lambda>s. s\<lparr>log_committing := True\<rparr>)) (\<lambda>_.
          bnd commit (\<lambda>_.
          modify (\<lambda>s. s\<lparr>log_committing := False\<rparr>)))
     else skip))"

text \<open>The search loop of \<^verbatim>\<open>log_write\<close>: the first index with the block number, or \<^verbatim>\<open>lh.n\<close>.\<close>

primrec log_find :: "nat \<Rightarrow> nat \<Rightarrow> (nat \<Rightarrow> uint) \<Rightarrow> uint \<Rightarrow> nat" where
  "log_find 0 i blk n = i"
| "log_find (Suc k) i blk n = (if blk i = n then i else log_find k (Suc i) blk n)"

definition log_write :: "nat \<Rightarrow> ('z log_st_scheme, unit) km" where
  "log_write b = bnd get (\<lambda>s.
     if lh_n s \<ge> int LOGBLOCKS then panic ''too big a transaction''
     else if log_outstanding s < 1 then panic ''log_write outside of trans''
     else
       let i = log_find (nat (lh_n s)) 0 (lh_block s) (b_blockno (bufs s b)) in
       bnd (modify (\<lambda>s. s\<lparr>lh_block := (lh_block s)(i := b_blockno (bufs s b))\<rparr>)) (\<lambda>_.
       if int i = lh_n s
       then bnd (bpin b) (\<lambda>_. modify (\<lambda>s. s\<lparr>lh_n := lh_n s + 1\<rparr>))
       else skip))"

end
