(* ===== verification/Bio_Spec.thy ===== *)
theory Bio_Spec
  imports Bio
begin

text \<open>
  What the buffer cache promises its clients. \<open>view\<close> is the contents of every block as the
  kernel sees it, cached or not; \<open>refs\<close> counts the references to a cached block and \<open>held\<close>
  tells which process has it locked. The cache never loses an update: recycling a buffer
  leaves \<open>view\<close> alone, because an unreferenced buffer agrees with the disk.
\<close>

section \<open>Invariant and abstraction\<close>

definition core :: "buf \<Rightarrow> bool \<times> uint \<times> uint \<times> sleeplock \<times> uint \<times> block" where
  "core x = (b_valid x, b_dev x, b_blockno x, b_lock x, b_refcnt x, b_data x)"

definition caches :: "buf \<Rightarrow> uint \<Rightarrow> bool" where
  "caches x bn \<longleftrightarrow> b_dev x = ROOTDEV \<and> b_blockno x = bn"

definition binv :: "'z bio_st_scheme \<Rightarrow> nat list \<Rightarrow> bool" where
  "binv s xs \<longleftrightarrow> lru (bufs s) xs \<and>
     (\<forall>i<NBUF. b_dev (bufs s i) = ROOTDEV \<or> b_dev (bufs s i) = 0 \<and> b_refcnt (bufs s i) = 0 \<and> \<not> b_valid (bufs s i)) \<and>
     (\<forall>i<NBUF. \<forall>j<NBUF. \<forall>bn. caches (bufs s i) bn \<longrightarrow> caches (bufs s j) bn \<longrightarrow> i = j) \<and>
     (\<forall>i<NBUF. b_refcnt (bufs s i) = 0 \<longrightarrow> b_valid (bufs s i) \<longrightarrow>
        b_data (bufs s i) = disk s (b_blockno (bufs s i))) \<and>
     (\<forall>i<NBUF. sl_locked (b_lock (bufs s i)) \<longrightarrow> b_refcnt (bufs s i) \<noteq> 0)"

definition slot :: "'z bio_st_scheme \<Rightarrow> uint \<Rightarrow> nat option" where
  "slot s bn = find (\<lambda>b. caches (bufs s b) bn) [0..<NBUF]"

definition view :: "'z bio_st_scheme \<Rightarrow> uint \<Rightarrow> block" where
  "view s bn = (case slot s bn of
     Some b \<Rightarrow> if b_valid (bufs s b) then b_data (bufs s b) else disk s bn
   | None \<Rightarrow> disk s bn)"

definition refs :: "'z bio_st_scheme \<Rightarrow> uint \<Rightarrow> nat" where
  "refs s bn = (case slot s bn of Some b \<Rightarrow> unat (b_refcnt (bufs s b)) | None \<Rightarrow> 0)"

definition held :: "'z bio_st_scheme \<Rightarrow> uint \<Rightarrow> int option" where
  "held s bn = (case slot s bn of
     Some b \<Rightarrow> if sl_locked (b_lock (bufs s b)) then Some (sl_pid (b_lock (bufs s b))) else None
   | None \<Rightarrow> None)"

text \<open>The buffer \<open>b\<close> is the locked, up-to-date copy of block \<open>bn\<close> held by the running process.\<close>

definition handle :: "'z bio_st_scheme \<Rightarrow> uint \<Rightarrow> nat \<Rightarrow> bool" where
  "handle s bn b \<longleftrightarrow> slot s bn = Some b \<and> b_valid (bufs s b) \<and> held s bn = Some (mypid s)"

lemma binv_parts:
  assumes "binv s xs"
  shows binv_lru: "lru (bufs s) xs"
    and binv_dev: "i < NBUF \<Longrightarrow> b_dev (bufs s i) \<noteq> ROOTDEV \<Longrightarrow>
      b_dev (bufs s i) = 0 \<and> b_refcnt (bufs s i) = 0 \<and> \<not> b_valid (bufs s i)"
    and binv_uniq: "i < NBUF \<Longrightarrow> j < NBUF \<Longrightarrow> caches (bufs s i) bn \<Longrightarrow> caches (bufs s j) bn \<Longrightarrow> i = j"
    and binv_clean: "i < NBUF \<Longrightarrow> b_refcnt (bufs s i) = 0 \<Longrightarrow> b_valid (bufs s i) \<Longrightarrow>
      b_data (bufs s i) = disk s (b_blockno (bufs s i))"
    and binv_lock: "i < NBUF \<Longrightarrow> sl_locked (b_lock (bufs s i)) \<Longrightarrow> b_refcnt (bufs s i) \<noteq> 0"
  using assms unfolding binv_def by blast+

lemma find_SomeD: "find P xs = Some x \<Longrightarrow> P x \<and> x \<in> set xs"
  by (induction xs) (auto split: if_splits)

lemma slot_cached:
  assumes "binv s xs"
  shows "slot s bn = Some b \<longleftrightarrow> b < NBUF \<and> caches (bufs s b) bn"
proof
  assume "slot s bn = Some b"
  then show "b < NBUF \<and> caches (bufs s b) bn" by (auto simp: slot_def find_Some_iff)
next
  assume b: "b < NBUF \<and> caches (bufs s b) bn"
  then obtain j where j: "slot s bn = Some j"
    by (cases "slot s bn") (auto simp: slot_def find_None_iff)
  then have "j < NBUF \<and> caches (bufs s j) bn" by (auto simp: slot_def find_Some_iff)
  with b j binv_uniq [OF assms, of b j bn] show "slot s bn = Some b" by simp
qed

lemma slot_None: "slot s bn = None \<longleftrightarrow> (\<forall>b<NBUF. \<not> caches (bufs s b) bn)"
  by (auto simp: slot_def find_None_iff)

lemma slot_find:
  assumes "binv s xs"
  shows "find (\<lambda>b. b_dev (bufs s b) = ROOTDEV \<and> b_blockno (bufs s b) = bn) xs = slot s bn"
proof -
  have xs: "set xs = {..<NBUF}" using assms by (simp add: binv_def lru_def)
  show ?thesis
  proof (cases "find (\<lambda>b. caches (bufs s b) bn) xs")
    case None
    then show ?thesis using xs slot_None [of s bn] by (auto simp: find_None_iff caches_def)
  next
    case (Some b)
    then have "b < NBUF \<and> caches (bufs s b) bn" using find_SomeD [OF Some] xs by auto
    then have "slot s bn = Some b" using slot_cached [OF assms] by blast
    with Some show ?thesis by (simp add: caches_def)
  qed
qed

text \<open>
  One buffer changes: it keeps its block, or an unreferenced one is recycled for a block not
  cached so far. Everything the clients see changes at that block only.
\<close>

lemma update_one:
  assumes inv: "binv s xs" and list: "lru (bufs t) ys" and b: "b < NBUF" and dsk: "disk t = disk s"
    and others: "\<forall>j<NBUF. j \<noteq> b \<longrightarrow> core (bufs t j) = core (bufs s j)"
    and c': "caches (bufs t b) bn"
    and c: "caches (bufs s b) bn \<or> slot s bn = None \<and> b_refcnt (bufs s b) = 0"
    and lk: "sl_locked (b_lock (bufs t b)) \<longrightarrow> b_refcnt (bufs t b) \<noteq> 0"
    and cl: "b_refcnt (bufs t b) = 0 \<longrightarrow> b_valid (bufs t b) \<longrightarrow> b_data (bufs t b) = disk s bn"
  shows "binv t ys" and "slot t bn = Some b"
    and "bn' \<noteq> bn \<Longrightarrow> refs s bn' \<noteq> 0 \<Longrightarrow> slot t bn' = slot s bn'"
    and "view t = (view s)(bn := if b_valid (bufs t b) then b_data (bufs t b) else disk s bn)"
    and "refs t = (refs s)(bn := unat (b_refcnt (bufs t b)))"
    and "held t = (held s)(bn := if sl_locked (b_lock (bufs t b)) then Some (sl_pid (b_lock (bufs t b))) else None)"
proof -
  have same: "b_valid (bufs t j) = b_valid (bufs s j)" "b_dev (bufs t j) = b_dev (bufs s j)"
    "b_blockno (bufs t j) = b_blockno (bufs s j)" "b_lock (bufs t j) = b_lock (bufs s j)"
    "b_refcnt (bufs t j) = b_refcnt (bufs s j)" "b_data (bufs t j) = b_data (bufs s j)"
    if "j < NBUF" "j \<noteq> b" for j
    using others that by (simp_all add: core_def)
  have cs: "caches (bufs t j) x \<longleftrightarrow> caches (bufs s j) x" if "j < NBUF" "j \<noteq> b" for j x
    using same [OF that] by (simp add: caches_def)
  have other: "\<not> caches (bufs s j) bn" if "j < NBUF" "j \<noteq> b" for j
    using c that slot_None [of s bn] binv_uniq [OF inv, of j b bn] b by auto
  have uniq: "i = j" if "i < NBUF" "j < NBUF" "caches (bufs t i) x" "caches (bufs t j) x" for i j x
  proof -
    have "x = bn" if "caches (bufs t b) x" using that c' by (simp add: caches_def)
    then show ?thesis using that cs other binv_uniq [OF inv, of i j x] by metis
  qed
  have dev: "b_dev (bufs t i) = ROOTDEV \<or> b_dev (bufs t i) = 0 \<and> b_refcnt (bufs t i) = 0 \<and> \<not> b_valid (bufs t i)"
    if "i < NBUF" for i
    using that c' same [of i] binv_dev [OF inv, of i] by (cases "i = b") (auto simp: caches_def)
  have clean: "b_data (bufs t i) = disk t (b_blockno (bufs t i))"
    if "i < NBUF" "b_refcnt (bufs t i) = 0" "b_valid (bufs t i)" for i
    using that cl c' same [of i] dsk binv_clean [OF inv, of i] by (cases "i = b") (auto simp: caches_def)
  have lock: "b_refcnt (bufs t i) \<noteq> 0" if "i < NBUF" "sl_locked (b_lock (bufs t i))" for i
    using that lk same [of i] binv_lock [OF inv, of i] by (cases "i = b") auto
  show inv': "binv t ys"
    unfolding binv_def using list dev uniq clean lock by blast
  show sl: "slot t bn = Some b" using slot_cached [OF inv'] b c' by blast
  have slx: "slot t x = slot s x \<or> slot s x = Some b \<and> slot t x = None \<and> b_refcnt (bufs s b) = 0"
    if "x \<noteq> bn" for x
  proof (cases "slot s x")
    case None
    then have "\<not> caches (bufs t j) x" if "j < NBUF" for j
      using that cs c' \<open>x \<noteq> bn\<close> slot_None [of s x] by (metis caches_def)
    then show ?thesis using None slot_None [of t x] by simp
  next
    case (Some j)
    then have j: "j < NBUF" "caches (bufs s j) x" using slot_cached [OF inv] by auto
    show ?thesis
    proof (cases "j = b")
      case True
      then have "b_refcnt (bufs s b) = 0" using c j that by (auto simp: caches_def)
      moreover have "\<not> caches (bufs t i) x" if "i < NBUF" for i
        using that cs c' \<open>x \<noteq> bn\<close> binv_uniq [OF inv, of i j x] j True by (metis caches_def)
      ultimately show ?thesis using Some True slot_None [of t x] by simp
    next
      case False
      then have "slot t x = Some j" using slot_cached [OF inv'] j cs by simp
      with Some show ?thesis by simp
    qed
  qed
  show "slot t bn' = slot s bn'" if "bn' \<noteq> bn" "refs s bn' \<noteq> 0"
    using slx [OF that(1)] that(2) by (auto simp: refs_def)
  have nb: "j \<noteq> b" "j < NBUF" if "slot t x = Some j" "x \<noteq> bn" for x j
    using that slot_cached [OF inv'] c' by (auto simp: caches_def)
  have x: "view t x = view s x \<and> refs t x = refs s x \<and> held t x = held s x" if "x \<noteq> bn" for x
  proof (cases "slot t x = slot s x")
    case True
    then show ?thesis using same nb [OF _ that] dsk
      by (cases "slot s x") (auto simp: view_def refs_def held_def)
  next
    case False
    then have h: "slot s x = Some b" "slot t x = None" "b_refcnt (bufs s b) = 0" using slx [OF that] by auto
    then have "b_blockno (bufs s b) = x" using slot_cached [OF inv, of x b] by (simp add: caches_def)
    then show ?thesis using h binv_clean [OF inv b] binv_lock [OF inv b] dsk
      by (auto simp: view_def refs_def held_def)
  qed
  show "view t = (view s)(bn := if b_valid (bufs t b) then b_data (bufs t b) else disk s bn)"
    using x sl dsk by (auto simp: fun_eq_iff view_def)
  show "refs t = (refs s)(bn := unat (b_refcnt (bufs t b)))"
    using x sl by (auto simp: fun_eq_iff refs_def)
  show "held t = (held s)(bn := if sl_locked (b_lock (bufs t b)) then Some (sl_pid (b_lock (bufs t b))) else None)"
    using x sl by (auto simp: fun_eq_iff held_def)
qed

lemma refs_handle: "binv s xs \<Longrightarrow> handle s bn b \<Longrightarrow> refs s bn \<noteq> 0"
  using slot_cached [of s xs bn b] binv_lock [of s xs b]
  by (auto simp: handle_def refs_def held_def unat_eq_zero split: if_splits)

lemma handle_frame:
  assumes inv: "binv s xs" and h: "handle s bn' b'" and ne: "bn' \<noteq> bn" and inv': "binv t ys"
    and sl: "slot t bn' = slot s bn'" "slot t bn = Some b" and hd: "held t bn' = held s bn'"
    and others: "\<forall>j<NBUF. j \<noteq> b \<longrightarrow> core (bufs t j) = core (bufs s j)"
    and pid: "mypid t = mypid s"
  shows "handle t bn' b'"
proof -
  have s': "slot t bn' = Some b'" using h sl by (simp add: handle_def)
  have "b' \<noteq> b"
  proof
    assume "b' = b"
    then show False using slot_cached [OF inv'] s' sl(2) ne by (auto simp: caches_def)
  qed
  moreover have "b' < NBUF" using slot_cached [OF inv'] s' by blast
  ultimately show ?thesis using h s' hd pid others by (simp add: handle_def core_def)
qed

section \<open>Operations\<close>

definition only_bufs :: "'z bio_st_scheme \<Rightarrow> 'z bio_st_scheme \<Rightarrow> bool" where
  "only_bufs s t \<longleftrightarrow> t = s\<lparr>bufs := bufs t\<rparr>"

lemma only_bufs_upd [simp]: "only_bufs s (s\<lparr>bufs := B\<rparr>)"
  by (simp add: only_bufs_def)

lemma only_bufsD:
  assumes "only_bufs s t"
  shows "disk t = disk s" and "mypid t = mypid s" and "disk_writes t = disk_writes s"
  using assms unfolding only_bufs_def by (metis bio_st.select_convs bio_st.surjective bio_st.update_convs(2))+

lemma lru_upd_core:
  assumes "lru B xs" and "\<And>x. b_next (f x) = b_next x \<and> b_prev (f x) = b_prev x"
  shows "lru (upd b f B) xs"
  using assms(1) by (rule lru_cong) (simp add: upd_apply assms(2))

text \<open>The buffer recycled when the block is not cached: the least recently used one not in use.\<close>

lemma unused_exists:
  assumes inv: "binv s xs" and room: "card {x. refs s x \<noteq> 0} < NBUF"
  obtains b where "find (\<lambda>b. b_refcnt (bufs s b) = 0) (rev xs) = Some b"
    and "b < NBUF" and "b_refcnt (bufs s b) = 0"
proof -
  have xs: "set xs = {..<NBUF}" using inv by (simp add: binv_def lru_def)
  have "\<exists>b<NBUF. b_refcnt (bufs s b) = 0"
  proof (rule ccontr)
    assume "\<not> (\<exists>b<NBUF. b_refcnt (bufs s b) = 0)"
    then have nz: "b_refcnt (bufs s b) \<noteq> 0" if "b < NBUF" for b using that by blast
    have dev: "caches (bufs s b) (b_blockno (bufs s b))" if "b < NBUF" for b
      using nz [OF that] binv_dev [OF inv that] by (auto simp: caches_def)
    have "inj_on (\<lambda>b. b_blockno (bufs s b)) {..<NBUF}"
    proof (rule inj_onI)
      fix i j assume "i \<in> {..<NBUF}" "j \<in> {..<NBUF}" "b_blockno (bufs s i) = b_blockno (bufs s j)"
      then show "i = j"
        using binv_uniq [OF inv, of i j "b_blockno (bufs s i)"] dev [of i] dev [of j] by simp
    qed
    moreover have "(\<lambda>b. b_blockno (bufs s b)) ` {..<NBUF} \<subseteq> {x. refs s x \<noteq> 0}"
    proof (rule image_subsetI)
      fix b :: nat assume "b \<in> {..<NBUF}"
      then have b: "b < NBUF" by simp
      then have "slot s (b_blockno (bufs s b)) = Some b" using slot_cached [OF inv] dev by blast
      then show "b_blockno (bufs s b) \<in> {x. refs s x \<noteq> 0}" using nz [OF b] by (simp add: refs_def unat_gt_0)
    qed
    ultimately have "NBUF \<le> card {x. refs s x \<noteq> 0}"
      using card_inj_on_le [of "\<lambda>b. b_blockno (bufs s b)" "{..<NBUF}" "{x. refs s x \<noteq> 0}"] by simp
    with room show False by simp
  qed
  then obtain b where "find (\<lambda>b. b_refcnt (bufs s b) = 0) (rev xs) = Some b"
    using xs by (cases "find (\<lambda>b. b_refcnt (bufs s b) = 0) (rev xs)") (auto simp: find_None_iff)
  moreover from this have "b \<in> set (rev xs)" "b_refcnt (bufs s b) = 0"
    using find_SomeD [of _ "rev xs" b] by blast+
  ultimately show ?thesis using that xs by auto
qed

lemma bread_spec:
  assumes inv: "binv s xs" and free: "held s bn = None" and max_refs: "refs s bn < 2 ^ 32 - 1"
    and room: "refs s bn \<noteq> 0 \<or> card {x. refs s x \<noteq> 0} < NBUF"
  obtains b t where "bread ROOTDEV bn s = Inr (b, t)" and "only_bufs s t" and "binv t xs"
    and "handle t bn b" and "b_data (bufs t b) = view s bn" and "view t = view s"
    and "refs t = (refs s)(bn := Suc (refs s bn))" and "held t = (held s)(bn := Some (mypid s))"
    and "\<And>bn' b'. bn' \<noteq> bn \<Longrightarrow> handle s bn' b' \<Longrightarrow> handle t bn' b'"
    and "slot s bn = None \<longrightarrow> find (\<lambda>b. b_refcnt (bufs s b) = 0) (rev xs) = Some b"
proof -
  have ch: "chain (bufs s) HEAD xs HEAD" "HEAD \<notin> set xs" "length xs < Suc NBUF"
    using binv_lru [OF inv] lru_length [OF binv_lru [OF inv]] by (auto simp: lru_def)
  note hit = bget_cached_run [OF ch, of ROOTDEV bn, unfolded slot_find [OF inv]]
  note unused = bget_unused_run [OF ch]
  define get_f where "get_f = (\<lambda>x :: buf. if caches x bn
      then x\<lparr>b_refcnt := b_refcnt x + 1\<rparr>
      else x\<lparr>b_dev := ROOTDEV, b_blockno := bn, b_valid := False, b_refcnt := 1\<rparr>)"
  define lk_f where "lk_f = (\<lambda>x :: buf. x\<lparr>b_lock := (b_lock x)\<lparr>sl_locked := True, sl_pid := mypid s\<rparr>\<rparr>)"
  define rd_f where "rd_f = (\<lambda>x :: buf. if b_valid x then x else x\<lparr>b_data := disk s bn, b_valid := True\<rparr>)"
  obtain b where b: "b < NBUF" and lock: "\<not> sl_locked (b_lock (bufs s b))"
    and c: "caches (bufs s b) bn \<and> slot s bn = Some b \<or> slot s bn = None \<and> b_refcnt (bufs s b) = 0"
    and lru: "slot s bn = None \<longrightarrow> find (\<lambda>b. b_refcnt (bufs s b) = 0) (rev xs) = Some b"
    and g: "bget ROOTDEV bn s = Inr (b, s\<lparr>bufs := upd b lk_f (upd b get_f (bufs s))\<rparr>)"
  proof (cases "slot s bn")
    case (Some b)
    have cb: "b < NBUF" "caches (bufs s b) bn" "\<not> sl_locked (b_lock (bufs s b))"
      using slot_cached [OF inv, THEN iffD1, OF Some] free Some by (simp_all add: held_def split: if_splits)
    then have "bget ROOTDEV bn s = Inr (b, s\<lparr>bufs := upd b lk_f (upd b get_f (bufs s))\<rparr>)"
      using hit Some by (simp add: bget_def lock_buf_def upd_buf_def acquiresleep_def run_simps
          upd_def get_f_def lk_f_def)
    then show ?thesis using that Some cb by fastforce
  next
    case None
    then have "refs s bn = 0" by (simp add: refs_def)
    then obtain b where b: "find (\<lambda>b. b_refcnt (bufs s b) = 0) (rev xs) = Some b"
      "b < NBUF" "b_refcnt (bufs s b) = 0"
      using unused_exists [OF inv] room by auto
    have cb: "\<not> sl_locked (b_lock (bufs s b))" "\<not> caches (bufs s b) bn"
      using binv_lock [OF inv b(2)] b(2,3) None slot_None by auto
    then have "bget ROOTDEV bn s = Inr (b, s\<lparr>bufs := upd b lk_f (upd b get_f (bufs s))\<rparr>)"
      using hit unused None b(1) by (simp add: bget_def lock_buf_def upd_buf_def acquiresleep_def run_simps
          upd_def get_f_def lk_f_def)
    then show ?thesis using that None b cb by blast
  qed
  let ?t = "s\<lparr>bufs := upd b rd_f (upd b lk_f (upd b get_f (bufs s)))\<rparr>"
  have bn: "b_blockno (lk_f (get_f (bufs s b))) = bn"
    by (simp add: lk_f_def get_f_def caches_def)
  have run: "bread ROOTDEV bn s = Inr (b, ?t)"
    using g bn by (auto simp: bread_def disk_rw_def upd_buf_def run_simps upd_def rd_f_def)
  have val: "b_valid (rd_f x)" for x by (simp add: rd_f_def)
  have tb: "bufs ?t b = rd_f (lk_f (get_f (bufs s b)))" by (simp add: upd_apply)
  have lr: "lru (bufs ?t) xs"
    using binv_lru [OF inv]
    by (auto intro!: lru_upd_core simp: rd_f_def lk_f_def get_f_def)
  have c': "caches (bufs ?t b) bn" unfolding tb by (simp add: rd_f_def lk_f_def get_f_def caches_def)
  have lk: "b_lock (bufs ?t b) = (b_lock (bufs s b))\<lparr>sl_locked := True, sl_pid := mypid s\<rparr>"
    unfolding tb by (simp add: rd_f_def lk_f_def get_f_def)
  have rc: "unat (b_refcnt (bufs ?t b)) = Suc (refs s bn)"
  proof (cases "slot s bn")
    case None
    then have "\<not> caches (bufs s b) bn" using slot_None b by blast
    then show ?thesis unfolding tb using None by (simp add: rd_f_def lk_f_def get_f_def refs_def)
  next
    case (Some i)
    then have "i = b" "caches (bufs s b) bn" using c by auto
    moreover have "unat (b_refcnt (bufs s b)) + unat (1 :: uint) < 2 ^ 32"
      using max_refs Some \<open>i = b\<close> by (simp add: refs_def)
    ultimately show ?thesis
      unfolding tb using Some unat_add_nowrap [of "b_refcnt (bufs s b)" 1]
      by (simp add: rd_f_def lk_f_def get_f_def refs_def)
  qed
  have dat: "b_data (bufs ?t b) = view s bn"
    unfolding tb using c slot_None [of s bn] b by (auto simp: rd_f_def lk_f_def get_f_def view_def)
  have nz: "b_refcnt (bufs ?t b) \<noteq> 0" using rc by (metis nat.distinct(1) unat_0)
  have oth: "\<forall>j<NBUF. j \<noteq> b \<longrightarrow> core (bufs ?t j) = core (bufs s j)"
    by (simp add: upd_apply)
  have pre: "caches (bufs s b) bn \<or> slot s bn = None \<and> b_refcnt (bufs s b) = 0" using c by blast
  have v: "b_valid (bufs ?t b)" unfolding tb by (rule val)
  have dk: "disk ?t = disk s" by simp
  have lk': "sl_locked (b_lock (bufs ?t b)) \<longrightarrow> b_refcnt (bufs ?t b) \<noteq> 0"
    and cl': "b_refcnt (bufs ?t b) = 0 \<longrightarrow> b_valid (bufs ?t b) \<longrightarrow> b_data (bufs ?t b) = disk s bn"
    using nz by blast+
  note up = update_one [OF inv lr b dk oth c' pre lk' cl']
  show ?thesis
  proof (rule that [OF run _ up(1) _ dat _ _ _ _ lru])
    show "held ?t = (held s)(bn := Some (mypid s))" unfolding up(6) lk by simp
    then show "handle ?t bn b" unfolding handle_def using up(2) v by simp
    show "view ?t = view s" unfolding up(4) dat using v by auto
    show "refs ?t = (refs s)(bn := Suc (refs s bn))" unfolding up(5) rc by simp
    fix x b' assume "x \<noteq> bn" "handle s x b'"
    then show "handle ?t x b'" using up(3) [of x] refs_handle [OF inv] up(6)
      by (intro handle_frame [OF inv _ _ up(1) _ up(2) _ oth]) auto
  qed simp
qed

lemma handleD:
  assumes "binv s xs" and "handle s bn b"
  shows "b < NBUF" and "caches (bufs s b) bn" and "b_valid (bufs s b)" and "slot s bn = Some b"
    and "b_lock (bufs s b) = \<lparr>sl_locked = True, sl_pid = mypid s\<rparr>"
    and "b_refcnt (bufs s b) \<noteq> 0" and "b_data (bufs s b) = view s bn"
    and "unat (b_refcnt (bufs s b)) = refs s bn" and "held s bn = Some (mypid s)"
proof -
  show sl: "slot s bn = Some b" and v: "b_valid (bufs s b)" and h: "held s bn = Some (mypid s)"
    using assms(2) by (simp_all add: handle_def)
  show b: "b < NBUF" and "caches (bufs s b) bn" using slot_cached [OF assms(1), THEN iffD1, OF sl] by auto
  have l: "sl_locked (b_lock (bufs s b))" "sl_pid (b_lock (bufs s b)) = mypid s"
    using h sl by (simp_all add: held_def split: if_splits)
  then show "b_lock (bufs s b) = \<lparr>sl_locked = True, sl_pid = mypid s\<rparr>" by (metis sleeplock.surjective unit.exhaust)
  show "b_refcnt (bufs s b) \<noteq> 0" using binv_lock [OF assms(1) b l(1)] .
  show "b_data (bufs s b) = view s bn" "unat (b_refcnt (bufs s b)) = refs s bn"
    using sl v by (simp_all add: view_def refs_def)
qed

text \<open>Handles on other blocks stay valid.\<close>

definition kept :: "'z bio_st_scheme \<Rightarrow> 'z bio_st_scheme \<Rightarrow> uint \<Rightarrow> bool" where
  "kept s t bn \<longleftrightarrow> (\<forall>bn' b'. bn' \<noteq> bn \<longrightarrow> handle s bn' b' \<longrightarrow> handle t bn' b')"

text \<open>The holder of a buffer changes it, keeping its identity.\<close>

lemma modify_handle:
  fixes s :: "'z bio_st_scheme"
  assumes inv: "binv s xs" and h: "handle s bn b" and lr: "lru B ys"
    and oth: "\<forall>j<NBUF. j \<noteq> b \<longrightarrow> core (B j) = core (bufs s j)"
    and id: "b_dev (B b) = b_dev (bufs s b)" "b_blockno (B b) = b_blockno (bufs s b)" "b_valid (B b)"
    and lk: "sl_locked (b_lock (B b)) \<longrightarrow> b_refcnt (B b) \<noteq> 0"
    and cl: "b_refcnt (B b) = 0 \<longrightarrow> b_data (B b) = disk s bn"
  defines "t \<equiv> s\<lparr>bufs := B\<rparr>"
  shows "binv t ys" and "slot t bn = Some b" and "view t = (view s)(bn := b_data (B b))"
    and "refs t = (refs s)(bn := unat (b_refcnt (B b)))"
    and "held t = (held s)(bn := if sl_locked (b_lock (B b)) then Some (sl_pid (b_lock (B b))) else None)"
    and "kept s t bn"
proof -
  note hd = handleD [OF inv h]
  have p: "lru (bufs t) ys" "disk t = disk s" "\<forall>j<NBUF. j \<noteq> b \<longrightarrow> core (bufs t j) = core (bufs s j)"
    "caches (bufs t b) bn" "caches (bufs s b) bn \<or> slot s bn = None \<and> b_refcnt (bufs s b) = 0"
    "sl_locked (b_lock (bufs t b)) \<longrightarrow> b_refcnt (bufs t b) \<noteq> 0"
    "b_refcnt (bufs t b) = 0 \<longrightarrow> b_valid (bufs t b) \<longrightarrow> b_data (bufs t b) = disk s bn"
    using lr oth id lk cl hd(2) by (simp_all add: t_def caches_def)
  note up = update_one [OF inv p(1) hd(1) p(2-)]
  show i: "binv t ys" and sl: "slot t bn = Some b" by (rule up)+
  show "view t = (view s)(bn := b_data (B b))" using up(4) id(3) by (simp add: t_def)
  show "refs t = (refs s)(bn := unat (b_refcnt (B b)))" using up(5) by (simp add: t_def)
  show hl: "held t = (held s)(bn := if sl_locked (b_lock (B b)) then Some (sl_pid (b_lock (B b))) else None)"
    using up(6) by (simp add: t_def)
  have "handle t bn' b'" if "bn' \<noteq> bn" "handle s bn' b'" for bn' b'
    using that up(3) [of bn'] refs_handle [OF inv] hl
    by (intro handle_frame [OF inv _ _ i _ sl _ p(3)]) (auto simp: t_def)
  then show "kept s t bn" by (simp add: kept_def)
qed

lemma modify_upd:
  fixes s :: "'z bio_st_scheme"
  assumes inv: "binv s xs" and h: "handle s bn b"
    and f: "\<And>x. b_next (f x) = b_next x \<and> b_prev (f x) = b_prev x"
      "\<And>x. b_dev (f x) = b_dev x \<and> b_blockno (f x) = b_blockno x \<and> b_valid (f x) = b_valid x \<and> b_lock (f x) = b_lock x"
    and nz: "b_refcnt (f (bufs s b)) \<noteq> 0"
  defines "t \<equiv> s\<lparr>bufs := upd b f (bufs s)\<rparr>"
  shows "binv t xs" and "handle t bn b" and "view t = (view s)(bn := b_data (f (bufs s b)))"
    and "refs t = (refs s)(bn := unat (b_refcnt (f (bufs s b))))" and "held t = held s" and "kept s t bn"
proof -
  note hd = handleD [OF inv h]
  let ?B = "upd b f (bufs s)"
  have lr: "lru ?B xs" using binv_lru [OF inv] f(1) by (rule lru_upd_core)
  have Bb: "?B b = f (bufs s b)" by (simp add: upd_apply)
  have p: "\<forall>j<NBUF. j \<noteq> b \<longrightarrow> core (?B j) = core (bufs s j)" "b_dev (?B b) = b_dev (bufs s b)"
    "b_blockno (?B b) = b_blockno (bufs s b)" "b_valid (?B b)"
    "sl_locked (b_lock (?B b)) \<longrightarrow> b_refcnt (?B b) \<noteq> 0" "b_refcnt (?B b) = 0 \<longrightarrow> b_data (?B b) = disk s bn"
    using f(2) hd(3) nz by (simp_all add: Bb) (simp add: upd_apply)
  note m = modify_handle [OF inv h lr p, folded t_def, unfolded Bb]
  show "binv t xs" "view t = (view s)(bn := b_data (f (bufs s b)))"
    "refs t = (refs s)(bn := unat (b_refcnt (f (bufs s b))))" "kept s t bn"
    by (rule m)+
  show hl: "held t = held s" using m(5) f(2) hd(5,9) by (simp add: fun_upd_idem)
  show "handle t bn b" using m(2) hl hd(9,3) f(2) by (simp add: handle_def t_def upd_apply)
qed

definition bcache_ok :: "'z bio_st_scheme \<Rightarrow> bool" where
  "bcache_ok s \<longleftrightarrow> (\<exists>xs. binv s xs)"

definition bio_only :: "'z bio_st_scheme \<Rightarrow> 'z bio_st_scheme \<Rightarrow> bool" where
  "bio_only s t \<longleftrightarrow> t = s\<lparr>bufs := bufs t, disk := disk t, disk_writes := disk_writes t\<rparr>"

lemma bio_only_refl [simp]: "bio_only s s"
  by (simp add: bio_only_def)

lemma bio_only_trans: "bio_only s t \<Longrightarrow> bio_only t u \<Longrightarrow> bio_only s u"
  unfolding bio_only_def by (cases s, cases t, cases u) simp

lemma bio_only_pid: "bio_only s t \<Longrightarrow> mypid t = mypid s"
  unfolding bio_only_def by (cases s, cases t) simp

lemma bio_only_bufs: "bio_only s (s\<lparr>bufs := B\<rparr>)"
  by (simp add: bio_only_def)

lemma set_data_spec:
  assumes "bcache_ok s" and h: "handle s bn b"
  shows "\<exists>t. set_data b f s = Inr ((), t) \<and> bcache_ok t \<and> bio_only s t \<and> handle t bn b \<and>
    view t = (view s)(bn := f (view s bn)) \<and> refs t = refs s \<and> held t = held s \<and>
    disk t = disk s \<and> disk_writes t = disk_writes s \<and> kept s t bn"
proof -
  obtain xs where inv: "binv s xs" using assms(1) by (auto simp: bcache_ok_def)
  note hd = handleD [OF inv h]
  note m = modify_upd [OF inv h, of "\<lambda>x. x\<lparr>b_data := f (b_data x)\<rparr>", simplified, OF hd(6)]
  have "set_data b f s = Inr ((), s\<lparr>bufs := upd b (\<lambda>x. x\<lparr>b_data := f (b_data x)\<rparr>) (bufs s)\<rparr>)"
    by (simp add: set_data_def upd_buf_def run_simps)
  then show ?thesis using m hd by (auto simp: bcache_ok_def bio_only_bufs fun_upd_idem)
qed

lemma bpin_spec:
  assumes "bcache_ok s" and h: "handle s bn b" and lt: "refs s bn < 2 ^ 32 - 1"
  shows "\<exists>t. bpin b s = Inr ((), t) \<and> bcache_ok t \<and> bio_only s t \<and> handle t bn b \<and>
    view t = view s \<and> refs t = (refs s)(bn := Suc (refs s bn)) \<and> held t = held s \<and>
    disk t = disk s \<and> disk_writes t = disk_writes s \<and> kept s t bn"
proof -
  obtain xs where inv: "binv s xs" using assms(1) by (auto simp: bcache_ok_def)
  note hd = handleD [OF inv h]
  have rc: "unat (b_refcnt (bufs s b) + 1) = Suc (refs s bn)"
    using hd(8) lt unat_add_nowrap [of "b_refcnt (bufs s b)" 1] by simp
  then have nz: "b_refcnt (bufs s b) + 1 \<noteq> 0" by (metis nat.distinct(1) unat_0)
  note m = modify_upd [OF inv h, of "\<lambda>x. x\<lparr>b_refcnt := b_refcnt x + 1\<rparr>", simplified, OF nz]
  have "bpin b s = Inr ((), s\<lparr>bufs := upd b (\<lambda>x. x\<lparr>b_refcnt := b_refcnt x + 1\<rparr>) (bufs s)\<rparr>)"
    by (simp add: bpin_def upd_buf_def run_simps)
  then show ?thesis using m hd rc by (auto simp: bcache_ok_def bio_only_bufs fun_upd_idem)
qed

lemma bunpin_spec:
  assumes "bcache_ok s" and h: "handle s bn b" and gt: "1 < refs s bn"
  shows "\<exists>t. bunpin b s = Inr ((), t) \<and> bcache_ok t \<and> bio_only s t \<and> handle t bn b \<and>
    view t = view s \<and> refs t = (refs s)(bn := refs s bn - 1) \<and> held t = held s \<and>
    disk t = disk s \<and> disk_writes t = disk_writes s \<and> kept s t bn"
proof -
  obtain xs where inv: "binv s xs" using assms(1) by (auto simp: bcache_ok_def)
  note hd = handleD [OF inv h]
  have rc: "unat (b_refcnt (bufs s b) - 1) = refs s bn - 1"
    using hd(6,8) by (simp add: unat_minus_one)
  then have nz: "b_refcnt (bufs s b) - 1 \<noteq> 0" using gt by (metis zero_less_diff less_irrefl unat_0)
  note m = modify_upd [OF inv h, of "\<lambda>x. x\<lparr>b_refcnt := b_refcnt x - 1\<rparr>", simplified, OF nz [simplified]]
  have "bunpin b s = Inr ((), s\<lparr>bufs := upd b (\<lambda>x. x\<lparr>b_refcnt := b_refcnt x - 1\<rparr>) (bufs s)\<rparr>)"
    by (simp add: bunpin_def upd_buf_def run_simps)
  then show ?thesis using m hd rc by (auto simp: bcache_ok_def bio_only_bufs fun_upd_idem)
qed

text \<open>Whatever the state, the operations of the cache leave everything else alone.\<close>

lemma reflp_bio_only [keeps_intros]: "reflp bio_only"
  by (simp add: reflp_def)

lemma transp_bio_only [keeps_intros]: "transp bio_only"
  by (metis bio_only_trans transpI)

lemma keeps_upd_buf [keeps_intros]: "keeps bio_only (upd_buf b f)"
  unfolding upd_buf_def by (rule keeps_modify) (rule bio_only_bufs)

lemma keeps_bget_cached: "keeps bio_only (bget_cached fuel b dev blockno)"
  by (induction fuel arbitrary: b) (auto intro!: keeps_intros keeps_get_bnd)

lemma keeps_bget_unused: "keeps bio_only (bget_unused fuel b)"
  by (induction fuel arbitrary: b) (auto intro!: keeps_intros keeps_get_bnd)

lemma keeps_lock_buf [keeps_intros]: "keeps bio_only (lock_buf b)"
  unfolding lock_buf_def by (rule keeps_get_bnd) (auto intro!: keeps_intros split: sum.split)

lemma keeps_disk_rw [keeps_intros]: "keeps bio_only (disk_rw b w)"
  unfolding disk_rw_def by (auto intro!: keeps_modify simp: bio_only_def)

lemma keeps_bread [keeps_intros]: "keeps bio_only (bread dev blockno)"
  unfolding bread_def bget_def
  by (intro keeps_bnd [OF transp_bio_only] keeps_get_bnd keeps_intros keeps_bget_cached keeps_bget_unused)

lemma keeps_bwrite [keeps_intros]: "keeps bio_only (bwrite b)"
  unfolding bwrite_def by (intro keeps_get_bnd keeps_intros)

lemma keeps_brelse [keeps_intros]: "keeps bio_only (brelse b)"
  unfolding brelse_def
  by (intro keeps_get_bnd keeps_bnd [OF transp_bio_only] keeps_intros keeps_modify) (simp add: bio_only_bufs)

lemma keeps_pins [keeps_intros]:
  "keeps bio_only (bpin b)" "keeps bio_only (bunpin b)" "keeps bio_only (set_data b f)"
  unfolding bpin_def bunpin_def set_data_def by (rule keeps_upd_buf)+

lemma bread_ok:
  assumes "bcache_ok s" and "held s bn = None" and "refs s bn < 2 ^ 32 - 1"
    and "refs s bn \<noteq> 0 \<or> card {x. refs s x \<noteq> 0} < NBUF"
  shows "\<exists>b t. bread ROOTDEV bn s = Inr (b, t) \<and> bcache_ok t \<and> bio_only s t \<and> handle t bn b \<and>
    view t = view s \<and> refs t = (refs s)(bn := Suc (refs s bn)) \<and> held t = (held s)(bn := Some (mypid s)) \<and>
    disk t = disk s \<and> disk_writes t = disk_writes s \<and> kept s t bn"
proof -
  obtain xs where "binv s xs" using assms(1) by (auto simp: bcache_ok_def)
  then show ?thesis
  proof (rule bread_spec [OF _ assms(2-4)])
    fix b t
    assume h: "bread ROOTDEV bn s = Inr (b, t)" "only_bufs s t" "binv t xs" "handle t bn b"
      "view t = view s" "refs t = (refs s)(bn := Suc (refs s bn))" "held t = (held s)(bn := Some (mypid s))"
      "\<And>bn' b'. bn' \<noteq> bn \<Longrightarrow> handle s bn' b' \<Longrightarrow> handle t bn' b'"
    have "bio_only s t" using h(2) unfolding only_bufs_def by (metis bio_only_bufs)
    moreover have "kept s t bn" using h(8) unfolding kept_def by blast
    ultimately show ?thesis using h(1-7) only_bufsD [OF h(2)] by (auto simp: bcache_ok_def)
  qed
qed

lemma bwrite_spec:
  assumes "bcache_ok s" and h: "handle s bn b"
  shows "\<exists>t. bwrite b s = Inr ((), t) \<and> bcache_ok t \<and> bio_only s t \<and> handle t bn b \<and>
    view t = view s \<and> refs t = refs s \<and> held t = held s \<and>
    disk t = (disk s)(bn := view s bn) \<and> disk_writes t = disk_writes s @ [(bn, view s bn)] \<and> kept s t bn"
proof -
  obtain xs where inv: "binv s xs" using assms(1) by (auto simp: bcache_ok_def)
  note hd = handleD [OF inv h]
  have bno: "b_blockno (bufs s b) = bn" using hd(2) by (simp add: caches_def)
  define t where "t = s\<lparr>disk := (disk s)(bn := view s bn), disk_writes := disk_writes s @ [(bn, view s bn)]\<rparr>"
  have run: "bwrite b s = Inr ((), t)"
    using hd(5,7) bno by (simp add: bwrite_def disk_rw_def holdingsleep_def run_simps t_def)
  have bt: "bufs t = bufs s" "mypid t = mypid s" by (simp_all add: t_def)
  have sl: "slot t x = slot s x" for x by (simp add: slot_def bt)
  have clean: "b_data (bufs t i) = disk t (b_blockno (bufs t i))"
    if i: "i < NBUF" "b_refcnt (bufs t i) = 0" "b_valid (bufs t i)" for i
  proof -
    have "b_dev (bufs s i) = ROOTDEV" using binv_dev [OF inv i(1)] i(3) bt by auto
    then have "b_blockno (bufs s i) \<noteq> bn"
      using binv_uniq [OF inv i(1) hd(1), of bn] hd(2,6) i(2) bt by (auto simp: caches_def)
    then show ?thesis using binv_clean [OF inv i(1)] i(2,3) by (simp add: t_def)
  qed
  have "binv t xs"
    unfolding binv_def using binv_lru [OF inv] binv_dev [OF inv] binv_uniq [OF inv] clean binv_lock [OF inv]
    unfolding bt by blast
  moreover have v: "view t = view s"
  proof
    fix x
    show "view t x = view s x"
      using hd(3,4) unfolding view_def sl bt
      by (cases "x = bn") (simp_all add: t_def split: option.splits)
  qed
  moreover have r: "refs t = refs s" "held t = held s"
    unfolding refs_def held_def sl bt by (rule refl)+
  moreover have hs: "handle t x c \<longleftrightarrow> handle s x c" for x c by (simp add: handle_def sl bt r)
  moreover have "kept s t bn" by (simp add: kept_def hs)
  moreover have "bio_only s t" by (simp add: bio_only_def t_def)
  ultimately show ?thesis using run h by (auto simp: bcache_ok_def t_def)
qed

lemma core_push_front: "core (push_front b B j) = core (B j)"
  by (simp add: core_def push_front_def Let_def upd_apply)

lemma core_unlink: "core (unlink b B j) = core (B j)"
  by (simp add: core_def unlink_def Let_def upd_apply)

lemma brelse_spec:
  assumes "bcache_ok s" and h: "handle s bn b" and clean: "refs s bn = 1 \<longrightarrow> view s bn = disk s bn"
  shows "\<exists>t. brelse b s = Inr ((), t) \<and> bcache_ok t \<and> bio_only s t \<and>
    view t = view s \<and> refs t = (refs s)(bn := refs s bn - 1) \<and> held t = (held s)(bn := None) \<and>
    disk t = disk s \<and> disk_writes t = disk_writes s \<and> kept s t bn"
proof -
  obtain xs where inv: "binv s xs" using assms(1) by (auto simp: bcache_ok_def)
  note hd = handleD [OF inv h]
  let ?f = "\<lambda>x. x\<lparr>b_lock := releasesleep (b_lock x), b_refcnt := b_refcnt x - 1\<rparr>"
  let ?B = "upd b ?f (bufs s)"
  define B where "B = (if b_refcnt (bufs s b) - 1 = 0 then push_front b (unlink b ?B) else ?B)"
  have run: "brelse b s = Inr ((), s\<lparr>bufs := B\<rparr>)"
    using hd(5) by (simp add: brelse_def holdingsleep_def upd_buf_def run_simps upd_def B_def)
  have lr0: "lru ?B xs" using binv_lru [OF inv] by (rule lru_upd_core) simp
  then obtain ys where lr: "lru B ys"
    using lru_release [OF lr0 hd(1)] by (cases "b_refcnt (bufs s b) - 1 = 0") (auto simp: B_def)
  have cr: "core (B j) = core (?B j)" for j by (simp add: B_def core_push_front core_unlink)
  have rc: "unat (b_refcnt (bufs s b) - 1) = refs s bn - 1"
    using hd(6,8) by (simp add: unat_minus_one)
  have fld: "b_dev (B b) = b_dev (bufs s b)" "b_blockno (B b) = b_blockno (bufs s b)" "b_valid (B b)"
    "\<not> sl_locked (b_lock (B b))" "b_refcnt (B b) = b_refcnt (bufs s b) - 1" "b_data (B b) = view s bn"
    using cr [of b] hd(3,7) by (simp_all add: core_def upd_apply releasesleep_def)
  have "refs s bn = 1" if "b_refcnt (bufs s b) - 1 = 0"
    using that hd(8) by simp
  then have cl: "b_refcnt (B b) = 0 \<longrightarrow> b_data (B b) = disk s bn" using fld(5,6) clean by simp
  have oth: "\<forall>j<NBUF. j \<noteq> b \<longrightarrow> core (B j) = core (bufs s j)" using cr by (simp add: upd_apply core_def)
  have lk: "sl_locked (b_lock (B b)) \<longrightarrow> b_refcnt (B b) \<noteq> 0" using fld(4) by simp
  note m = modify_handle [OF inv h lr oth fld(1-3) lk cl]
  show ?thesis
    using run m fld rc by (intro exI [of _ "s\<lparr>bufs := B\<rparr>"]) (auto simp: bcache_ok_def bio_only_bufs fun_upd_idem)
qed

section \<open>The interface of the cache\<close>

text \<open>
  What the log and the file system rely on. \<open>rd\<close> to \<open>put\<close> are the operations; \<open>ok\<close> is the
  cache's invariant; \<open>vw\<close>, \<open>rf\<close>, \<open>hl\<close> are the contents, reference counts and holders of
  blocks; \<open>hd\<close> relates a block to the buffer its holder has; \<open>dk\<close> and \<open>wr_log\<close> are the disk and
  the writes it received; \<open>only\<close> says that nothing outside the cache and the disk changed.
\<close>

locale buffer_cache =
  fixes rd :: "uint \<Rightarrow> ('s, nat) km"
    and wr :: "nat \<Rightarrow> ('s, unit) km"
    and rel :: "nat \<Rightarrow> ('s, unit) km"
    and unpin :: "nat \<Rightarrow> ('s, unit) km"
    and put :: "nat \<Rightarrow> (block \<Rightarrow> block) \<Rightarrow> ('s, unit) km"
    and peek :: "'s \<Rightarrow> nat \<Rightarrow> block"
    and ok :: "'s \<Rightarrow> bool"
    and vw :: "'s \<Rightarrow> uint \<Rightarrow> block"
    and rf :: "'s \<Rightarrow> uint \<Rightarrow> nat"
    and hl :: "'s \<Rightarrow> uint \<Rightarrow> int option"
    and hd :: "'s \<Rightarrow> uint \<Rightarrow> nat \<Rightarrow> bool"
    and dk :: "'s \<Rightarrow> uint \<Rightarrow> block"
    and wr_log :: "'s \<Rightarrow> (uint \<times> block) list"
    and only :: "'s \<Rightarrow> 's \<Rightarrow> bool"
    and me :: "'s \<Rightarrow> int"
  assumes rd_law: "ok s \<Longrightarrow> hl s n = None \<Longrightarrow> rf s n < 2 ^ 32 - 1 \<Longrightarrow>
      rf s n \<noteq> 0 \<or> card {x. rf s x \<noteq> 0} < NBUF \<Longrightarrow>
      \<exists>b t. rd n s = Inr (b, t) \<and> ok t \<and> only s t \<and> hd t n b \<and> vw t = vw s \<and>
        rf t = (rf s)(n := Suc (rf s n)) \<and> hl t = (hl s)(n := Some (me s)) \<and> dk t = dk s \<and>
        wr_log t = wr_log s \<and> (\<forall>n' c. n' \<noteq> n \<longrightarrow> hd s n' c \<longrightarrow> hd t n' c)"
    and wr_law: "ok s \<Longrightarrow> hd s n b \<Longrightarrow>
      \<exists>t. wr b s = Inr ((), t) \<and> ok t \<and> only s t \<and> hd t n b \<and> vw t = vw s \<and> rf t = rf s \<and>
        hl t = hl s \<and> dk t = (dk s)(n := vw s n) \<and> wr_log t = wr_log s @ [(n, vw s n)] \<and>
        (\<forall>n' c. n' \<noteq> n \<longrightarrow> hd s n' c \<longrightarrow> hd t n' c)"
    and rel_law: "ok s \<Longrightarrow> hd s n b \<Longrightarrow> rf s n = 1 \<longrightarrow> vw s n = dk s n \<Longrightarrow>
      \<exists>t. rel b s = Inr ((), t) \<and> ok t \<and> only s t \<and> vw t = vw s \<and> rf t = (rf s)(n := rf s n - 1) \<and>
        hl t = (hl s)(n := None) \<and> dk t = dk s \<and> wr_log t = wr_log s \<and>
        (\<forall>n' c. n' \<noteq> n \<longrightarrow> hd s n' c \<longrightarrow> hd t n' c)"
    and unpin_law: "ok s \<Longrightarrow> hd s n b \<Longrightarrow> 1 < rf s n \<Longrightarrow>
      \<exists>t. unpin b s = Inr ((), t) \<and> ok t \<and> only s t \<and> hd t n b \<and> vw t = vw s \<and>
        rf t = (rf s)(n := rf s n - 1) \<and> hl t = hl s \<and> dk t = dk s \<and> wr_log t = wr_log s \<and>
        (\<forall>n' c. n' \<noteq> n \<longrightarrow> hd s n' c \<longrightarrow> hd t n' c)"
    and put_law: "ok s \<Longrightarrow> hd s n b \<Longrightarrow>
      \<exists>t. put b f s = Inr ((), t) \<and> ok t \<and> only s t \<and> hd t n b \<and> vw t = (vw s)(n := f (vw s n)) \<and>
        rf t = rf s \<and> hl t = hl s \<and> dk t = dk s \<and> wr_log t = wr_log s \<and>
        (\<forall>n' c. n' \<noteq> n \<longrightarrow> hd s n' c \<longrightarrow> hd t n' c)"
    and peek_law: "ok s \<Longrightarrow> hd s n b \<Longrightarrow> peek s b = vw s n"
    and only_refl: "only s s"
    and only_trans: "only s t \<Longrightarrow> only t u \<Longrightarrow> only s u"
    and only_me: "only s t \<Longrightarrow> me t = me s"
begin

text \<open>Reading a block leaves the cache as it was.\<close>

lemma read_only:
  assumes "ok s" and "hl s n = None" and "rf s n < 2 ^ 32 - 1"
    and "rf s n \<noteq> 0 \<or> card {x. rf s x \<noteq> 0} < NBUF" and "rf s n = 0 \<longrightarrow> vw s n = dk s n"
  shows "\<exists>b t u. rd n s = Inr (b, t) \<and> peek t b = vw s n \<and> rel b t = Inr ((), u) \<and> only s t \<and>
    ok u \<and> only s u \<and> vw u = vw s \<and> rf u = rf s \<and> hl u = hl s \<and> dk u = dk s \<and> wr_log u = wr_log s"
proof -
  obtain b t where t: "rd n s = Inr (b, t)" "ok t" "only s t" "hd t n b" "vw t = vw s"
    "rf t = (rf s)(n := Suc (rf s n))" "hl t = (hl s)(n := Some (me s))" "dk t = dk s" "wr_log t = wr_log s"
    using rd_law [OF assms(1-4)] by blast
  have "rf t n = 1 \<longrightarrow> vw t n = dk t n" using assms(5) t(5,6,8) by simp
  then obtain u where u: "rel b t = Inr ((), u)" "ok u" "only t u" "vw u = vw t"
    "rf u = (rf t)(n := rf t n - 1)" "hl u = (hl t)(n := None)" "dk u = dk t" "wr_log u = wr_log t"
    using rel_law [OF t(2,4)] by blast
  have "rf u = rf s" "hl u = hl s" using u(5,6) t(6,7) assms(2) by (auto simp: fun_eq_iff)
  then show ?thesis
    using t u only_trans [OF t(3) u(3)] peek_law [OF t(2,4)] by auto
qed

text \<open>Reading a block, changing it, writing it and releasing it.\<close>

lemma rewrite_block:
  assumes "ok s" and "hl s n = None" and "rf s n < 2 ^ 32 - 1"
    and "rf s n \<noteq> 0 \<or> card {x. rf s x \<noteq> 0} < NBUF"
  shows "\<exists>b t u. rd n s = Inr (b, t) \<and> only s t \<and>
    bnd (put b f) (\<lambda>_. bnd (wr b) (\<lambda>_. rel b)) t = Inr ((), u) \<and>
    ok u \<and> only s u \<and> vw u = (vw s)(n := f (vw s n)) \<and> rf u = rf s \<and> hl u = hl s \<and>
    dk u = (dk s)(n := f (vw s n)) \<and> wr_log u = wr_log s @ [(n, f (vw s n))]"
proof -
  obtain b t where t: "rd n s = Inr (b, t)" "ok t" "only s t" "hd t n b" "vw t = vw s"
    "rf t = (rf s)(n := Suc (rf s n))" "hl t = (hl s)(n := Some (me s))" "dk t = dk s" "wr_log t = wr_log s"
    using rd_law [OF assms] by blast
  obtain t1 where t1: "put b f t = Inr ((), t1)" "ok t1" "only t t1" "hd t1 n b"
    "vw t1 = (vw t)(n := f (vw t n))" "rf t1 = rf t" "hl t1 = hl t" "dk t1 = dk t" "wr_log t1 = wr_log t"
    using put_law [OF t(2,4), of f] by blast
  obtain t2 where t2: "wr b t1 = Inr ((), t2)" "ok t2" "only t1 t2" "hd t2 n b"
    "vw t2 = vw t1" "rf t2 = rf t1" "hl t2 = hl t1" "dk t2 = (dk t1)(n := vw t1 n)"
    "wr_log t2 = wr_log t1 @ [(n, vw t1 n)]"
    using wr_law [OF t1(2,4)] by blast
  have "rf t2 n = 1 \<longrightarrow> vw t2 n = dk t2 n" using t2(5,8) by simp
  then obtain u where u: "rel b t2 = Inr ((), u)" "ok u" "only t2 u" "vw u = vw t2"
    "rf u = (rf t2)(n := rf t2 n - 1)" "hl u = (hl t2)(n := None)" "dk u = dk t2" "wr_log u = wr_log t2"
    using rel_law [OF t2(2,4)] by blast
  have "rf u = rf s" "hl u = hl s" using u(5,6) t2(6,7) t1(6,7) t(6,7) assms(2) by (auto simp: fun_eq_iff)
  moreover have "only s u"
    using t(3) t1(3) t2(3) u(3) only_trans by blast
  moreover have "bnd (put b f) (\<lambda>_. bnd (wr b) (\<lambda>_. rel b)) t = Inr ((), u)"
    using t1(1) t2(1) u(1) by (simp add: run_simps)
  ultimately show ?thesis
    using t(1,3) u(2) u(4,7,8) t2(5,8,9) t1(5,8,9) t(5,8,9) by auto
qed

text \<open>Copying block \<open>b\<close> over block \<open>a\<close>, as the log does when it saves and when it installs blocks.\<close>

lemma two_reads:
  assumes "ok s" and "a \<noteq> b" and "hl s a = None" and "hl s b = None"
    and "rf s a < 2 ^ 32 - 1" and "rf s b < 2 ^ 32 - 1"
    and "rf s a \<noteq> 0 \<or> card {x. rf s x \<noteq> 0} < NBUF"
    and "rf s b \<noteq> 0 \<or> card (insert a {x. rf s x \<noteq> 0}) < NBUF"
  shows "\<exists>x t y u. rd a s = Inr (x, t) \<and> only s t \<and> rd b t = Inr (y, u) \<and> ok u \<and> only s u \<and>
    hd u a x \<and> hd u b y \<and> peek u x = vw s a \<and> peek u y = vw s b \<and> vw u = vw s \<and>
    rf u = (rf s)(a := Suc (rf s a), b := Suc (rf s b)) \<and>
    hl u = (hl s)(a := Some (me s), b := Some (me s)) \<and> dk u = dk s \<and> wr_log u = wr_log s"
proof -
  obtain x t where t: "rd a s = Inr (x, t)" "ok t" "only s t" "hd t a x" "vw t = vw s"
    "rf t = (rf s)(a := Suc (rf s a))" "hl t = (hl s)(a := Some (me s))" "dk t = dk s" "wr_log t = wr_log s"
    using rd_law [OF assms(1,3,5,7)] by blast
  have "{z. rf t z \<noteq> 0} = insert a {z. rf s z \<noteq> 0}" using t(6) by auto
  then have "rf t b \<noteq> 0 \<or> card {z. rf t z \<noteq> 0} < NBUF" using assms(2,8) t(6) by simp
  moreover have "hl t b = None" "rf t b < 2 ^ 32 - 1" using assms(2,4,6) t(6,7) by simp_all
  ultimately obtain y u where u: "rd b t = Inr (y, u)" "ok u" "only t u" "hd u b y" "vw u = vw t"
    "rf u = (rf t)(b := Suc (rf t b))" "hl u = (hl t)(b := Some (me t))" "dk u = dk t" "wr_log u = wr_log t"
    "hd u a x"
    using rd_law [OF t(2), of b] assms(2) t(4) by metis
  have "peek u x = vw s a" "peek u y = vw s b"
    using peek_law [OF u(2,10)] peek_law [OF u(2,4)] u(5) t(5) by simp_all
  then show ?thesis
    using t u assms(2) only_trans [OF t(3) u(3)] only_me [OF t(3)] by auto
qed

lemma copy_block:
  assumes "ok s" and "a \<noteq> b" and "hl s a = None" and "hl s b = None"
    and "rf s a < 2 ^ 32 - 1" and "rf s b < 2 ^ 32 - 1"
    and "rf s a \<noteq> 0 \<or> card {x. rf s x \<noteq> 0} < NBUF"
    and "rf s b \<noteq> 0 \<or> card (insert a {x. rf s x \<noteq> 0}) < NBUF"
    and "rf s b = 0 \<longrightarrow> vw s b = dk s b"
  shows "\<exists>x t y u w. rd a s = Inr (x, t) \<and> only s t \<and> rd b t = Inr (y, u) \<and>
    bnd (put x (\<lambda>_. peek u y)) (\<lambda>_. bnd (wr x) (\<lambda>_. bnd (rel y) (\<lambda>_. rel x))) u = Inr ((), w) \<and>
    ok w \<and> only s w \<and> vw w = (vw s)(a := vw s b) \<and> rf w = rf s \<and> hl w = hl s \<and>
    dk w = (dk s)(a := vw s b) \<and> wr_log w = wr_log s @ [(a, vw s b)]"
proof -
  obtain x t y u where t: "rd a s = Inr (x, t)" "only s t" "rd b t = Inr (y, u)" and
    u: "ok u" "only s u" "hd u a x" "hd u b y" "peek u y = vw s b" "vw u = vw s"
    "rf u = (rf s)(a := Suc (rf s a), b := Suc (rf s b))"
    "hl u = (hl s)(a := Some (me s), b := Some (me s))" "dk u = dk s" "wr_log u = wr_log s"
    using two_reads [OF assms(1-8)] by blast
  obtain u1 where u1: "put x (\<lambda>_. peek u y) u = Inr ((), u1)" "ok u1" "only u u1" "hd u1 a x"
    "vw u1 = (vw u)(a := peek u y)" "rf u1 = rf u" "hl u1 = hl u" "dk u1 = dk u" "wr_log u1 = wr_log u" "hd u1 b y"
    using put_law [OF u(1,3), of "\<lambda>_. peek u y"] u(4) assms(2) by metis
  obtain u2 where u2: "wr x u1 = Inr ((), u2)" "ok u2" "only u1 u2" "hd u2 a x" "vw u2 = vw u1" "rf u2 = rf u1"
    "hl u2 = hl u1" "dk u2 = (dk u1)(a := vw u1 a)" "wr_log u2 = wr_log u1 @ [(a, vw u1 a)]" "hd u2 b y"
    using wr_law [OF u1(2,4)] u1(10) assms(2) by metis
  have "rf u2 b = 1 \<longrightarrow> vw u2 b = dk u2 b"
    using assms(2,9) u2(5,6,8) u1(5,6,8) u(6,7,9) by simp
  then obtain u3 where u3: "rel y u2 = Inr ((), u3)" "ok u3" "only u2 u3" "vw u3 = vw u2"
    "rf u3 = (rf u2)(b := rf u2 b - 1)" "hl u3 = (hl u2)(b := None)" "dk u3 = dk u2" "wr_log u3 = wr_log u2" "hd u3 a x"
    using rel_law [OF u2(2,10)] u2(4) assms(2) by metis
  have "rf u3 a = 1 \<longrightarrow> vw u3 a = dk u3 a" using u3(4,7) u2(5,8) by simp
  then obtain w where w: "rel x u3 = Inr ((), w)" "ok w" "only u3 w" "vw w = vw u3"
    "rf w = (rf u3)(a := rf u3 a - 1)" "hl w = (hl u3)(a := None)" "dk w = dk u3" "wr_log w = wr_log u3"
    using rel_law [OF u3(2,9)] by blast
  have "rf w = rf s" "hl w = hl s"
    using w(5,6) u3(5,6) u2(6,7) u1(6,7) u(7,8) assms(2-4) by (auto simp: fun_eq_iff)
  moreover have "only s w" using u(2) u1(3) u2(3) u3(3) w(3) only_trans by blast
  moreover have "bnd (put x (\<lambda>_. peek u y)) (\<lambda>_. bnd (wr x) (\<lambda>_. bnd (rel y) (\<lambda>_. rel x))) u = Inr ((), w)"
    using u1(1) u2(1) u3(1) w(1) by (simp add: run_simps)
  moreover have "vw w = (vw s)(a := vw s b)" "dk w = (dk s)(a := vw s b)" "wr_log w = wr_log s @ [(a, vw s b)]"
    using w(4,7,8) u3(4,7,8) u2(5,8,9) u1(5,8,9) u(5,6,9,10) by simp_all
  ultimately show ?thesis using t w(2) by blast
qed

lemma install_block:
  assumes "ok s" and "a \<noteq> b" and "hl s a = None" and "hl s b = None"
    and "rf s a < 2 ^ 32 - 1" and "rf s b < 2 ^ 32 - 1"
    and "rf s a \<noteq> 0 \<or> card {x. rf s x \<noteq> 0} < NBUF"
    and "rf s b \<noteq> 0 \<or> card (insert a {x. rf s x \<noteq> 0}) < NBUF"
    and "rf s a = 0 \<longrightarrow> vw s a = dk s a" and "unp \<longrightarrow> rf s b \<noteq> 0"
  shows "\<exists>x t y u w. rd a s = Inr (x, t) \<and> only s t \<and> rd b t = Inr (y, u) \<and>
    bnd (put y (\<lambda>_. peek u x)) (\<lambda>_. bnd (wr y) (\<lambda>_. bnd (if unp then unpin y else skip) (\<lambda>_.
      bnd (rel x) (\<lambda>_. rel y)))) u = Inr ((), w) \<and>
    ok w \<and> only s w \<and> vw w = (vw s)(b := vw s a) \<and>
    rf w = (if unp then (rf s)(b := rf s b - 1) else rf s) \<and> hl w = hl s \<and>
    dk w = (dk s)(b := vw s a) \<and> wr_log w = wr_log s @ [(b, vw s a)]"
proof -
  obtain x t y u where t: "rd a s = Inr (x, t)" "only s t" "rd b t = Inr (y, u)" and
    u: "ok u" "only s u" "hd u a x" "hd u b y" "peek u x = vw s a" "vw u = vw s"
    "rf u = (rf s)(a := Suc (rf s a), b := Suc (rf s b))"
    "hl u = (hl s)(a := Some (me s), b := Some (me s))" "dk u = dk s" "wr_log u = wr_log s"
    using two_reads [OF assms(1-8)] by blast
  obtain u1 where u1: "put y (\<lambda>_. peek u x) u = Inr ((), u1)" "ok u1" "only u u1" "hd u1 b y"
    "vw u1 = (vw u)(b := peek u x)" "rf u1 = rf u" "hl u1 = hl u" "dk u1 = dk u" "wr_log u1 = wr_log u" "hd u1 a x"
    using put_law [OF u(1,4), of "\<lambda>_. peek u x"] u(3) assms(2) by metis
  obtain u2 where u2: "wr y u1 = Inr ((), u2)" "ok u2" "only u1 u2" "hd u2 b y" "vw u2 = vw u1" "rf u2 = rf u1"
    "hl u2 = hl u1" "dk u2 = (dk u1)(b := vw u1 b)" "wr_log u2 = wr_log u1 @ [(b, vw u1 b)]" "hd u2 a x"
    using wr_law [OF u1(2,4)] u1(10) assms(2) by metis
  obtain u3 where u3: "(if unp then unpin y else skip) u2 = Inr ((), u3)" "ok u3" "only u2 u3" "hd u3 b y" "hd u3 a x"
    "vw u3 = vw u2" "rf u3 = (if unp then (rf u2)(b := rf u2 b - 1) else rf u2)" "hl u3 = hl u2" "dk u3 = dk u2"
    "wr_log u3 = wr_log u2"
  proof (cases unp)
    case True
    then have "1 < rf u2 b" using assms(2,10) u2(6) u1(6) u(7) by simp
    then show ?thesis using unpin_law [OF u2(2,4)] that True u2(10) assms(2) by metis
  next
    case False
    then show ?thesis using that [of u2] u2 only_refl by (simp add: run_simps)
  qed
  have "rf u3 a = 1 \<longrightarrow> vw u3 a = dk u3 a"
    using assms(2,9) u3(6,7,9) u2(5,6,8) u1(5,6,8) u(6,7,9) by (simp split: if_splits)
  then obtain u4 where u4: "rel x u3 = Inr ((), u4)" "ok u4" "only u3 u4" "vw u4 = vw u3"
    "rf u4 = (rf u3)(a := rf u3 a - 1)" "hl u4 = (hl u3)(a := None)" "dk u4 = dk u3" "wr_log u4 = wr_log u3" "hd u4 b y"
    using rel_law [OF u3(2,5)] u3(4) assms(2) by metis
  have "rf u4 b = 1 \<longrightarrow> vw u4 b = dk u4 b" using u4(4,7) u3(6,9) u2(5,8) by simp
  then obtain w where w: "rel y u4 = Inr ((), w)" "ok w" "only u4 w" "vw w = vw u4"
    "rf w = (rf u4)(b := rf u4 b - 1)" "hl w = (hl u4)(b := None)" "dk w = dk u4" "wr_log w = wr_log u4"
    using rel_law [OF u4(2,9)] by blast
  have "rf w = (if unp then (rf s)(b := rf s b - 1) else rf s)" "hl w = hl s"
    using w(5,6) u4(5,6) u3(7,8) u2(6,7) u1(6,7) u(7,8) assms(2-4) by (auto simp: fun_eq_iff)
  moreover have "only s w" using u(2) u1(3) u2(3) u3(3) u4(3) w(3) only_trans by blast
  moreover have "bnd (put y (\<lambda>_. peek u x)) (\<lambda>_. bnd (wr y) (\<lambda>_. bnd (if unp then unpin y else skip) (\<lambda>_.
      bnd (rel x) (\<lambda>_. rel y)))) u = Inr ((), w)"
    using u1(1) u2(1) u3(1) u4(1) w(1) by (simp add: run_simps)
  moreover have "vw w = (vw s)(b := vw s a)" "dk w = (dk s)(b := vw s a)" "wr_log w = wr_log s @ [(b, vw s a)]"
    using w(4,7,8) u4(4,7,8) u3(6,9,10) u2(5,8,9) u1(5,8,9) u(5,6,9,10) by simp_all
  ultimately show ?thesis using t w(2) by blast
qed

end

interpretation bc: buffer_cache "bread ROOTDEV" bwrite brelse bunpin set_data "\<lambda>s b. b_data (bufs s b)"
  bcache_ok view refs held handle disk disk_writes bio_only mypid
proof
  show "\<exists>b t. bread ROOTDEV n s = Inr (b, t) \<and> bcache_ok t \<and> bio_only s t \<and> handle t n b \<and> view t = view s \<and>
      refs t = (refs s)(n := Suc (refs s n)) \<and> held t = (held s)(n := Some (mypid s)) \<and> disk t = disk s \<and>
      disk_writes t = disk_writes s \<and> (\<forall>n' c. n' \<noteq> n \<longrightarrow> handle s n' c \<longrightarrow> handle t n' c)"
    if "bcache_ok s" "held s n = None" "refs s n < 2 ^ 32 - 1"
      "refs s n \<noteq> 0 \<or> card {x. refs s x \<noteq> 0} < NBUF" for s :: "'a bio_st_scheme" and n
    using bread_ok [OF that] unfolding kept_def by blast
  show "b_data (bufs s b) = view s n" if "bcache_ok s" "handle s n b" for s :: "'a bio_st_scheme" and n b
    using that handleD(7) by (auto simp: bcache_ok_def)
  show "\<exists>t. bwrite b s = Inr ((), t) \<and> bcache_ok t \<and> bio_only s t \<and> handle t n b \<and> view t = view s \<and>
      refs t = refs s \<and> held t = held s \<and> disk t = (disk s)(n := view s n) \<and>
      disk_writes t = disk_writes s @ [(n, view s n)] \<and> (\<forall>n' c. n' \<noteq> n \<longrightarrow> handle s n' c \<longrightarrow> handle t n' c)"
    if "bcache_ok s" "handle s n b" for s :: "'a bio_st_scheme" and n b
    using bwrite_spec [OF that] unfolding kept_def .
  show "\<exists>t. brelse b s = Inr ((), t) \<and> bcache_ok t \<and> bio_only s t \<and> view t = view s \<and>
      refs t = (refs s)(n := refs s n - 1) \<and> held t = (held s)(n := None) \<and> disk t = disk s \<and>
      disk_writes t = disk_writes s \<and> (\<forall>n' c. n' \<noteq> n \<longrightarrow> handle s n' c \<longrightarrow> handle t n' c)"
    if "bcache_ok s" "handle s n b" "refs s n = 1 \<longrightarrow> view s n = disk s n" for s :: "'a bio_st_scheme" and n b
    using brelse_spec [OF that] unfolding kept_def .
  show "\<exists>t. bunpin b s = Inr ((), t) \<and> bcache_ok t \<and> bio_only s t \<and> handle t n b \<and> view t = view s \<and>
      refs t = (refs s)(n := refs s n - 1) \<and> held t = held s \<and> disk t = disk s \<and>
      disk_writes t = disk_writes s \<and> (\<forall>n' c. n' \<noteq> n \<longrightarrow> handle s n' c \<longrightarrow> handle t n' c)"
    if "bcache_ok s" "handle s n b" "1 < refs s n" for s :: "'a bio_st_scheme" and n b
    using bunpin_spec [OF that] unfolding kept_def .
  show "\<exists>t. set_data b f s = Inr ((), t) \<and> bcache_ok t \<and> bio_only s t \<and> handle t n b \<and>
      view t = (view s)(n := f (view s n)) \<and> refs t = refs s \<and> held t = held s \<and> disk t = disk s \<and>
      disk_writes t = disk_writes s \<and> (\<forall>n' c. n' \<noteq> n \<longrightarrow> handle s n' c \<longrightarrow> handle t n' c)"
    if "bcache_ok s" "handle s n b" for s :: "'a bio_st_scheme" and n b f
    using set_data_spec [OF that, of f] unfolding kept_def .
  show "bio_only s u" if "bio_only s t" "bio_only t u" for s t u :: "'a bio_st_scheme"
    using that by (rule bio_only_trans)
  show "mypid t = mypid s" if "bio_only s t" for s t :: "'a bio_st_scheme"
    using that by (rule bio_only_pid)
qed simp

section \<open>Properties\<close>

lemma for_each_modify: "for_each xs (\<lambda>x. modify (f x)) s = Inr ((), fold f xs s)"
  by (induction xs arbitrary: s) (simp_all add: run_simps)

definition binit_step :: "nat \<Rightarrow> 'z bio_st_scheme \<Rightarrow> 'z bio_st_scheme" where
  "binit_step b s = s\<lparr>bufs := push_front b (upd b (\<lambda>x. x\<lparr>b_lock := initsleeplock\<rparr>) (bufs s))\<rparr>"

lemma binit_loop:
  assumes "chain (bufs s) HEAD [] HEAD" and "k \<le> NBUF"
  shows "\<exists>B. fold binit_step [0..<k] s = s\<lparr>bufs := B\<rparr> \<and> chain B HEAD (rev [0..<k]) HEAD \<and>
    (\<forall>j. core (B j) = core (if j < k then (bufs s j)\<lparr>b_lock := initsleeplock\<rparr> else bufs s j))"
  using assms(2)
proof (induction k)
  case 0
  then show ?case using assms(1) by (intro exI [of _ "bufs s"]) simp
next
  case (Suc k)
  then obtain B where B: "fold binit_step [0..<k] s = s\<lparr>bufs := B\<rparr>" "chain B HEAD (rev [0..<k]) HEAD"
    "\<And>j. core (B j) = core (if j < k then (bufs s j)\<lparr>b_lock := initsleeplock\<rparr> else bufs s j)"
    by auto
  let ?B = "upd k (\<lambda>x. x\<lparr>b_lock := initsleeplock\<rparr>) B"
  have "chain ?B HEAD (rev [0..<k]) HEAD \<longleftrightarrow> chain B HEAD (rev [0..<k]) HEAD"
    by (rule chain_cong) (auto simp: upd_apply)
  then have "chain (push_front k ?B) HEAD (k # rev [0..<k]) HEAD"
    using B(2) Suc.prems by (intro chain_push_front) auto
  moreover have "core (push_front k ?B j) =
      core (if j < Suc k then (bufs s j)\<lparr>b_lock := initsleeplock\<rparr> else bufs s j)" for j
    unfolding core_push_front using B(3) [of j]
    by (cases "j = k") (auto simp: upd_apply less_Suc_eq core_def)
  moreover have "fold binit_step [0..<Suc k] s = s\<lparr>bufs := push_front k ?B\<rparr>"
    using B(1) by (simp add: binit_step_def)
  ultimately show ?case by (intro exI [of _ "push_front k ?B"]) simp
qed

lemma binit_run:
  assumes "\<forall>i<NBUF. b_dev (bufs s i) = 0 \<and> b_refcnt (bufs s i) = 0 \<and> \<not> b_valid (bufs s i)"
  shows "\<exists>t. binit s = Inr ((), t) \<and> only_bufs s t \<and> binv t (rev [0..<NBUF]) \<and>
    view t = disk s \<and> refs t = (\<lambda>_. 0) \<and> held t = (\<lambda>_. None)"
proof -
  let ?s = "s\<lparr>bufs := upd HEAD (\<lambda>x. x\<lparr>b_next := HEAD\<rparr>) (upd HEAD (\<lambda>x. x\<lparr>b_prev := HEAD\<rparr>) (bufs s))\<rparr>"
  have "chain (bufs ?s) HEAD [] HEAD" by (simp add: upd_apply)
  then obtain B where B: "fold binit_step [0..<NBUF] ?s = ?s\<lparr>bufs := B\<rparr>" "chain B HEAD (rev [0..<NBUF]) HEAD"
    "\<And>j. core (B j) = core (if j < NBUF then (bufs ?s j)\<lparr>b_lock := initsleeplock\<rparr> else bufs ?s j)"
    using binit_loop [of ?s NBUF] by auto
  have run: "binit s = Inr ((), ?s\<lparr>bufs := B\<rparr>)"
    unfolding B(1) [symmetric] unfolding binit_def upd_buf_def binit_step_def [symmetric] for_each_modify
    by (simp add: run_simps for_each_modify)
  have c: "b_dev (B j) = 0" "b_refcnt (B j) = 0" "\<not> b_valid (B j)" "\<not> sl_locked (b_lock (B j))"
    if "j < NBUF" for j
    using B(3) [of j] that assms by (auto simp: core_def upd_apply initsleeplock_def)
  have "lru B (rev [0..<NBUF])"
    unfolding lru_def using B(2) by (simp only: distinct_rev distinct_upt set_rev set_upt) auto
  then have "binv (?s\<lparr>bufs := B\<rparr>) (rev [0..<NBUF])" using c by (auto simp: binv_def caches_def)
  moreover have "slot (?s\<lparr>bufs := B\<rparr>) n = None" for n using c by (auto simp: slot_None caches_def)
  ultimately show ?thesis using run
    by (intro exI [of _ "?s\<lparr>bufs := B\<rparr>"]) (simp add: view_def refs_def held_def fun_eq_iff only_bufs_def)
qed

text \<open>
  \<^verbatim>\<open>binit\<close>, run on the zeroed cache, links all buffers into the list, the last one at the
  front, unlocked, unreferenced and holding no block; after it no block is referenced and
  every block reads as what the disk holds.
\<close>

theorem binit_establishes_cache:
  assumes "\<forall>i<NBUF. b_dev (bufs s i) = 0 \<and> b_refcnt (bufs s i) = 0 \<and> \<not> b_valid (bufs s i)"
  shows "wp binit (\<lambda>_ t. binv t (rev [0..<NBUF]) \<and> disk t = disk s \<and>
      (\<forall>n. view t n = disk s n \<and> refs t n = 0 \<and> held t n = None)) s"
  using binit_run [OF assms] by (auto simp: wp_iff dest: only_bufsD)

definition boot_buf :: buf where
  "boot_buf = \<lparr>b_valid = False, b_disk = False, b_dev = 0, b_blockno = 0, b_lock = initsleeplock,
     b_refcnt = 0, b_prev = 0, b_next = 0, b_data = (\<lambda>_. 0)\<rparr>"

text \<open>The kernel's zeroed state at boot with the given disk.\<close>

definition boot_bio :: "(uint \<Rightarrow> block) \<Rightarrow> bio_st" where
  "boot_bio d = \<lparr>mem = (\<lambda>_. 0), freelist = 0, kend = 0x80020000, psz = 0, ppagetable = 0,
     mypid = 1, bufs = (\<lambda>_. boot_buf), disk = d, disk_writes = []\<rparr>"

theorem binit_establishes_cache_witness:
  "wp binit (\<lambda>_ t. binv t (rev [0..<NBUF]) \<and> disk t = disk (boot_bio (\<lambda>_ _. 7)) \<and>
      (\<forall>n. view t n = disk (boot_bio (\<lambda>_ _. 7)) n \<and> refs t n = 0 \<and> held t n = None)) (boot_bio (\<lambda>_ _. 7))"
  by (rule binit_establishes_cache) (simp add: boot_bio_def boot_buf_def)

text \<open>
  C19. \<^verbatim>\<open>bread\<close> of a block nobody has locked, while some buffer is not in use, returns a buffer
  locked by the caller with the current contents of that block, cached or not. It keeps the
  invariant (one buffer per block, the list intact) and loses no other block's contents,
  although it may recycle a buffer: the least recently used one not in use.
\<close>

theorem bread_returns_block:
  assumes "binv s xs" and "held s bn = None" and "refs s bn < 2 ^ 32 - 1"
    and "refs s bn \<noteq> 0 \<or> card {x. refs s x \<noteq> 0} < NBUF"
  shows "wp (bread ROOTDEV bn) (\<lambda>b t. binv t xs \<and> handle t bn b \<and> b_data (bufs t b) = view s bn \<and>
      view t = view s \<and> disk t = disk s \<and> refs t = (refs s)(bn := Suc (refs s bn)) \<and>
      held t = (held s)(bn := Some (mypid s)) \<and>
      (slot s bn = None \<longrightarrow> find (\<lambda>i. b_refcnt (bufs s i) = 0) (rev xs) = Some b)) s"
proof (rule bread_spec [OF assms])
  fix b t
  assume "bread ROOTDEV bn s = Inr (b, t)" "only_bufs s t" "binv t xs" "handle t bn b"
    "b_data (bufs t b) = view s bn" "view t = view s" "refs t = (refs s)(bn := Suc (refs s bn))"
    "held t = (held s)(bn := Some (mypid s))"
    "slot s bn = None \<longrightarrow> find (\<lambda>b. b_refcnt (bufs s b) = 0) (rev xs) = Some b"
  then show ?thesis by (simp add: wp_def only_bufsD)
qed

lemma boot_bio_zero:
  "\<forall>i<NBUF. b_dev (bufs (boot_bio d) i) = 0 \<and> b_refcnt (bufs (boot_bio d) i) = 0 \<and> \<not> b_valid (bufs (boot_bio d) i)"
  by (simp add: boot_bio_def boot_buf_def)

theorem bread_returns_block_witness:
  "wp (bnd binit (\<lambda>_. bread ROOTDEV 46)) (\<lambda>b t. b_data (bufs t b) = (\<lambda>_. 7) \<and> refs t 46 = 1)
     (boot_bio (\<lambda>_ _. 7))"
proof -
  obtain t where t: "binit (boot_bio (\<lambda>_ _. 7)) = Inr ((), t)" "binv t (rev [0..<NBUF])"
    "view t = disk (boot_bio (\<lambda>_ _. 7))" "refs t = (\<lambda>_. 0)" "held t = (\<lambda>_. None)"
    using binit_run [OF boot_bio_zero] by blast
  have "wp (bread ROOTDEV 46) (\<lambda>b u. b_data (bufs u b) = (\<lambda>_. 7) \<and> refs u 46 = 1) t"
    by (rule wp_mono [OF bread_returns_block [OF t(2)]]) (use t in \<open>simp_all add: boot_bio_def\<close>)
  then show ?thesis using t(1) by (simp add: wp_def bnd_def)
qed

lemma bread_full:
  assumes "binv s xs" and "slot s bn = None" and "\<forall>i<NBUF. b_refcnt (bufs s i) \<noteq> 0"
  shows "bread ROOTDEV bn s = Inl (Panic ''bget: no buffers'')"
proof -
  have ch: "chain (bufs s) HEAD xs HEAD" "HEAD \<notin> set xs" "length xs < Suc NBUF" and set: "set xs = {..<NBUF}"
    using binv_lru [OF assms(1)] lru_length [OF binv_lru [OF assms(1)]] by (auto simp: lru_def)
  have "find (\<lambda>b. b_refcnt (bufs s b) = 0) (rev xs) = None"
    using assms(3) set by (auto simp: find_None_iff)
  then show ?thesis
    using bget_cached_run [OF ch, of ROOTDEV bn, unfolded slot_find [OF assms(1)]] bget_unused_run [OF ch] assms(2)
    by (simp add: bread_def bget_def run_simps)
qed

text \<open>
  C33. When every buffer is referenced, a \<^verbatim>\<open>bread\<close> of a block that is not cached panics.
\<close>

theorem bread_no_buffers:
  assumes "binv s xs" and "slot s bn = None" and "\<forall>i<NBUF. b_refcnt (bufs s i) \<noteq> 0"
  shows "bread ROOTDEV bn s = Inl (Panic ''bget: no buffers'')"
  using assms by (rule bread_full)

theorem bread_no_buffers_witness:
  "\<exists>s :: bio_st. binv s (rev [0..<NBUF]) \<and> bread ROOTDEV 99 s = Inl (Panic ''bget: no buffers'')"
proof -
  obtain t :: bio_st where t: "binv t (rev [0..<NBUF])"
    using binit_run [OF boot_bio_zero [of "\<lambda>_ _. 0"]] by blast
  define s where "s = t\<lparr>bufs := (\<lambda>i. (bufs t i)\<lparr>b_dev := ROOTDEV, b_blockno := of_nat i, b_refcnt := 1\<rparr>)\<rparr>"
  have u: "unat (of_nat i :: uint) = i" if "i < NBUF" for i
    using that by (intro unat_of_nat_lt) simp
  have inj: "i = j" if "i < NBUF" "j < NBUF" "of_nat i = (of_nat j :: uint)" for i j
    using u [OF that(1)] u [OF that(2)] unfolding that(3) by (rule trans [OF sym])
  have "lru (bufs s) (rev [0..<NBUF])" using binv_lru [OF t] by (rule lru_cong) (simp add: s_def)
  then have inv: "binv s (rev [0..<NBUF])"
    unfolding binv_def using inj by (simp add: s_def caches_def)
  have "of_nat i \<noteq> (99 :: uint)" if "i < NBUF" for i
    using u [OF that] that by auto
  then have "slot s 99 = None" by (auto simp: slot_None caches_def s_def)
  then have "bread ROOTDEV 99 s = Inl (Panic ''bget: no buffers'')"
    by (rule bread_no_buffers [OF inv]) (simp add: s_def)
  with inv show ?thesis by blast
qed

end
