(* ===== verification/Log_Spec.thy ===== *)
theory Log_Spec
  imports Log Bio_Spec
begin

text \<open>
  The log makes a transaction atomic. \<open>commit\<close> is characterised by the exact sequence of
  disk writes it issues, recovery by the disk it leaves; the crash theorems then say that
  recovery from any prefix of those writes gives the old or the new contents of every block.
\<close>

section \<open>Sequences of disk writes\<close>

definition apply_writes :: "(uint \<times> block) list \<Rightarrow> (uint \<Rightarrow> block) \<Rightarrow> (uint \<Rightarrow> block)" where
  "apply_writes ws d = fold (\<lambda>(n, b) d. d(n := b)) ws d"

lemma apply_writes_Nil [simp]: "apply_writes [] d = d"
  by (simp add: apply_writes_def)

lemma apply_writes_append: "apply_writes (ws @ ws') d = apply_writes ws' (apply_writes ws d)"
  by (simp add: apply_writes_def)

lemma apply_writes_Cons [simp]: "apply_writes ((n, b) # ws) d = apply_writes ws (d(n := b))"
  by (simp add: apply_writes_def)

lemma apply_writes_notin: "x \<notin> fst ` set ws \<Longrightarrow> apply_writes ws d x = d x"
  unfolding apply_writes_def by (induction ws arbitrary: d) (auto simp: case_prod_beta)

lemma apply_writes_in:
  "distinct (map fst ws) \<Longrightarrow> (x, b) \<in> set ws \<Longrightarrow> apply_writes ws d x = b"
proof (induction ws arbitrary: d)
  case Nil
  then show ?case by simp
next
  case (Cons w ws)
  obtain n c where w: "w = (n, c)" by (cases w)
  show ?case
  proof (cases "(x, b) = w")
    case True
    then have "x \<notin> fst ` set ws" using Cons.prems w by auto
    then have "apply_writes ws (d(n := c)) x = (d(n := c)) x" by (rule apply_writes_notin)
    with True w show ?thesis by (simp add: apply_writes_def)
  next
    case False
    then have "apply_writes ws (d(n := c)) x = b" using Cons by auto
    with w show ?thesis by (simp add: apply_writes_def)
  qed
qed

section \<open>Log fields and the buffer cache\<close>

lemma bio_cong:
  fixes s t :: "'z bio_st_scheme"
  assumes "bufs t = bufs s" and "disk t = disk s" and "mypid t = mypid s"
  shows "bcache_ok t = bcache_ok s" and "view t = view s" and "refs t = refs s" and "held t = held s"
    and "handle t = handle s"
proof -
  have sl: "slot t = slot s" by (simp add: fun_eq_iff slot_def assms)
  show v: "view t = view s" and r: "refs t = refs s" and h: "held t = held s"
    unfolding view_def refs_def held_def sl assms by (rule refl)+
  show "handle t = handle s" unfolding fun_eq_iff handle_def sl h assms by simp
  show "bcache_ok t = bcache_ok s" unfolding bcache_ok_def binv_def assms ..
qed

lemma log_fields [simp]:
  fixes s :: "'z log_st_scheme"
  shows "bcache_ok (s\<lparr>lh_n := i\<rparr>) = bcache_ok s" "bcache_ok (s\<lparr>lh_block := k\<rparr>) = bcache_ok s"
    "bcache_ok (s\<lparr>log_start := x\<rparr>) = bcache_ok s" "bcache_ok (s\<lparr>log_dev := x\<rparr>) = bcache_ok s"
    "view (s\<lparr>lh_n := i\<rparr>) = view s" "view (s\<lparr>lh_block := k\<rparr>) = view s"
    "view (s\<lparr>log_start := x\<rparr>) = view s" "view (s\<lparr>log_dev := x\<rparr>) = view s"
    "refs (s\<lparr>lh_n := i\<rparr>) = refs s" "refs (s\<lparr>lh_block := k\<rparr>) = refs s"
    "refs (s\<lparr>log_start := x\<rparr>) = refs s" "refs (s\<lparr>log_dev := x\<rparr>) = refs s"
    "held (s\<lparr>lh_n := i\<rparr>) = held s" "held (s\<lparr>lh_block := k\<rparr>) = held s"
    "held (s\<lparr>log_start := x\<rparr>) = held s" "held (s\<lparr>log_dev := x\<rparr>) = held s"
    "handle (s\<lparr>lh_n := i\<rparr>) = handle s" "handle (s\<lparr>lh_block := k\<rparr>) = handle s"
  by (rule bio_cong; simp)+

lemma bio_only_log:
  fixes s t :: "'z log_st_scheme"
  assumes "bio_only s t"
  shows "log_start t = log_start s" "log_dev t = log_dev s" "lh_n t = lh_n s" "lh_block t = lh_block s"
    "log_outstanding t = log_outstanding s" "log_committing t = log_committing s"
  using assms unfolding bio_only_def by (cases s, cases t, simp)+

lemma clean_view:
  assumes "bcache_ok s" and "refs s x = 0"
  shows "view s x = disk s x"
proof -
  obtain xs where inv: "binv s xs" using assms(1) by (auto simp: bcache_ok_def)
  show ?thesis
  proof (cases "slot s x")
    case None
    then show ?thesis by (simp add: view_def)
  next
    case (Some b)
    then have "b < NBUF" "b_blockno (bufs s b) = x"
      using slot_cached [OF inv, THEN iffD1, OF Some] by (auto simp: caches_def)
    moreover have "b_refcnt (bufs s b) = 0" using Some assms(2) by (simp add: refs_def unat_eq_zero)
    ultimately show ?thesis using Some binv_clean [OF inv] by (simp add: view_def)
  qed
qed

section \<open>One block to and from the log\<close>

definition quiet :: "'z bio_st_scheme \<Rightarrow> bool" where
  "quiet s \<longleftrightarrow> bcache_ok s \<and> held s = (\<lambda>_. None)"

lemma write_log_step:
  fixes s :: "'z log_st_scheme"
  assumes q: "quiet s" and dev: "log_dev s = ROOTDEV" and tail: "tail < LOGBLOCKS"
    and a: "a = log_slot (log_start s) tail" and ne: "a \<noteq> lh_block s tail"
    and rf: "refs s (lh_block s tail) = 1" "refs s a = 0" and room: "card {x. refs s x \<noteq> 0} < NBUF"
  shows "\<exists>t. write_log_one tail s = Inr ((), t) \<and> quiet t \<and> bio_only s t \<and> refs t = refs s \<and>
    view t = (view s)(a := view s (lh_block s tail)) \<and> disk t = (disk s)(a := view s (lh_block s tail)) \<and>
    disk_writes t = disk_writes s @ [(a, view s (lh_block s tail))]"
proof -
  let ?b = "lh_block s tail"
  have ok: "bcache_ok s" and hl: "held s a = None" "held s ?b = None" using q by (simp_all add: quiet_def)
  obtain x t y u w where r: "bread ROOTDEV a s = Inr (x, t)" "bio_only s t" "bread ROOTDEV ?b t = Inr (y, u)"
    "bnd (set_data x (\<lambda>_. b_data (bufs u y))) (\<lambda>_. bnd (bwrite x) (\<lambda>_. bnd (brelse y) (\<lambda>_. brelse x))) u = Inr ((), w)"
    and w: "bcache_ok w" "bio_only s w" "view w = (view s)(a := view s ?b)" "refs w = refs s" "held w = held s"
    "disk w = (disk s)(a := view s ?b)" "disk_writes w = disk_writes s @ [(a, view s ?b)]"
    using bc.copy_block [OF ok ne hl] rf room by auto
  have "write_log_one tail s = Inr ((), w)"
    using r dev tail bio_only_log(4) [OF r(2)]
    by (simp add: write_log_one_def read_lh_block_def run_simps a)
  then show ?thesis using w q by (simp add: quiet_def)
qed

lemma install_step:
  fixes s :: "'z log_st_scheme"
  assumes q: "quiet s" and dev: "log_dev s = ROOTDEV" and tail: "tail < LOGBLOCKS"
    and a: "a = log_slot (log_start s) tail" and ne: "a \<noteq> lh_block s tail"
    and rf: "refs s a = 0" "refs s (lh_block s tail) = (if recovering then 0 else 1)"
    and room: "card {x. refs s x \<noteq> 0} < (if recovering then NBUF - 1 else NBUF)"
  shows "\<exists>t. install_one recovering tail s = Inr ((), t) \<and> quiet t \<and> bio_only s t \<and>
    refs t = (refs s)(lh_block s tail := 0) \<and>
    view t = (view s)(lh_block s tail := view s a) \<and> disk t = (disk s)(lh_block s tail := view s a) \<and>
    disk_writes t = disk_writes s @ [(lh_block s tail, view s a)]"
proof -
  let ?b = "lh_block s tail"
  have ok: "bcache_ok s" and hl: "held s a = None" "held s ?b = None" using q by (simp_all add: quiet_def)
  have fin: "finite {x. refs s x \<noteq> 0}" by simp
  have rm: "card {x. refs s x \<noteq> 0} < NBUF" "recovering \<Longrightarrow> card (insert a {x. refs s x \<noteq> 0}) < NBUF"
    using room card_insert_if [OF fin, of a] by (auto split: if_splits)
  obtain x t y u w where r: "bread ROOTDEV a s = Inr (x, t)" "bio_only s t" "bread ROOTDEV ?b t = Inr (y, u)"
    "bnd (set_data y (\<lambda>_. b_data (bufs u x))) (\<lambda>_. bnd (bwrite y) (\<lambda>_.
      bnd (if \<not> recovering then bunpin y else skip) (\<lambda>_. bnd (brelse x) (\<lambda>_. brelse y)))) u = Inr ((), w)"
    and w: "bcache_ok w" "bio_only s w" "view w = (view s)(?b := view s a)"
    "refs w = (if \<not> recovering then (refs s)(?b := refs s ?b - 1) else refs s)" "held w = held s"
    "disk w = (disk s)(?b := view s a)" "disk_writes w = disk_writes s @ [(?b, view s a)]"
    using bc.install_block [OF ok ne hl, of "\<not> recovering"] rf rm clean_view [OF ok rf(1)] by (auto split: if_splits)
  have "install_one recovering tail s = Inr ((), w)"
    using r dev tail bio_only_log(4) [OF r(2)]
    by (simp add: install_one_def read_lh_block_def run_simps a)
  moreover have "refs w = (refs s)(?b := 0)" using w(4) rf(2) by (auto simp: fun_eq_iff split: if_splits)
  ultimately show ?thesis using w q by (simp add: quiet_def)
qed

section \<open>The loops\<close>

definition in_log :: "uint \<Rightarrow> uint \<Rightarrow> bool" where
  "in_log start x \<longleftrightarrow> unat start \<le> unat x \<and> unat x \<le> unat start + LOGBLOCKS"

text \<open>A well-formed in-memory header with \<open>n\<close> blocks: distinct blocks outside the log.\<close>

definition lh_wf :: "'z log_st_scheme \<Rightarrow> nat \<Rightarrow> bool" where
  "lh_wf s n \<longleftrightarrow> lh_n s = int n \<and> n \<le> LOGBLOCKS \<and> inj_on (lh_block s) {..<n} \<and>
     (\<forall>i<n. \<not> in_log (log_start s) (lh_block s i)) \<and>
     unat (log_start s) + LOGBLOCKS < 2 ^ 32 \<and> log_dev s = ROOTDEV"

lemma unat_log_slot:
  assumes "unat start + LOGBLOCKS < 2 ^ 32" and "i < LOGBLOCKS"
  shows "unat (log_slot start i) = unat start + i + 1"
proof -
  have "unat (of_nat (Suc i) :: uint) = Suc i" using assms(2) by (intro unat_of_nat_lt) simp
  moreover have "log_slot start i = start + of_nat (Suc i)" by (simp add: log_slot_def)
  ultimately show ?thesis using assms by (simp add: unat_add_nowrap del: of_nat_Suc)
qed

lemma log_slot_props:
  assumes "unat start + LOGBLOCKS < 2 ^ 32" and "i < LOGBLOCKS"
  shows log_slot_in_log: "in_log start (log_slot start i)" and log_slot_not_start: "log_slot start i \<noteq> start"
  using unat_log_slot [OF assms] assms by (auto simp: in_log_def)

lemma log_slot_inj:
  assumes "unat start + LOGBLOCKS < 2 ^ 32" and "i < LOGBLOCKS" "j < LOGBLOCKS"
    and "log_slot start i = log_slot start j"
  shows "i = j"
proof -
  have "unat start + i + 1 = unat start + j + 1"
    using unat_log_slot [OF assms(1,2)] unat_log_slot [OF assms(1,3)] unfolding assms(4) by (rule trans [OF sym])
  then show ?thesis by linarith
qed

lemma start_in_log: "in_log start start"
  by (simp add: in_log_def)

lemma for_each_append: "for_each (xs @ ys) f s = bnd (for_each xs f) (\<lambda>_. for_each ys f) s"
  by (induction xs arbitrary: s) (auto simp: run_simps bnd_def split: sum.splits prod.splits)

definition log_copies :: "uint \<Rightarrow> (nat \<Rightarrow> uint) \<Rightarrow> (uint \<Rightarrow> block) \<Rightarrow> nat \<Rightarrow> (uint \<times> block) list" where
  "log_copies start blk v k = map (\<lambda>i. (log_slot start i, v (blk i))) [0..<k]"

lemma log_copies_Suc [simp]:
  "log_copies start blk v (Suc k) = log_copies start blk v k @ [(log_slot start k, v (blk k))]"
  by (simp add: log_copies_def)

lemma log_copies_0 [simp]: "log_copies start blk v 0 = []"
  by (simp add: log_copies_def)

lemma log_copies_home:
  assumes "unat start + LOGBLOCKS < 2 ^ 32" and "k \<le> LOGBLOCKS" and "\<not> in_log start x"
  shows "apply_writes (log_copies start blk v k) d x = d x"
  using assms log_slot_in_log [OF assms(1)] by (intro apply_writes_notin) (auto simp: log_copies_def)

lemma write_log_loop:
  fixes s :: "'z log_st_scheme"
  assumes q: "quiet s" and wf: "lh_wf s n" and "k \<le> n"
    and pin: "\<forall>i<n. refs s (lh_block s i) = 1" and free: "\<forall>x. in_log (log_start s) x \<longrightarrow> refs s x = 0"
    and room: "card {x. refs s x \<noteq> 0} < NBUF"
  shows "\<exists>t. for_each [0..<k] write_log_one s = Inr ((), t) \<and> quiet t \<and> bio_only s t \<and> refs t = refs s \<and>
    view t = apply_writes (log_copies (log_start s) (lh_block s) (view s) k) (view s) \<and>
    disk t = apply_writes (log_copies (log_start s) (lh_block s) (view s) k) (disk s) \<and>
    disk_writes t = disk_writes s @ log_copies (log_start s) (lh_block s) (view s) k"
  using assms(3)
proof (induction k)
  case 0
  then show ?case using q by (simp add: run_simps)
next
  case (Suc k)
  let ?W = "log_copies (log_start s) (lh_block s) (view s)"
  obtain t where t: "for_each [0..<k] write_log_one s = Inr ((), t)" "quiet t" "bio_only s t" "refs t = refs s"
    "view t = apply_writes (?W k) (view s)" "disk t = apply_writes (?W k) (disk s)"
    "disk_writes t = disk_writes s @ ?W k"
    using Suc by auto
  have h: "unat (log_start s) + LOGBLOCKS < 2 ^ 32" "k < LOGBLOCKS" "n \<le> LOGBLOCKS" "log_dev s = ROOTDEV"
    "\<not> in_log (log_start s) (lh_block s k)"
    using wf Suc.prems by (auto simp: lh_wf_def)
  note lg = bio_only_log [OF t(3)]
  have hm: "view t (lh_block s k) = view s (lh_block s k)"
    unfolding t(5) using h by (intro log_copies_home) simp_all
  have "log_slot (log_start s) k \<noteq> lh_block s k" using log_slot_in_log [OF h(1,2)] h(5) by auto
  then obtain u where "write_log_one k t = Inr ((), u)" "quiet u" "bio_only t u" "refs u = refs t"
    "view u = (view t)(log_slot (log_start s) k := view t (lh_block s k))"
    "disk u = (disk t)(log_slot (log_start s) k := view t (lh_block s k))"
    "disk_writes u = disk_writes t @ [(log_slot (log_start s) k, view t (lh_block s k))]"
    using write_log_step [OF t(2), of k "log_slot (log_start s) k"] lg h t(4) room pin free Suc.prems
      log_slot_in_log [OF h(1,2)] by auto
  then show ?case
    using t hm bio_only_trans [OF t(3)]
    by (intro exI [of _ u]) (simp add: for_each_append run_simps apply_writes_append)
qed

definition home_copies :: "uint \<Rightarrow> (nat \<Rightarrow> uint) \<Rightarrow> (uint \<Rightarrow> block) \<Rightarrow> nat \<Rightarrow> (uint \<times> block) list" where
  "home_copies start blk v k = map (\<lambda>i. (blk i, v (log_slot start i))) [0..<k]"

lemma home_copies_Suc [simp]:
  "home_copies start blk v (Suc k) = home_copies start blk v k @ [(blk k, v (log_slot start k))]"
  by (simp add: home_copies_def)

lemma home_copies_0 [simp]: "home_copies start blk v 0 = []"
  by (simp add: home_copies_def)

lemma home_copies_log:
  assumes "\<forall>i<k. \<not> in_log start (blk i)" and "in_log start x"
  shows "apply_writes (home_copies start blk v k) d x = d x"
  using assms by (intro apply_writes_notin) (auto simp: home_copies_def)

lemma install_loop:
  fixes s :: "'z log_st_scheme"
  assumes q: "quiet s" and wf: "lh_wf s n" and "k \<le> n"
    and pin: "\<forall>i<n. refs s (lh_block s i) = (if recovering then 0 else 1)"
    and free: "\<forall>x. in_log (log_start s) x \<longrightarrow> refs s x = 0"
    and room: "card {x. refs s x \<noteq> 0} < (if recovering then NBUF - 1 else NBUF)"
  shows "\<exists>t. for_each [0..<k] (install_one recovering) s = Inr ((), t) \<and> quiet t \<and> bio_only s t \<and>
    refs t = (\<lambda>x. if x \<in> lh_block s ` {..<k} then 0 else refs s x) \<and>
    view t = apply_writes (home_copies (log_start s) (lh_block s) (view s) k) (view s) \<and>
    disk t = apply_writes (home_copies (log_start s) (lh_block s) (view s) k) (disk s) \<and>
    disk_writes t = disk_writes s @ home_copies (log_start s) (lh_block s) (view s) k"
  using assms(3)
proof (induction k)
  case 0
  then show ?case using q by (simp add: run_simps)
next
  case (Suc k)
  let ?W = "home_copies (log_start s) (lh_block s) (view s)"
  obtain t where t: "for_each [0..<k] (install_one recovering) s = Inr ((), t)" "quiet t" "bio_only s t"
    "refs t = (\<lambda>x. if x \<in> lh_block s ` {..<k} then 0 else refs s x)"
    "view t = apply_writes (?W k) (view s)" "disk t = apply_writes (?W k) (disk s)"
    "disk_writes t = disk_writes s @ ?W k"
    using Suc by auto
  have h: "unat (log_start s) + LOGBLOCKS < 2 ^ 32" "k < LOGBLOCKS" "log_dev s = ROOTDEV"
    "\<not> in_log (log_start s) (lh_block s k)" "\<forall>i<k. \<not> in_log (log_start s) (lh_block s i)"
    and inj: "inj_on (lh_block s) {..<n}"
    using wf Suc.prems by (auto simp: lh_wf_def)
  note lg = bio_only_log [OF t(3)]
  let ?a = "log_slot (log_start s) k"
  have al: "in_log (log_start s) ?a" by (rule log_slot_in_log [OF h(1,2)])
  have lo: "view t ?a = view s ?a" unfolding t(5) using h(5) al by (rule home_copies_log)
  have ne: "?a \<noteq> lh_block s k" using al h(4) by auto
  have new: "lh_block s k \<notin> lh_block s ` {..<k}"
  proof
    assume "lh_block s k \<in> lh_block s ` {..<k}"
    then obtain i where "i < k" "lh_block s i = lh_block s k" by auto
    then show False using inj_onD [OF inj, of i k] Suc.prems by simp
  qed
  have "{x. refs t x \<noteq> 0} \<subseteq> {x. refs s x \<noteq> 0}" using t(4) by auto
  then have "card {x. refs t x \<noteq> 0} < (if recovering then NBUF - 1 else NBUF)"
    using room card_mono [of "{x. refs s x \<noteq> 0}" "{x. refs t x \<noteq> 0}"] by simp
  moreover have "refs t ?a = 0" "refs t (lh_block s k) = (if recovering then 0 else 1)"
    using t(4) free al pin new Suc.prems by auto
  ultimately obtain u where "install_one recovering k t = Inr ((), u)" "quiet u" "bio_only t u"
    "refs u = (refs t)(lh_block s k := 0)"
    "view u = (view t)(lh_block s k := view t ?a)" "disk u = (disk t)(lh_block s k := view t ?a)"
    "disk_writes u = disk_writes t @ [(lh_block s k, view t ?a)]"
    using install_step [OF t(2), of k ?a recovering] lg h ne by auto
  then show ?case
    using t lo bio_only_trans [OF t(3)]
    by (intro exI [of _ u]) (auto simp: for_each_append run_simps apply_writes_append lessThan_Suc)
qed

section \<open>The header\<close>

definition head_block :: "int \<Rightarrow> (nat \<Rightarrow> uint) \<Rightarrow> block \<Rightarrow> block" where
  "head_block n blk hb =
     fold (\<lambda>i hb. put32 hb (4 + 4 * i) (blk i)) [0..<nat n] (put32 hb 0 (word_of_int n))"

lemma get_fold_put_n:
  assumes "\<forall>i\<in>set is. i < LOGBLOCKS"
  shows "get32 (fold (\<lambda>i hb. put32 hb (4 + 4 * i) (blk i)) is hb) 0 = get32 hb 0"
  using assms by (induction "is" rule: rev_induct) (simp_all add: get_put_other)

lemma get_fold_put_entry:
  assumes "\<forall>i\<in>set is. i < LOGBLOCKS" and "j < LOGBLOCKS"
  shows "get32 (fold (\<lambda>i hb. put32 hb (4 + 4 * i) (blk i)) is hb) (4 + 4 * j) =
    (if j \<in> set is then blk j else get32 hb (4 + 4 * j))"
  using assms(1)
proof (induction "is" rule: rev_induct)
  case Nil
  then show ?case by simp
next
  case (snoc i js)
  have "(4 + 4 * j) + 4 \<le> 4 + 4 * i \<or> (4 + 4 * i) + 4 \<le> 4 + 4 * j" if "i \<noteq> j" using that by linarith
  with snoc show ?case using assms(2)
    by (cases "i = j") (auto simp: get_put_same get_put_other)
qed

lemma head_block_n:
  assumes "nat n \<le> LOGBLOCKS"
  shows "get32 (head_block n blk hb) 0 = word_of_int n"
  using assms by (simp add: head_block_def get_fold_put_n get_put_same)

lemma head_block_entry:
  assumes "nat n \<le> LOGBLOCKS" and "j < nat n"
  shows "get32 (head_block n blk hb) (4 + 4 * j) = blk j"
  using assms by (simp add: head_block_def get_fold_put_entry)

lemma set_data_set_data: "bnd (set_data b f) (\<lambda>_. set_data b g) s = set_data b (\<lambda>x. g (f x)) s"
  by (simp add: set_data_def upd_buf_def run_simps upd_def)

lemma write_head_loop:
  fixes s :: "'z log_st_scheme"
  assumes "\<forall>i\<in>set is. i < LOGBLOCKS"
  shows "bnd (set_data b f) (\<lambda>_. for_each is (\<lambda>i. bnd (read_lh_block i) (\<lambda>n.
      set_data b (\<lambda>hb. put32 hb (4 + 4 * i) n)))) s =
    set_data b (\<lambda>hb. fold (\<lambda>i hb. put32 hb (4 + 4 * i) (lh_block s i)) is (f hb)) s"
  using assms
proof (induction "is" arbitrary: f)
  case Nil
  then show ?case by (simp add: set_data_def upd_buf_def run_simps)
next
  case (Cons i js)
  define t where "t = s\<lparr>bufs := upd b (\<lambda>x. x\<lparr>b_data := f (b_data x)\<rparr>) (bufs s)\<rparr>"
  have t: "set_data b f s = Inr ((), t)" by (simp add: set_data_def upd_buf_def run_simps t_def)
  have r: "read_lh_block i t = Inr (lh_block s i, t)" using Cons.prems by (simp add: read_lh_block_def run_simps t_def)
  let ?g = "\<lambda>hb. put32 hb (4 + 4 * i) (lh_block s i)"
  let ?rest = "for_each js (\<lambda>i. bnd (read_lh_block i) (\<lambda>n. set_data b (\<lambda>hb. put32 hb (4 + 4 * i) n)))"
  have "bnd (set_data b f) (\<lambda>_. bnd (set_data b ?g) (\<lambda>_. ?rest)) s =
      bnd (set_data b (\<lambda>hb. ?g (f hb))) (\<lambda>_. ?rest) s"
    unfolding bnd_assoc [symmetric] by (simp add: bnd_def set_data_set_data [unfolded bnd_def])
  with Cons show ?case using t r by (simp add: run_simps bnd_assoc)
qed

lemma write_head_run:
  fixes s :: "'z log_st_scheme"
  assumes q: "quiet s" and dev: "log_dev s = ROOTDEV" and n: "nat (lh_n s) \<le> LOGBLOCKS"
    and rf: "refs s (log_start s) = 0" and room: "card {x. refs s x \<noteq> 0} < NBUF"
  defines "h \<equiv> head_block (lh_n s) (lh_block s) (view s (log_start s))"
  shows "\<exists>t. write_head s = Inr ((), t) \<and> quiet t \<and> bio_only s t \<and> refs t = refs s \<and>
    view t = (view s)(log_start s := h) \<and> disk t = (disk s)(log_start s := h) \<and>
    disk_writes t = disk_writes s @ [(log_start s, h)]"
proof -
  have ok: "bcache_ok s" and hl: "held s (log_start s) = None" using q by (simp_all add: quiet_def)
  obtain b t u where r: "bread ROOTDEV (log_start s) s = Inr (b, t)" "bio_only s t"
    "bnd (set_data b (head_block (lh_n s) (lh_block s))) (\<lambda>_. bnd (bwrite b) (\<lambda>_. brelse b)) t = Inr ((), u)"
    and u: "bcache_ok u" "bio_only s u" "view u = (view s)(log_start s := h)" "refs u = refs s" "held u = held s"
    "disk u = (disk s)(log_start s := h)" "disk_writes u = disk_writes s @ [(log_start s, h)]"
    using bc.rewrite_block [OF ok hl, of "head_block (lh_n s) (lh_block s)"] rf room unfolding h_def by auto
  note lg = bio_only_log [OF r(2)]
  have loop: "bnd (set_data b (\<lambda>hb. put32 hb 0 (word_of_int (lh_n s)))) (\<lambda>_. for_each [0..<nat (lh_n s)]
      (\<lambda>i. bnd (read_lh_block i) (\<lambda>n. set_data b (\<lambda>hb. put32 hb (4 + 4 * i) n)))) t =
    set_data b (head_block (lh_n s) (lh_block s)) t"
    using write_head_loop [of "[0..<nat (lh_n s)]" b _ t] n lg(4)
    by (simp add: head_block_def [abs_def])
  have "write_head s = bnd (bnd (set_data b (\<lambda>hb. put32 hb 0 (word_of_int (lh_n s)))) (\<lambda>_. for_each [0..<nat (lh_n s)]
      (\<lambda>i. bnd (read_lh_block i) (\<lambda>n. set_data b (\<lambda>hb. put32 hb (4 + 4 * i) n)))))
      (\<lambda>_. bnd (bwrite b) (\<lambda>_. brelse b)) t"
    using r(1) dev by (simp add: write_head_def run_simps bnd_assoc)
  also have "\<dots> = Inr ((), u)" using r(3) loop by (simp add: bnd_def)
  finally show ?thesis using u q by (simp add: quiet_def)
qed

end
