(* ===== verification/Log_Crash.thy ===== *)
theory Log_Crash
  imports Log_Spec
begin

text \<open>
  Commit, recovery and crashes. A crash keeps a prefix of the disk writes and loses memory;
  the next boot starts with an empty cache on that disk and runs \<^verbatim>\<open>initlog\<close>.
\<close>

section \<open>Commit\<close>

text \<open>
  A state in which \<^verbatim>\<open>commit\<close> runs: no operation holds a buffer, the \<open>n\<close> logged blocks are pinned
  once each and nothing else is referenced, and the header on disk is empty.
\<close>

definition ready :: "'z log_st_scheme \<Rightarrow> nat \<Rightarrow> bool" where
  "ready s n \<longleftrightarrow> quiet s \<and> lh_wf s n \<and>
     refs s = (\<lambda>x. if x \<in> lh_block s ` {..<n} then 1 else 0) \<and>
     get32 (disk s (log_start s)) 0 = 0"

definition commit_writes :: "uint \<Rightarrow> nat \<Rightarrow> (nat \<Rightarrow> uint) \<Rightarrow> (uint \<Rightarrow> block) \<Rightarrow> block \<Rightarrow> (uint \<times> block) list" where
  "commit_writes start n blk v hb =
     log_copies start blk v n @ [(start, head_block (int n) blk hb)] @
     map (\<lambda>i. (blk i, v (blk i))) [0..<n] @ [(start, head_block 0 blk (head_block (int n) blk hb))]"

lemma ready_card: "ready s n \<Longrightarrow> card {x. refs s x \<noteq> 0} = n"
proof -
  assume r: "ready s n"
  then have "{x. refs s x \<noteq> 0} = lh_block s ` {..<n}" by (auto simp: ready_def)
  moreover have "inj_on (lh_block s) {..<n}" using r by (simp add: ready_def lh_wf_def)
  ultimately show ?thesis by (simp add: card_image)
qed

lemma log_copies_slot:
  assumes "unat start + LOGBLOCKS < 2 ^ 32" and "i < k" and "k \<le> LOGBLOCKS"
  shows "apply_writes (log_copies start blk v k) d (log_slot start i) = v (blk i)"
proof (rule apply_writes_in)
  have "inj_on (log_slot start) {0..<k}"
    using log_slot_inj [OF assms(1)] assms(3) by (intro inj_onI) auto
  then show "distinct (map fst (log_copies start blk v k))"
    by (simp add: log_copies_def o_def distinct_map)
  show "(log_slot start i, v (blk i)) \<in> set (log_copies start blk v k)"
    using assms(2) by (auto simp: log_copies_def)
qed

lemma log_copies_start:
  assumes "unat start + LOGBLOCKS < 2 ^ 32" and "k \<le> LOGBLOCKS"
  shows "apply_writes (log_copies start blk v k) d start = d start"
proof (rule apply_writes_notin)
  have "log_slot start i \<noteq> start" if "i < k" for i
    using log_slot_not_start [OF assms(1), of i] that assms(2) by simp
  then show "start \<notin> fst ` set (log_copies start blk v k)" by (force simp: log_copies_def)
qed

lemma commit_run:
  fixes s :: "'z log_st_scheme"
  assumes r: "ready s n" and n: "0 < n" "n < LOGBLOCKS"
  defines "W \<equiv> commit_writes (log_start s) n (lh_block s) (view s) (disk s (log_start s))"
  shows "\<exists>t. commit s = Inr ((), t) \<and> quiet t \<and> refs t = (\<lambda>_. 0) \<and> lh_n t = 0 \<and>
    log_start t = log_start s \<and> log_dev t = log_dev s \<and> log_outstanding t = log_outstanding s \<and>
    log_committing t = log_committing s \<and>
    disk t = apply_writes W (disk s) \<and> disk_writes t = disk_writes s @ W"
proof -
  let ?st = "log_start s" and ?blk = "lh_block s" and ?v = "view s"
  have q: "quiet s" and wf: "lh_wf s n" and rf: "refs s = (\<lambda>x. if x \<in> ?blk ` {..<n} then 1 else 0)"
    using r by (simp_all add: ready_def)
  have h: "lh_n s = int n" "n \<le> LOGBLOCKS" "\<forall>i<n. \<not> in_log ?st (?blk i)" "unat ?st + LOGBLOCKS < 2 ^ 32"
    "log_dev s = ROOTDEV"
    using wf by (simp_all add: lh_wf_def)
  have pin: "\<forall>i<n. refs s (?blk i) = 1" and free: "\<forall>x. in_log ?st x \<longrightarrow> refs s x = 0"
    using rf h(3) by auto
  have room: "card {x. refs s x \<noteq> 0} < NBUF" using ready_card [OF r] n by simp
  have vs: "?v ?st = disk s ?st" using clean_view [of s ?st] q free start_in_log by (simp add: quiet_def)
  obtain t1 where t1: "for_each [0..<n] write_log_one s = Inr ((), t1)" "quiet t1" "bio_only s t1" "refs t1 = refs s"
    "view t1 = apply_writes (log_copies ?st ?blk ?v n) ?v" "disk t1 = apply_writes (log_copies ?st ?blk ?v n) (disk s)"
    "disk_writes t1 = disk_writes s @ log_copies ?st ?blk ?v n"
    using write_log_loop [OF q wf le_refl pin free room] by blast
  note l1 = bio_only_log [OF t1(3)]
  let ?h1 = "head_block (int n) ?blk (disk s ?st)"
  have "view t1 ?st = disk s ?st" unfolding t1(5) using log_copies_start [OF h(4,2)] vs by simp
  then obtain t2 where t2: "write_head t1 = Inr ((), t2)" "quiet t2" "bio_only t1 t2" "refs t2 = refs s"
    "view t2 = (view t1)(?st := ?h1)" "disk t2 = (disk t1)(?st := ?h1)" "disk_writes t2 = disk_writes t1 @ [(?st, ?h1)]"
    using write_head_run [OF t1(2)] l1 h t1(4) free start_in_log room by auto
  note l2 = bio_only_log [OF bio_only_trans [OF t1(3) t2(3)]]
  have wf2: "lh_wf t2 n" using wf l2 by (simp add: lh_wf_def)
  have room2: "card {x. refs t2 x \<noteq> 0} < NBUF"
    using ready_card [OF r] n t2(4) by simp
  obtain t3 where t3: "for_each [0..<n] (install_one False) t2 = Inr ((), t3)" "quiet t3" "bio_only t2 t3"
    "refs t3 = (\<lambda>x. if x \<in> ?blk ` {..<n} then 0 else refs t2 x)"
    "view t3 = apply_writes (home_copies ?st ?blk (view t2) n) (view t2)"
    "disk t3 = apply_writes (home_copies ?st ?blk (view t2) n) (disk t2)"
    "disk_writes t3 = disk_writes t2 @ home_copies ?st ?blk (view t2) n"
    using install_loop [OF t2(2) wf2 le_refl, of False] pin free t2(4) room2 l2 by auto
  have r3: "refs t3 = (\<lambda>_. 0)" using t3(4) t2(4) rf by auto
  note l3 = bio_only_log [OF bio_only_trans [OF bio_only_trans [OF t1(3) t2(3)] t3(3)]]
  have "view t2 (log_slot ?st i) = ?v (?blk i)" if "i < n" for i
    using log_copies_slot [OF h(4) that h(2)] log_slot_not_start [OF h(4)] that h(2) t2(5) t1(5) by simp
  then have hc: "home_copies ?st ?blk (view t2) n = map (\<lambda>i. (?blk i, ?v (?blk i))) [0..<n]"
    by (simp add: home_copies_def)
  have "view t3 ?st = ?h1"
    unfolding t3(5) using home_copies_log [OF h(3) start_in_log] t2(5) by simp
  then obtain t4 where t4: "write_head (t3\<lparr>lh_n := 0\<rparr>) = Inr ((), t4)" "quiet t4" "bio_only (t3\<lparr>lh_n := 0\<rparr>) t4"
    "refs t4 = (\<lambda>_. 0)" "disk t4 = (disk t3)(?st := head_block 0 ?blk ?h1)"
    "disk_writes t4 = disk_writes t3 @ [(?st, head_block 0 ?blk ?h1)]"
    using write_head_run [of "t3\<lparr>lh_n := 0\<rparr>"] t3(2) r3 l3 h(5) by (auto simp: quiet_def)
  note l4 = bio_only_log [OF t4(3), simplified]
  have "commit s = Inr ((), t4)"
    using t1(1) t2(1) t3(1) t4(1) h(1) n l2(3) by (simp add: commit_def write_log_def install_trans_def run_simps)
  moreover have "disk t4 = apply_writes W (disk s)" "disk_writes t4 = disk_writes s @ W"
    using t4(5,6) t3(6,7) t2(6,7) t1(6,7) hc by (simp_all add: W_def commit_writes_def apply_writes_append)
  ultimately show ?thesis using t4(2,4) l4 l3 by simp
qed

section \<open>Recovery\<close>

lemma read_head_loop:
  fixes s :: "'z log_st_scheme"
  assumes "k \<le> LOGBLOCKS"
  shows "for_each [0..<k] (\<lambda>i. if i < LOGBLOCKS
      then modify (\<lambda>s. s\<lparr>lh_block := (lh_block s)(i := f i)\<rparr>) else stop_with OutOfBounds) s =
    Inr ((), s\<lparr>lh_block := (\<lambda>j. if j < k then f j else lh_block s j)\<rparr>)"
  using assms
proof (induction k)
  case 0
  then show ?case by (simp add: run_simps)
next
  case (Suc k)
  have "(\<lambda>j. if j < k then f j else lh_block s j)(k := f k) = (\<lambda>j. if j < Suc k then f j else lh_block s j)"
    by (auto simp: fun_eq_iff)
  with Suc show ?case by (simp add: for_each_append run_simps)
qed

lemma read_head_run:
  fixes s :: "'z log_st_scheme"
  assumes q: "quiet s" and dev: "log_dev s = ROOTDEV" and rf: "refs s = (\<lambda>_. 0)"
    and n: "sint (get32 (disk s (log_start s)) 0) = int n" "n \<le> LOGBLOCKS"
  shows "\<exists>t. read_head s = Inr ((), t) \<and> quiet t \<and> refs t = (\<lambda>_. 0) \<and> view t = view s \<and> disk t = disk s \<and>
    disk_writes t = disk_writes s \<and> log_start t = log_start s \<and> log_dev t = ROOTDEV \<and> lh_n t = int n \<and>
    (\<forall>i<n. lh_block t i = get32 (disk s (log_start s)) (4 + 4 * i))"
proof -
  let ?st = "log_start s" and ?hb = "disk s (log_start s)"
  have ok: "bcache_ok s" and hl: "held s ?st = None" using q by (simp_all add: quiet_def)
  have vs: "view s ?st = ?hb" using clean_view [OF ok] rf by simp
  obtain b t where t: "bread ROOTDEV ?st s = Inr (b, t)" "bcache_ok t" "bio_only s t" "handle t ?st b" "view t = view s"
    "refs t = (refs s)(?st := Suc (refs s ?st))" "held t = (held s)(?st := Some (mypid s))" "disk t = disk s"
    "disk_writes t = disk_writes s"
    using bc.rd_law [OF ok hl] rf by auto
  have hb: "b_data (bufs t b) = ?hb" using bc.peek_law [OF t(2,4)] t(5) vs by simp
  define u where "u = t\<lparr>lh_n := int n, lh_block := (\<lambda>j. if j < n then get32 ?hb (4 + 4 * j) else lh_block t j)\<rparr>"
  have u: "bcache_ok u" "handle u ?st b" "view u = view s" "refs u = refs t" "held u = held t" "disk u = disk s"
    "disk_writes u = disk_writes s"
    using t by (simp_all add: u_def)
  have "refs u ?st = 1 \<longrightarrow> view u ?st = disk u ?st" using u vs by simp
  then obtain w where w: "brelse b u = Inr ((), w)" "bcache_ok w" "bio_only u w" "view w = view u"
    "refs w = (refs u)(?st := refs u ?st - 1)" "held w = (held u)(?st := None)" "disk w = disk u"
    "disk_writes w = disk_writes u"
    using bc.rel_law [OF u(1,2)] by blast
  have "read_head s = Inr ((), w)"
    using t(1) dev hb n read_head_loop [OF n(2), of "\<lambda>i. get32 ?hb (4 + 4 * i)" "t\<lparr>lh_n := int n\<rparr>"] w(1)
    by (simp add: read_head_def run_simps Let_def u_def cong: if_cong)
  moreover have "refs w = (\<lambda>_. 0)" "held w = (\<lambda>_. None)"
    using w(5,6) u(4,5) t(6,7) rf q by (auto simp: fun_eq_iff quiet_def)
  moreover note bio_only_log [OF w(3)] bio_only_log [OF t(3)]
  ultimately show ?thesis
    using w(2,4,7,8) u(3,6,7) dev by (auto simp: quiet_def u_def)
qed

text \<open>A disk whose log header is well formed, and what recovery makes of it.\<close>

definition hdr_blk :: "(uint \<Rightarrow> block) \<Rightarrow> uint \<Rightarrow> nat \<Rightarrow> uint" where
  "hdr_blk d start i = get32 (d start) (4 + 4 * i)"

definition hdr_wf :: "(uint \<Rightarrow> block) \<Rightarrow> uint \<Rightarrow> nat \<Rightarrow> bool" where
  "hdr_wf d start n \<longleftrightarrow> sint (get32 (d start) 0) = int n \<and> n \<le> LOGBLOCKS \<and>
     inj_on (hdr_blk d start) {..<n} \<and> (\<forall>i<n. \<not> in_log start (hdr_blk d start i)) \<and>
     unat start + LOGBLOCKS < 2 ^ 32"

definition recovery_writes :: "(uint \<Rightarrow> block) \<Rightarrow> uint \<Rightarrow> nat \<Rightarrow> (uint \<times> block) list" where
  "recovery_writes d start n =
     home_copies start (hdr_blk d start) d n @ [(start, put32 (d start) 0 0)]"

definition booted :: "'z log_st_scheme \<Rightarrow> (uint \<Rightarrow> block) \<Rightarrow> bool" where
  "booted s d \<longleftrightarrow> quiet s \<and> refs s = (\<lambda>_. 0) \<and> disk s = d"

lemma initlog_run:
  fixes s :: "'z log_st_scheme"
  assumes b: "booted s d" and wf: "hdr_wf d start n"
  shows "\<exists>t. initlog ROOTDEV start s = Inr ((), t) \<and> quiet t \<and> refs t = (\<lambda>_. 0) \<and> lh_n t = 0 \<and>
    log_start t = start \<and> log_dev t = ROOTDEV \<and>
    disk t = apply_writes (recovery_writes d start n) d \<and>
    disk_writes t = disk_writes s @ recovery_writes d start n"
proof -
  define s0 where "s0 = s\<lparr>log_start := start, log_dev := ROOTDEV\<rparr>"
  have s0: "quiet s0" "refs s0 = (\<lambda>_. 0)" "disk s0 = d" "disk_writes s0 = disk_writes s"
    "log_start s0 = start" "log_dev s0 = ROOTDEV"
    using b by (simp_all add: s0_def booted_def quiet_def)
  have vd: "view s0 = d" using clean_view [of s0] s0 by (auto simp: quiet_def fun_eq_iff)
  have h: "sint (get32 (disk s0 (log_start s0)) 0) = int n" "n \<le> LOGBLOCKS"
    "inj_on (hdr_blk d start) {..<n}" "\<forall>i<n. \<not> in_log start (hdr_blk d start i)" "unat start + LOGBLOCKS < 2 ^ 32"
    using wf s0 by (simp_all add: hdr_wf_def)
  obtain t1 where t1: "read_head s0 = Inr ((), t1)" "quiet t1" "refs t1 = (\<lambda>_. 0)" "view t1 = d" "disk t1 = d"
    "disk_writes t1 = disk_writes s" "log_start t1 = start" "log_dev t1 = ROOTDEV" "lh_n t1 = int n"
    "\<forall>i<n. lh_block t1 i = hdr_blk d start i"
    using read_head_run [OF s0(1,6,2) h(1,2)] s0 vd by (auto simp: hdr_blk_def)
  have "inj_on (lh_block t1) {..<n} = inj_on (hdr_blk d start) {..<n}"
    using t1(10) by (intro inj_on_cong) simp
  then have wf1: "lh_wf t1 n" using h t1 by (simp add: lh_wf_def)
  have hc: "home_copies start (lh_block t1) d n = home_copies start (hdr_blk d start) d n"
    using t1(10) by (simp add: home_copies_def)
  obtain t2 where t2: "for_each [0..<n] (install_one True) t1 = Inr ((), t2)" "quiet t2" "bio_only t1 t2"
    "refs t2 = (\<lambda>_. 0)" "view t2 = apply_writes (home_copies start (hdr_blk d start) d n) d"
    "disk t2 = apply_writes (home_copies start (hdr_blk d start) d n) d"
    "disk_writes t2 = disk_writes s @ home_copies start (hdr_blk d start) d n"
    using install_loop [OF t1(2) wf1 le_refl, of True, unfolded t1(3-7) hc] by auto
  note l2 = bio_only_log [OF t2(3)]
  have "view t2 start = d start" unfolding t2(5) using home_copies_log [OF h(4) start_in_log] .
  then obtain t3 where t3: "write_head (t2\<lparr>lh_n := 0\<rparr>) = Inr ((), t3)" "quiet t3" "bio_only (t2\<lparr>lh_n := 0\<rparr>) t3"
    "refs t3 = (\<lambda>_. 0)" "disk t3 = (disk t2)(start := put32 (d start) 0 0)"
    "disk_writes t3 = disk_writes t2 @ [(start, put32 (d start) 0 0)]"
    using write_head_run [of "t2\<lparr>lh_n := 0\<rparr>"] t2(2,4) l2 t1(7,8) by (auto simp: quiet_def head_block_def)
  note l3 = bio_only_log [OF t3(3), simplified]
  have "initlog ROOTDEV start s = Inr ((), t3)"
    using t1(1,9) t2(1) t3(1) by (simp add: initlog_def recover_from_log_def install_trans_def run_simps s0_def)
  then show ?thesis
    using t3(2,4-6) l3 l2 t1(7,8) t2(6,7) by (auto simp: recovery_writes_def apply_writes_append)
qed

section \<open>Disks after a crash\<close>

abbreviation recovered :: "(uint \<Rightarrow> block) \<Rightarrow> uint \<Rightarrow> nat \<Rightarrow> (uint \<Rightarrow> block)" where
  "recovered d start n \<equiv> apply_writes (recovery_writes d start n) d"

lemma home_copies_in:
  assumes "inj_on blk {..<n}" and "i < n"
  shows "apply_writes (home_copies start blk v n) d (blk i) = v (log_slot start i)"
proof (rule apply_writes_in)
  show "distinct (map fst (home_copies start blk v n))"
    using assms(1) by (simp add: home_copies_def o_def distinct_map atLeast0LessThan)
  show "(blk i, v (log_slot start i)) \<in> set (home_copies start blk v n)"
    using assms(2) by (auto simp: home_copies_def)
qed

lemma home_copies_notin:
  "x \<notin> blk ` {..<n} \<Longrightarrow> apply_writes (home_copies start blk v n) d x = d x"
  by (rule apply_writes_notin) (auto simp: home_copies_def)

lemma recovered_logged:
  assumes "hdr_wf d start n" and "i < n"
  shows "recovered d start n (hdr_blk d start i) = d (log_slot start i)"
proof -
  have "hdr_blk d start i \<noteq> start" using assms start_in_log by (auto simp: hdr_wf_def)
  moreover have "inj_on (hdr_blk d start) {..<n}" using assms(1) by (simp add: hdr_wf_def)
  ultimately show ?thesis
    using home_copies_in [of "hdr_blk d start" n i start d d] assms(2)
    by (simp add: recovery_writes_def apply_writes_append)
qed

lemma recovered_other:
  assumes "x \<noteq> start" and "x \<notin> hdr_blk d start ` {..<n}"
  shows "recovered d start n x = d x"
  using home_copies_notin [OF assms(2), of start d d] assms(1)
  by (simp add: recovery_writes_def apply_writes_append)

text \<open>
  The disk after \<open>k\<close> of the writes of a commit. Before the header is written the log is
  empty; from then on it holds the transaction, until the header is erased after every
  block is home.
\<close>

lemma crash_before:
  fixes v d :: "uint \<Rightarrow> block" and blk :: "nat \<Rightarrow> uint"
  assumes big: "unat start + LOGBLOCKS < 2 ^ 32" and k: "k \<le> LOGBLOCKS" and empty: "get32 (d start) 0 = 0"
  defines "d' \<equiv> apply_writes (log_copies start blk v k) d"
  shows "hdr_wf d' start 0" and "\<not> in_log start x \<Longrightarrow> recovered d' start 0 x = d x"
proof -
  have "d' start = d start" unfolding d'_def by (rule log_copies_start [OF big k])
  then show "hdr_wf d' start 0" using empty big by (simp add: hdr_wf_def)
  assume x: "\<not> in_log start x"
  then have "recovered d' start 0 x = d' x" using start_in_log by (intro recovered_other) auto
  also have "\<dots> = d x" unfolding d'_def by (rule log_copies_home [OF big k x])
  finally show "recovered d' start 0 x = d x" .
qed

lemma sint_small: "n \<le> LOGBLOCKS \<Longrightarrow> sint (word_of_int (int n) :: uint) = int n"
proof -
  assume n: "n \<le> LOGBLOCKS"
  then have "unat (of_nat n :: uint) = n" by (intro unat_of_nat_lt) simp
  then have "uint (of_nat n :: uint) = int n" by (metis uint_nat)
  then show ?thesis using n by (simp add: sint_uint signed_take_bit_int_eq_self)
qed

lemma crash_after_header:
  fixes v d :: "uint \<Rightarrow> block" and blk :: "nat \<Rightarrow> uint" and hb :: block
  assumes big: "unat start + LOGBLOCKS < 2 ^ 32" and n: "n \<le> LOGBLOCKS" and j: "j \<le> n"
    and inj: "inj_on blk {..<n}" and home: "\<forall>i<n. \<not> in_log start (blk i)"
    and v: "\<And>x. x \<notin> blk ` {..<n} \<Longrightarrow> v x = d x"
  defines "d' \<equiv> apply_writes (log_copies start blk v n @ [(start, head_block (int n) blk hb)] @
      map (\<lambda>i. (blk i, v (blk i))) [0..<j]) d"
  shows "hdr_wf d' start n" and "\<not> in_log start x \<Longrightarrow> recovered d' start n x = v x"
proof -
  let ?m = "map (\<lambda>i. (blk i, v (blk i))) [0..<j]"
  let ?d1 = "(apply_writes (log_copies start blk v n) d)(start := head_block (int n) blk hb)"
  have d': "d' = apply_writes ?m ?d1" by (simp add: d'_def apply_writes_append)
  have m: "d' y = ?d1 y" if "y \<notin> blk ` {..<j}" for y
    unfolding d' using that by (intro apply_writes_notin) auto
  have ml: "d' y = ?d1 y" if "in_log start y" for y
    by (rule m) (use that home j in auto)
  have st: "d' start = head_block (int n) blk hb" using ml [OF start_in_log] by simp
  have sl: "d' (log_slot start i) = v (blk i)" if "i < n" for i
    using ml [OF log_slot_in_log [OF big]] log_slot_not_start [OF big] log_copies_slot [OF big that n] that n
    by simp
  have hb: "hdr_blk d' start i = blk i" if "i < n" for i
    unfolding hdr_blk_def st using that n by (simp add: head_block_entry)
  have "inj_on (hdr_blk d' start) {..<n} = inj_on blk {..<n}" using hb by (intro inj_on_cong) simp
  moreover have "get32 (d' start) 0 = word_of_int (int n)" unfolding st using n by (intro head_block_n) simp
  ultimately show wf: "hdr_wf d' start n"
    using inj home hb n big sint_small [OF n] by (simp add: hdr_wf_def)
  have im: "hdr_blk d' start ` {..<n} = blk ` {..<n}" using hb by (intro image_cong) auto
  assume x: "\<not> in_log start x"
  show "recovered d' start n x = v x"
  proof (cases "x \<in> blk ` {..<n}")
    case True
    then obtain i where i: "i < n" "x = blk i" by auto
    then show ?thesis using recovered_logged [OF wf i(1)] sl hb by simp
  next
    case False
    have ne: "x \<noteq> start" using x start_in_log by auto
    then have "recovered d' start n x = d' x" using False im by (intro recovered_other) auto
    also have "\<dots> = ?d1 x" using False j by (intro m) auto
    also have "\<dots> = d x" using ne log_copies_home [OF big n x] by simp
    finally show ?thesis using v [OF False] by simp
  qed
qed

lemma crash_after_commit:
  fixes v d :: "uint \<Rightarrow> block" and blk :: "nat \<Rightarrow> uint" and hb :: block
  assumes big: "unat start + LOGBLOCKS < 2 ^ 32" and n: "n \<le> LOGBLOCKS"
    and inj: "inj_on blk {..<n}" and home: "\<forall>i<n. \<not> in_log start (blk i)"
    and v: "\<And>x. x \<notin> blk ` {..<n} \<Longrightarrow> v x = d x"
  defines "d' \<equiv> apply_writes (commit_writes start n blk v hb) d"
  shows "hdr_wf d' start 0" and "\<not> in_log start x \<Longrightarrow> recovered d' start 0 x = v x"
proof -
  let ?d1 = "(apply_writes (log_copies start blk v n) d)(start := head_block (int n) blk hb)"
  let ?m = "map (\<lambda>i. (blk i, v (blk i))) [0..<n]"
  have d': "d' = (apply_writes ?m ?d1)(start := head_block 0 blk (head_block (int n) blk hb))"
    by (simp add: d'_def commit_writes_def apply_writes_append)
  have "get32 (d' start) 0 = 0" unfolding d' using head_block_n [of 0 blk] by simp
  then show "hdr_wf d' start 0" using big by (simp add: hdr_wf_def)
  assume x: "\<not> in_log start x"
  then have ne: "x \<noteq> start" using start_in_log by auto
  then have "recovered d' start 0 x = d' x" by (intro recovered_other) auto
  also have "\<dots> = apply_writes ?m ?d1 x" using d' ne by simp
  also have "\<dots> = v x"
  proof (cases "x \<in> blk ` {..<n}")
    case True
    have "distinct (map fst ?m)" using inj by (simp add: o_def distinct_map atLeast0LessThan)
    then show ?thesis by (rule apply_writes_in) (use True in auto)
  next
    case False
    then have "apply_writes ?m ?d1 x = ?d1 x" by (intro apply_writes_notin) auto
    then show ?thesis using ne log_copies_home [OF big n x] v [OF False] by simp
  qed
  finally show "recovered d' start 0 x = v x" .
qed

lemma take_log_copies: "k \<le> n \<Longrightarrow> take k (log_copies start blk v n) = log_copies start blk v k"
  by (simp add: log_copies_def take_map)

lemma length_log_copies [simp]: "length (log_copies start blk v n) = n"
  by (simp add: log_copies_def)

lemma commit_prefix:
  fixes v d :: "uint \<Rightarrow> block" and blk :: "nat \<Rightarrow> uint" and hb :: block
  assumes big: "unat start + LOGBLOCKS < 2 ^ 32" and n: "n \<le> LOGBLOCKS"
    and inj: "inj_on blk {..<n}" and home: "\<forall>i<n. \<not> in_log start (blk i)"
    and v: "\<forall>x. x \<notin> blk ` {..<n} \<longrightarrow> v x = d x" and empty: "get32 (d start) 0 = 0"
  shows "\<exists>m. hdr_wf (apply_writes (take k (commit_writes start n blk v hb)) d) start m \<and>
    (\<forall>x. \<not> in_log start x \<longrightarrow>
       recovered (apply_writes (take k (commit_writes start n blk v hb)) d) start m x = (if k \<le> n then d x else v x))"
proof -
  let ?W = "commit_writes start n blk v hb"
  consider "k \<le> n" | "n < k" "k \<le> 2 * n + 1" | "2 * n + 1 < k" by linarith
  then show ?thesis
  proof cases
    case 1
    then have "take k ?W = log_copies start blk v k" by (simp add: commit_writes_def take_log_copies)
    with 1 n show ?thesis
      using crash_before [where blk = blk and v = v and d = d and k = k and start = start, OF big _ empty] by (intro exI [of _ 0]) simp
  next
    case 2
    define j where "j = k - Suc n"
    with 2 have j: "k = Suc n + j" "j \<le> n" by auto
    then have "take k ?W = log_copies start blk v n @ [(start, head_block (int n) blk hb)] @
        map (\<lambda>i. (blk i, v (blk i))) [0..<j]"
      by (simp add: commit_writes_def take_map)
    with j show ?thesis
      using crash_after_header [where blk = blk and v = v and d = d and hb = hb, OF big n j(2) inj home v [rule_format]] by (intro exI [of _ n]) simp
  next
    case 3
    then have "take k ?W = ?W" by (simp add: commit_writes_def)
    with 3 show ?thesis
      using crash_after_commit [where blk = blk and v = v and d = d and hb = hb, OF big n inj home v [rule_format]] by (intro exI [of _ 0]) simp
  qed
qed

lemma recovery_prefix:
  fixes d :: "uint \<Rightarrow> block"
  assumes wf: "hdr_wf d start n"
  shows "\<exists>m. hdr_wf (apply_writes (take k (recovery_writes d start n)) d) start m \<and>
    (\<forall>x. \<not> in_log start x \<longrightarrow>
       recovered (apply_writes (take k (recovery_writes d start n)) d) start m x = recovered d start n x)"
proof (cases "k \<le> n")
  case True
  let ?blk = "hdr_blk d start"
  let ?d' = "apply_writes (home_copies start ?blk d k) d"
  have h: "inj_on ?blk {..<n}" "\<forall>i<n. \<not> in_log start (?blk i)" "unat start + LOGBLOCKS < 2 ^ 32" "n \<le> LOGBLOCKS"
    using wf by (simp_all add: hdr_wf_def)
  have tk: "take k (recovery_writes d start n) = home_copies start ?blk d k"
    using True by (simp add: recovery_writes_def home_copies_def take_map)
  have lo: "?d' y = d y" if "in_log start y" for y
    by (rule home_copies_log) (use h(2) True that in auto)
  have st: "?d' start = d start" by (rule lo [OF start_in_log])
  have hb: "hdr_blk ?d' start = ?blk" by (rule ext) (simp only: hdr_blk_def st)
  have wf': "hdr_wf ?d' start n" using wf st hb by (simp add: hdr_wf_def)
  have "recovered ?d' start n x = recovered d start n x" if x: "\<not> in_log start x" for x
  proof (cases "x \<in> ?blk ` {..<n}")
    case True
    then obtain i where i: "i < n" "x = ?blk i" by auto
    have "?d' (log_slot start i) = d (log_slot start i)" using lo log_slot_in_log [OF h(3)] i(1) h(4) by simp
    then show ?thesis using recovered_logged [OF wf' i(1)] recovered_logged [OF wf i(1)] hb i(2) by simp
  next
    case False
    have ne: "x \<noteq> start" using x start_in_log by auto
    have "?d' x = d x" using False \<open>k \<le> n\<close> by (intro home_copies_notin) auto
    then show ?thesis using recovered_other [OF ne] False hb by simp
  qed
  then show ?thesis unfolding tk using wf' by blast
next
  case False
  let ?d' = "recovered d start n"
  have tk: "take k (recovery_writes d start n) = recovery_writes d start n"
    using False by (simp add: recovery_writes_def home_copies_def)
  have "?d' start = put32 (d start) 0 0" by (simp add: recovery_writes_def apply_writes_append)
  then have wf': "hdr_wf ?d' start 0" using wf by (simp add: hdr_wf_def get_put_same)
  have "recovered ?d' start 0 x = ?d' x" if "\<not> in_log start x" for x
    by (rule recovered_other) (use that start_in_log in auto)
  then show ?thesis unfolding tk using wf' by blast
qed

section \<open>Properties\<close>

text \<open>
  C1. A commit is atomic with respect to crashes. Whatever prefix of its disk writes reached
  the disk, booting with an empty cache and running \<^verbatim>\<open>initlog\<close> leaves every block outside the
  log with its old contents when the crash came before the header write, and with the
  contents of the transaction from the header write on; never a mixture. The commit itself
  does not panic or block.
\<close>

theorem commit_crash_atomic:
  fixes s :: "'z log_st_scheme"
  assumes "ready s n" and "0 < n" and "n < LOGBLOCKS"
  shows "\<exists>t ws. commit s = Inr ((), t) \<and> disk_writes t = disk_writes s @ ws \<and> disk t = apply_writes ws (disk s) \<and>
    (\<forall>k (u :: 'z log_st_scheme). booted u (apply_writes (take k ws) (disk s)) \<longrightarrow>
       wp (initlog ROOTDEV (log_start s)) (\<lambda>_ r. \<forall>x. \<not> in_log (log_start s) x \<longrightarrow>
         disk r x = (if k \<le> n then disk s x else view s x)) u)"
proof -
  let ?st = "log_start s"
  let ?W = "commit_writes ?st n (lh_block s) (view s) (disk s ?st)"
  have r: "quiet s" "lh_wf s n" "refs s = (\<lambda>x. if x \<in> lh_block s ` {..<n} then 1 else 0)" "get32 (disk s ?st) 0 = 0"
    using assms(1) by (simp_all add: ready_def)
  have h: "unat ?st + LOGBLOCKS < 2 ^ 32" "n \<le> LOGBLOCKS" "inj_on (lh_block s) {..<n}"
    "\<forall>i<n. \<not> in_log ?st (lh_block s i)"
    using r(2) by (simp_all add: lh_wf_def)
  have v: "\<forall>x. x \<notin> lh_block s ` {..<n} \<longrightarrow> view s x = disk s x"
    using r(1,3) clean_view [of s] by (simp add: quiet_def)
  obtain t where t: "commit s = Inr ((), t)" "disk_writes t = disk_writes s @ ?W" "disk t = apply_writes ?W (disk s)"
    using commit_run [OF assms] by blast
  have "wp (initlog ROOTDEV ?st) (\<lambda>_ r. \<forall>x. \<not> in_log ?st x \<longrightarrow>
      disk r x = (if k \<le> n then disk s x else view s x)) u"
    if b: "booted u (apply_writes (take k ?W) (disk s))" for k and u :: "'z log_st_scheme"
  proof -
    obtain m where m: "hdr_wf (apply_writes (take k ?W) (disk s)) ?st m"
      "\<forall>x. \<not> in_log ?st x \<longrightarrow> recovered (apply_writes (take k ?W) (disk s)) ?st m x =
        (if k \<le> n then disk s x else view s x)"
      using commit_prefix [where v = "view s" and d = "disk s", OF h v r(4), of k "disk s ?st"] by blast
    then show ?thesis using initlog_run [OF b m(1)] by (auto simp: wp_iff)
  qed
  with t show ?thesis by blast
qed

text \<open>
  C2. Recovery may itself crash any number of times: from any prefix of the writes of
  \<^verbatim>\<open>initlog\<close>, booting and running it again leaves every block outside the log as the first,
  uninterrupted recovery would have.
\<close>

theorem recovery_crash_idempotent:
  fixes s :: "'z log_st_scheme"
  assumes "booted s d" and "hdr_wf d start n"
  shows "\<exists>t ws. initlog ROOTDEV start s = Inr ((), t) \<and> disk_writes t = disk_writes s @ ws \<and>
    (\<forall>k (u :: 'z log_st_scheme). booted u (apply_writes (take k ws) d) \<longrightarrow>
       wp (initlog ROOTDEV start) (\<lambda>_ r. \<forall>x. \<not> in_log start x \<longrightarrow> disk r x = disk t x) u)"
proof -
  let ?W = "recovery_writes d start n"
  obtain t where t: "initlog ROOTDEV start s = Inr ((), t)" "disk_writes t = disk_writes s @ ?W"
    "disk t = apply_writes ?W d"
    using initlog_run [OF assms] by blast
  have "wp (initlog ROOTDEV start) (\<lambda>_ r. \<forall>x. \<not> in_log start x \<longrightarrow> disk r x = disk t x) u"
    if b: "booted u (apply_writes (take k ?W) d)" for k and u :: "'z log_st_scheme"
  proof -
    obtain m where m: "hdr_wf (apply_writes (take k ?W) d) start m"
      "\<forall>x. \<not> in_log start x \<longrightarrow> recovered (apply_writes (take k ?W) d) start m x = recovered d start n x"
      using recovery_prefix [OF assms(2)] by blast
    then show ?thesis using initlog_run [OF b m(1)] t(3) by (auto simp: wp_iff)
  qed
  with t show ?thesis by blast
qed

end
