(* ===== verification/Log_Op.thy ===== *)
theory Log_Op
  imports Log_Crash
begin

text \<open>
  Operations inside a transaction: \<^verbatim>\<open>log_write\<close>, the space reservation of \<^verbatim>\<open>begin_op\<close>, and what
  happens when a transaction uses the whole log.
\<close>

section \<open>log\_write\<close>

lemma log_find_spec:
  "if \<exists>j. i \<le> j \<and> j < i + k \<and> blk j = n
   then i \<le> log_find k i blk n \<and> log_find k i blk n < i + k \<and> blk (log_find k i blk n) = n
   else log_find k i blk n = i + k"
proof (induction k arbitrary: i)
  case 0
  then show ?case by auto
next
  case (Suc k)
  have "(\<exists>j. i \<le> j \<and> j < i + Suc k \<and> blk j = n) \<longleftrightarrow> blk i = n \<or> (\<exists>j. Suc i \<le> j \<and> j < Suc i + k \<and> blk j = n)"
    by (metis Suc_leD Suc_leI add_Suc add_Suc_right le_neq_implies_less less_add_same_cancel1 order_refl zero_less_Suc)
  then show ?case using Suc.IH [of "Suc i"] by (auto split: if_splits)
qed

lemma log_find_hit:
  "n \<in> blk ` {..<k} \<Longrightarrow> log_find k 0 blk n < k \<and> blk (log_find k 0 blk n) = n"
  using log_find_spec [of 0 k blk n] by (auto split: if_splits)

lemma log_find_miss: "n \<notin> blk ` {..<k} \<Longrightarrow> log_find k 0 blk n = k"
  using log_find_spec [of 0 k blk n] by (auto split: if_splits)

text \<open>Only the cache, the disk and the log header differ.\<close>

definition log_only :: "'z log_st_scheme \<Rightarrow> 'z log_st_scheme \<Rightarrow> bool" where
  "log_only s t \<longleftrightarrow> t = s\<lparr>bufs := bufs t, disk := disk t, disk_writes := disk_writes t, lh_n := lh_n t, lh_block := lh_block t\<rparr>"

lemma log_only_refl [simp]: "log_only s s"
  by (simp add: log_only_def)

lemma log_only_trans: "log_only s t \<Longrightarrow> log_only t u \<Longrightarrow> log_only s u"
  unfolding log_only_def by (cases s, cases t, cases u) simp

lemma bio_only_log_only: "bio_only s t \<Longrightarrow> log_only s t"
  unfolding bio_only_def log_only_def by (cases s, cases t) simp

lemma log_write_run:
  fixes s :: "'z log_st_scheme"
  assumes ok: "bcache_ok s" and h: "handle s bn b" and n: "lh_n s = int n" "n < LOGBLOCKS"
    and out: "1 \<le> log_outstanding s" and rf: "refs s bn < 2 ^ 32 - 1"
  shows "\<exists>t. log_write b s = Inr ((), t) \<and> bcache_ok t \<and> handle t bn b \<and> view t = view s \<and> held t = held s \<and>
    disk t = disk s \<and> disk_writes t = disk_writes s \<and> log_start t = log_start s \<and> log_dev t = log_dev s \<and>
    log_outstanding t = log_outstanding s \<and> log_only s t \<and> kept s t bn \<and>
    (if bn \<in> lh_block s ` {..<n} then lh_n t = int n \<and> lh_block t = lh_block s \<and> refs t = refs s
     else lh_n t = int (Suc n) \<and> lh_block t = (lh_block s)(n := bn) \<and> refs t = (refs s)(bn := Suc (refs s bn)))"
proof -
  obtain xs where inv: "binv s xs" using ok by (auto simp: bcache_ok_def)
  have bno: "b_blockno (bufs s b) = bn" using handleD(2) [OF inv h] by (simp add: caches_def)
  show ?thesis
  proof (cases "bn \<in> lh_block s ` {..<n}")
    case True
    note f = log_find_hit [OF True]
    then have "s\<lparr>lh_block := (lh_block s)(log_find n 0 (lh_block s) bn := bn)\<rparr> = s"
      by (simp add: fun_upd_idem)
    then have "log_write b s = Inr ((), s)"
      using n out bno f by (simp add: log_write_def Let_def run_simps)
    then show ?thesis using True ok h n by (auto simp: kept_def)
  next
    case False
    note f = log_find_miss [OF False]
    define s1 where "s1 = s\<lparr>lh_block := (lh_block s)(n := bn)\<rparr>"
    have s1: "bcache_ok s1" "handle s1 bn b" "refs s1 = refs s" "view s1 = view s" "held s1 = held s"
      using ok h by (simp_all add: s1_def)
    obtain u where u: "bpin b s1 = Inr ((), u)" "bcache_ok u" "bio_only s1 u" "handle u bn b" "view u = view s"
      "refs u = (refs s)(bn := Suc (refs s bn))" "held u = held s" "disk u = disk s1" "disk_writes u = disk_writes s1" "kept s1 u bn"
      using bpin_spec [OF s1(1,2)] rf s1(3-5) by auto
    have kp: "kept s (u\<lparr>lh_n := lh_n u + 1\<rparr>) bn" using u(10) by (simp add: kept_def s1_def)
    have "log_only s s1" by (simp add: log_only_def s1_def)
    moreover have "log_only s1 u" by (rule bio_only_log_only [OF u(3)])
    moreover have "log_only u (u\<lparr>lh_n := lh_n u + 1\<rparr>)" by (simp add: log_only_def)
    ultimately have lo: "log_only s (u\<lparr>lh_n := lh_n u + 1\<rparr>)" by (blast intro: log_only_trans)
    have "log_write b s = Inr ((), u\<lparr>lh_n := lh_n u + 1\<rparr>)"
      using n out bno f u(1) by (simp add: log_write_def Let_def run_simps s1_def)
    then show ?thesis
      using False u bio_only_log [OF u(3)] n kp lo by (auto simp: s1_def)
  qed
qed

section \<open>Log space\<close>

lemma keeps_read_lh [keeps_intros]: "keeps bio_only (read_lh_block i)"
  unfolding read_lh_block_def by (intro keeps_intros keeps_get_bnd)

lemma keeps_log_loops [keeps_intros]:
  "keeps bio_only write_log" "keeps bio_only (install_trans r)" "keeps bio_only write_head"
  unfolding write_log_def write_log_one_def install_trans_def install_one_def write_head_def
  by (intro keeps_get_bnd keeps_bnd [OF transp_bio_only] keeps_intros)+

lemma commit_fields:
  fixes s :: "'z log_st_scheme"
  assumes "commit s = Inr (x, t)"
  shows "lh_n t = (if lh_n s > 0 then 0 else lh_n s)" and "log_outstanding t = log_outstanding s"
    and "log_committing t = log_committing s"
proof -
  have "lh_n t = (if lh_n s > 0 then 0 else lh_n s) \<and> log_outstanding t = log_outstanding s \<and>
    log_committing t = log_committing s"
  proof (cases "lh_n s > 0")
    case False
    then show ?thesis using assms by (simp add: commit_def run_simps)
  next
    case True
    then obtain s1 s2 s3 where r: "write_log s = Inr ((), s1)" "write_head s1 = Inr ((), s2)"
      "install_trans False s2 = Inr ((), s3)" "write_head (s3\<lparr>lh_n := 0\<rparr>) = Inr (x, t)"
      using assms by (auto simp: commit_def get_run bnd_eq_Inr modify_run)
    have k: "bio_only s s1" "bio_only s1 s2" "bio_only s2 s3" "bio_only (s3\<lparr>lh_n := 0\<rparr>) t"
      using r by (auto intro: keepsD [OF keeps_log_loops(1)] keepsD [OF keeps_log_loops(2)] keepsD [OF keeps_log_loops(3)])
    show ?thesis
      using bio_only_log [OF k(4)] bio_only_log [OF k(3)] bio_only_log [OF k(2)] bio_only_log [OF k(1)] True
      by simp
  qed
  then show "lh_n t = (if lh_n s > 0 then 0 else lh_n s)" "log_outstanding t = log_outstanding s"
    "log_committing t = log_committing s" by auto
qed

text \<open>
  File-system operations in progress, each with the number of blocks it has added to the log
  so far. An operation adds at most \<^verbatim>\<open>MAXOPBLOCKS\<close> blocks; the rest of the kernel does not touch
  the log's counters.
\<close>

inductive op_step :: "'z log_st_scheme \<times> nat list \<Rightarrow> 'z log_st_scheme \<times> nat list \<Rightarrow> bool" where
  op_begin: "begin_op s = Inr ((), t) \<Longrightarrow> op_step (s, ws) (t, 0 # ws)"
| op_write: "log_write b s = Inr ((), t) \<Longrightarrow> i < length ws \<Longrightarrow> ws ! i < nat MAXOPBLOCKS \<Longrightarrow>
    op_step (s, ws) (t, ws[i := ws ! i + nat (lh_n t - lh_n s)])"
| op_end: "end_op s = Inr ((), t) \<Longrightarrow> op_step (s, us @ w # vs) (t, us @ vs)"
| op_other: "lh_n t = lh_n s \<Longrightarrow> log_outstanding t = log_outstanding s \<Longrightarrow>
    log_committing t = log_committing s \<Longrightarrow> op_step (s, ws) (t, ws)"

inductive_cases op_stepE: "op_step p q"

definition space_inv :: "'z log_st_scheme \<times> nat list \<Rightarrow> bool" where
  "space_inv p \<longleftrightarrow> (case p of (s, ws) \<Rightarrow>
     0 \<le> lh_n s \<and> log_outstanding s = int (length ws) \<and> \<not> log_committing s \<and>
     (\<forall>w\<in>set ws. w \<le> nat MAXOPBLOCKS) \<and>
     lh_n s + int (sum_list (map (\<lambda>w. nat MAXOPBLOCKS - w) ws)) \<le> int LOGBLOCKS)"

lemma log_write_fields:
  fixes s :: "'z log_st_scheme"
  assumes "log_write b s = Inr ((), t)"
  shows "lh_n s < int LOGBLOCKS" and "lh_n t = lh_n s \<or> lh_n t = lh_n s + 1"
    and "log_outstanding t = log_outstanding s" and "log_committing t = log_committing s"
proof -
  have "lh_n s < int LOGBLOCKS \<and> (lh_n t = lh_n s \<or> lh_n t = lh_n s + 1) \<and>
    log_outstanding t = log_outstanding s \<and> log_committing t = log_committing s"
    using assms by (auto simp: log_write_def Let_def get_run modify_run skip_run stop_run bnd_eq_Inr
        bpin_def upd_buf_def split: if_splits)
  then show "lh_n s < int LOGBLOCKS" "lh_n t = lh_n s \<or> lh_n t = lh_n s + 1"
    "log_outstanding t = log_outstanding s" "log_committing t = log_committing s" by auto
qed

lemma sum_budget_le: "sum_list (map (\<lambda>w. c - w) ws) \<le> c * length (ws :: nat list)"
  by (induction ws) auto

lemma sum_budget_update:
  assumes "i < length ws" and "ws ! i < (c :: nat)"
  shows "sum_list (map (\<lambda>w. c - w) (ws[i := Suc (ws ! i)])) + 1 = sum_list (map (\<lambda>w. c - w) ws)"
  using assms
proof (induction ws arbitrary: i)
  case Nil
  then show ?case by simp
next
  case (Cons w ws)
  then show ?case by (cases i) auto
qed

lemma space_inv_step:
  assumes "op_step p q" and "space_inv p"
  shows "space_inv q"
  using assms(1)
proof (cases rule: op_step.cases)
  case (op_begin s t ws)
  have lt: "lh_n s + (log_outstanding s + 1) * 10 \<le> 30" and t: "t = s\<lparr>log_outstanding := log_outstanding s + 1\<rparr>"
    using op_begin(3) by (auto simp: begin_op_def run_simps get_run modify_run split: if_splits)
  moreover have "int (sum_list (map (\<lambda>w. 10 - w) ws)) \<le> 10 * int (length ws)"
    using sum_budget_le [of 10 ws] by (metis of_nat_le_iff of_nat_mult of_nat_numeral)
  ultimately show ?thesis using assms(2) op_begin(1,2) by (auto simp: space_inv_def)
next
  case (op_write b s t i ws)
  note f = log_write_fields [OF op_write(3)]
  show ?thesis
  proof (cases "lh_n t = lh_n s")
    case True
    then show ?thesis using assms(2) op_write f by (simp add: space_inv_def)
  next
    case False
    then have n: "lh_n t = lh_n s + 1" using f(2) by simp
    have "int (sum_list (map (\<lambda>w. 10 - w) (ws[i := Suc (ws ! i)]))) + 1 = int (sum_list (map (\<lambda>w. 10 - w) ws))"
      using sum_budget_update [of i ws 10] op_write(4,5) by simp
    moreover have "\<forall>w\<in>set (ws[i := Suc (ws ! i)]). w \<le> 10"
      using assms(2) op_write set_update_subset_insert [of ws i "Suc (ws ! i)"] by (auto simp: space_inv_def)
    ultimately show ?thesis using assms(2) op_write(1,2) f n by (simp add: space_inv_def)
  qed
next
  case (op_end s t us w vs)
  let ?s = "s\<lparr>log_outstanding := log_outstanding s - 1\<rparr>"
  have nc: "\<not> log_committing s" and out: "log_outstanding s = int (length (us @ w # vs))" and pos: "0 \<le> lh_n s"
    using assms(2) op_end(1) by (simp_all add: space_inv_def)
  show ?thesis
  proof (cases "log_outstanding s = 1")
    case True
    then have "int (length us) + int (length vs) = 0" using out by simp
    then have "length us = 0" "length vs = 0" by linarith+
    then have e: "us = []" "vs = []" by simp_all
    obtain u where u: "commit (?s\<lparr>log_committing := True\<rparr>) = Inr ((), u)" "t = u\<lparr>log_committing := False\<rparr>"
      using op_end(3) True nc by (auto simp: end_op_def run_simps bnd_eq_Inr modify_run)
    then show ?thesis using commit_fields [OF u(1)] e op_end(2) True pos by (auto simp: space_inv_def)
  next
    case False
    then have "t = ?s" using op_end(3) nc by (auto simp: end_op_def run_simps)
    then show ?thesis using assms(2) op_end(1,2) by (auto simp: space_inv_def)
  qed
next
  case (op_other t s ws)
  then show ?thesis using assms(2) by (simp add: space_inv_def)
qed

section \<open>Properties\<close>

text \<open>
  C34. \<^verbatim>\<open>log_write\<close> of a buffer the process holds, inside an operation and with room in the log,
  records the block once: a block already in the transaction is absorbed, a new one is
  appended and pinned by exactly one reference. The header stays well formed and no block
  changes.
\<close>

theorem log_write_records_once:
  fixes s :: "'z log_st_scheme"
  assumes "bcache_ok s" and "handle s bn b" and "lh_wf s n" and "n < LOGBLOCKS"
    and "\<not> in_log (log_start s) bn" and "1 \<le> log_outstanding s" and "refs s bn < 2 ^ 32 - 1"
  shows "wp (log_write b) (\<lambda>_ t. bcache_ok t \<and> view t = view s \<and> disk t = disk s \<and>
      (\<exists>m. lh_wf t m \<and> lh_block t ` {..<m} = insert bn (lh_block s ` {..<n}) \<and>
        refs t = (refs s)(bn := refs s bn + (if bn \<in> lh_block s ` {..<n} then 0 else 1)))) s"
proof -
  have n: "lh_n s = int n" and inj: "inj_on (lh_block s) {..<n}" using assms(3) by (simp_all add: lh_wf_def)
  obtain t where t: "log_write b s = Inr ((), t)" "bcache_ok t" "view t = view s" "disk t = disk s"
    "log_start t = log_start s" "log_dev t = log_dev s"
    and c: "if bn \<in> lh_block s ` {..<n} then lh_n t = int n \<and> lh_block t = lh_block s \<and> refs t = refs s
     else lh_n t = int (Suc n) \<and> lh_block t = (lh_block s)(n := bn) \<and> refs t = (refs s)(bn := Suc (refs s bn))"
    using log_write_run [OF assms(1,2) n assms(4,6,7)] by blast
  show ?thesis
  proof (cases "bn \<in> lh_block s ` {..<n}")
    case True
    then show ?thesis using t c assms(3)
      by (auto simp: wp_def lh_wf_def fun_upd_idem intro!: exI [of _ n])
  next
    case False
    have "inj_on (lh_block t) {..<Suc n}"
      using c False inj by (auto simp: lessThan_Suc inj_on_def)
    moreover have im: "lh_block t ` {..<Suc n} = insert bn (lh_block s ` {..<n})"
      using c False by (auto simp: lessThan_Suc)
    moreover have "\<not> in_log (log_start t) (lh_block t i)" if "i < Suc n" for i
      using c False t(5) assms(3,5) that by (auto simp: lh_wf_def less_Suc_eq)
    ultimately have "lh_wf t (Suc n)" using t(5,6) c False assms(3,4) by (simp add: lh_wf_def)
    with im show ?thesis using t c False by (auto simp: wp_def intro!: exI [of _ "Suc n"])
  qed
qed

text \<open>
  C3. The space check of \<^verbatim>\<open>begin_op\<close> is sufficient. In every state reached from an idle log by
  operations that begin, write and end, where no operation adds more than \<^verbatim>\<open>MAXOPBLOCKS\<close>
  blocks, an operation that has not used up its share can write one more block: \<^verbatim>\<open>log_write\<close>
  does not panic.
\<close>

theorem begin_op_reserves_space:
  assumes "op_step\<^sup>*\<^sup>* (s0, []) (s, ws)" and "lh_n s0 = 0" and "log_outstanding s0 = 0" and "\<not> log_committing s0"
    and "i < length ws" and "ws ! i < nat MAXOPBLOCKS"
  shows "\<exists>t. log_write b s = Inr ((), t)"
proof -
  have "space_inv (s, ws)"
    using assms(1)
  proof (induction rule: rtranclp_induct)
    case base
    then show ?case using assms(2-4) by (simp add: space_inv_def)
  next
    case (step p q)
    then show ?case using space_inv_step by blast
  qed
  then have "lh_n s + int (sum_list (map (\<lambda>w. 10 - w) ws)) \<le> 30" and out: "log_outstanding s = int (length ws)"
    by (simp_all add: space_inv_def)
  moreover have "sum_list (map (\<lambda>w. 10 - w) (ws[i := Suc (ws ! i)])) + 1 = sum_list (map (\<lambda>w. 10 - w) ws)"
    using sum_budget_update [of i ws 10] assms(5,6) by simp
  ultimately have "lh_n s < 30" by linarith
  moreover have "\<not> log_outstanding s < 1" using out assms(5) by linarith
  ultimately show ?thesis
    by (auto simp: log_write_def Let_def run_simps bpin_def upd_buf_def)
qed

section \<open>A concrete transaction\<close>

text \<open>
  The \<open>n\<close> blocks from block 100 on were modified in the cache and logged; \<open>B\<close> supplies the
  list pointers. The disk is all zeros and the log starts at block 2.
\<close>

definition txn :: "(nat \<Rightarrow> buf) \<Rightarrow> nat \<Rightarrow> log_st" where
  "txn B n = \<lparr>mem = (\<lambda>_. 0), freelist = 0, kend = 0x80020000, psz = 0, ppagetable = 0, mypid = 1,
     bufs = (\<lambda>i. (B i)\<lparr>b_valid := i < n, b_dev := (if i < n then ROOTDEV else 0), b_blockno := of_nat (100 + i),
       b_lock := initsleeplock, b_refcnt := (if i < n then 1 else 0), b_data := (\<lambda>_. 7)\<rparr>),
     disk = (\<lambda>_ _. 0), disk_writes = [], log_start = 2, log_outstanding = 0, log_committing = True,
     log_dev = ROOTDEV, lh_n = int n, lh_block = (\<lambda>i. of_nat (100 + i))\<rparr>"

lemma txn_ready:
  assumes "lru B xs" and "n \<le> LOGBLOCKS"
  shows "ready (txn B n) n" and "binv (txn B n) xs" and "\<forall>i<n. view (txn B n) (of_nat (100 + i)) = (\<lambda>_. 7)"
proof -
  let ?s = "txn B n"
  have u: "unat (of_nat (100 + i) :: uint) = 100 + i" if "i < NBUF" for i
    using that by (intro unat_of_nat_lt) simp
  have inj: "i = j" if "i < NBUF" "j < NBUF" "of_nat (100 + i) = (of_nat (100 + j) :: uint)" for i j
  proof -
    have "100 + i = 100 + j" using u [OF that(1)] u [OF that(2)] unfolding that(3) by (rule trans [OF sym])
    then show ?thesis by simp
  qed
  have c: "caches (bufs ?s i) x \<longleftrightarrow> i < n \<and> x = of_nat (100 + i)" for i x
    by (auto simp: caches_def txn_def)
  have "lru (bufs ?s) xs" using assms(1) by (rule lru_cong) (simp add: txn_def)
  then show inv: "binv ?s xs"
    unfolding binv_def c using inj by (simp add: txn_def initsleeplock_def)
  have sl: "slot ?s (of_nat (100 + i)) = Some i" if "i < n" for i
    using slot_cached [OF inv] c that assms(2) by simp
  then show v: "\<forall>i<n. view ?s (of_nat (100 + i)) = (\<lambda>_. 7)" by (simp add: view_def txn_def)
  have none: "slot ?s x = None" if "x \<notin> (\<lambda>i. of_nat (100 + i)) ` {..<n}" for x
    using that c by (auto simp: slot_None)
  have rf: "refs ?s x = (if x \<in> (\<lambda>i. of_nat (100 + i)) ` {..<n} then 1 else 0)" for x
  proof (cases "x \<in> (\<lambda>i. of_nat (100 + i)) ` {..<n}")
    case True
    then obtain i where "i < n" "x = of_nat (100 + i)" by auto
    then show ?thesis using sl [of i] True by (simp add: refs_def) (simp add: txn_def)
  next
    case False
    then show ?thesis using none by (simp add: refs_def)
  qed
  have hl: "held ?s = (\<lambda>_. None)"
    by (auto simp: fun_eq_iff held_def txn_def initsleeplock_def split: option.splits)
  have "inj_on (lh_block ?s) {..<n}"
    using inj assms(2) by (intro inj_onI) (simp add: txn_def)
  moreover have "\<not> in_log 2 (of_nat (100 + i))" if "i < n" for i
    using u [of i] that assms(2) by (simp add: in_log_def del: of_nat_add)
  ultimately have "lh_wf ?s n" using assms(2) by (simp add: lh_wf_def) (simp add: txn_def)
  moreover have "get32 (disk ?s (log_start ?s)) 0 = 0" by (simp add: txn_def get_le_def le_get_zero)
  ultimately show "ready ?s n"
    using inv hl rf by (auto simp: ready_def quiet_def bcache_ok_def fun_eq_iff) (auto simp: txn_def)
qed

lemma lru_exists: "\<exists>B xs. lru B xs"
  using binit_run [OF boot_bio_zero [of "\<lambda>_ _. 0"]] binv_lru by blast

lemma booted_txn:
  assumes "lru B xs"
  shows "booted ((txn B 0)\<lparr>disk := d\<rparr>) d"
proof -
  let ?s = "(txn B 0)\<lparr>disk := d\<rparr>"
  have "lru (bufs ?s) xs" using assms by (rule lru_cong) (simp add: txn_def)
  then have "binv ?s xs" by (simp add: binv_def) (simp add: txn_def caches_def initsleeplock_def)
  moreover have "slot ?s x = None" for x by (simp add: slot_None) (simp add: txn_def caches_def)
  ultimately show ?thesis
    by (auto simp: booted_def quiet_def bcache_ok_def refs_def held_def fun_eq_iff)
qed

theorem commit_crash_atomic_witness:
  "\<exists>(s :: log_st) t ws. view s 100 = (\<lambda>_. 7) \<and> disk s 100 = (\<lambda>_. 0) \<and> commit s = Inr ((), t) \<and>
    disk_writes t = disk_writes s @ ws \<and>
    (\<forall>k (u :: log_st). booted u (apply_writes (take k ws) (disk s)) \<longrightarrow>
       wp (initlog ROOTDEV (log_start s)) (\<lambda>_ r. disk r 100 = (if k \<le> 2 then (\<lambda>_. 0) else (\<lambda>_. 7))) u)"
proof -
  obtain B xs where "lru B xs" using lru_exists by blast
  then have r: "ready (txn B 2) 2" and v: "\<forall>i<2. view (txn B 2) (of_nat (100 + i)) = (\<lambda>_. 7)"
    using txn_ready [of B xs 2] by simp_all
  have v0: "view (txn B 2) 100 = (\<lambda>_. 7)" using v [rule_format, of 0] by simp
  have out: "\<not> in_log (log_start (txn B 2)) 100" by (simp add: in_log_def txn_def)
  have d0: "disk (txn B 2) 100 = (\<lambda>_. 0)" by (simp add: txn_def)
  obtain t ws where t: "commit (txn B 2) = Inr ((), t)" "disk_writes t = disk_writes (txn B 2) @ ws"
    "\<And>k (u :: log_st). booted u (apply_writes (take k ws) (disk (txn B 2))) \<Longrightarrow>
       wp (initlog ROOTDEV (log_start (txn B 2))) (\<lambda>_ r. \<forall>x. \<not> in_log (log_start (txn B 2)) x \<longrightarrow>
         disk r x = (if k \<le> 2 then disk (txn B 2) x else view (txn B 2) x)) u"
    using commit_crash_atomic [OF r] by auto
  have "wp (initlog ROOTDEV (log_start (txn B 2))) (\<lambda>_ r. disk r 100 = (if k \<le> 2 then (\<lambda>_. 0) else (\<lambda>_. 7))) u"
    if "booted u (apply_writes (take k ws) (disk (txn B 2)))" for k and u :: log_st
    by (rule wp_mono [OF t(3) [OF that]]) (use out d0 v0 in simp)
  with t(1,2) v0 d0 show ?thesis by blast
qed

theorem recovery_crash_idempotent_witness:
  "\<exists>(s :: log_st) t ws. initlog ROOTDEV 2 s = Inr ((), t) \<and> disk_writes t = disk_writes s @ ws \<and>
    (\<forall>k (u :: log_st). booted u (apply_writes (take k ws) ((\<lambda>_ _. 0)(2 := head_block 1 (\<lambda>_. 100) (\<lambda>_. 0), 3 := (\<lambda>_. 9)))) \<longrightarrow>
       wp (initlog ROOTDEV 2) (\<lambda>_ r. \<forall>x. \<not> in_log 2 x \<longrightarrow> disk r x = disk t x) u)"
proof -
  let ?d = "(\<lambda>_ _. 0)(2 := head_block 1 (\<lambda>_. 100) (\<lambda>_. 0), 3 := (\<lambda>_. 9)) :: uint \<Rightarrow> block"
  obtain B xs where B: "lru B xs" using lru_exists by blast
  have h: "get32 (?d 2) 0 = 1" "hdr_blk ?d 2 0 = 100"
    using head_block_n [of 1 "\<lambda>_. 100" "\<lambda>_. 0"] head_block_entry [of 1 0 "\<lambda>_. 100" "\<lambda>_. 0"]
    by (simp_all add: hdr_blk_def)
  have "\<not> in_log 2 100" by (simp add: in_log_def)
  then have "hdr_wf ?d 2 1" using h by (auto simp: hdr_wf_def inj_on_def)
  from recovery_crash_idempotent [OF booted_txn [OF B] this] show ?thesis by blast
qed

theorem begin_op_reserves_space_witness:
  "\<exists>(s :: log_st) t u. begin_op s = Inr ((), t) \<and> log_write 0 t = Inr ((), u)"
proof -
  obtain B :: "nat \<Rightarrow> buf" where "True" by blast
  define s where "s = (txn B 0)\<lparr>log_committing := False\<rparr>"
  let ?t = "s\<lparr>log_outstanding := 1\<rparr>"
  have b: "begin_op s = Inr ((), ?t)" by (simp add: begin_op_def run_simps s_def txn_def)
  then have st: "op_step\<^sup>*\<^sup>* (s, []) (?t, [0])" by (intro r_into_rtranclp op_begin)
  have "\<exists>u. log_write 0 ?t = Inr ((), u)"
    by (rule begin_op_reserves_space [OF st, where i = 0]) (simp_all add: s_def txn_def)
  with b show ?thesis by blast
qed

theorem log_write_records_once_witness:
  "\<exists>s :: log_st. wp (bnd (bread ROOTDEV 46) log_write) (\<lambda>_ t. refs t 46 = 2) s"
proof -
  obtain B xs where B: "lru B xs" using lru_exists by blast
  define s where "s = (txn B 0)\<lparr>disk := (\<lambda>_ _. 0), log_outstanding := 1\<rparr>"
  have "s = (txn B 0)\<lparr>disk := (\<lambda>_ _. 0)\<rparr>\<lparr>log_outstanding := 1\<rparr>" by (simp add: s_def)
  moreover have "booted ((txn B 0)\<lparr>disk := (\<lambda>_ _. 0)\<rparr>) (\<lambda>_ _. 0)" by (rule booted_txn [OF B])
  moreover have "refs (x\<lparr>log_outstanding := 1\<rparr>) = refs x" "held (x\<lparr>log_outstanding := 1\<rparr>) = held x"
    "bcache_ok (x\<lparr>log_outstanding := 1\<rparr>) = bcache_ok x" for x :: log_st by (rule bio_cong; simp)+
  ultimately have s: "bcache_ok s" "refs s = (\<lambda>_. 0)" "held s = (\<lambda>_. None)" by (simp_all add: booted_def quiet_def)
  obtain b t where t: "bread ROOTDEV 46 s = Inr (b, t)" "bcache_ok t" "bio_only s t" "handle t 46 b"
    "refs t = (refs s)(46 := Suc (refs s 46))"
    using bread_ok [OF s(1), of 46] s(2,3) by auto
  have "lh_wf s 0" by (simp add: lh_wf_def s_def txn_def)
  then have "lh_wf t 0" using bio_only_log [OF t(3)] by (simp add: lh_wf_def)
  moreover have "\<not> in_log (log_start t) 46" "1 \<le> log_outstanding t"
    using bio_only_log [OF t(3)] by (simp_all add: in_log_def s_def txn_def)
  ultimately have "wp (log_write b) (\<lambda>_ u. refs u 46 = 2) t"
    by (intro wp_mono [OF log_write_records_once [OF t(2,4)]]) (use t(5) s(2) in auto)
  then have "wp (bnd (bread ROOTDEV 46) log_write) (\<lambda>_ t. refs t 46 = 2) s"
    using t(1) by (simp add: wp_def bnd_def)
  then show ?thesis by blast
qed

text \<open>
  C35. A transaction that fills all \<^verbatim>\<open>LOGBLOCKS\<close> slots of the log, which \<^verbatim>\<open>log_write\<close> accepts,
  pins all \<^verbatim>\<open>NBUF\<close> buffers of the cache, so the first \<^verbatim>\<open>bread\<close> of a log block in \<^verbatim>\<open>commit\<close> panics.
\<close>

theorem commit_full_log_panics:
  fixes s :: "'z log_st_scheme"
  assumes "ready s LOGBLOCKS"
  shows "commit s = Inl (Panic ''bget: no buffers'')"
proof -
  let ?bs = "lh_block s ` {..<LOGBLOCKS}"
  have r: "quiet s" "lh_wf s LOGBLOCKS" "refs s = (\<lambda>x. if x \<in> ?bs then 1 else 0)"
    using assms by (simp_all add: ready_def)
  obtain xs where inv: "binv s xs" using r(1) by (auto simp: quiet_def bcache_ok_def)
  have nz: "\<forall>i<NBUF. b_refcnt (bufs s i) \<noteq> 0"
  proof (rule ccontr)
    assume "\<not> (\<forall>i<NBUF. b_refcnt (bufs s i) \<noteq> 0)"
    then obtain j where j: "j < NBUF" "b_refcnt (bufs s j) = 0" by auto
    have sl: "slot s x = Some (the (slot s x))" if "x \<in> ?bs" for x
    proof (cases "slot s x")
      case None
      then have "refs s x = 0" by (simp add: refs_def)
      with that r(3) show ?thesis by simp
    qed simp
    have lt: "the (slot s x) \<in> {..<NBUF} - {j}" if "x \<in> ?bs" for x
    proof -
      have "refs s x = 1" using that r(3) by simp
      then have "the (slot s x) \<noteq> j" using sl [OF that] j by (auto simp: refs_def split: option.splits)
      then show ?thesis using slot_cached [OF inv, THEN iffD1, OF sl [OF that]] by simp
    qed
    have "inj_on (\<lambda>x. the (slot s x)) ?bs"
    proof (rule inj_onI)
      fix x y assume x: "x \<in> ?bs" and y: "y \<in> ?bs" and eq: "the (slot s x) = the (slot s y)"
      then show "x = y"
        using slot_cached [OF inv, THEN iffD1, OF sl [OF x]] slot_cached [OF inv, THEN iffD1, OF sl [OF y]]
        by (simp add: caches_def)
    qed
    then have "card ?bs \<le> card ({..<NBUF} - {j})"
      using lt by (intro card_inj_on_le) auto
    moreover have "card ?bs = LOGBLOCKS" using r(2) by (simp add: lh_wf_def card_image)
    ultimately show False using j(1) by simp
  qed
  have h: "unat (log_start s) + LOGBLOCKS < 2 ^ 32" "log_dev s = ROOTDEV" "lh_n s = int LOGBLOCKS"
    "\<forall>i<LOGBLOCKS. \<not> in_log (log_start s) (lh_block s i)"
    using r(2) by (simp_all add: lh_wf_def)
  let ?a = "log_slot (log_start s) 0"
  have "in_log (log_start s) ?a" using log_slot_in_log [OF h(1), of 0] by simp
  then have "refs s ?a = 0" using r(3) h(4) by auto
  then have "slot s ?a = None"
    using nz slot_cached [OF inv, of ?a] by (auto simp: refs_def unat_eq_zero split: option.splits)
  then have "bread ROOTDEV ?a s = Inl (Panic ''bget: no buffers'')" by (rule bread_full [OF inv _ nz])
  moreover have "[0..<LOGBLOCKS] = 0 # [1..<LOGBLOCKS]" by (simp add: upt_rec)
  ultimately show ?thesis using h
    by (simp add: commit_def write_log_def write_log_one_def run_simps del: upt_Suc)
qed

theorem commit_full_log_panics_witness:
  "\<exists>s :: log_st. lh_n s = int LOGBLOCKS \<and> commit s = Inl (Panic ''bget: no buffers'')"
proof -
  obtain B xs where "lru B xs" using lru_exists by blast
  then have "ready (txn B LOGBLOCKS) LOGBLOCKS" by (rule txn_ready(1)) simp
  then have "commit (txn B LOGBLOCKS) = Inl (Panic ''bget: no buffers'')" by (rule commit_full_log_panics)
  then show ?thesis by (intro exI [of _ "txn B LOGBLOCKS"]) (simp add: txn_def)
qed

end
