(* ===== verification/Spinlock.thy ===== *)
theory Spinlock
  imports Xv6_Prelude
begin

text \<open>
  \<^verbatim>\<open>kernel/spinlock.c\<close> with \<^verbatim>\<open>cpuid\<close>, \<^verbatim>\<open>mycpu\<close> and \<^verbatim>\<open>myproc\<close> of \<^verbatim>\<open>kernel/proc.c\<close>. Harts are
  numbered; \<open>sie\<close> is the interrupt-enable bit of each hart's \<^verbatim>\<open>sstatus\<close>. Locks are numbered by
  their addresses. Every routine takes the hart that runs it, which is what \<^verbatim>\<open>r_tp\<close> reads.
  \<^verbatim>\<open>acquire\<close> and \<^verbatim>\<open>release\<close> are also cut at their atomic memory accesses, and the step relation
  interleaves these pieces over all harts. A hart that spins is \<open>Blocked\<close>.
\<close>

section \<open>State and operations\<close>

record spinlock =
  lk_locked :: bool
  lk_name :: string
  lk_cpu :: "nat option"

record cpu =
  c_proc :: "nat option"
  c_noff :: int
  c_intena :: bool

record smp_st =
  cpus :: "nat \<Rightarrow> cpu"
  sie :: "nat \<Rightarrow> bool"
  locks :: "nat \<Rightarrow> spinlock"

definition initlock :: "nat \<Rightarrow> string \<Rightarrow> ('z smp_st_scheme, unit) km" where
  "initlock lk name = modify (\<lambda>s. s\<lparr>locks := (locks s)(lk :=
     (locks s lk)\<lparr>lk_name := name, lk_locked := False, lk_cpu := None\<rparr>)\<rparr>)"

definition intr_get :: "nat \<Rightarrow> ('z smp_st_scheme, bool) km" where
  "intr_get c = bnd get (\<lambda>s. ret (sie s c))"

definition intr_off :: "nat \<Rightarrow> ('z smp_st_scheme, unit) km" where
  "intr_off c = modify (\<lambda>s. s\<lparr>sie := (sie s)(c := False)\<rparr>)"

definition intr_on :: "nat \<Rightarrow> ('z smp_st_scheme, unit) km" where
  "intr_on c = modify (\<lambda>s. s\<lparr>sie := (sie s)(c := True)\<rparr>)"

definition upd_cpu :: "nat \<Rightarrow> (cpu \<Rightarrow> cpu) \<Rightarrow> ('z smp_st_scheme, unit) km" where
  "upd_cpu c f = modify (\<lambda>s. s\<lparr>cpus := (cpus s)(c := f (cpus s c))\<rparr>)"

definition push_off :: "nat \<Rightarrow> ('z smp_st_scheme, unit) km" where
  "push_off c =
     bnd (intr_get c) (\<lambda>old.
     bnd (intr_off c) (\<lambda>_.
     bnd get (\<lambda>s.
     bnd (if c_noff (cpus s c) = 0 then upd_cpu c (\<lambda>x. x\<lparr>c_intena := old\<rparr>) else skip) (\<lambda>_.
     upd_cpu c (\<lambda>x. x\<lparr>c_noff := c_noff x + 1\<rparr>)))))"

definition pop_off :: "nat \<Rightarrow> ('z smp_st_scheme, unit) km" where
  "pop_off c =
     bnd (intr_get c) (\<lambda>on.
       if on then panic ''pop_off - interruptible''
       else bnd get (\<lambda>s.
         if c_noff (cpus s c) < 1 then panic ''pop_off''
         else bnd (upd_cpu c (\<lambda>x. x\<lparr>c_noff := c_noff x - 1\<rparr>)) (\<lambda>_.
              bnd get (\<lambda>s.
                if c_noff (cpus s c) = 0 \<and> c_intena (cpus s c) then intr_on c else skip))))"

definition holding :: "nat \<Rightarrow> nat \<Rightarrow> ('z smp_st_scheme, bool) km" where
  "holding c lk = bnd get (\<lambda>s. ret (lk_locked (locks s lk) \<and> lk_cpu (locks s lk) = Some c))"

text \<open>\<^verbatim>\<open>acquire\<close> up to the spin loop, the atomic swap of the loop, and the rest.\<close>

definition acquire_enter :: "nat \<Rightarrow> nat \<Rightarrow> ('z smp_st_scheme, unit) km" where
  "acquire_enter c lk =
     bnd (push_off c) (\<lambda>_. bnd (holding c lk) (\<lambda>h. if h then panic ''acquire'' else skip))"

definition test_and_set :: "nat \<Rightarrow> ('z smp_st_scheme, bool) km" where
  "test_and_set lk = bnd get (\<lambda>s.
     bnd (modify (\<lambda>s. s\<lparr>locks := (locks s)(lk := (locks s lk)\<lparr>lk_locked := True\<rparr>)\<rparr>)) (\<lambda>_.
     ret (lk_locked (locks s lk))))"

definition acquire_record :: "nat \<Rightarrow> nat \<Rightarrow> ('z smp_st_scheme, unit) km" where
  "acquire_record c lk =
     modify (\<lambda>s. s\<lparr>locks := (locks s)(lk := (locks s lk)\<lparr>lk_cpu := Some c\<rparr>)\<rparr>)"

definition acquire :: "nat \<Rightarrow> nat \<Rightarrow> ('z smp_st_scheme, unit) km" where
  "acquire c lk =
     bnd (acquire_enter c lk) (\<lambda>_.
     bnd (test_and_set lk) (\<lambda>old.
       if old then stop_with Blocked else acquire_record c lk))"

text \<open>\<^verbatim>\<open>release\<close> up to clearing \<^verbatim>\<open>lk->cpu\<close>, and the store that frees the lock.\<close>

definition release_enter :: "nat \<Rightarrow> nat \<Rightarrow> ('z smp_st_scheme, unit) km" where
  "release_enter c lk =
     bnd (holding c lk) (\<lambda>h.
       if \<not> h then panic ''release''
       else modify (\<lambda>s. s\<lparr>locks := (locks s)(lk := (locks s lk)\<lparr>lk_cpu := None\<rparr>)\<rparr>))"

definition lock_release :: "nat \<Rightarrow> ('z smp_st_scheme, unit) km" where
  "lock_release lk =
     modify (\<lambda>s. s\<lparr>locks := (locks s)(lk := (locks s lk)\<lparr>lk_locked := False\<rparr>)\<rparr>)"

definition release :: "nat \<Rightarrow> nat \<Rightarrow> ('z smp_st_scheme, unit) km" where
  "release c lk =
     bnd (release_enter c lk) (\<lambda>_. bnd (lock_release lk) (\<lambda>_. pop_off c))"

definition myproc :: "nat \<Rightarrow> ('z smp_st_scheme, nat option) km" where
  "myproc c =
     bnd (push_off c) (\<lambda>_.
     bnd get (\<lambda>s.
     bnd (pop_off c) (\<lambda>_. ret (c_proc (cpus s c)))))"

lemmas spin_defs = intr_get_def intr_off_def intr_on_def upd_cpu_def holding_def
  acquire_enter_def test_and_set_def acquire_record_def release_enter_def lock_release_def

section \<open>Interrupts: nesting of \<^verbatim>\<open>push_off\<close> and \<^verbatim>\<open>pop_off\<close>\<close>

text \<open>Interrupts are off exactly while a hart is nested, or it left them off itself.\<close>

definition intr_wf :: "'z smp_st_scheme \<Rightarrow> nat \<Rightarrow> bool" where
  "intr_wf s c \<longleftrightarrow> c_noff (cpus s c) \<ge> 0 \<and> (c_noff (cpus s c) > 0 \<longrightarrow> \<not> sie s c)"

text \<open>What the hart goes back to once its nesting is undone.\<close>

definition intr_base :: "'z smp_st_scheme \<Rightarrow> nat \<Rightarrow> bool" where
  "intr_base s c = (if c_noff (cpus s c) = 0 then sie s c else c_intena (cpus s c))"

lemma push_off_run:
  assumes "intr_wf s c"
  shows "\<exists>t. push_off c s = Inr ((), t) \<and> intr_wf t c \<and> c_noff (cpus t c) = c_noff (cpus s c) + 1 \<and>
    intr_base t c = intr_base s c \<and> c_proc (cpus t c) = c_proc (cpus s c) \<and> locks t = locks s \<and>
    (\<forall>d. d \<noteq> c \<longrightarrow> cpus t d = cpus s d \<and> sie t d = sie s d)"
  using assms
  by (simp add: push_off_def spin_defs run_simps intr_wf_def intr_base_def)

lemma pop_off_run:
  assumes "intr_wf s c" "c_noff (cpus s c) > 0"
  shows "\<exists>t. pop_off c s = Inr ((), t) \<and> intr_wf t c \<and> c_noff (cpus t c) = c_noff (cpus s c) - 1 \<and>
    intr_base t c = intr_base s c \<and> c_proc (cpus t c) = c_proc (cpus s c) \<and> locks t = locks s \<and>
    (\<forall>d. d \<noteq> c \<longrightarrow> cpus t d = cpus s d \<and> sie t d = sie s d)"
  using assms
  by (simp add: pop_off_def spin_defs run_simps intr_wf_def intr_base_def)

text \<open>The depth after a sequence of calls (\<open>True\<close> for \<^verbatim>\<open>push_off\<close>), or none when one is unmatched.\<close>

fun nest :: "nat \<Rightarrow> bool list \<Rightarrow> nat option" where
  "nest d [] = Some d"
| "nest d (True # ops) = nest (Suc d) ops"
| "nest 0 (False # ops) = None"
| "nest (Suc d) (False # ops) = nest d ops"

lemma nest_run:
  assumes "intr_wf s c" "c_noff (cpus s c) = int d" "nest d ops = Some e"
  shows "wp (for_each ops (\<lambda>b. if b then push_off c else pop_off c))
    (\<lambda>_ t. intr_wf t c \<and> c_noff (cpus t c) = int e \<and> intr_base t c = intr_base s c \<and> locks t = locks s) s"
  using assms
proof (induction d ops arbitrary: s rule: nest.induct)
  case (1 d)
  then show ?case by (simp add: wp_simps)
next
  case (2 d ops)
  obtain t where t: "push_off c s = Inr ((), t)" "intr_wf t c" "c_noff (cpus t c) = int (Suc d)"
    "intr_base t c = intr_base s c" "locks t = locks s"
    using push_off_run [OF 2(2)] 2(3) by auto
  have "wp (for_each ops (\<lambda>b. if b then push_off c else pop_off c))
    (\<lambda>_ u. intr_wf u c \<and> c_noff (cpus u c) = int e \<and> intr_base u c = intr_base t c \<and> locks u = locks t) t"
    by (rule 2(1) [OF t(2,3)]) (use 2(4) in simp)
  with t show ?case by (simp add: wp_simps wp_run)
next
  case (3 ops)
  then show ?case by simp
next
  case (4 d ops)
  obtain t where t: "pop_off c s = Inr ((), t)" "intr_wf t c" "c_noff (cpus t c) = int d"
    "intr_base t c = intr_base s c" "locks t = locks s"
    using pop_off_run [OF 4(2)] 4(3) by auto
  have "wp (for_each ops (\<lambda>b. if b then push_off c else pop_off c))
    (\<lambda>_ u. intr_wf u c \<and> c_noff (cpus u c) = int e \<and> intr_base u c = intr_base t c \<and> locks u = locks t) t"
    by (rule 4(1) [OF t(2,3)]) (use 4(4) in simp)
  with t show ?case by (simp add: wp_simps wp_run)
qed

text \<open>
  C37. Any sequence of \<^verbatim>\<open>push_off\<close> and \<^verbatim>\<open>pop_off\<close> calls on a hart in which no \<^verbatim>\<open>pop_off\<close> is
  unmatched runs without panic; while some \<^verbatim>\<open>push_off\<close> is not undone interrupts are off, and once
  all are undone interrupts are as they were before the sequence.
\<close>

theorem push_off_pop_off_nest:
  assumes "intr_wf s c" "c_noff (cpus s c) = 0" "nest 0 ops = Some d"
  shows "wp (for_each ops (\<lambda>b. if b then push_off c else pop_off c))
    (\<lambda>_ t. c_noff (cpus t c) = int d \<and> sie t c = (d = 0 \<and> sie s c)) s"
  by (rule wp_mono [OF nest_run [OF assms(1) _ assms(3)]])
    (use assms(2) in \<open>auto simp: intr_base_def intr_wf_def\<close>)

definition smp_boot :: smp_st where
  "smp_boot = \<lparr>cpus = \<lambda>_. \<lparr>c_proc = None, c_noff = 0, c_intena = False\<rparr>, sie = \<lambda>_. True,
     locks = \<lambda>_. \<lparr>lk_locked = False, lk_name = [], lk_cpu = None\<rparr>\<rparr>"

theorem push_off_pop_off_nest_witness:
  "wp (for_each [True, True, False, False] (\<lambda>b. if b then push_off 0 else pop_off 0)) (\<lambda>_ t. sie t 0) smp_boot"
  by (rule wp_mono [OF push_off_pop_off_nest [of smp_boot 0 _ 0]])
    (simp_all add: smp_boot_def intr_wf_def)

section \<open>Mutual exclusion\<close>

text \<open>
  Where a hart is: running, spinning for a lock, between winning the swap and recording
  itself, between clearing \<^verbatim>\<open>lk->cpu\<close> and freeing the lock, or before the \<^verbatim>\<open>pop_off\<close> of \<^verbatim>\<open>release\<close>.
  The third component of a configuration is the list of locks each hart has acquired.
\<close>

datatype phase = Run | Spin nat | Won nat | Unlocking nat | Popping nat

inductive smp_step ::
  "'z smp_st_scheme \<times> (nat \<Rightarrow> phase) \<times> (nat \<Rightarrow> nat list) \<Rightarrow>
   'z smp_st_scheme \<times> (nat \<Rightarrow> phase) \<times> (nat \<Rightarrow> nat list) \<Rightarrow> bool" where
  step_enter: "ph c = Run \<Longrightarrow> acquire_enter c l s = Inr ((), t) \<Longrightarrow>
    smp_step (s, ph, held) (t, ph(c := Spin l), held)"
| step_spin: "ph c = Spin l \<Longrightarrow> test_and_set l s = Inr (True, t) \<Longrightarrow>
    smp_step (s, ph, held) (t, ph, held)"
| step_win: "ph c = Spin l \<Longrightarrow> test_and_set l s = Inr (False, t) \<Longrightarrow>
    smp_step (s, ph, held) (t, ph(c := Won l), held)"
| step_record: "ph c = Won l \<Longrightarrow> acquire_record c l s = Inr ((), t) \<Longrightarrow>
    smp_step (s, ph, held) (t, ph(c := Run), held(c := l # held c))"
| step_release: "ph c = Run \<Longrightarrow> release_enter c l s = Inr ((), t) \<Longrightarrow>
    smp_step (s, ph, held) (t, ph(c := Unlocking l), held(c := remove1 l (held c)))"
| step_unlock: "ph c = Unlocking l \<Longrightarrow> lock_release l s = Inr ((), t) \<Longrightarrow>
    smp_step (s, ph, held) (t, ph(c := Popping l), held)"
| step_pop: "ph c = Popping l \<Longrightarrow> pop_off c s = Inr ((), t) \<Longrightarrow>
    smp_step (s, ph, held) (t, ph(c := Run), held)"
| step_intr: "ph c = Run \<Longrightarrow> held c = [] \<Longrightarrow> (if on then intr_on c else intr_off c) s = Inr ((), t) \<Longrightarrow>
    smp_step (s, ph, held) (t, ph, held)"

definition owns :: "(nat \<Rightarrow> phase) \<Rightarrow> (nat \<Rightarrow> nat list) \<Rightarrow> nat \<Rightarrow> nat \<Rightarrow> bool" where
  "owns ph held c l \<longleftrightarrow> l \<in> set (held c) \<or> ph c = Won l \<or> ph c = Unlocking l"

definition owner_inv :: "'z smp_st_scheme \<times> (nat \<Rightarrow> phase) \<times> (nat \<Rightarrow> nat list) \<Rightarrow> bool" where
  "owner_inv p = (case p of (s, ph, held) \<Rightarrow>
     (\<forall>l. lk_locked (locks s l) \<longleftrightarrow> (\<exists>c. owns ph held c l)) \<and>
     (\<forall>c d l. owns ph held c l \<longrightarrow> owns ph held d l \<longrightarrow> c = d) \<and>
     (\<forall>c. distinct (held c)) \<and>
     (\<forall>c l. ph c = Won l \<or> ph c = Unlocking l \<longrightarrow> l \<notin> set (held c)) \<and>
     (\<forall>c l. lk_cpu (locks s l) = Some c \<longleftrightarrow> l \<in> set (held c)))"

definition nest_inv :: "'z smp_st_scheme \<times> (nat \<Rightarrow> phase) \<times> (nat \<Rightarrow> nat list) \<Rightarrow> bool" where
  "nest_inv p = (case p of (s, ph, held) \<Rightarrow>
     \<forall>c. intr_wf s c \<and> c_noff (cpus s c) = int (length (held c)) + (if ph c = Run then 0 else 1))"

lemma smp_step_locks:
  "acquire_enter c l s = Inr ((), t) \<Longrightarrow> locks t = locks s"
  "pop_off c s = Inr ((), t) \<Longrightarrow> locks t = locks s"
  by (auto simp: push_off_def pop_off_def spin_defs bnd_def get_def modify_def ret_def
        skip_def stop_with_def split: if_splits)

lemma owns_steps:
  "ph c = Run \<Longrightarrow> owns (ph(c := Spin l)) held = owns ph held"
  "ph c = Spin l \<Longrightarrow> owns (ph(c := Won l)) held d k \<longleftrightarrow> owns ph held d k \<or> d = c \<and> k = l"
  "ph c = Won l \<Longrightarrow> owns (ph(c := Run)) (held(c := l # held c)) = owns ph held"
  "ph c = Run \<Longrightarrow> l \<in> set (held c) \<Longrightarrow> distinct (held c) \<Longrightarrow>
     owns (ph(c := Unlocking l)) (held(c := remove1 l (held c))) = owns ph held"
  "ph c = Unlocking l \<Longrightarrow> l \<notin> set (held c) \<Longrightarrow>
     owns (ph(c := Popping l)) held d k \<longleftrightarrow> owns ph held d k \<and> \<not> (d = c \<and> k = l)"
  "ph c = Popping l \<Longrightarrow> owns (ph(c := Run)) held = owns ph held"
  by (auto simp: owns_def fun_eq_iff)

lemma owner_invD:
  assumes "owner_inv (s, ph, held)"
  shows "lk_locked (locks s l) \<longleftrightarrow> (\<exists>c. owns ph held c l)"
    and "owns ph held c l \<Longrightarrow> owns ph held d l \<Longrightarrow> c = d"
    and "distinct (held c)" and "ph c = Won l \<Longrightarrow> l \<notin> set (held c)"
    and "ph c = Unlocking l \<Longrightarrow> l \<notin> set (held c)"
    and "lk_cpu (locks s l) = Some c \<longleftrightarrow> l \<in> set (held c)"
  using assms by (auto simp: owner_inv_def)

lemma owner_invI:
  assumes "\<And>l. lk_locked (locks s l) \<longleftrightarrow> (\<exists>c. owns ph held c l)"
    and "\<And>c d l. owns ph held c l \<Longrightarrow> owns ph held d l \<Longrightarrow> c = d"
    and "\<And>c. distinct (held c)"
    and "\<And>c l. ph c = Won l \<or> ph c = Unlocking l \<Longrightarrow> l \<notin> set (held c)"
    and "\<And>c l. lk_cpu (locks s l) = Some c \<longleftrightarrow> l \<in> set (held c)"
  shows "owner_inv (s, ph, held)"
  unfolding owner_inv_def prod.case using assms by blast

lemma owner_inv_step: "smp_step p q \<Longrightarrow> owner_inv p \<Longrightarrow> owner_inv q"
proof (induction rule: smp_step.induct)
  case (step_enter ph c l s t held)
  note D = owner_invD [OF step_enter(3)] and S = smp_step_locks(1) [OF step_enter(2)] owns_steps(1) [where ph = ph and c = c and held = held, OF step_enter(1)]
  show ?case by (rule owner_invI) (use D S in \<open>auto split: if_splits\<close>)
next
  case (step_spin ph c l s t held)
  then have "locks t = locks s" by (auto simp: test_and_set_def run_simps fun_eq_iff)
  with step_spin(3) show ?case by (simp add: owner_inv_def)
next
  case (step_win ph c l s t held)
  then have t: "t = s\<lparr>locks := (locks s)(l := (locks s l)\<lparr>lk_locked := True\<rparr>)\<rparr>" "\<not> lk_locked (locks s l)"
    by (auto simp: test_and_set_def run_simps)
  note D = owner_invD [OF step_win(3)] and S = owns_steps(2) [where ph = ph and c = c and held = held, OF step_win(1)]
  have no: "\<not> owns ph held d l" for d using D(1) t(2) by blast
  have out: "l \<notin> set (held c)" using no [of c] by (simp add: owns_def)
  show ?case
  proof (rule owner_invI)
    show "lk_locked (locks t k) \<longleftrightarrow> (\<exists>d. owns (ph(c := Won l)) held d k)" for k
      by (cases "k = l") (use D(1) in \<open>auto simp: t(1) S\<close>)
    show "owns (ph(c := Won l)) held a k \<Longrightarrow> owns (ph(c := Won l)) held b k \<Longrightarrow> a = b" for a b k
      unfolding S using D(2) no by blast
    show "distinct (held d)" for d by (rule D(3))
    show "(ph(c := Won l)) d = Won k \<or> (ph(c := Won l)) d = Unlocking k \<Longrightarrow> k \<notin> set (held d)" for d k
      using D(4,5) out by (auto split: if_splits)
    show "lk_cpu (locks t k) = Some d \<longleftrightarrow> k \<in> set (held d)" for d k
      using D(6) by (simp add: t(1))
  qed
next
  case (step_record ph c l s t held)
  then have t: "t = s\<lparr>locks := (locks s)(l := (locks s l)\<lparr>lk_cpu := Some c\<rparr>)\<rparr>"
    by (auto simp: acquire_record_def run_simps)
  note D = owner_invD [OF step_record(3)] and S = owns_steps(3) [where ph = ph and c = c and held = held, OF step_record(1)]
  have me: "d = c" if "l \<in> set (held d)" for d
    by (rule D(2) [of d l]) (use that step_record(1) in \<open>simp_all add: owns_def\<close>)
  show ?case by (rule owner_invI)
    (use D D(4) [OF step_record(1)] me in \<open>auto simp: S t split: if_splits\<close>)
next
  case (step_release ph c l s t held)
  then have t: "t = s\<lparr>locks := (locks s)(l := (locks s l)\<lparr>lk_cpu := None\<rparr>)\<rparr>" "lk_cpu (locks s l) = Some c"
    by (auto simp: release_enter_def holding_def run_simps split: if_splits)
  note D = owner_invD [OF step_release(3)]
  have mem: "l \<in> set (held c)" using D(6) t(2) by blast
  note S = owns_steps(4) [where ph = ph and c = c and held = held, OF step_release(1) mem D(3) [of c]]
  have me: "d = c" if "l \<in> set (held d)" for d
    by (rule D(2) [of d l]) (use that mem in \<open>simp_all add: owns_def\<close>)
  show ?case by (rule owner_invI) (use D me in \<open>auto simp: S t(1) split: if_splits\<close>)
next
  case (step_unlock ph c l s t held)
  then have t: "t = s\<lparr>locks := (locks s)(l := (locks s l)\<lparr>lk_locked := False\<rparr>)\<rparr>"
    by (auto simp: lock_release_def run_simps)
  note D = owner_invD [OF step_unlock(3)]
  note S = owns_steps(5) [where ph = ph and c = c and held = held, OF step_unlock(1) D(5) [OF step_unlock(1)]]
  have me: "d = c" if "owns ph held d l" for d
    by (rule D(2) [OF that]) (simp add: owns_def step_unlock(1))
  show ?case by (rule owner_invI) (use D me in \<open>auto simp: S t split: if_splits\<close>)
next
  case (step_pop ph c l s t held)
  note D = owner_invD [OF step_pop(3)] and S = smp_step_locks(2) [OF step_pop(2)] owns_steps(6) [where ph = ph and c = c and held = held, OF step_pop(1)]
  show ?case by (rule owner_invI) (use D S in \<open>auto split: if_splits\<close>)
next
  case (step_intr ph c held on s t)
  then have "locks t = locks s" by (auto simp: spin_defs run_simps split: if_splits)
  with step_intr(4) show ?case by (simp add: owner_inv_def)
qed

lemma nest_inv_step: "smp_step p q \<Longrightarrow> owner_inv p \<Longrightarrow> nest_inv p \<Longrightarrow> nest_inv q"
proof (induction rule: smp_step.induct)
  case (step_enter ph c l s t held)
  have wf: "intr_wf s c" using step_enter(4) by (simp add: nest_inv_def)
  obtain u where "push_off c s = Inr ((), u)" "intr_wf u c" "c_noff (cpus u c) = c_noff (cpus s c) + 1"
    "\<forall>d. d \<noteq> c \<longrightarrow> cpus u d = cpus s d \<and> sie u d = sie s d"
    using push_off_run [OF wf] by blast
  moreover from this(1) step_enter(2) have "t = u"
    by (auto simp: acquire_enter_def holding_def run_simps bnd_run split: if_splits)
  ultimately show ?case using step_enter(1,4) by (auto simp: nest_inv_def intr_wf_def)
next
  case (step_release ph c l s t held)
  then have "t = s\<lparr>locks := (locks s)(l := (locks s l)\<lparr>lk_cpu := None\<rparr>)\<rparr>" "lk_cpu (locks s l) = Some c"
    by (auto simp: release_enter_def holding_def run_simps split: if_splits)
  moreover from this(2) have "l \<in> set (held c)" using owner_invD(6) [OF step_release(3)] by blast
  ultimately show ?case using step_release(1,4)
    by (auto simp: nest_inv_def intr_wf_def length_remove1) (metis length_pos_if_in_set of_nat_diff Suc_le_eq One_nat_def of_nat_1 diff_add_cancel)
next
  case (step_pop ph c l s t held)
  have wf: "intr_wf s c" "c_noff (cpus s c) > 0" using step_pop(1,4) by (auto simp: nest_inv_def)
  obtain u where "pop_off c s = Inr ((), u)" "intr_wf u c" "c_noff (cpus u c) = c_noff (cpus s c) - 1"
    "\<forall>d. d \<noteq> c \<longrightarrow> cpus u d = cpus s d \<and> sie u d = sie s d"
    using pop_off_run [OF wf] by blast
  with step_pop(1,2,4) show ?case by (auto simp: nest_inv_def intr_wf_def)
next
  case (step_intr ph c held on s t)
  then have "cpus t = cpus s" "\<forall>d. d \<noteq> c \<longrightarrow> sie t d = sie s d"
    by (auto simp: spin_defs run_simps split: if_splits)
  moreover have "c_noff (cpus s c) = 0" using step_intr(1,2,5) by (simp add: nest_inv_def)
  moreover have "intr_wf s d \<and> c_noff (cpus s d) = int (length (held d)) + (if ph d = Run then 0 else 1)" for d
    using step_intr(5) by (simp add: nest_inv_def)
  ultimately have "intr_wf t d \<and> c_noff (cpus t d) = int (length (held d)) + (if ph d = Run then 0 else 1)" for d
    by (cases "d = c") (simp_all add: intr_wf_def)
  then show ?case by (simp add: nest_inv_def)
qed (auto simp: nest_inv_def intr_wf_def spin_defs run_simps)

text \<open>A configuration reached from a start in which every lock is free and no hart is nested.\<close>

definition smp_start :: "'z smp_st_scheme \<Rightarrow> bool" where
  "smp_start s \<longleftrightarrow> (\<forall>l. \<not> lk_locked (locks s l) \<and> lk_cpu (locks s l) = None) \<and> (\<forall>c. c_noff (cpus s c) = 0)"

lemma smp_reach_inv:
  assumes "smp_step\<^sup>*\<^sup>* (s0, (\<lambda>_. Run), (\<lambda>_. [])) p" "smp_start s0"
  shows "owner_inv p \<and> nest_inv p"
  using assms(1)
proof (induction rule: rtranclp_induct)
  case base
  show ?case using assms(2) by (auto simp: owner_inv_def nest_inv_def smp_start_def owns_def intr_wf_def)
next
  case (step p q)
  then show ?case using owner_inv_step nest_inv_step by blast
qed

text \<open>
  C4. However the acquisitions and releases of all harts interleave, a lock is owned by at most
  one hart, and interrupts are off on a hart that owns a lock.
\<close>

theorem spinlock_mutual_exclusion:
  assumes "smp_step\<^sup>*\<^sup>* (s0, (\<lambda>_. Run), (\<lambda>_. [])) (s, ph, held)" "smp_start s0"
    and "owns ph held c l"
  shows "lk_locked (locks s l) \<and> \<not> sie s c \<and> (\<forall>d. owns ph held d l \<longrightarrow> d = c)"
proof -
  have I: "owner_inv (s, ph, held)" "nest_inv (s, ph, held)" using smp_reach_inv [OF assms(1,2)] by auto
  have "c_noff (cpus s c) > 0" using I(2) assms(3) by (auto simp: nest_inv_def owns_def)
  then have "\<not> sie s c" using I(2) by (simp add: nest_inv_def intr_wf_def)
  with owner_invD(1,2) [OF I(1)] assms(3) show ?thesis by blast
qed

text \<open>
  C18. \<^verbatim>\<open>holding\<close> tells a running hart exactly whether it has acquired the lock, although the lock
  word and the owner field are written separately. So \<^verbatim>\<open>release\<close> of a lock the hart acquired never
  panics, nor does the \<^verbatim>\<open>pop_off\<close> at its end.
\<close>

theorem holding_exact:
  assumes "smp_step\<^sup>*\<^sup>* (s0, (\<lambda>_. Run), (\<lambda>_. [])) (s, ph, held)" "smp_start s0"
  shows "holding c l s = Inr (l \<in> set (held c), s) \<and>
    (l \<in> set (held c) \<longrightarrow> (\<exists>t. release c l s = Inr ((), t))) \<and>
    (ph c = Popping l \<longrightarrow> (\<exists>t. pop_off c s = Inr ((), t)))"
proof (intro conjI impI)
  have I: "owner_inv (s, ph, held)" "nest_inv (s, ph, held)" using smp_reach_inv [OF assms(1,2)] by auto
  show h: "holding c l s = Inr (l \<in> set (held c), s)"
    using owner_invD(1,6) [OF I(1)] by (auto simp: holding_def run_simps owns_def)
  show "\<exists>t. pop_off c s = Inr ((), t)" if "ph c = Popping l"
    using pop_off_run [of s c] I(2) that by (auto simp: nest_inv_def)
  assume mem: "l \<in> set (held c)"
  let ?u = "s\<lparr>locks := (locks s)(l := (locks s l)\<lparr>lk_cpu := None, lk_locked := False\<rparr>)\<rparr>"
  have "c_noff (cpus s c) > 0" using I(2) mem by (auto simp: nest_inv_def)
  then have "intr_wf ?u c" "c_noff (cpus ?u c) > 0" using I(2) by (auto simp: nest_inv_def intr_wf_def)
  then have "\<exists>t. pop_off c ?u = Inr ((), t)" using pop_off_run by blast
  then show "\<exists>t. release c l s = Inr ((), t)"
    using h mem by (simp add: release_def release_enter_def lock_release_def run_simps)
qed

text \<open>Hart 0 acquires lock 7 from a start state.\<close>

lemma smp_acquired:
  "\<exists>s :: smp_st. smp_step\<^sup>*\<^sup>* (smp_boot, (\<lambda>_. Run), (\<lambda>_. [])) (s, (\<lambda>_. Run), (\<lambda>_. [])(0 := [7]))"
proof -
  obtain t :: smp_st where t: "push_off 0 smp_boot = Inr ((), t)" "locks t = locks smp_boot"
    using push_off_run [of smp_boot 0] by (auto simp: smp_boot_def intr_wf_def)
  let ?u = "t\<lparr>locks := (locks t)(7 := (locks t 7)\<lparr>lk_locked := True\<rparr>)\<rparr>"
  let ?v = "?u\<lparr>locks := (locks ?u)(7 := (locks ?u 7)\<lparr>lk_cpu := Some 0\<rparr>)\<rparr>"
  have e: "acquire_enter 0 7 smp_boot = Inr ((), t)"
    using t by (simp add: acquire_enter_def holding_def bnd_def get_def ret_def skip_def) (simp add: smp_boot_def)
  have w: "test_and_set 7 t = Inr (False, ?u)"
    using t(2) by (simp add: test_and_set_def run_simps smp_boot_def)
  have r: "acquire_record 0 7 ?u = Inr ((), ?v)" by (simp add: acquire_record_def run_simps)
  have "smp_step (smp_boot, (\<lambda>_. Run), (\<lambda>_. [])) (t, (\<lambda>_. Run)(0 := Spin 7), (\<lambda>_. []))"
    by (rule step_enter [OF _ e]) simp
  moreover have "smp_step (t, (\<lambda>_. Run)(0 := Spin 7), (\<lambda>_. [])) (?u, (\<lambda>_. Run)(0 := Spin 7, 0 := Won 7), (\<lambda>_. []))"
    by (rule step_win [OF _ w]) simp
  moreover have "smp_step (?u, (\<lambda>_. Run)(0 := Spin 7, 0 := Won 7), (\<lambda>_. []))
       (?v, (\<lambda>_. Run)(0 := Spin 7, 0 := Won 7, 0 := Run), (\<lambda>_. [])(0 := 7 # []))"
    by (rule step_record [where held = "\<lambda>_. []", OF _ r]) simp
  ultimately have "smp_step\<^sup>*\<^sup>* (smp_boot, (\<lambda>_. Run), (\<lambda>_. []))
       (?v, (\<lambda>_. Run)(0 := Spin 7, 0 := Won 7, 0 := Run), (\<lambda>_. [])(0 := 7 # []))"
    by (meson converse_rtranclp_into_rtranclp r_into_rtranclp)
  moreover have "(\<lambda>_. Run)(0 := Spin 7, 0 := Won 7, 0 := Run) = (\<lambda>_ :: nat. Run)" by auto
  ultimately show ?thesis by (intro exI [of _ ?v]) (simp only:)
qed

lemma smp_boot_start: "smp_start smp_boot"
  by (simp add: smp_start_def smp_boot_def)

theorem spinlock_mutual_exclusion_witness:
  "\<exists>s :: smp_st. lk_locked (locks s 7) \<and> \<not> sie s 0 \<and> \<not> owns (\<lambda>_. Run) ((\<lambda>_. [])(0 := [7])) 1 7"
proof -
  obtain s :: smp_st where s: "smp_step\<^sup>*\<^sup>* (smp_boot, (\<lambda>_. Run), (\<lambda>_. [])) (s, (\<lambda>_. Run), (\<lambda>_. [])(0 := [7]))"
    using smp_acquired by blast
  show ?thesis
    using spinlock_mutual_exclusion [OF s smp_boot_start, of 0 7] by (auto simp: owns_def)
qed

theorem holding_exact_witness:
  "\<exists>s t :: smp_st. holding 0 7 s = Inr (True, s) \<and> holding 1 7 s = Inr (False, s) \<and> release 0 7 s = Inr ((), t)"
proof -
  obtain s :: smp_st where s: "smp_step\<^sup>*\<^sup>* (smp_boot, (\<lambda>_. Run), (\<lambda>_. [])) (s, (\<lambda>_. Run), (\<lambda>_. [])(0 := [7]))"
    using smp_acquired by blast
  show ?thesis
    using holding_exact [OF s smp_boot_start, of 0 7] holding_exact [OF s smp_boot_start, of 1 7] by auto
qed

end
