(* ===== verification/Sched.thy ===== *)
theory Sched
  imports Spinlock
begin

text \<open>
  The scheduling core of \<^verbatim>\<open>kernel/proc.c\<close> with its locks: \<^verbatim>\<open>scheduler\<close>, \<^verbatim>\<open>sched\<close>, \<^verbatim>\<open>yield\<close>, \<^verbatim>\<open>sleep\<close>,
  \<^verbatim>\<open>wakeup\<close>, the end of \<^verbatim>\<open>kexit\<close> and the start of \<^verbatim>\<open>forkret\<close>. Processes are numbered by their slot,
  and the lock of slot \<open>p\<close> is lock \<open>p\<close>; other locks have numbers from \<open>NPROCS\<close> on. \<open>kont\<close> is
  \<^verbatim>\<open>p->context\<close> reduced to the place a process resumes from, with the local \<^verbatim>\<open>intena\<close> of \<^verbatim>\<open>sched\<close>.
  A \<^verbatim>\<open>swtch\<close> continues with the code on the other side.
\<close>

datatype procstate = UNUSED | USED | SLEEPING | RUNNABLE | RUNNING | ZOMBIE

datatype kont = KYield bool | KSleep nat bool | KFork | KExit

record sched_st = smp_st +
  pstate :: "nat \<Rightarrow> procstate"
  pchan :: "nat \<Rightarrow> nat"
  pcontext :: "nat \<Rightarrow> kont"

abbreviation NPROCS :: nat where "NPROCS \<equiv> 64"

definition set_state :: "nat \<Rightarrow> procstate \<Rightarrow> ('z sched_st_scheme, unit) km" where
  "set_state p x = modify (\<lambda>s. s\<lparr>pstate := (pstate s)(p := x)\<rparr>)"

definition set_chan :: "nat \<Rightarrow> nat \<Rightarrow> ('z sched_st_scheme, unit) km" where
  "set_chan p x = modify (\<lambda>s. s\<lparr>pchan := (pchan s)(p := x)\<rparr>)"

text \<open>What \<^verbatim>\<open>scheduler\<close> does when a process switches back to it.\<close>

definition scheduler_back :: "nat \<Rightarrow> nat \<Rightarrow> ('z sched_st_scheme, unit) km" where
  "scheduler_back c p = bnd (upd_cpu c (\<lambda>x. x\<lparr>c_proc := None\<rparr>)) (\<lambda>_. release c p)"

text \<open>\<^verbatim>\<open>sched\<close> up to its \<^verbatim>\<open>swtch\<close>, saving where to resume, and on to the scheduler.\<close>

definition sched :: "nat \<Rightarrow> (bool \<Rightarrow> kont) \<Rightarrow> ('z sched_st_scheme, unit) km" where
  "sched c k =
     bnd (myproc c) (\<lambda>mp.
     case mp of None \<Rightarrow> stop_with OutOfBounds | Some p \<Rightarrow>
     bnd (holding c p) (\<lambda>h.
       if \<not> h then panic ''sched p->lock''
       else bnd get (\<lambda>s.
         if c_noff (cpus s c) \<noteq> 1 then panic ''sched locks''
         else if pstate s p = RUNNING then panic ''sched RUNNING''
         else bnd (intr_get c) (\<lambda>on.
           if on then panic ''sched interruptible''
           else bnd (modify (\<lambda>s. s\<lparr>pcontext := (pcontext s)(p := k (c_intena (cpus s c)))\<rparr>)) (\<lambda>_.
                scheduler_back c p)))))"

definition yield :: "nat \<Rightarrow> ('z sched_st_scheme, unit) km" where
  "yield c =
     bnd (myproc c) (\<lambda>mp.
     case mp of None \<Rightarrow> stop_with OutOfBounds | Some p \<Rightarrow>
     bnd (acquire c p) (\<lambda>_.
     bnd (set_state p RUNNABLE) (\<lambda>_.
     sched c KYield)))"

definition sleep :: "nat \<Rightarrow> nat \<Rightarrow> nat \<Rightarrow> ('z sched_st_scheme, unit) km" where
  "sleep c chan lk =
     bnd (myproc c) (\<lambda>mp.
     case mp of None \<Rightarrow> stop_with OutOfBounds | Some p \<Rightarrow>
     bnd (acquire c p) (\<lambda>_.
     bnd (release c lk) (\<lambda>_.
     bnd (set_chan p chan) (\<lambda>_.
     bnd (set_state p SLEEPING) (\<lambda>_.
     sched c (KSleep lk))))))"

text \<open>The end of \<^verbatim>\<open>kexit\<close>; \<open>wait_lock\<close> is held when it starts.\<close>

definition exit_switch :: "nat \<Rightarrow> nat \<Rightarrow> ('z sched_st_scheme, unit) km" where
  "exit_switch c wait_lock =
     bnd (myproc c) (\<lambda>mp.
     case mp of None \<Rightarrow> stop_with OutOfBounds | Some p \<Rightarrow>
     bnd (acquire c p) (\<lambda>_.
     bnd (set_state p ZOMBIE) (\<lambda>_.
     bnd (release c wait_lock) (\<lambda>_.
     sched c (\<lambda>_. KExit)))))"

text \<open>What a process does when the scheduler switches to it, until it runs without \<^verbatim>\<open>p->lock\<close>.\<close>

definition resume :: "nat \<Rightarrow> nat \<Rightarrow> ('z sched_st_scheme, unit) km" where
  "resume c p = bnd get (\<lambda>s.
     case pcontext s p of
       KYield i \<Rightarrow> bnd (upd_cpu c (\<lambda>x. x\<lparr>c_intena := i\<rparr>)) (\<lambda>_. release c p)
     | KSleep lk i \<Rightarrow>
         bnd (upd_cpu c (\<lambda>x. x\<lparr>c_intena := i\<rparr>)) (\<lambda>_.
         bnd (set_chan p 0) (\<lambda>_.
         bnd (release c p) (\<lambda>_.
         acquire c lk)))
     | KFork \<Rightarrow> release c p
     | KExit \<Rightarrow> panic ''zombie exit'')"

text \<open>One turn of the inner loop of \<^verbatim>\<open>scheduler\<close>, up to the process running.\<close>

definition dispatch :: "nat \<Rightarrow> nat \<Rightarrow> ('z sched_st_scheme, unit) km" where
  "dispatch c p =
     bnd (acquire c p) (\<lambda>_.
     bnd get (\<lambda>s.
       if pstate s p = RUNNABLE
       then bnd (set_state p RUNNING) (\<lambda>_.
            bnd (upd_cpu c (\<lambda>x. x\<lparr>c_proc := Some p\<rparr>)) (\<lambda>_.
            resume c p))
       else release c p))"

definition wakeup_one :: "nat \<Rightarrow> nat \<Rightarrow> nat \<Rightarrow> ('z sched_st_scheme, unit) km" where
  "wakeup_one c chan p =
     bnd (myproc c) (\<lambda>me.
       if Some p \<noteq> me
       then bnd (acquire c p) (\<lambda>_.
            bnd get (\<lambda>s.
            bnd (if pstate s p = SLEEPING \<and> pchan s p = chan then set_state p RUNNABLE else skip) (\<lambda>_.
            release c p)))
       else skip)"

definition wakeup :: "nat \<Rightarrow> nat \<Rightarrow> ('z sched_st_scheme, unit) km" where
  "wakeup c chan = for_each [0..<NPROCS] (wakeup_one c chan)"

section \<open>Lock operations as state updates\<close>

text \<open>\<open>acq\<close> and \<open>rel\<close> are what \<^verbatim>\<open>acquire\<close> of a free lock and \<^verbatim>\<open>release\<close> of a held one do to the state.\<close>

definition pushed :: "nat \<Rightarrow> 'z smp_st_scheme \<Rightarrow> 'z smp_st_scheme" where
  "pushed c s = s\<lparr>sie := (sie s)(c := False), cpus := (cpus s)(c := (cpus s c)\<lparr>
     c_intena := (if c_noff (cpus s c) = 0 then sie s c else c_intena (cpus s c)),
     c_noff := c_noff (cpus s c) + 1\<rparr>)\<rparr>"

definition popped :: "nat \<Rightarrow> 'z smp_st_scheme \<Rightarrow> 'z smp_st_scheme" where
  "popped c s = s\<lparr>sie := (sie s)(c := sie s c \<or> c_noff (cpus s c) = 1 \<and> c_intena (cpus s c)),
     cpus := (cpus s)(c := (cpus s c)\<lparr>c_noff := c_noff (cpus s c) - 1\<rparr>)\<rparr>"

definition set_lock :: "nat \<Rightarrow> bool \<Rightarrow> nat option \<Rightarrow> 'z smp_st_scheme \<Rightarrow> 'z smp_st_scheme" where
  "set_lock l b h s = s\<lparr>locks := (locks s)(l := (locks s l)\<lparr>lk_locked := b, lk_cpu := h\<rparr>)\<rparr>"

abbreviation acq :: "nat \<Rightarrow> nat \<Rightarrow> 'z smp_st_scheme \<Rightarrow> 'z smp_st_scheme" where
  "acq c l s \<equiv> set_lock l True (Some c) (pushed c s)"

abbreviation rel :: "nat \<Rightarrow> nat \<Rightarrow> 'z smp_st_scheme \<Rightarrow> 'z smp_st_scheme" where
  "rel c l s \<equiv> popped c (set_lock l False None s)"

lemma push_off_eq: "push_off c s = Inr ((), pushed c s)"
  by (simp add: push_off_def spin_defs run_simps pushed_def)

lemma pop_off_eq: "\<not> sie s c \<Longrightarrow> c_noff (cpus s c) \<ge> 1 \<Longrightarrow> pop_off c s = Inr ((), popped c s)"
  by (auto simp: pop_off_def spin_defs run_simps popped_def fun_upd_idem)

lemma acquire_eq: "\<not> lk_locked (locks s l) \<Longrightarrow> acquire c l s = Inr ((), acq c l s)"
  by (simp add: acquire_def acquire_enter_def holding_def test_and_set_def acquire_record_def bnd_def
      push_off_eq get_def ret_def skip_def modify_def) (simp add: pushed_def set_lock_def)

lemma release_eq:
  assumes "lk_locked (locks s l)" "lk_cpu (locks s l) = Some c" "\<not> sie s c" "c_noff (cpus s c) \<ge> 1"
  shows "release c l s = Inr ((), rel c l s)"
proof -
  have "pop_off c (set_lock l False None s) = Inr ((), rel c l s)"
    using assms by (intro pop_off_eq) (simp_all add: set_lock_def)
  moreover have "set_lock l False None s =
      s\<lparr>locks := (locks s)(l := (locks s l)\<lparr>lk_cpu := None, lk_locked := False\<rparr>)\<rparr>"
    by (cases "locks s l") (simp add: set_lock_def)
  ultimately show ?thesis using assms
    by (simp add: release_def release_enter_def holding_def lock_release_def run_simps)
qed

lemma lock_fields [simp]:
  "locks (pushed c s) = locks s" "locks (popped c s) = locks s"
  "locks (set_lock l b h s) = (locks s)(l := (locks s l)\<lparr>lk_locked := b, lk_cpu := h\<rparr>)"
  "sie (set_lock l b h s) = sie s" "cpus (set_lock l b h s) = cpus s"
  "sie (pushed c s) = (sie s)(c := False)"
  "sie (popped c s) = (sie s)(c := sie s c \<or> c_noff (cpus s c) = 1 \<and> c_intena (cpus s c))"
  by (simp_all add: pushed_def popped_def set_lock_def)

lemma cpu_fields [simp]:
  "c_noff (cpus (pushed c s) d) = (if d = c then c_noff (cpus s c) + 1 else c_noff (cpus s d))"
  "c_noff (cpus (popped c s) d) = (if d = c then c_noff (cpus s c) - 1 else c_noff (cpus s d))"
  "c_proc (cpus (pushed c s) d) = c_proc (cpus s d)" "c_proc (cpus (popped c s) d) = c_proc (cpus s d)"
  by (simp_all add: pushed_def popped_def)

lemma sched_fields [simp]:
  fixes s :: "'z sched_st_scheme"
  shows "pstate (pushed c s) = pstate s" "pstate (popped c s) = pstate s" "pstate (set_lock l b h s) = pstate s"
    "pchan (pushed c s) = pchan s" "pchan (popped c s) = pchan s" "pchan (set_lock l b h s) = pchan s"
    "pcontext (pushed c s) = pcontext s" "pcontext (popped c s) = pcontext s" "pcontext (set_lock l b h s) = pcontext s"
  by (simp_all add: pushed_def popped_def set_lock_def)

lemma myproc_eq:
  assumes "c_noff (cpus s c) \<ge> 0"
  shows "myproc c s = Inr (c_proc (cpus s c), popped c (pushed c s))"
proof -
  have "pop_off c (pushed c s) = Inr ((), popped c (pushed c s))" using assms by (intro pop_off_eq) simp_all
  then show ?thesis by (simp add: myproc_def push_off_eq run_simps)
qed

section \<open>Invariant of the scheduler\<close>

text \<open>
  Between steps no process lock is held. A hart in the scheduler is not nested, and a hart's
  nesting is the number of locks it holds. A process is
  running exactly when some hart runs it, on one hart only, and a process that may still be
  scheduled has not exited.
\<close>

definition held_by :: "'z smp_st_scheme \<Rightarrow> nat \<Rightarrow> nat set" where
  "held_by s c = {l. lk_locked (locks s l) \<and> lk_cpu (locks s l) = Some c}"

definition sched_inv :: "'z sched_st_scheme \<Rightarrow> bool" where
  "sched_inv s \<longleftrightarrow>
     (\<forall>p<NPROCS. \<not> lk_locked (locks s p)) \<and>
     (\<forall>c. intr_wf s c \<and> (c_proc (cpus s c) = None \<longrightarrow> c_noff (cpus s c) = 0)) \<and>
     (\<forall>c. finite (held_by s c) \<and> int (card (held_by s c)) = c_noff (cpus s c)) \<and>
     (\<forall>c p. c_proc (cpus s c) = Some p \<longrightarrow> p < NPROCS \<and> pstate s p = RUNNING) \<and>
     (\<forall>p. pstate s p = RUNNING \<longrightarrow> (\<exists>c. c_proc (cpus s c) = Some p)) \<and>
     (\<forall>c d p. c_proc (cpus s c) = Some p \<longrightarrow> c_proc (cpus s d) = Some p \<longrightarrow> c = d) \<and>
     (\<forall>p. pcontext s p = KExit \<longrightarrow> pstate s p \<in> {UNUSED, USED, RUNNING, ZOMBIE}) \<and>
     (\<forall>p lk i. pcontext s p = KSleep lk i \<longrightarrow> lk \<ge> NPROCS)"

text \<open>What a call that only takes and gives back process locks leaves unchanged.\<close>

definition same_smp :: "'z sched_st_scheme \<Rightarrow> 'z sched_st_scheme \<Rightarrow> bool" where
  "same_smp s t \<longleftrightarrow> pchan t = pchan s \<and> pcontext t = pcontext s \<and>
     (\<forall>d. sie t d = sie s d \<and> c_noff (cpus t d) = c_noff (cpus s d) \<and> c_proc (cpus t d) = c_proc (cpus s d)) \<and>
     (\<forall>l. lk_locked (locks t l) = lk_locked (locks s l) \<and>
          (lk_locked (locks s l) \<longrightarrow> lk_cpu (locks t l) = lk_cpu (locks s l)))"

lemma same_smp_trans: "same_smp s t \<Longrightarrow> same_smp t u \<Longrightarrow> same_smp s u"
  by (simp add: same_smp_def)

lemma same_smp_myproc: "intr_wf s c \<Longrightarrow> same_smp s (popped c (pushed c s))"
  by (auto simp: same_smp_def intr_wf_def pushed_def popped_def)

lemma intr_wf_same: "same_smp s t \<Longrightarrow> intr_wf t d = intr_wf s d"
  by (simp add: same_smp_def intr_wf_def)

lemma wakeup_one_run:
  assumes "intr_wf s c" "\<not> lk_locked (locks s p)"
  shows "\<exists>t. wakeup_one c chan p s = Inr ((), t) \<and> same_smp s t \<and>
    pstate t = (if Some p \<noteq> c_proc (cpus s c) \<and> pstate s p = SLEEPING \<and> pchan s p = chan
                then (pstate s)(p := RUNNABLE) else pstate s)"
proof (cases "Some p = c_proc (cpus s c)")
  case True
  then show ?thesis
    using same_smp_myproc [OF assms(1)] assms(1)
    by (auto simp: wakeup_one_def myproc_eq run_simps intr_wf_def)
next
  case False
  let ?u = "popped c (pushed c s)"
  have u: "same_smp s ?u" by (rule same_smp_myproc [OF assms(1)])
  let ?v = "acq c p ?u"
  let ?w = "if pstate s p = SLEEPING \<and> pchan s p = chan then ?v\<lparr>pstate := (pstate ?v)(p := RUNNABLE)\<rparr> else ?v"
  have a: "acquire c p ?u = Inr ((), ?v)" using assms(2) by (intro acquire_eq) simp
  have r: "release c p ?w = Inr ((), rel c p ?w)"
    using assms(1) by (intro release_eq) (auto simp: intr_wf_def)
  have "same_smp ?u (rel c p ?w)"
    using assms intr_wf_same [OF u, of c] by (auto simp: same_smp_def intr_wf_def pushed_def popped_def set_lock_def)
  with u have "same_smp s (rel c p ?w)" by (rule same_smp_trans)
  moreover have "wakeup_one c chan p s = Inr ((), rel c p ?w)"
    using False assms(1) a r by (auto simp: wakeup_one_def myproc_eq intr_wf_def bnd_def get_def set_state_def modify_def skip_def)
  ultimately show ?thesis using False by auto
qed

lemma wakeup_loop:
  assumes "intr_wf s c" "\<forall>p \<in> set ps. \<not> lk_locked (locks s p)"
  shows "\<exists>t. for_each ps (wakeup_one c chan) s = Inr ((), t) \<and> same_smp s t \<and>
    pstate t = (\<lambda>p. if p \<in> set ps \<and> Some p \<noteq> c_proc (cpus s c) \<and> pstate s p = SLEEPING \<and> pchan s p = chan
                    then RUNNABLE else pstate s p)"
  using assms
proof (induction ps arbitrary: s)
  case Nil
  then show ?case by (simp add: run_simps same_smp_def)
next
  case (Cons p ps)
  obtain u where u: "wakeup_one c chan p s = Inr ((), u)" "same_smp s u"
    "pstate u = (if Some p \<noteq> c_proc (cpus s c) \<and> pstate s p = SLEEPING \<and> pchan s p = chan
                 then (pstate s)(p := RUNNABLE) else pstate s)"
    using wakeup_one_run [of s c p chan] Cons.prems by auto
  have wf: "intr_wf u c" "\<forall>p \<in> set ps. \<not> lk_locked (locks u p)"
    using Cons.prems intr_wf_same [OF u(2)] u(2) by (auto simp: same_smp_def)
  obtain t where t: "for_each ps (wakeup_one c chan) u = Inr ((), t)" "same_smp u t"
    "pstate t = (\<lambda>p. if p \<in> set ps \<and> Some p \<noteq> c_proc (cpus u c) \<and> pstate u p = SLEEPING \<and> pchan u p = chan
                    then RUNNABLE else pstate u p)"
    using Cons.IH [OF wf] by blast
  have "for_each (p # ps) (wakeup_one c chan) s = Inr ((), t)" using u(1) t(1) by (simp add: run_simps)
  moreover have "same_smp s t" using u(2) t(2) by (rule same_smp_trans)
  moreover have "c_proc (cpus u c) = c_proc (cpus s c)" "pchan u = pchan s" using u(2) by (simp_all add: same_smp_def)
  ultimately show ?case using t(3) u(3) by (intro exI [of _ t]) (auto simp: fun_eq_iff)
qed

text \<open>
  C36. Called when no process lock is held, \<^verbatim>\<open>wakeup\<close> makes exactly the processes that sleep on the
  channel runnable (the caller's own slot apart), returns without panic, and leaves every lock,
  the nesting of every hart and everything else of the process table as it was.
\<close>

theorem wakeup_exact:
  assumes "intr_wf s c" "\<forall>p<NPROCS. \<not> lk_locked (locks s p)"
  shows "wp (wakeup c chan) (\<lambda>_ t. same_smp s t \<and>
    pstate t = (\<lambda>p. if p < NPROCS \<and> Some p \<noteq> c_proc (cpus s c) \<and> pstate s p = SLEEPING \<and> pchan s p = chan
                    then RUNNABLE else pstate s p)) s"
  using wakeup_loop [of s c "[0..<NPROCS]" chan] assms by (auto simp: wakeup_def wp_iff simp del: upt_rec_numeral)

section \<open>Giving up the hart\<close>

text \<open>Process \<open>p\<close> left hart \<open>c\<close> in state \<open>x\<close>, to resume with \<open>k\<close>; lock \<open>lk\<close> was given back.\<close>

definition gave_up ::
  "nat \<Rightarrow> nat \<Rightarrow> procstate \<Rightarrow> (bool \<Rightarrow> kont) \<Rightarrow> nat set \<Rightarrow> 'z sched_st_scheme \<Rightarrow> 'z sched_st_scheme \<Rightarrow> bool" where
  "gave_up c p x k given s t \<longleftrightarrow>
     pstate t = (pstate s)(p := x) \<and> pchan t = pchan s \<and> (\<exists>i. pcontext t = (pcontext s)(p := k i)) \<and>
     c_proc (cpus t c) = None \<and> c_noff (cpus t c) = 0 \<and>
     (\<forall>d. d \<noteq> c \<longrightarrow> cpus t d = cpus s d \<and> sie t d = sie s d) \<and>
     (\<forall>l. lk_locked (locks t l) = (lk_locked (locks s l) \<and> l \<notin> given) \<and>
          (lk_locked (locks t l) \<longrightarrow> lk_cpu (locks t l) = lk_cpu (locks s l)))"

lemma myproc_nested:
  assumes "c_noff (cpus s c) \<ge> 1" "\<not> sie s c"
  shows "myproc c s = Inr (c_proc (cpus s c), s)"
proof -
  have "popped c (pushed c s) = s"
    using assms by (simp add: pushed_def popped_def fun_upd_idem)
  then show ?thesis using myproc_eq [of s c] assms(1) by simp
qed

lemma sched_run:
  assumes "c_proc (cpus s c) = Some p" "lk_locked (locks s p)" "lk_cpu (locks s p) = Some c"
    and "c_noff (cpus s c) = 1" "\<not> sie s c" "pstate s p \<noteq> RUNNING"
  shows "\<exists>t. sched c k s = Inr ((), t) \<and> gave_up c p (pstate s p) k {p} s t"
proof -
  let ?u = "s\<lparr>pcontext := (pcontext s)(p := k (c_intena (cpus s c)))\<rparr>"
  let ?v = "?u\<lparr>cpus := (cpus ?u)(c := (cpus ?u c)\<lparr>c_proc := None\<rparr>)\<rparr>"
  have m: "myproc c s = Inr (Some p, s)" using myproc_nested [of s c] assms by simp
  have r: "release c p ?v = Inr ((), rel c p ?v)" using assms by (intro release_eq) simp_all
  have "sched c k s = Inr ((), rel c p ?v)"
    using assms m r by (simp add: sched_def run_simps holding_def intr_get_def scheduler_back_def upd_cpu_def)
  moreover have "gave_up c p (pstate s p) k {p} s (rel c p ?v)"
    using assms by (auto simp: gave_up_def popped_def set_lock_def)
  ultimately show ?thesis by blast
qed

lemma yield_run:
  assumes "intr_wf s c" "c_proc (cpus s c) = Some p" "c_noff (cpus s c) = 0" "\<not> lk_locked (locks s p)"
  shows "\<exists>t. yield c s = Inr ((), t) \<and> gave_up c p RUNNABLE KYield {} s t"
proof -
  let ?u = "popped c (pushed c s)"
  let ?v = "(acq c p ?u)\<lparr>pstate := (pstate (acq c p ?u))(p := RUNNABLE)\<rparr>"
  have a: "acquire c p ?u = Inr ((), acq c p ?u)" using assms(4) by (intro acquire_eq) simp
  obtain t where t: "sched c KYield ?v = Inr ((), t)" "gave_up c p (pstate ?v p) KYield {p} ?v t"
    using sched_run [of ?v c p KYield] assms by auto
  have "yield c s = Inr ((), t)"
    using assms(2,3) a t(1) by (simp add: yield_def myproc_eq run_simps set_state_def)
  moreover have "gave_up c p RUNNABLE KYield {} s t"
    using t(2) assms(4) by (auto simp: gave_up_def pushed_def popped_def set_lock_def split: if_splits)
  ultimately show ?thesis by blast
qed

lemma sleep_run:
  assumes "c_proc (cpus s c) = Some p" "c_noff (cpus s c) = 1" "\<not> sie s c" "\<not> lk_locked (locks s p)"
    and "lk_locked (locks s lk)" "lk_cpu (locks s lk) = Some c"
  shows "\<exists>t. sleep c chan lk s = Inr ((), t) \<and>
    gave_up c p SLEEPING (KSleep lk) {lk} (s\<lparr>pchan := (pchan s)(p := chan)\<rparr>) t"
proof -
  have ne: "lk \<noteq> p" using assms(4,5) by auto
  let ?u = "acq c p s"
  let ?v = "rel c lk ?u"
  let ?w = "?v\<lparr>pchan := (pchan ?v)(p := chan), pstate := (pstate ?v)(p := SLEEPING)\<rparr>"
  have a: "acquire c p s = Inr ((), ?u)" using assms(4) by (rule acquire_eq)
  have r: "release c lk ?u = Inr ((), ?v)" using assms ne by (intro release_eq) simp_all
  obtain t where t: "sched c (KSleep lk) ?w = Inr ((), t)" "gave_up c p (pstate ?w p) (KSleep lk) {p} ?w t"
    using sched_run [of ?w c p "KSleep lk"] assms ne by auto
  have "sleep c chan lk s = Inr ((), t)"
    using assms(1-3) a r t(1) by (simp add: sleep_def myproc_nested run_simps set_state_def set_chan_def)
  moreover have "gave_up c p SLEEPING (KSleep lk) {lk} (s\<lparr>pchan := (pchan s)(p := chan)\<rparr>) t"
    using t(2) assms(4) ne by (auto simp: gave_up_def pushed_def popped_def set_lock_def split: if_splits)
  ultimately show ?thesis by blast
qed

lemma exit_run:
  assumes "c_proc (cpus s c) = Some p" "c_noff (cpus s c) = 1" "\<not> sie s c" "\<not> lk_locked (locks s p)"
    and "lk_locked (locks s lk)" "lk_cpu (locks s lk) = Some c"
  shows "\<exists>t. exit_switch c lk s = Inr ((), t) \<and> gave_up c p ZOMBIE (\<lambda>_. KExit) {lk} s t"
proof -
  have ne: "lk \<noteq> p" using assms(4,5) by auto
  let ?u = "(acq c p s)\<lparr>pstate := (pstate (acq c p s))(p := ZOMBIE)\<rparr>"
  let ?v = "rel c lk ?u"
  have a: "acquire c p s = Inr ((), acq c p s)" using assms(4) by (rule acquire_eq)
  have r: "release c lk ?u = Inr ((), ?v)" using assms ne by (intro release_eq) simp_all
  obtain t where t: "sched c (\<lambda>_. KExit) ?v = Inr ((), t)" "gave_up c p (pstate ?v p) (\<lambda>_. KExit) {p} ?v t"
    using sched_run [of ?v c p "\<lambda>_. KExit"] assms ne by auto
  have "exit_switch c lk s = Inr ((), t)"
    using assms(1-3) a r t(1) by (simp add: exit_switch_def myproc_nested run_simps set_state_def)
  moreover have "gave_up c p ZOMBIE (\<lambda>_. KExit) {lk} s t"
    using t(2) assms(4) ne by (auto simp: gave_up_def pushed_def popped_def set_lock_def split: if_splits)
  ultimately show ?thesis by blast
qed

lemma acquire_locked:
  "lk_locked (locks s l) \<Longrightarrow> lk_cpu (locks s l) \<noteq> Some c \<Longrightarrow> acquire c l s = Inl Blocked"
  by (simp add: acquire_def acquire_enter_def holding_def test_and_set_def bnd_def
      push_off_eq get_def ret_def skip_def modify_def stop_with_def)

text \<open>Dispatching a runnable process: it runs on the hart, without its lock.\<close>

definition took_over :: "nat \<Rightarrow> nat \<Rightarrow> nat set \<Rightarrow> 'z sched_st_scheme \<Rightarrow> 'z sched_st_scheme \<Rightarrow> bool" where
  "took_over c p taken s t \<longleftrightarrow>
     pstate t = (pstate s)(p := RUNNING) \<and> pcontext t = pcontext s \<and>
     c_proc (cpus t c) = Some p \<and> intr_wf t c \<and> c_noff (cpus t c) = int (card taken) \<and>
     (\<forall>d. d \<noteq> c \<longrightarrow> cpus t d = cpus s d \<and> sie t d = sie s d) \<and>
     (\<forall>l. lk_locked (locks t l) = (lk_locked (locks s l) \<or> l \<in> taken) \<and>
          (lk_locked (locks t l) \<longrightarrow> lk_cpu (locks t l) = (if l \<in> taken then Some c else lk_cpu (locks s l))))"

lemma dispatch_run:
  assumes "c_noff (cpus s c) = 0" "\<not> lk_locked (locks s p)" "pstate s p = RUNNABLE"
    and "\<forall>l. lk_locked (locks s l) \<longrightarrow> lk_cpu (locks s l) \<noteq> Some c"
  shows "case pcontext s p of
      KExit \<Rightarrow> dispatch c p s = Inl (Panic ''zombie exit'')
    | KSleep lk i \<Rightarrow> lk = p \<or>
        (if lk_locked (locks s lk) then dispatch c p s = Inl Blocked
         else \<exists>t. dispatch c p s = Inr ((), t) \<and> took_over c p {lk} s t)
    | _ \<Rightarrow> \<exists>t. dispatch c p s = Inr ((), t) \<and> took_over c p {} s t"
proof -
  let ?a = "acq c p s"
  let ?u = "?a\<lparr>pstate := (pstate ?a)(p := RUNNING)\<rparr>"
  let ?v = "?u\<lparr>cpus := (cpus ?u)(c := (cpus ?u c)\<lparr>c_proc := Some p\<rparr>)\<rparr>"
  have a: "acquire c p s = Inr ((), ?a)" using assms(2) by (rule acquire_eq)
  have d: "dispatch c p s = resume c p ?v"
    using a assms(3) by (simp add: dispatch_def run_simps set_state_def upd_cpu_def)
  have rel: "release c p w = Inr ((), rel c p w)" if "locks w = locks ?v" "sie w = sie ?v"
    "c_noff (cpus w c) = c_noff (cpus ?v c)" for w :: "'a sched_st_scheme"
    using that assms by (intro release_eq) simp_all
  let ?y = "\<lambda>i. ?v\<lparr>cpus := (cpus ?v)(c := (cpus ?v c)\<lparr>c_intena := i\<rparr>)\<rparr>"
  let ?z = "\<lambda>i. (?y i)\<lparr>pchan := (pchan (?y i))(p := 0)\<rparr>"
  have y: "release c p (?y i) = Inr ((), rel c p (?y i))" for i by (rule rel) simp_all
  have z: "release c p (?z i) = Inr ((), rel c p (?z i))" for i by (rule rel) simp_all
  show ?thesis
  proof (cases "pcontext s p")
    case (KYield i)
    have "dispatch c p s = Inr ((), rel c p (?y i))"
      using d y KYield by (simp add: resume_def run_simps upd_cpu_def)
    moreover have "took_over c p {} s (rel c p (?y i))"
      using assms by (auto simp: took_over_def intr_wf_def pushed_def popped_def set_lock_def)
    ultimately show ?thesis using KYield by auto
  next
    case (KSleep lk i)
    let ?t = "rel c p (?z i)"
    have e: "dispatch c p s = acquire c lk ?t"
      using d z KSleep by (simp add: resume_def run_simps upd_cpu_def set_chan_def)
    have t: "locks ?t = (locks s)(p := (locks s p)\<lparr>lk_locked := False, lk_cpu := None\<rparr>)" by simp
    show ?thesis
    proof (cases "lk = p \<or> \<not> lk_locked (locks s lk)")
      case True
      then have "acquire c lk ?t = Inr ((), acq c lk ?t)" by (intro acquire_eq) auto
      moreover have "took_over c p {lk} s (acq c lk ?t)" if "lk \<noteq> p"
        using assms that True by (auto simp: took_over_def intr_wf_def pushed_def popped_def set_lock_def)
      ultimately show ?thesis using True e KSleep by auto
    next
      case False
      then have "acquire c lk ?t = Inl Blocked"
        using assms(4) t by (intro acquire_locked) simp_all
      then show ?thesis using False e KSleep by simp
    qed
  next
    case KFork
    have "dispatch c p s = Inr ((), rel c p ?v)"
      using d rel [of ?v] KFork by (simp add: resume_def run_simps)
    moreover have "took_over c p {} s (rel c p ?v)"
      using assms by (auto simp: took_over_def intr_wf_def pushed_def popped_def set_lock_def)
    ultimately show ?thesis using KFork by auto
  next
    case KExit
    then show ?thesis using d by (simp add: resume_def run_simps)
  qed
qed

section \<open>Every step keeps the invariant\<close>

lemma sched_invD:
  assumes "sched_inv s"
  shows "p < NPROCS \<Longrightarrow> \<not> lk_locked (locks s p)" and "intr_wf s c"
    and "c_proc (cpus s c) = None \<Longrightarrow> c_noff (cpus s c) = 0"
    and "finite (held_by s c)" and "int (card (held_by s c)) = c_noff (cpus s c)"
    and "c_proc (cpus s c) = Some p \<Longrightarrow> p < NPROCS" and "c_proc (cpus s c) = Some p \<Longrightarrow> pstate s p = RUNNING"
    and "pstate s p = RUNNING \<Longrightarrow> \<exists>c. c_proc (cpus s c) = Some p"
    and "c_proc (cpus s c) = Some p \<Longrightarrow> c_proc (cpus s d) = Some p \<Longrightarrow> c = d"
    and "pcontext s p = KExit \<Longrightarrow> pstate s p \<in> {UNUSED, USED, RUNNING, ZOMBIE}"
    and "pcontext s p = KSleep lk i \<Longrightarrow> NPROCS \<le> lk"
  using assms unfolding sched_inv_def by blast+

lemma sched_invI:
  assumes "\<And>p. p < NPROCS \<Longrightarrow> \<not> lk_locked (locks s p)" "\<And>c. intr_wf s c"
    and "\<And>c. c_proc (cpus s c) = None \<Longrightarrow> c_noff (cpus s c) = 0"
    and "\<And>c. finite (held_by s c)" "\<And>c. int (card (held_by s c)) = c_noff (cpus s c)"
    and "\<And>c p. c_proc (cpus s c) = Some p \<Longrightarrow> p < NPROCS \<and> pstate s p = RUNNING"
    and "\<And>p. pstate s p = RUNNING \<Longrightarrow> \<exists>c. c_proc (cpus s c) = Some p"
    and "\<And>c d p. c_proc (cpus s c) = Some p \<Longrightarrow> c_proc (cpus s d) = Some p \<Longrightarrow> c = d"
    and "\<And>p. pcontext s p = KExit \<Longrightarrow> pstate s p \<in> {UNUSED, USED, RUNNING, ZOMBIE}"
    and "\<And>p lk i. pcontext s p = KSleep lk i \<Longrightarrow> NPROCS \<le> lk"
  shows "sched_inv s"
  unfolding sched_inv_def using assms by blast

lemma gave_up_inv:
  assumes "sched_inv s" "c_proc (cpus s c) = Some p" "gave_up c p x k given s t"
    and "given \<subseteq> held_by s c" "int (card given) = c_noff (cpus s c)" "x \<noteq> RUNNING"
    and "\<forall>i. (k i = KExit \<longrightarrow> x = ZOMBIE) \<and> (\<forall>lk j. k i = KSleep lk j \<longrightarrow> NPROCS \<le> lk)"
  shows "sched_inv t"
proof -
  note D = sched_invD [OF assms(1)]
  obtain i where g: "pstate t = (pstate s)(p := x)" "pcontext t = (pcontext s)(p := k i)"
    "c_proc (cpus t c) = None" "c_noff (cpus t c) = 0" "\<And>d. d \<noteq> c \<Longrightarrow> cpus t d = cpus s d" "\<And>d. d \<noteq> c \<Longrightarrow> sie t d = sie s d"
    "\<And>l. lk_locked (locks t l) \<longleftrightarrow> lk_locked (locks s l) \<and> l \<notin> given"
    "\<And>l. lk_locked (locks t l) \<Longrightarrow> lk_cpu (locks t l) = lk_cpu (locks s l)"
    using assms(3) unfolding gave_up_def by auto
  have h: "held_by t d = held_by s d - given" for d using g(7,8) by (auto simp: held_by_def)
  have "given = held_by s c" using assms(4,5) D(4,5) by (metis card_subset_eq of_nat_eq_iff)
  then have hc: "held_by t c = {}" using h by simp
  have hd: "held_by t d = held_by s d" if "d \<noteq> c" for d
    using h [of d] assms(4) that by (auto simp: held_by_def)
  have proc: "c_proc (cpus t d) = (if d = c then None else c_proc (cpus s d))" for d using g(3,5) by simp
  show ?thesis
  proof (rule sched_invI)
    show "intr_wf t d" for d using D(2) [of d] g(4,5,6) by (cases "d = c") (simp_all add: intr_wf_def)
    show "c_noff (cpus t d) = 0" if "c_proc (cpus t d) = None" for d
      using D(3) [of d] g(4,5) that by (cases "d = c") simp_all
    show "finite (held_by t d)" for d using D(4) h by simp
    show "int (card (held_by t d)) = c_noff (cpus t d)" for d
      using D(5) [of d] g(4,5) hc hd by (cases "d = c") simp_all
    show "q < NPROCS \<and> pstate t q = RUNNING" if "c_proc (cpus t d) = Some q" for d q
      using that D(6,7) [of d q] D(9) [OF assms(2), of d] by (auto simp: proc g(1) split: if_splits)
    show "\<exists>d. c_proc (cpus t d) = Some q" if "pstate t q = RUNNING" for q
    proof -
      have "q \<noteq> p" "pstate s q = RUNNING" using that assms(6) by (auto simp: g(1) split: if_splits)
      with D(8) obtain d where "c_proc (cpus s d) = Some q" by blast
      then show ?thesis using \<open>q \<noteq> p\<close> assms(2) by (intro exI [of _ d]) (auto simp: proc)
    qed
    show "a = b" if "c_proc (cpus t a) = Some q" "c_proc (cpus t b) = Some q" for a b q
      using that D(9) [of a q b] by (auto simp: proc split: if_splits)
    show "pstate t q \<in> {UNUSED, USED, RUNNING, ZOMBIE}" if "pcontext t q = KExit" for q
      using that D(10) [of q] assms(7) by (auto simp: g(1,2) split: if_splits)
    show "NPROCS \<le> lk" if "pcontext t q = KSleep lk j" for q lk j
      using that D(11) [of q] assms(7) [rule_format, of i] by (auto simp: g(2) split: if_splits)
  qed (use D(1) g(7) in auto)
qed

lemma took_over_inv:
  assumes "sched_inv s" "c_proc (cpus s c) = None" "took_over c p taken s t" "p < NPROCS"
    and "finite taken" "\<forall>l\<in>taken. NPROCS \<le> l \<and> \<not> lk_locked (locks s l)" "pstate s p = RUNNABLE"
  shows "sched_inv t"
proof -
  note D = sched_invD [OF assms(1)]
  have g: "pstate t = (pstate s)(p := RUNNING)" "pcontext t = pcontext s"
    "c_proc (cpus t c) = Some p" "intr_wf t c" "c_noff (cpus t c) = int (card taken)"
    "\<And>d. d \<noteq> c \<Longrightarrow> cpus t d = cpus s d" "\<And>d. d \<noteq> c \<Longrightarrow> sie t d = sie s d"
    "\<And>l. lk_locked (locks t l) \<longleftrightarrow> lk_locked (locks s l) \<or> l \<in> taken"
    "\<And>l. lk_locked (locks t l) \<Longrightarrow> lk_cpu (locks t l) = (if l \<in> taken then Some c else lk_cpu (locks s l))"
    using assms(3) unfolding took_over_def by auto
  have "held_by s c = {}" using D(3) [OF assms(2)] D(4,5) [of c] by simp
  then have hc: "held_by t c = taken" using g(8,9) by (auto simp: held_by_def split: if_splits)
  have hd: "held_by t d = held_by s d" if "d \<noteq> c" for d
    using g(8,9) that assms(6) by (auto simp: held_by_def split: if_splits)
  have proc: "c_proc (cpus t d) = (if d = c then Some p else c_proc (cpus s d))" for d using g(3,6) by simp
  have idle: "c_proc (cpus s d) \<noteq> Some p" for d using D(7) [of d p] assms(7) by auto
  show ?thesis
  proof (rule sched_invI)
    show "intr_wf t d" for d using D(2) [of d] g(4,6,7) by (cases "d = c") (simp_all add: intr_wf_def)
    show "c_noff (cpus t d) = 0" if "c_proc (cpus t d) = None" for d
      using D(3) [of d] g(3,6) that by (cases "d = c") simp_all
    show "finite (held_by t d)" for d using D(4) [of d] hc hd assms(5) by (cases "d = c") simp_all
    show "int (card (held_by t d)) = c_noff (cpus t d)" for d
      using D(5) [of d] g(5,6) hc hd by (cases "d = c") simp_all
    show "q < NPROCS \<and> pstate t q = RUNNING" if "c_proc (cpus t d) = Some q" for d q
      using that D(6,7) [of d q] assms(4) by (auto simp: proc g(1) split: if_splits)
    show "\<exists>d. c_proc (cpus t d) = Some q" if r: "pstate t q = RUNNING" for q
    proof (cases "q = p")
      case False
      then obtain d where "c_proc (cpus s d) = Some q" using r D(8) [of q] by (auto simp: g(1))
      then show ?thesis using assms(2) by (intro exI [of _ d]) (auto simp: proc)
    qed (use g(3) in blast)
    show "a = b" if "c_proc (cpus t a) = Some q" "c_proc (cpus t b) = Some q" for a b q
      using that D(9) [of a q b] idle by (auto simp: proc split: if_splits)
    show "pstate t q \<in> {UNUSED, USED, RUNNING, ZOMBIE}" if "pcontext t q = KExit" for q
      using that D(10) [of q] by (auto simp: g(1,2))
    show "NPROCS \<le> lk" if "pcontext t q = KSleep lk j" for q lk j
      using that D(11) [of q] by (auto simp: g(2))
  qed (use D(1) g(8) assms(6) in auto)
qed

lemma same_smp_inv:
  assumes "sched_inv s" "same_smp s t"
    and "\<forall>p. pstate t p \<noteq> pstate s p \<longrightarrow> pstate s p = SLEEPING \<and> pstate t p = RUNNABLE"
  shows "sched_inv t"
proof -
  note D = sched_invD [OF assms(1)] and S = assms(2) [unfolded same_smp_def]
  have h: "held_by t d = held_by s d" for d using S by (auto simp: held_by_def)
  have run: "pstate t p = RUNNING \<longleftrightarrow> pstate s p = RUNNING" for p using assms(3) by (metis procstate.distinct)
  have old: "pstate s p \<in> {UNUSED, USED, RUNNING, ZOMBIE} \<Longrightarrow> pstate t p = pstate s p" for p using assms(3) by force
  show ?thesis
    by (rule sched_invI) (use S D h run old in \<open>auto simp: intr_wf_same [OF assms(2)]\<close>)
qed

text \<open>
  The steps of the whole machine. A process may take and give back any lock that is not a process
  lock; creating, reaping and killing a process touch the table under that process's lock.
\<close>

inductive sched_step :: "'z sched_st_scheme \<Rightarrow> 'z sched_st_scheme \<Rightarrow> bool" where
  step_dispatch: "c_proc (cpus s c) = None \<Longrightarrow> p < NPROCS \<Longrightarrow> dispatch c p s = Inr ((), t) \<Longrightarrow> sched_step s t"
| step_yield: "c_proc (cpus s c) \<noteq> None \<Longrightarrow> c_noff (cpus s c) = 0 \<Longrightarrow> yield c s = Inr ((), t) \<Longrightarrow> sched_step s t"
| step_sleep: "c_proc (cpus s c) \<noteq> None \<Longrightarrow> held_by s c = {lk} \<Longrightarrow> sleep c chan lk s = Inr ((), t) \<Longrightarrow> sched_step s t"
| step_exit: "c_proc (cpus s c) \<noteq> None \<Longrightarrow> held_by s c = {lk} \<Longrightarrow> exit_switch c lk s = Inr ((), t) \<Longrightarrow> sched_step s t"
| step_wakeup: "wakeup c chan s = Inr ((), t) \<Longrightarrow> sched_step s t"
| step_lock: "c_proc (cpus s c) \<noteq> None \<Longrightarrow> NPROCS \<le> l \<Longrightarrow> acquire c l s = Inr ((), t) \<Longrightarrow> sched_step s t"
| step_unlock: "c_proc (cpus s c) \<noteq> None \<Longrightarrow> release c l s = Inr ((), t) \<Longrightarrow> sched_step s t"
| step_fork: "p < NPROCS \<Longrightarrow> pstate s p = UNUSED \<Longrightarrow>
    sched_step s (s\<lparr>pstate := (pstate s)(p := RUNNABLE), pcontext := (pcontext s)(p := KFork)\<rparr>)"
| step_reap: "pstate s p = ZOMBIE \<Longrightarrow> sched_step s (s\<lparr>pstate := (pstate s)(p := UNUSED)\<rparr>)"
| step_kill: "pstate s p = SLEEPING \<Longrightarrow> sched_step s (s\<lparr>pstate := (pstate s)(p := RUNNABLE)\<rparr>)"

lemma lock_inv:
  assumes "sched_inv s" "c_proc (cpus s c) \<noteq> None" "NPROCS \<le> l" "acquire c l s = Inr ((), t)"
  shows "sched_inv t"
proof -
  note D = sched_invD [OF assms(1)]
  have f: "\<not> lk_locked (locks s l)"
  proof
    assume "lk_locked (locks s l)"
    then have "acquire c l s \<noteq> Inr ((), t)"
      by (auto simp: acquire_def acquire_enter_def holding_def test_and_set_def bnd_def
          push_off_eq get_def ret_def skip_def modify_def stop_with_def split: if_splits)
    with assms(4) show False by simp
  qed
  then have t: "t = acq c l s" using assms(4) by (simp add: acquire_eq)
  have h: "held_by t d = (if d = c then insert l (held_by s c) else held_by s d)" for d
    using f by (auto simp: held_by_def t)
  have new: "l \<notin> held_by s c" using f by (simp add: held_by_def)
  have wf: "intr_wf t d" for d using D(2) [of d] by (auto simp: intr_wf_def t)
  show ?thesis by (rule sched_invI) (use D assms(2,3) h new wf in \<open>auto simp: t\<close>)
qed

lemma unlock_inv:
  assumes "sched_inv s" "c_proc (cpus s c) \<noteq> None" "release c l s = Inr ((), t)"
  shows "sched_inv t"
proof -
  note D = sched_invD [OF assms(1)]
  have l: "l \<in> held_by s c"
    using assms(3) by (auto simp: release_def release_enter_def holding_def bnd_def get_def ret_def
        modify_def stop_with_def held_by_def split: if_splits)
  have pos: "c_noff (cpus s c) \<ge> 1" using D(4,5) [of c] l by (metis One_nat_def Suc_leI card_gt_0_iff empty_iff of_nat_1 of_nat_mono)
  then have "\<not> sie s c" using D(2) [of c] by (simp add: intr_wf_def)
  then have t: "t = rel c l s"
    using assms(3) release_eq [of s l c] l pos by (simp add: held_by_def)
  have h: "held_by t d = (if d = c then held_by s c - {l} else held_by s d)" for d
    using l by (auto simp: held_by_def t)
  have wf: "intr_wf t d" for d using D(2) [of d] pos by (auto simp: intr_wf_def t)
  have n: "int (card (held_by s c - {l})) = c_noff (cpus s c) - 1"
    using D(4,5) [of c] l pos by (simp add: of_nat_diff)
  show ?thesis
    by (rule sched_invI) (use D assms(2) h l n wf pos in \<open>auto simp: t simp del: card_Diff_insert\<close>)
qed

lemma sched_inv_holds_one:
  assumes "sched_inv s" "held_by s c = {lk}" "c_proc (cpus s c) = Some p"
  shows "c_noff (cpus s c) = 1" "\<not> sie s c" "\<not> lk_locked (locks s p)" "lk_locked (locks s lk)"
    "lk_cpu (locks s lk) = Some c" "NPROCS \<le> lk"
proof -
  note D = sched_invD [OF assms(1)]
  show n: "c_noff (cpus s c) = 1" using D(5) [of c] assms(2) by simp
  then show "\<not> sie s c" using D(2) [of c] by (simp add: intr_wf_def)
  show "\<not> lk_locked (locks s p)" using D(1,6) assms(3) by blast
  show l: "lk_locked (locks s lk)" "lk_cpu (locks s lk) = Some c"
    using assms(2) by (auto simp: held_by_def)
  then show "NPROCS \<le> lk" using D(1) [of lk] by (meson not_le)
qed

lemma sched_inv_frame:
  "sched_inv s \<Longrightarrow> sched_inv (s\<lparr>pchan := ch\<rparr>)" "held_by (s\<lparr>pchan := ch\<rparr>) c = held_by s c"
  by (simp_all add: sched_inv_def held_by_def intr_wf_def)

lemma dispatch_idle:
  assumes "c_noff (cpus s c) = 0" "\<not> lk_locked (locks s p)" "pstate s p \<noteq> RUNNABLE"
  shows "\<exists>t. dispatch c p s = Inr ((), t) \<and> same_smp s t \<and> pstate t = pstate s"
proof -
  have r: "release c p (acq c p s) = Inr ((), rel c p (acq c p s))"
    using assms by (intro release_eq) simp_all
  have "dispatch c p s = Inr ((), rel c p (acq c p s))"
    using assms(2,3) r by (simp add: dispatch_def acquire_eq run_simps)
  moreover have "same_smp s (rel c p (acq c p s))"
    using assms(1,2) by (auto simp: same_smp_def pushed_def popped_def set_lock_def)
  ultimately show ?thesis by (intro exI [of _ "rel c p (acq c p s)"]) simp
qed

lemma dispatch_inv:
  assumes "sched_inv s" "c_proc (cpus s c) = None" "p < NPROCS"
  shows "dispatch c p s = Inl Blocked \<or> (\<exists>t. dispatch c p s = Inr ((), t) \<and> sched_inv t)"
proof -
  note D = sched_invD [OF assms(1)]
  have n: "c_noff (cpus s c) = 0" using D(3) [OF assms(2)] .
  have f: "\<not> lk_locked (locks s p)" using D(1) [OF assms(3)] .
  show ?thesis
  proof (cases "pstate s p = RUNNABLE")
    case False
    then show ?thesis using dispatch_idle [OF n f False] same_smp_inv [OF assms(1)] by metis
  next
    case True
    have "held_by s c = {}" using D(4,5) [of c] n by simp
    then have h: "\<forall>l. lk_locked (locks s l) \<longrightarrow> lk_cpu (locks s l) \<noteq> Some c" by (auto simp: held_by_def)
    note R = dispatch_run [OF n f True h]
    note T = took_over_inv [OF assms(1,2) _ assms(3) _ _ True]
    show ?thesis
    proof (cases "pcontext s p")
      case (KSleep lk i)
      then have "NPROCS \<le> lk" by (rule D(11))
      then show ?thesis using R KSleep assms(3) T [of "{lk}"] by (auto split: if_splits)
    qed (use R T [of "{}"] D(10) [of p] True in auto)
  qed
qed

lemma sched_inv_step: "sched_step s t \<Longrightarrow> sched_inv s \<Longrightarrow> sched_inv t"
proof (induction rule: sched_step.induct)
  case (step_dispatch s c p t)
  then show ?case using dispatch_inv [of s c p] by auto
next
  case (step_yield s c t)
  then obtain p where p: "c_proc (cpus s c) = Some p" by auto
  note D = sched_invD [OF step_yield(4)]
  have "gave_up c p RUNNABLE KYield {} s t"
    using yield_run [OF D(2) p step_yield(2) D(1) [OF D(6) [OF p]]] step_yield(3) by auto
  from gave_up_inv [OF step_yield(4) p this] step_yield(2) show ?case by simp
next
  case (step_sleep s c lk chan t)
  then obtain p where p: "c_proc (cpus s c) = Some p" by auto
  note H = sched_inv_holds_one [OF step_sleep(4,2) p]
  have "gave_up c p SLEEPING (KSleep lk) {lk} (s\<lparr>pchan := (pchan s)(p := chan)\<rparr>) t"
    using sleep_run [OF p H(1-5), of chan] step_sleep(3) by auto
  from gave_up_inv [OF sched_inv_frame(1) [OF step_sleep(4)] _ this] p H(1,6) step_sleep(2)
  show ?case by (simp add: sched_inv_frame(2))
next
  case (step_exit s c lk t)
  then obtain p where p: "c_proc (cpus s c) = Some p" by auto
  note H = sched_inv_holds_one [OF step_exit(4,2) p]
  have "gave_up c p ZOMBIE (\<lambda>_. KExit) {lk} s t" using exit_run [OF p H(1-5)] step_exit(3) by auto
  from gave_up_inv [OF step_exit(4) p this] H(1) step_exit(2) show ?case by simp
next
  case (step_wakeup c chan s t)
  obtain u where "wakeup c chan s = Inr ((), u)" "same_smp s u"
    "pstate u = (\<lambda>p. if p \<in> set [0..<NPROCS] \<and> Some p \<noteq> c_proc (cpus s c) \<and> pstate s p = SLEEPING \<and> pchan s p = chan
                    then RUNNABLE else pstate s p)"
    using wakeup_loop [of s c "[0..<NPROCS]" chan] sched_invD(1,2) [OF step_wakeup(2)]
    by (auto simp: wakeup_def simp del: upt_rec_numeral)
  with step_wakeup(1) show ?case by (intro same_smp_inv [OF step_wakeup(2)]) auto
next
  case (step_lock s c l t)
  then show ?case using lock_inv by blast
next
  case (step_unlock s c l t)
  then show ?case using unlock_inv by blast
next
  case (step_fork p s)
  note D = sched_invD [OF step_fork(3)]
  show ?case
    by (rule sched_invI)
      (use D D(7) step_fork(1,2) in \<open>auto simp: held_by_def intr_wf_def split: if_splits\<close>)
next
  case (step_reap s p)
  note D = sched_invD [OF step_reap(2)]
  show ?case
    by (rule sched_invI)
      (use D D(7) step_reap(1) in \<open>auto simp: held_by_def intr_wf_def split: if_splits\<close>)
next
  case (step_kill s p)
  show ?case by (rule same_smp_inv [OF step_kill(2)]) (use step_kill(1) in \<open>auto simp: same_smp_def\<close>)
qed

definition sched_start :: "'z sched_st_scheme \<Rightarrow> bool" where
  "sched_start s \<longleftrightarrow> smp_start s \<and> (\<forall>c. c_proc (cpus s c) = None) \<and> (\<forall>p. pstate s p = UNUSED \<and> pcontext s p = KFork)"

lemma sched_reach_inv:
  assumes "sched_step\<^sup>*\<^sup>* s0 s" "sched_start s0"
  shows "sched_inv s"
  using assms(1)
proof (induction rule: rtranclp_induct)
  case base
  have "held_by s0 c = {}" for c using assms(2) by (auto simp: sched_start_def smp_start_def held_by_def)
  then show ?case
    using assms(2) by (intro sched_invI) (auto simp: sched_start_def smp_start_def intr_wf_def)
next
  case (step s t)
  then show ?case using sched_inv_step by blast
qed



definition sched_boot :: sched_st where
  "sched_boot = smp_st.extend smp_boot \<lparr>pstate = \<lambda>_. UNUSED, pchan = \<lambda>_. 0, pcontext = \<lambda>_. KFork\<rparr>"

lemma sched_boot_start: "sched_start sched_boot"
  by (simp add: sched_start_def smp_start_def sched_boot_def smp_boot_def smp_st.defs)

lemma sched_boot_dispatched:
  "\<exists>s :: sched_st. sched_step\<^sup>*\<^sup>* sched_boot s \<and> c_proc (cpus s 0) = Some 3 \<and> c_noff (cpus s 0) = 0"
proof -
  let ?f = "sched_boot\<lparr>pstate := (pstate sched_boot)(3 := RUNNABLE), pcontext := (pcontext sched_boot)(3 := KFork)\<rparr>"
  have f: "sched_step sched_boot ?f" by (rule step_fork) (simp_all add: sched_boot_def smp_st.defs)
  have "\<exists>t. dispatch 0 3 ?f = Inr ((), t) \<and> took_over 0 3 {} ?f t"
    using dispatch_run [of ?f 0 3] by (simp add: sched_boot_def smp_boot_def smp_st.defs)
  then obtain t where t: "dispatch 0 3 ?f = Inr ((), t)" "took_over 0 3 {} ?f t" by blast
  have "sched_step ?f t" by (rule step_dispatch [OF _ _ t(1)]) (simp_all add: sched_boot_def smp_boot_def smp_st.defs)
  with f have "sched_step\<^sup>*\<^sup>* sched_boot t" by (meson converse_rtranclp_into_rtranclp r_into_rtranclp)
  with t(2) show ?thesis by (auto simp: took_over_def)
qed



theorem wakeup_exact_witness:
  "wp (wakeup 0 5) (\<lambda>_ t. pstate t 3 = RUNNABLE \<and> pstate t 4 = SLEEPING)
     (sched_boot\<lparr>pstate := (\<lambda>_. SLEEPING), pchan := (\<lambda>_. 0)(3 := 5)\<rparr>)"
  by (rule wp_mono [OF wakeup_exact])
    (simp_all add: sched_boot_def smp_boot_def smp_st.defs intr_wf_def)

end
