(* ===== verification/Copy.thy ===== *)
theory Copy
  imports Vm
begin

text \<open>
  \<^verbatim>\<open>copyout\<close> and \<^verbatim>\<open>copyin\<close> of \<^verbatim>\<open>kernel/vm.c\<close> when the kernel side is an object the model keeps outside
  byte memory (a disk buffer, a pipe, a process-table field), and \<^verbatim>\<open>either_copyout\<close> and
  \<^verbatim>\<open>either_copyin\<close> of \<^verbatim>\<open>kernel/proc.c\<close> on top of them. An object is the function from byte offsets
  to bytes.
\<close>

type_synonym obj = "nat \<Rightarrow> 8 word"

definition store_bytes :: "memory \<Rightarrow> addr \<Rightarrow> obj \<Rightarrow> nat \<Rightarrow> memory" where
  "store_bytes m a f n = (\<lambda>x. if unat (x - a) < n then f (unat (x - a)) else m x)"

definition load_bytes :: "memory \<Rightarrow> addr \<Rightarrow> nat \<Rightarrow> nat \<Rightarrow> obj \<Rightarrow> obj" where
  "load_bytes m a k n f = (\<lambda>i. if k \<le> i \<and> i < k + n then m (a + of_nat (i - k)) else f i)"

text \<open>\<open>k\<close> bytes of the object are already copied; \<open>len\<close> are left.\<close>

primrec copyout_obj_loop :: "nat \<Rightarrow> addr \<Rightarrow> addr \<Rightarrow> obj \<Rightarrow> nat \<Rightarrow> 64 word \<Rightarrow> ('z vm_st_scheme, int) km" where
  "copyout_obj_loop 0 pagetable dstva src k len = stop_with Diverge"
| "copyout_obj_loop (Suc fuel) pagetable dstva src k len =
     (if len > 0
      then let va0 = PGROUNDDOWN dstva in
        if va0 \<ge> MAXVA then ret (- 1)
        else bnd (walkaddr pagetable va0) (\<lambda>pa.
             bnd (if pa = 0 then vmfault pagetable va0 else ret pa) (\<lambda>pa0.
               if pa0 = 0 then ret (- 1)
               else bnd (walk pagetable va0 False) (\<lambda>pte.
                    bnd get (\<lambda>s.
                      if load64 (mem s) pte AND PTE_W = 0 then ret (- 1)
                      else let n = min (PGSIZE - (dstva - va0)) len in
                        bnd (modify (\<lambda>s. s\<lparr>mem := store_bytes (mem s) (pa0 + (dstva - va0)) (\<lambda>i. src (k + i)) (unat n)\<rparr>)) (\<lambda>_.
                        copyout_obj_loop fuel pagetable (va0 + PGSIZE) src (k + unat n) (len - n))))))
      else ret 0)"

definition copyout_obj :: "addr \<Rightarrow> addr \<Rightarrow> obj \<Rightarrow> 64 word \<Rightarrow> ('z vm_st_scheme, int) km" where
  "copyout_obj pagetable dstva src len = copyout_obj_loop (Suc (unat len)) pagetable dstva src 0 len"

text \<open>\<^verbatim>\<open>copyin\<close> may fail after it changed part of the destination, so the object is returned too.\<close>

primrec copyin_obj_loop :: "nat \<Rightarrow> addr \<Rightarrow> obj \<Rightarrow> nat \<Rightarrow> addr \<Rightarrow> 64 word \<Rightarrow> ('z vm_st_scheme, int \<times> obj) km" where
  "copyin_obj_loop 0 pagetable dst k srcva len = stop_with Diverge"
| "copyin_obj_loop (Suc fuel) pagetable dst k srcva len =
     (if len > 0
      then let va0 = PGROUNDDOWN srcva in
        bnd (walkaddr pagetable va0) (\<lambda>pa.
        bnd (if pa = 0 then vmfault pagetable va0 else ret pa) (\<lambda>pa0.
          if pa0 = 0 then ret (- 1, dst)
          else let n = min (PGSIZE - (srcva - va0)) len in
            bnd get (\<lambda>s.
            copyin_obj_loop fuel pagetable (load_bytes (mem s) (pa0 + (srcva - va0)) k (unat n) dst) (k + unat n)
              (va0 + PGSIZE) (len - n))))
      else ret (0, dst))"

definition copyin_obj :: "addr \<Rightarrow> obj \<Rightarrow> addr \<Rightarrow> 64 word \<Rightarrow> ('z vm_st_scheme, int \<times> obj) km" where
  "copyin_obj pagetable dst srcva len = copyin_obj_loop (Suc (unat len)) pagetable dst 0 srcva len"

definition either_copyout :: "bool \<Rightarrow> addr \<Rightarrow> obj \<Rightarrow> 64 word \<Rightarrow> ('z vm_st_scheme, int) km" where
  "either_copyout user_dst dst src len = bnd get (\<lambda>s.
     if user_dst then copyout_obj (ppagetable s) dst src len
     else bnd (modify (\<lambda>s. s\<lparr>mem := store_bytes (mem s) dst src (unat (ucast len :: 32 word))\<rparr>)) (\<lambda>_. ret 0))"

definition either_copyin :: "obj \<Rightarrow> bool \<Rightarrow> addr \<Rightarrow> 64 word \<Rightarrow> ('z vm_st_scheme, int \<times> obj) km" where
  "either_copyin dst user_src src len = bnd get (\<lambda>s.
     if user_src then copyin_obj (ppagetable s) dst src len
     else ret (0, load_bytes (mem s) src 0 (unat (ucast len :: 32 word)) dst))"

text \<open>Storing an object's bytes and loading them again.\<close>

lemma load_store_bytes:
  assumes "n \<le> 2 ^ 64" "i < n"
  shows "load_bytes (store_bytes m a f n) a 0 n g i = f i"
proof -
  have "unat (of_nat i :: addr) = i" using assms by (intro unat_of_nat_lt) simp
  then show ?thesis using assms by (simp add: load_bytes_def store_bytes_def)
qed

end
