(* ===== verification/Fs.thy ===== *)
theory Fs
  imports Log Copy
begin

text \<open>
  \<^verbatim>\<open>kernel/fs.c\<close>: block allocation, inodes, directories and path names. An inode pointer is its
  index in \<^verbatim>\<open>itable\<close>; a null pointer is \<open>None\<close>. \<open>pcwd\<close> is \<^verbatim>\<open>myproc()->cwd\<close>. Pointers to characters are
  addresses of byte memory, 0 being null. \<open>kstk\<close> is where the locals whose address is taken live;
  \<open>DE\<close> and \<open>NAMEBUF\<close> are their places. Sections under \<^verbatim>\<open>itable.lock\<close> are atomic. The messages of
  \<^verbatim>\<open>balloc\<close>, \<^verbatim>\<open>ialloc\<close> and \<^verbatim>\<open>ireclaim\<close> on the console are not part of the state.
\<close>

section \<open>Data\<close>

record superblock =
  sb_magic :: uint
  sb_size :: uint
  sb_nblocks :: uint
  sb_ninodes :: uint
  sb_nlog :: uint
  sb_logstart :: uint
  sb_inodestart :: uint
  sb_bmapstart :: uint

record inode =
  i_dev :: uint
  i_inum :: uint
  i_ref :: int
  i_lock :: sleeplock
  i_valid :: bool
  i_type :: "16 word"
  i_major :: "16 word"
  i_minor :: "16 word"
  i_nlink :: "16 word"
  i_size :: uint
  i_addrs :: "nat \<Rightarrow> uint"

record fs_st = log_st +
  sb :: superblock
  inodes :: "nat \<Rightarrow> inode"
  pcwd :: nat
  kstk :: addr

abbreviation FSMAGIC :: uint where "FSMAGIC \<equiv> 0x10203040"
abbreviation ROOTINO :: uint where "ROOTINO \<equiv> 1"
abbreviation NDIRECT :: nat where "NDIRECT \<equiv> 12"
abbreviation NINDIRECT :: nat where "NINDIRECT \<equiv> 256"
abbreviation MAXFILE :: nat where "MAXFILE \<equiv> 268"
abbreviation BPB :: nat where "BPB \<equiv> 8192"
abbreviation IPB :: nat where "IPB \<equiv> 16"
abbreviation NINODE :: nat where "NINODE \<equiv> 50"
abbreviation DIRSIZ :: nat where "DIRSIZ \<equiv> 14"
abbreviation T_DIR :: "16 word" where "T_DIR \<equiv> 1"
abbreviation T_FILE :: "16 word" where "T_FILE \<equiv> 2"
abbreviation T_DEVICE :: "16 word" where "T_DEVICE \<equiv> 3"

definition IBLOCK :: "uint \<Rightarrow> superblock \<Rightarrow> uint" where
  "IBLOCK i x = i div of_nat IPB + sb_inodestart x"

definition BBLOCK :: "uint \<Rightarrow> superblock \<Rightarrow> uint" where
  "BBLOCK b x = b div of_nat BPB + sb_bmapstart x"

text \<open>The on-disk inode: offset of inode \<open>inum\<close> in its block, and the fields of \<^verbatim>\<open>struct dinode\<close>.\<close>

definition dinode_off :: "uint \<Rightarrow> nat" where
  "dinode_off inum = 64 * (unat inum mod IPB)"

definition get_dinode :: "block \<Rightarrow> nat \<Rightarrow> inode \<Rightarrow> inode" where
  "get_dinode d off x = x\<lparr>i_type := get16 d off, i_major := get16 d (off + 2), i_minor := get16 d (off + 4),
     i_nlink := get16 d (off + 6), i_size := get32 d (off + 8),
     i_addrs := (\<lambda>k. if k \<le> NDIRECT then get32 d (off + 12 + 4 * k) else i_addrs x k)\<rparr>"

definition put_dinode :: "inode \<Rightarrow> nat \<Rightarrow> block \<Rightarrow> block" where
  "put_dinode x off d =
     (let d = put16 d off (i_type x); d = put16 d (off + 2) (i_major x); d = put16 d (off + 4) (i_minor x);
          d = put16 d (off + 6) (i_nlink x); d = put32 d (off + 8) (i_size x)
      in fold (\<lambda>k d. put32 d (off + 12 + 4 * k) (i_addrs x k)) [0..<Suc NDIRECT] d)"

section \<open>Blocks\<close>

definition readsb :: "uint \<Rightarrow> ('z fs_st_scheme, unit) km" where
  "readsb dev =
     bnd (bread dev 1) (\<lambda>bp.
     bnd get (\<lambda>s.
     let d = b_data (bufs s bp) in
     bnd (modify (\<lambda>s. s\<lparr>sb := \<lparr>sb_magic = get32 d 0, sb_size = get32 d 4, sb_nblocks = get32 d 8,
       sb_ninodes = get32 d 12, sb_nlog = get32 d 16, sb_logstart = get32 d 20,
       sb_inodestart = get32 d 24, sb_bmapstart = get32 d 28\<rparr>\<rparr>)) (\<lambda>_.
     brelse bp)))"

definition bzero :: "uint \<Rightarrow> uint \<Rightarrow> ('z fs_st_scheme, unit) km" where
  "bzero dev bno =
     bnd (bread dev bno) (\<lambda>bp.
     bnd (set_data bp (\<lambda>_ _. 0)) (\<lambda>_.
     bnd (log_write bp) (\<lambda>_.
     brelse bp)))"

text \<open>Bit \<open>bi\<close> of a bitmap block: the test, and setting or clearing it.\<close>

definition bmbit :: "block \<Rightarrow> nat \<Rightarrow> bool" where
  "bmbit d bi \<longleftrightarrow> d (of_nat (bi div 8)) AND push_bit (bi mod 8) 1 \<noteq> 0"

definition bmset :: "nat \<Rightarrow> block \<Rightarrow> block" where
  "bmset bi d = d(of_nat (bi div 8) := d (of_nat (bi div 8)) OR push_bit (bi mod 8) 1)"

definition bmclear :: "nat \<Rightarrow> block \<Rightarrow> block" where
  "bmclear bi d = d(of_nat (bi div 8) := d (of_nat (bi div 8)) AND NOT (push_bit (bi mod 8) 1))"

text \<open>The inner loop of \<^verbatim>\<open>balloc\<close> on the bitmap block that starts with block number \<open>b\<close>.\<close>

primrec balloc_scan :: "nat \<Rightarrow> block \<Rightarrow> nat \<Rightarrow> nat \<Rightarrow> nat \<Rightarrow> nat option" where
  "balloc_scan 0 d sz b bi = None"
| "balloc_scan (Suc k) d sz b bi =
     (if b + bi < sz
      then if \<not> bmbit d bi then Some bi else balloc_scan k d sz b (Suc bi)
      else None)"

primrec balloc_loop :: "nat \<Rightarrow> uint \<Rightarrow> nat \<Rightarrow> ('z fs_st_scheme, uint) km" where
  "balloc_loop 0 dev b = stop_with Diverge"
| "balloc_loop (Suc fuel) dev b = bnd get (\<lambda>s.
     if b < unat (sb_size (sb s))
     then bnd (bread dev (BBLOCK (of_nat b) (sb s))) (\<lambda>bp.
          bnd get (\<lambda>s.
          case balloc_scan BPB (b_data (bufs s bp)) (unat (sb_size (sb s))) b 0 of
            Some bi \<Rightarrow>
              bnd (set_data bp (bmset bi)) (\<lambda>_.
              bnd (log_write bp) (\<lambda>_.
              bnd (brelse bp) (\<lambda>_.
              bnd (bzero dev (of_nat (b + bi))) (\<lambda>_.
              ret (of_nat (b + bi))))))
          | None \<Rightarrow> bnd (brelse bp) (\<lambda>_. balloc_loop fuel dev (b + BPB))))
     else ret 0)"

definition balloc :: "uint \<Rightarrow> ('z fs_st_scheme, uint) km" where
  "balloc dev = bnd get (\<lambda>s. balloc_loop (Suc (Suc (unat (sb_size (sb s)) div BPB))) dev 0)"

definition bfree :: "uint \<Rightarrow> uint \<Rightarrow> ('z fs_st_scheme, unit) km" where
  "bfree dev b = bnd get (\<lambda>s.
     bnd (bread dev (BBLOCK b (sb s))) (\<lambda>bp.
     bnd get (\<lambda>s.
     let bi = unat b mod BPB in
     if \<not> bmbit (b_data (bufs s bp)) bi then panic ''freeing free block''
     else bnd (set_data bp (bmclear bi)) (\<lambda>_.
          bnd (log_write bp) (\<lambda>_.
          brelse bp)))))"

section \<open>Inodes\<close>

definition upd_inode :: "nat \<Rightarrow> (inode \<Rightarrow> inode) \<Rightarrow> ('z fs_st_scheme, unit) km" where
  "upd_inode ip f = modify (\<lambda>s. s\<lparr>inodes := (inodes s)(ip := f (inodes s ip))\<rparr>)"

definition iinit :: "('z fs_st_scheme, unit) km" where
  "iinit = for_each [0..<NINODE] (\<lambda>i. upd_inode i (\<lambda>x. x\<lparr>i_lock := initsleeplock\<rparr>))"

text \<open>The scan of \<^verbatim>\<open>iget\<close>: the entry already in the table, or else the first free one.\<close>

fun iget_scan :: "(nat \<Rightarrow> inode) \<Rightarrow> uint \<Rightarrow> uint \<Rightarrow> nat list \<Rightarrow> nat option \<Rightarrow> nat + nat option" where
  "iget_scan I dev inum [] emp = Inr emp"
| "iget_scan I dev inum (ip # ips) emp =
     (if i_ref (I ip) > 0 \<and> i_dev (I ip) = dev \<and> i_inum (I ip) = inum then Inl ip
      else iget_scan I dev inum ips (if emp = None \<and> i_ref (I ip) = 0 then Some ip else emp))"

definition iget :: "uint \<Rightarrow> uint \<Rightarrow> ('z fs_st_scheme, nat) km" where
  "iget dev inum = bnd get (\<lambda>s.
     case iget_scan (inodes s) dev inum [0..<NINODE] None of
       Inl ip \<Rightarrow> bnd (upd_inode ip (\<lambda>x. x\<lparr>i_ref := i_ref x + 1\<rparr>)) (\<lambda>_. ret ip)
     | Inr None \<Rightarrow> panic ''iget: no inodes''
     | Inr (Some ip) \<Rightarrow>
         bnd (upd_inode ip (\<lambda>x. x\<lparr>i_dev := dev, i_inum := inum, i_ref := 1, i_valid := False\<rparr>)) (\<lambda>_. ret ip))"

primrec ialloc_loop :: "nat \<Rightarrow> uint \<Rightarrow> 16 word \<Rightarrow> uint \<Rightarrow> ('z fs_st_scheme, nat option) km" where
  "ialloc_loop 0 dev type inum = stop_with Diverge"
| "ialloc_loop (Suc fuel) dev type inum = bnd get (\<lambda>s.
     if inum < sb_ninodes (sb s)
     then bnd (bread dev (IBLOCK inum (sb s))) (\<lambda>bp.
          bnd get (\<lambda>s.
          let off = dinode_off inum in
          if get16 (b_data (bufs s bp)) off = 0
          then bnd (set_data bp (\<lambda>d. put16 (\<lambda>a. if unat (a - of_nat off) < 64 then 0 else d a) off type)) (\<lambda>_.
               bnd (log_write bp) (\<lambda>_.
               bnd (brelse bp) (\<lambda>_.
               bnd (iget dev inum) (\<lambda>ip. ret (Some ip)))))
          else bnd (brelse bp) (\<lambda>_. ialloc_loop fuel dev type (inum + 1))))
     else ret None)"

definition ialloc :: "uint \<Rightarrow> 16 word \<Rightarrow> ('z fs_st_scheme, nat option) km" where
  "ialloc dev type = bnd get (\<lambda>s. ialloc_loop (Suc (unat (sb_ninodes (sb s)))) dev type 1)"

definition iupdate :: "nat \<Rightarrow> ('z fs_st_scheme, unit) km" where
  "iupdate ip = bnd get (\<lambda>s.
     let x = inodes s ip in
     bnd (bread (i_dev x) (IBLOCK (i_inum x) (sb s))) (\<lambda>bp.
     bnd (set_data bp (put_dinode x (dinode_off (i_inum x)))) (\<lambda>_.
     bnd (log_write bp) (\<lambda>_.
     brelse bp))))"

definition idup :: "nat \<Rightarrow> ('z fs_st_scheme, nat) km" where
  "idup ip = bnd (upd_inode ip (\<lambda>x. x\<lparr>i_ref := i_ref x + 1\<rparr>)) (\<lambda>_. ret ip)"

definition lock_inode :: "nat \<Rightarrow> ('z fs_st_scheme, unit) km" where
  "lock_inode ip = bnd get (\<lambda>s.
     case acquiresleep (mypid s) (i_lock (inodes s ip)) of
       Inl e \<Rightarrow> stop_with e
     | Inr lk \<Rightarrow> upd_inode ip (\<lambda>x. x\<lparr>i_lock := lk\<rparr>))"

definition ilock :: "nat \<Rightarrow> ('z fs_st_scheme, unit) km" where
  "ilock ip = bnd get (\<lambda>s.
     if i_ref (inodes s ip) < 1 then panic ''ilock''
     else bnd (lock_inode ip) (\<lambda>_.
       if i_valid (inodes s ip) then skip
       else bnd (bread (i_dev (inodes s ip)) (IBLOCK (i_inum (inodes s ip)) (sb s))) (\<lambda>bp.
            bnd get (\<lambda>s.
            bnd (upd_inode ip (get_dinode (b_data (bufs s bp)) (dinode_off (i_inum (inodes s ip))))) (\<lambda>_.
            bnd (brelse bp) (\<lambda>_.
            bnd (upd_inode ip (\<lambda>x. x\<lparr>i_valid := True\<rparr>)) (\<lambda>_.
            bnd get (\<lambda>s.
            if i_type (inodes s ip) = 0 then panic ''ilock: no type'' else skip))))))))"

definition iunlock :: "nat \<Rightarrow> ('z fs_st_scheme, unit) km" where
  "iunlock ip = bnd get (\<lambda>s.
     if \<not> holdingsleep (mypid s) (i_lock (inodes s ip)) \<or> i_ref (inodes s ip) < 1 then panic ''iunlock''
     else upd_inode ip (\<lambda>x. x\<lparr>i_lock := releasesleep (i_lock x)\<rparr>))"

section \<open>Contents of an inode\<close>

text \<open>\<^verbatim>\<open>ip->addrs[k]\<close>, allocating a block for it when there is none.\<close>

definition addr_or_alloc :: "nat \<Rightarrow> nat \<Rightarrow> ('z fs_st_scheme, uint) km" where
  "addr_or_alloc ip k = bnd get (\<lambda>s.
     if i_addrs (inodes s ip) k \<noteq> 0 then ret (i_addrs (inodes s ip) k)
     else bnd (balloc (i_dev (inodes s ip))) (\<lambda>addr.
          if addr = 0 then ret 0
          else bnd (upd_inode ip (\<lambda>x. x\<lparr>i_addrs := (i_addrs x)(k := addr)\<rparr>)) (\<lambda>_. ret addr)))"

definition bmap :: "nat \<Rightarrow> uint \<Rightarrow> ('z fs_st_scheme, uint) km" where
  "bmap ip bn =
     (if bn < of_nat NDIRECT then addr_or_alloc ip (unat bn)
      else if bn - of_nat NDIRECT < of_nat NINDIRECT
      then let k = unat (bn - of_nat NDIRECT) in
        bnd (addr_or_alloc ip NDIRECT) (\<lambda>addr.
        if addr = 0 then ret 0
        else bnd get (\<lambda>s.
          bnd (bread (i_dev (inodes s ip)) addr) (\<lambda>bp.
          bnd get (\<lambda>s.
          if get32 (b_data (bufs s bp)) (4 * k) \<noteq> 0
          then bnd (brelse bp) (\<lambda>_. ret (get32 (b_data (bufs s bp)) (4 * k)))
          else bnd (balloc (i_dev (inodes s ip))) (\<lambda>addr.
               bnd (if addr \<noteq> 0
                    then bnd (set_data bp (\<lambda>d. put32 d (4 * k) addr)) (\<lambda>_. log_write bp)
                    else skip) (\<lambda>_.
               bnd (brelse bp) (\<lambda>_. ret addr)))))))
      else panic ''bmap: out of range'')"

definition itrunc :: "nat \<Rightarrow> ('z fs_st_scheme, unit) km" where
  "itrunc ip =
     bnd (for_each [0..<NDIRECT] (\<lambda>i. bnd get (\<lambda>s.
       if i_addrs (inodes s ip) i \<noteq> 0
       then bnd (bfree (i_dev (inodes s ip)) (i_addrs (inodes s ip) i)) (\<lambda>_.
            upd_inode ip (\<lambda>x. x\<lparr>i_addrs := (i_addrs x)(i := 0)\<rparr>))
       else skip))) (\<lambda>_.
     bnd get (\<lambda>s.
     bnd (if i_addrs (inodes s ip) NDIRECT \<noteq> 0
          then bnd (bread (i_dev (inodes s ip)) (i_addrs (inodes s ip) NDIRECT)) (\<lambda>bp.
               bnd (for_each [0..<NINDIRECT] (\<lambda>j. bnd get (\<lambda>s.
                 if get32 (b_data (bufs s bp)) (4 * j) \<noteq> 0
                 then bfree (i_dev (inodes s ip)) (get32 (b_data (bufs s bp)) (4 * j))
                 else skip))) (\<lambda>_.
               bnd (brelse bp) (\<lambda>_.
               bnd (bfree (i_dev (inodes s ip)) (i_addrs (inodes s ip) NDIRECT)) (\<lambda>_.
               upd_inode ip (\<lambda>x. x\<lparr>i_addrs := (i_addrs x)(NDIRECT := 0)\<rparr>)))))
          else skip) (\<lambda>_.
     bnd (upd_inode ip (\<lambda>x. x\<lparr>i_size := 0\<rparr>)) (\<lambda>_.
     iupdate ip))))"

definition iput :: "nat \<Rightarrow> ('z fs_st_scheme, unit) km" where
  "iput ip = bnd get (\<lambda>s.
     bnd (if i_ref (inodes s ip) = 1 \<and> i_valid (inodes s ip) \<and> i_nlink (inodes s ip) = 0
          then bnd (lock_inode ip) (\<lambda>_.
               bnd (itrunc ip) (\<lambda>_.
               bnd (upd_inode ip (\<lambda>x. x\<lparr>i_type := 0\<rparr>)) (\<lambda>_.
               bnd (iupdate ip) (\<lambda>_.
               bnd (upd_inode ip (\<lambda>x. x\<lparr>i_valid := False\<rparr>)) (\<lambda>_.
               upd_inode ip (\<lambda>x. x\<lparr>i_lock := releasesleep (i_lock x)\<rparr>))))))
          else skip) (\<lambda>_.
     upd_inode ip (\<lambda>x. x\<lparr>i_ref := i_ref x - 1\<rparr>)))"

definition iunlockput :: "nat \<Rightarrow> ('z fs_st_scheme, unit) km" where
  "iunlockput ip = bnd (iunlock ip) (\<lambda>_. iput ip)"

definition ireclaim_one :: "uint \<Rightarrow> uint \<Rightarrow> ('z fs_st_scheme, unit) km" where
  "ireclaim_one dev inum = bnd get (\<lambda>s.
     bnd (bread dev (IBLOCK inum (sb s))) (\<lambda>bp.
     bnd get (\<lambda>s.
     let d = b_data (bufs s bp); off = dinode_off inum in
     bnd (if get16 d off \<noteq> 0 \<and> get16 d (off + 6) = 0
          then bnd (iget dev inum) (\<lambda>ip. ret (Some ip)) else ret None) (\<lambda>ip.
     bnd (brelse bp) (\<lambda>_.
     case ip of
       None \<Rightarrow> skip
     | Some ip \<Rightarrow>
         bnd begin_op (\<lambda>_.
         bnd (ilock ip) (\<lambda>_.
         bnd (iunlock ip) (\<lambda>_.
         bnd (iput ip) (\<lambda>_.
         end_op)))))))))"

definition ireclaim :: "uint \<Rightarrow> ('z fs_st_scheme, unit) km" where
  "ireclaim dev = bnd get (\<lambda>s.
     for_each [1..<unat (sb_ninodes (sb s))] (\<lambda>inum. ireclaim_one dev (of_nat inum)))"

definition fsinit :: "uint \<Rightarrow> ('z fs_st_scheme, unit) km" where
  "fsinit dev =
     bnd (readsb dev) (\<lambda>_.
     bnd get (\<lambda>s.
     if sb_magic (sb s) \<noteq> FSMAGIC then panic ''invalid file system''
     else bnd (initlog dev (sb_logstart (sb s))) (\<lambda>_.
          ireclaim dev)))"

record stat =
  st_dev :: uint
  st_ino :: uint
  st_type :: "16 word"
  st_nlink :: "16 word"
  st_size :: "64 word"

definition stati :: "nat \<Rightarrow> ('z fs_st_scheme, stat) km" where
  "stati ip = bnd get (\<lambda>s. let x = inodes s ip in
     ret \<lparr>st_dev = i_dev x, st_ino = i_inum x, st_type = i_type x, st_nlink = i_nlink x, st_size = ucast (i_size x)\<rparr>)"

text \<open>The bytes of a buffer from offset \<open>k\<close> on, and a buffer with these bytes replaced.\<close>

definition data_at :: "block \<Rightarrow> nat \<Rightarrow> obj" where
  "data_at d k = (\<lambda>i. d (of_nat (k + i)))"

definition put_data_at :: "obj \<Rightarrow> nat \<Rightarrow> block \<Rightarrow> block" where
  "put_data_at f k d = (\<lambda>a. if k \<le> unat a then f (unat a - k) else d a)"

primrec readi_loop ::
  "nat \<Rightarrow> nat \<Rightarrow> bool \<Rightarrow> addr \<Rightarrow> uint \<Rightarrow> uint \<Rightarrow> uint \<Rightarrow> ('z fs_st_scheme, uint) km" where
  "readi_loop 0 ip user_dst dst off n tot = stop_with Diverge"
| "readi_loop (Suc fuel) ip user_dst dst off n tot =
     (if tot < n
      then bnd (bmap ip (off div of_nat BSIZE)) (\<lambda>addr.
        if addr = 0 then ret tot
        else bnd get (\<lambda>s.
          bnd (bread (i_dev (inodes s ip)) addr) (\<lambda>bp.
          bnd get (\<lambda>s.
          let m = min (n - tot) (of_nat BSIZE - off mod of_nat BSIZE) in
          bnd (either_copyout user_dst dst (data_at (b_data (bufs s bp)) (unat off mod BSIZE)) (ucast m)) (\<lambda>r.
          bnd (brelse bp) (\<lambda>_.
          if r = - 1 then ret (- 1)
          else readi_loop fuel ip user_dst (dst + ucast m) (off + m) n (tot + m)))))))
      else ret tot)"

definition readi :: "nat \<Rightarrow> bool \<Rightarrow> addr \<Rightarrow> uint \<Rightarrow> uint \<Rightarrow> ('z fs_st_scheme, uint) km" where
  "readi ip user_dst dst off n = bnd get (\<lambda>s.
     let sz = i_size (inodes s ip) in
     if off > sz \<or> off + n < off then ret 0
     else let n = (if off + n > sz then sz - off else n) in
          readi_loop (Suc (unat n)) ip user_dst dst off n 0)"

text \<open>The loop of \<^verbatim>\<open>writei\<close> returns \<open>tot\<close> and \<open>off\<close>.\<close>

primrec writei_loop ::
  "nat \<Rightarrow> nat \<Rightarrow> bool \<Rightarrow> addr \<Rightarrow> uint \<Rightarrow> uint \<Rightarrow> uint \<Rightarrow> ('z fs_st_scheme, uint \<times> uint) km" where
  "writei_loop 0 ip user_src src off n tot = stop_with Diverge"
| "writei_loop (Suc fuel) ip user_src src off n tot =
     (if tot < n
      then bnd (bmap ip (off div of_nat BSIZE)) (\<lambda>addr.
        if addr = 0 then ret (tot, off)
        else bnd get (\<lambda>s.
          bnd (bread (i_dev (inodes s ip)) addr) (\<lambda>bp.
          bnd get (\<lambda>s.
          let m = min (n - tot) (of_nat BSIZE - off mod of_nat BSIZE); k = unat off mod BSIZE in
          bnd (either_copyin (data_at (b_data (bufs s bp)) k) user_src src (ucast m)) (\<lambda>(r, d).
          bnd (set_data bp (put_data_at d k)) (\<lambda>_.
          if r = - 1 then bnd (brelse bp) (\<lambda>_. ret (tot, off))
          else bnd (log_write bp) (\<lambda>_.
               bnd (brelse bp) (\<lambda>_.
               writei_loop fuel ip user_src (src + ucast m) (off + m) n (tot + m)))))))))
      else ret (tot, off))"

definition writei :: "nat \<Rightarrow> bool \<Rightarrow> addr \<Rightarrow> uint \<Rightarrow> uint \<Rightarrow> ('z fs_st_scheme, uint) km" where
  "writei ip user_src src off n = bnd get (\<lambda>s.
     if off > i_size (inodes s ip) \<or> off + n < off then ret (- 1)
     else if off + n > of_nat (MAXFILE * BSIZE) then ret (- 1)
     else bnd (writei_loop (Suc (unat n)) ip user_src src off n 0) (\<lambda>(tot, off).
          bnd (upd_inode ip (\<lambda>x. if off > i_size x then x\<lparr>i_size := off\<rparr> else x)) (\<lambda>_.
          bnd (iupdate ip) (\<lambda>_. ret tot))))"

section \<open>Directories\<close>

abbreviation DE :: "'z fs_st_scheme \<Rightarrow> addr" where "DE s \<equiv> kstk s"
abbreviation NAMEBUF :: "'z fs_st_scheme \<Rightarrow> addr" where "NAMEBUF s \<equiv> kstk s + 16"

definition namecmp :: "memory \<Rightarrow> addr \<Rightarrow> addr \<Rightarrow> int" where
  "namecmp m p q = strncmp m p q (of_nat DIRSIZ)"

text \<open>The fields of the local \<^verbatim>\<open>struct dirent de\<close> in memory.\<close>

definition de_inum :: "memory \<Rightarrow> addr \<Rightarrow> 16 word" where
  "de_inum m a = le_get 2 (\<lambda>i. m (a + of_nat i))"

definition set_de_inum :: "memory \<Rightarrow> addr \<Rightarrow> 16 word \<Rightarrow> memory" where
  "set_de_inum m a v = m(a := byte_of v 0, a + 1 := byte_of v 1)"

text \<open>The result of \<^verbatim>\<open>dirlookup\<close>: the inode with the offset of its entry, which the code stores in \<^verbatim>\<open>*poff\<close>.\<close>

primrec dirlookup_loop :: "nat \<Rightarrow> nat \<Rightarrow> addr \<Rightarrow> uint \<Rightarrow> ('z fs_st_scheme, (nat \<times> uint) option) km" where
  "dirlookup_loop 0 dp name off = stop_with Diverge"
| "dirlookup_loop (Suc fuel) dp name off = bnd get (\<lambda>s.
     if off < i_size (inodes s dp)
     then bnd (readi dp False (DE s) off 16) (\<lambda>r.
       if r \<noteq> 16 then panic ''dirlookup read''
       else bnd get (\<lambda>s.
         if de_inum (mem s) (DE s) = 0 then dirlookup_loop fuel dp name (off + 16)
         else if namecmp (mem s) name (DE s + 2) = 0
         then bnd (iget (i_dev (inodes s dp)) (ucast (de_inum (mem s) (DE s)))) (\<lambda>ip. ret (Some (ip, off)))
         else dirlookup_loop fuel dp name (off + 16)))
     else ret None)"

definition dirlookup :: "nat \<Rightarrow> addr \<Rightarrow> ('z fs_st_scheme, (nat \<times> uint) option) km" where
  "dirlookup dp name = bnd get (\<lambda>s.
     if i_type (inodes s dp) \<noteq> T_DIR then panic ''dirlookup not DIR''
     else dirlookup_loop (Suc (Suc (unat (i_size (inodes s dp)) div 16))) dp name 0)"

text \<open>The offset of the first free entry, or the size of the directory.\<close>

primrec dirlink_loop :: "nat \<Rightarrow> nat \<Rightarrow> uint \<Rightarrow> ('z fs_st_scheme, uint) km" where
  "dirlink_loop 0 dp off = stop_with Diverge"
| "dirlink_loop (Suc fuel) dp off = bnd get (\<lambda>s.
     if off < i_size (inodes s dp)
     then bnd (readi dp False (DE s) off 16) (\<lambda>r.
       if r \<noteq> 16 then panic ''dirlink read''
       else bnd get (\<lambda>s.
         if de_inum (mem s) (DE s) = 0 then ret off else dirlink_loop fuel dp (off + 16)))
     else ret off)"

definition dirlink :: "nat \<Rightarrow> addr \<Rightarrow> uint \<Rightarrow> ('z fs_st_scheme, int) km" where
  "dirlink dp name inum =
     bnd (dirlookup dp name) (\<lambda>found.
     case found of
       Some (ip, _) \<Rightarrow> bnd (iput ip) (\<lambda>_. ret (- 1))
     | None \<Rightarrow> bnd get (\<lambda>s.
         bnd (dirlink_loop (Suc (Suc (unat (i_size (inodes s dp)) div 16))) dp 0) (\<lambda>off.
         bnd (modify (\<lambda>s. s\<lparr>mem := strncpy (mem s) (DE s + 2) name (of_nat DIRSIZ)\<rparr>)) (\<lambda>_.
         bnd (modify (\<lambda>s. s\<lparr>mem := set_de_inum (mem s) (DE s) (ucast inum)\<rparr>)) (\<lambda>_.
         bnd (writei dp False (DE s) off 16) (\<lambda>r.
         if r \<noteq> 16 then ret (- 1) else ret 0))))))"

section \<open>Paths\<close>

partial_function (option) skip_slashes :: "memory \<Rightarrow> addr \<Rightarrow> addr option" where
  "skip_slashes m path = (if m path = 47 then skip_slashes m (path + 1) else Some path)"

partial_function (option) skip_name :: "memory \<Rightarrow> addr \<Rightarrow> addr option" where
  "skip_name m path = (if m path \<noteq> 47 \<and> m path \<noteq> 0 then skip_name m (path + 1) else Some path)"

text \<open>\<^verbatim>\<open>skipelem\<close> returns the rest of the path (0 when there is no element) and the memory.\<close>

definition skipelem :: "memory \<Rightarrow> addr \<Rightarrow> addr \<Rightarrow> (addr \<times> memory) option" where
  "skipelem m path name =
     (case skip_slashes m path of None \<Rightarrow> None | Some s \<Rightarrow>
      if m s = 0 then Some (0, m)
      else case skip_name m s of None \<Rightarrow> None | Some e \<Rightarrow>
        let len = ucast (e - s) :: 32 word;
            m' = (if sint len \<ge> int DIRSIZ then memmove m name s (of_nat DIRSIZ)
                  else (memmove m name s len)(name + scast len := 0))
        in case skip_slashes m' e of None \<Rightarrow> None | Some p \<Rightarrow> Some (p, m'))"

primrec namex_loop :: "nat \<Rightarrow> nat \<Rightarrow> addr \<Rightarrow> bool \<Rightarrow> addr \<Rightarrow> ('z fs_st_scheme, nat option) km" where
  "namex_loop 0 ip path nameiparent name = stop_with Diverge"
| "namex_loop (Suc fuel) ip path nameiparent name = bnd get (\<lambda>s.
     case skipelem (mem s) path name of
       None \<Rightarrow> stop_with Diverge
     | Some (path, m) \<Rightarrow>
       bnd (modify (\<lambda>s. s\<lparr>mem := m\<rparr>)) (\<lambda>_.
       if path = 0
       then if nameiparent then bnd (iput ip) (\<lambda>_. ret None) else ret (Some ip)
       else bnd (ilock ip) (\<lambda>_.
            bnd get (\<lambda>s.
            if i_type (inodes s ip) \<noteq> T_DIR then bnd (iunlockput ip) (\<lambda>_. ret None)
            else if nameiparent \<and> m path = 0 then bnd (iunlock ip) (\<lambda>_. ret (Some ip))
            else bnd (dirlookup ip name) (\<lambda>next.
              case next of
                None \<Rightarrow> bnd (iunlockput ip) (\<lambda>_. ret None)
              | Some (next, _) \<Rightarrow> bnd (iunlockput ip) (\<lambda>_. namex_loop fuel next path nameiparent name))))))"

text \<open>Each turn consumes a character of the path, so its length bounds the turns.\<close>

definition namex :: "addr \<Rightarrow> bool \<Rightarrow> addr \<Rightarrow> ('z fs_st_scheme, nat option) km" where
  "namex path nameiparent name = bnd get (\<lambda>s.
     bnd (if mem s path = 47 then iget ROOTDEV ROOTINO else idup (pcwd s)) (\<lambda>ip.
     case strlen (mem s) path of
       None \<Rightarrow> stop_with Diverge
     | Some n \<Rightarrow> namex_loop (Suc n) ip path nameiparent name))"

definition namei :: "addr \<Rightarrow> ('z fs_st_scheme, nat option) km" where
  "namei path = bnd get (\<lambda>s. namex path False (NAMEBUF s))"

definition nameiparent :: "addr \<Rightarrow> addr \<Rightarrow> ('z fs_st_scheme, nat option) km" where
  "nameiparent path name = namex path True name"

end
