(* ===== verification/Txn.thy ===== *)
theory Txn
  imports Log_Op Fs
begin

text \<open>
  How the file system uses blocks inside a transaction: it reads a block, may change it and
  record it in the log, and releases it. The locale states what these three steps promise; the
  file-system theories use the two patterns proved in it. \<open>in_txn s H\<close> is the state of a running
  transaction whose process has the blocks \<open>H\<close> locked and in which every other block is idle.
\<close>

section \<open>The interface\<close>

locale block_store =
  fixes rd :: "uint \<Rightarrow> ('s, nat) km" and wr :: "nat \<Rightarrow> (block \<Rightarrow> block) \<Rightarrow> ('s, unit) km"
    and rel :: "nat \<Rightarrow> ('s, unit) km" and peek :: "'s \<Rightarrow> nat \<Rightarrow> block"
    and ok :: "'s \<Rightarrow> uint set \<Rightarrow> bool" and vw :: "'s \<Rightarrow> uint \<Rightarrow> block" and lg :: "'s \<Rightarrow> uint set"
    and hd :: "'s \<Rightarrow> uint \<Rightarrow> nat \<Rightarrow> bool" and only :: "'s \<Rightarrow> 's \<Rightarrow> bool"
  assumes rd_law: "ok s H \<Longrightarrow> x \<notin> H \<Longrightarrow> card (insert x (H \<union> lg s)) \<le> NBUF \<Longrightarrow>
      \<exists>b t. rd x s = Inr (b, t) \<and> ok t (insert x H) \<and> hd t x b \<and> vw t = vw s \<and> lg t = lg s \<and> only s t \<and>
        (\<forall>y c. y \<noteq> x \<longrightarrow> hd s y c \<longrightarrow> hd t y c)"
    and wr_law: "ok s H \<Longrightarrow> hd s x b \<Longrightarrow> x \<in> H \<Longrightarrow> card (lg s) < LOGBLOCKS \<Longrightarrow>
      \<exists>t. wr b f s = Inr ((), t) \<and> ok t H \<and> hd t x b \<and> vw t = (vw s)(x := f (vw s x)) \<and>
        lg t = insert x (lg s) \<and> only s t \<and> (\<forall>y c. y \<noteq> x \<longrightarrow> hd s y c \<longrightarrow> hd t y c)"
    and rel_law: "ok s H \<Longrightarrow> hd s x b \<Longrightarrow> x \<in> H \<Longrightarrow>
      \<exists>t. rel b s = Inr ((), t) \<and> ok t (H - {x}) \<and> vw t = vw s \<and> lg t = lg s \<and> only s t \<and>
        (\<forall>y c. y \<noteq> x \<longrightarrow> hd s y c \<longrightarrow> hd t y c)"
    and peek_law: "ok s H \<Longrightarrow> hd s x b \<Longrightarrow> peek s b = vw s x"
    and only_trans: "only s t \<Longrightarrow> only t u \<Longrightarrow> only s u"
begin

text \<open>Reading a block and releasing it changes nothing.\<close>

lemma read_release:
  assumes "ok s H" "x \<notin> H" "card (insert x (H \<union> lg s)) \<le> NBUF"
  shows "\<exists>b t u. rd x s = Inr (b, t) \<and> only s t \<and> peek t b = vw s x \<and> rel b t = Inr ((), u) \<and>
    ok u H \<and> vw u = vw s \<and> lg u = lg s \<and> only s u \<and> (\<forall>y c. y \<in> H \<longrightarrow> hd s y c \<longrightarrow> hd u y c)"
proof -
  obtain b t where t: "rd x s = Inr (b, t)" "ok t (insert x H)" "hd t x b" "vw t = vw s" "lg t = lg s" "only s t"
    "\<forall>y c. y \<noteq> x \<longrightarrow> hd s y c \<longrightarrow> hd t y c"
    using rd_law [OF assms] by blast
  obtain u where u: "rel b t = Inr ((), u)" "ok u (insert x H - {x})" "vw u = vw t" "lg u = lg t" "only t u"
    "\<forall>y c. y \<noteq> x \<longrightarrow> hd t y c \<longrightarrow> hd u y c"
    using rel_law [OF t(2,3)] by blast
  have "ok u H" using u(2) assms(2) by simp
  moreover have "\<forall>y c. y \<in> H \<longrightarrow> hd s y c \<longrightarrow> hd u y c" using t(7) u(6) assms(2) by metis
  ultimately show ?thesis using t u peek_law [OF t(2,3)] only_trans [OF t(6) u(5)] by auto
qed

text \<open>Reading a block, changing it in the log and releasing it changes just that block.\<close>

lemma change_release:
  assumes "ok s H" "x \<notin> H" "card (insert x (H \<union> lg s)) \<le> NBUF" "card (lg s) < LOGBLOCKS"
  shows "\<exists>b t u. rd x s = Inr (b, t) \<and> only s t \<and> peek t b = vw s x \<and> bnd (wr b f) (\<lambda>_. rel b) t = Inr ((), u) \<and>
    ok u H \<and> vw u = (vw s)(x := f (vw s x)) \<and> lg u = insert x (lg s) \<and> only s u \<and>
    (\<forall>y c. y \<in> H \<longrightarrow> hd s y c \<longrightarrow> hd u y c)"
proof -
  obtain b t where t: "rd x s = Inr (b, t)" "ok t (insert x H)" "hd t x b" "vw t = vw s" "lg t = lg s" "only s t"
    "\<forall>y c. y \<noteq> x \<longrightarrow> hd s y c \<longrightarrow> hd t y c"
    using rd_law [OF assms(1-3)] by blast
  obtain v where v: "wr b f t = Inr ((), v)" "ok v (insert x H)" "hd v x b" "vw v = (vw t)(x := f (vw t x))"
    "lg v = insert x (lg t)" "only t v" "\<forall>y c. y \<noteq> x \<longrightarrow> hd t y c \<longrightarrow> hd v y c"
    using wr_law [OF t(2,3), of f] assms(4) t(5) by auto
  obtain u where u: "rel b v = Inr ((), u)" "ok u (insert x H - {x})" "vw u = vw v" "lg u = lg v" "only v u"
    "\<forall>y c. y \<noteq> x \<longrightarrow> hd v y c \<longrightarrow> hd u y c"
    using rel_law [OF v(2,3)] by blast
  have "ok u H" using u(2) assms(2) by simp
  moreover have "\<forall>y c. y \<in> H \<longrightarrow> hd s y c \<longrightarrow> hd u y c" using t(7) v(7) u(6) assms(2) by metis
  moreover have "bnd (wr b f) (\<lambda>_. rel b) t = Inr ((), u)" using v(1) u(1) by (simp add: run_simps)
  moreover have "only s u" using t(6) v(6) u(5) only_trans by blast
  ultimately show ?thesis
    using t u v peek_law [OF t(2,3)] by (intro exI [of _ b] exI [of _ t] exI [of _ u]) simp
qed

end

section \<open>The log as a block store\<close>

definition logged :: "'z log_st_scheme \<Rightarrow> uint set" where
  "logged s = lh_block s ` {..<nat (lh_n s)}"

definition in_txn :: "'z log_st_scheme \<Rightarrow> uint set \<Rightarrow> bool" where
  "in_txn s H \<longleftrightarrow> bcache_ok s \<and> 1 \<le> log_outstanding s \<and> 0 \<le> lh_n s \<and> inj_on (lh_block s) {..<nat (lh_n s)} \<and>
     held s = (\<lambda>x. if x \<in> H then Some (mypid s) else None) \<and>
     refs s = (\<lambda>x. (if x \<in> logged s then 1 else 0) + (if x \<in> H then 1 else 0)) \<and>
     (\<forall>x. x \<notin> logged s \<longrightarrow> view s x = disk s x) \<and> finite H"

definition log_update :: "nat \<Rightarrow> (block \<Rightarrow> block) \<Rightarrow> ('z log_st_scheme, unit) km" where
  "log_update b f = bnd (set_data b f) (\<lambda>_. log_write b)"

lemma log_only_fields:
  "log_only s t \<Longrightarrow> mypid t = mypid s" "log_only s t \<Longrightarrow> mem t = mem s" "log_only s t \<Longrightarrow> log_start t = log_start s"
  "log_only s t \<Longrightarrow> log_dev t = log_dev s" "log_only s t \<Longrightarrow> log_outstanding t = log_outstanding s"
  unfolding log_only_def by (cases s, cases t, simp)+

lemma log_only_fs:
  fixes s t :: "'z fs_st_scheme"
  assumes "log_only s t"
  shows "sb t = sb s" "inodes t = inodes s" "pcwd t = pcwd s" "kstk t = kstk s"
  using assms unfolding log_only_def by (cases s, cases t, simp)+

lemma in_txnD:
  assumes "in_txn s H"
  shows "bcache_ok s" "1 \<le> log_outstanding s" "0 \<le> lh_n s" "inj_on (lh_block s) {..<nat (lh_n s)}"
    "held s x = (if x \<in> H then Some (mypid s) else None)"
    "refs s x = (if x \<in> logged s then 1 else 0) + (if x \<in> H then 1 else 0)"
    "x \<notin> logged s \<Longrightarrow> view s x = disk s x" "finite H"
  using assms by (simp_all add: in_txn_def)

lemma logged_card: "in_txn s H \<Longrightarrow> card (logged s) = nat (lh_n s)"
  by (simp add: logged_def in_txn_def card_image)

lemma finite_logged [simp]: "finite (logged s)"
  by (simp add: logged_def)

lemma bio_only_logged: "bio_only s t \<Longrightarrow> logged t = logged s"
  using bio_only_log [of s t] by (simp add: logged_def)

lemma txn_bread:
  assumes "in_txn s H" "x \<notin> H" "card (insert x (H \<union> logged s)) \<le> NBUF"
  shows "\<exists>b t. bread ROOTDEV x s = Inr (b, t) \<and> in_txn t (insert x H) \<and> handle t x b \<and> view t = view s \<and>
    logged t = logged s \<and> log_only s t \<and> kept s t x"
proof -
  note D = in_txnD [OF assms(1)]
  have supp: "{y. refs s y \<noteq> 0} = H \<union> logged s" using D(6) by auto
  have pre: "held s x = None" "refs s x < 2 ^ 32 - 1" using D(5,6) assms(2) by simp_all
  have room: "refs s x \<noteq> 0 \<or> card {y. refs s y \<noteq> 0} < NBUF"
  proof (cases "x \<in> logged s")
    case False
    then have "card (insert x (H \<union> logged s)) = Suc (card (H \<union> logged s))" using assms(2) D(8) by simp
    then show ?thesis using assms(3) supp by simp
  qed (simp add: D(6))
  obtain b t where t: "bread ROOTDEV x s = Inr (b, t)" "bcache_ok t" "bio_only s t" "handle t x b" "view t = view s"
    "refs t = (refs s)(x := Suc (refs s x))" "held t = (held s)(x := Some (mypid s))" "disk t = disk s" "kept s t x"
    using bread_ok [OF D(1) pre room] by blast
  note L = bio_only_log [OF t(3)] bio_only_logged [OF t(3)] bio_only_pid [OF t(3)]
  have "inj_on (lh_block t) {..<nat (lh_n t)}" using D(4) L by simp
  moreover have "held t = (\<lambda>y. if y \<in> insert x H then Some (mypid t) else None)"
    "refs t = (\<lambda>y. (if y \<in> logged t then 1 else 0) + (if y \<in> insert x H then 1 else 0))"
    using t(6,7) D(5,6) assms(2) L by (auto simp: fun_eq_iff)
  ultimately have "in_txn t (insert x H)"
    unfolding in_txn_def using t(2,5,8) D(2,3,7,8) L by simp
  then show ?thesis using t L bio_only_log_only [OF t(3)] by blast
qed

lemma txn_update:
  assumes "in_txn s H" "handle s x b" "x \<in> H" "card (logged s) < LOGBLOCKS"
  shows "\<exists>t. log_update b f s = Inr ((), t) \<and> in_txn t H \<and> handle t x b \<and> view t = (view s)(x := f (view s x)) \<and>
    logged t = insert x (logged s) \<and> log_only s t \<and> kept s t x"
proof -
  note D = in_txnD [OF assms(1)]
  obtain u where u: "set_data b f s = Inr ((), u)" "bcache_ok u" "bio_only s u" "handle u x b"
    "view u = (view s)(x := f (view s x))" "refs u = refs s" "held u = held s" "disk u = disk s" "kept s u x"
    using set_data_spec [OF D(1) assms(2), of f] by blast
  note L = bio_only_log [OF u(3)] bio_only_logged [OF u(3)] bio_only_pid [OF u(3)]
  define n where "n = nat (lh_n s)"
  have n: "lh_n u = int n" "n < LOGBLOCKS" "1 \<le> log_outstanding u" "refs u x < 2 ^ 32 - 1"
    using L D(2,3,6) u(6) assms(4) logged_card [OF assms(1)] by (simp_all add: n_def)
  have ls: "logged s = lh_block s ` {..<n}" "lh_block u = lh_block s" using L by (simp_all add: logged_def n_def)
  obtain t where t: "log_write b u = Inr ((), t)" "bcache_ok t" "handle t x b" "view t = view u" "held t = held u"
    "disk t = disk u" "log_outstanding t = log_outstanding u" "log_only u t" "kept u t x"
    "if x \<in> logged s then lh_n t = int n \<and> lh_block t = lh_block u \<and> refs t = refs u
     else lh_n t = int (Suc n) \<and> lh_block t = (lh_block u)(n := x) \<and> refs t = (refs u)(x := Suc (refs u x))"
    using log_write_run [OF u(2,4) n] ls by auto
  have lt: "logged t = insert x (logged s)"
    using t(10) ls by (cases "x \<in> logged s") (auto simp: logged_def lessThan_Suc)
  have inj: "inj_on (lh_block t) {..<nat (lh_n t)}"
    using t(10) D(4) ls by (cases "x \<in> logged s") (auto simp: n_def lessThan_Suc inj_on_def)
  have pid: "mypid t = mypid s" using log_only_fields(1) [OF t(8)] L by simp
  have rf: "refs t = (\<lambda>y. (if y \<in> logged t then 1 else 0) + (if y \<in> H then 1 else 0))"
    using t(10) u(6) D(6) assms(3) lt by (cases "x \<in> logged s") (auto simp: fun_eq_iff)
  have "in_txn t H"
    using t(2,4-7,10) u(5,7,8) n(3) D(5,7,8) lt inj pid rf L
    by (auto simp: in_txn_def fun_eq_iff split: if_splits)
  moreover have "log_only s t" using bio_only_log_only [OF u(3)] t(8) by (rule log_only_trans)
  moreover have "kept s t x" using u(9) t(9) unfolding kept_def by blast
  ultimately show ?thesis
    using u(1) t(1,3,4) u(5) lt by (auto simp: log_update_def run_simps)
qed

lemma txn_brelse:
  assumes "in_txn s H" "handle s x b" "x \<in> H"
  shows "\<exists>t. brelse b s = Inr ((), t) \<and> in_txn t (H - {x}) \<and> view t = view s \<and> logged t = logged s \<and>
    log_only s t \<and> kept s t x"
proof -
  note D = in_txnD [OF assms(1)]
  have "refs s x = 1 \<longrightarrow> view s x = disk s x" using D(6,7) assms(3) by auto
  then obtain t where t: "brelse b s = Inr ((), t)" "bcache_ok t" "bio_only s t" "view t = view s"
    "refs t = (refs s)(x := refs s x - 1)" "held t = (held s)(x := None)" "disk t = disk s" "kept s t x"
    using brelse_spec [OF D(1) assms(2)] by blast
  note L = bio_only_log [OF t(3)] bio_only_logged [OF t(3)] bio_only_pid [OF t(3)]
  have "inj_on (lh_block t) {..<nat (lh_n t)}" using D(4) L by simp
  moreover have "held t = (\<lambda>y. if y \<in> H - {x} then Some (mypid t) else None)"
    "refs t = (\<lambda>y. (if y \<in> logged t then 1 else 0) + (if y \<in> H - {x} then 1 else 0))"
    using t(5,6) D(5,6) assms(3) L by (auto simp: fun_eq_iff)
  ultimately have "in_txn t (H - {x})"
    unfolding in_txn_def using t(2,4,7) D(2,3,7,8) L by simp
  then show ?thesis using t L bio_only_log_only [OF t(3)] by blast
qed

interpretation tx: block_store "bread ROOTDEV" log_update brelse "\<lambda>s b. b_data (bufs s b)" in_txn view logged handle log_only
proof
  show "\<exists>b t. bread ROOTDEV x s = Inr (b, t) \<and> in_txn t (insert x H) \<and> handle t x b \<and> view t = view s \<and>
      logged t = logged s \<and> log_only s t \<and> (\<forall>y c. y \<noteq> x \<longrightarrow> handle s y c \<longrightarrow> handle t y c)"
    if "in_txn s H" "x \<notin> H" "card (insert x (H \<union> logged s)) \<le> NBUF" for s :: "'a log_st_scheme" and H x
    using txn_bread [OF that] unfolding kept_def .
  show "\<exists>t. log_update b f s = Inr ((), t) \<and> in_txn t H \<and> handle t x b \<and> view t = (view s)(x := f (view s x)) \<and>
      logged t = insert x (logged s) \<and> log_only s t \<and> (\<forall>y c. y \<noteq> x \<longrightarrow> handle s y c \<longrightarrow> handle t y c)"
    if "in_txn s H" "handle s x b" "x \<in> H" "card (logged s) < LOGBLOCKS" for s :: "'a log_st_scheme" and H x b f
    using txn_update [OF that, of f] unfolding kept_def .
  show "\<exists>t. brelse b s = Inr ((), t) \<and> in_txn t (H - {x}) \<and> view t = view s \<and> logged t = logged s \<and>
      log_only s t \<and> (\<forall>y c. y \<noteq> x \<longrightarrow> handle s y c \<longrightarrow> handle t y c)"
    if "in_txn s H" "handle s x b" "x \<in> H" for s :: "'a log_st_scheme" and H x b
    using txn_brelse [OF that] unfolding kept_def .
  show "b_data (bufs s b) = view s x" if "in_txn s H" "handle s x b" for s :: "'a log_st_scheme" and H x b
    using that(2) in_txnD(1) [OF that(1)] handleD(7) by (auto simp: bcache_ok_def)
  show "log_only s u" if "log_only s t" "log_only t u" for s t u :: "'a log_st_scheme"
    using that by (rule log_only_trans)
qed

text \<open>A change inside a transaction as the file system writes it.\<close>

lemma change_block:
  fixes s :: "'z log_st_scheme"
  assumes "in_txn s H" "x \<notin> H" "card (insert x (H \<union> logged s)) \<le> NBUF" "card (logged s) < LOGBLOCKS"
  obtains b t u where "bread ROOTDEV x s = Inr (b, t)" "log_only s t" "b_data (bufs t b) = view s x"
    "bnd (set_data b f) (\<lambda>_. bnd (log_write b) (\<lambda>_. brelse b)) t = Inr ((), u)"
    "in_txn u H" "view u = (view s)(x := f (view s x))" "logged u = insert x (logged s)" "log_only s u"
    "\<And>y c. y \<in> H \<Longrightarrow> handle s y c \<Longrightarrow> handle u y c"
  using tx.change_release [OF assms, of f] unfolding log_update_def bnd_assoc by blast

text \<open>A transaction that has not logged a block yet, on a given disk.\<close>

definition fs_boot :: "(nat \<Rightarrow> buf) \<Rightarrow> (uint \<Rightarrow> block) \<Rightarrow> superblock \<Rightarrow> fs_st" where
  "fs_boot B d x = log_st.extend ((txn B 0)\<lparr>disk := d, log_outstanding := 1, log_committing := False\<rparr>)
     \<lparr>sb = x, inodes = (\<lambda>_. \<lparr>i_dev = 0, i_inum = 0, i_ref = 0, i_lock = initsleeplock, i_valid = False, i_type = 0,
        i_major = 0, i_minor = 0, i_nlink = 0, i_size = 0, i_addrs = (\<lambda>_. 0)\<rparr>), pcwd = 0, kstk = 0x80030000\<rparr>"

lemma fs_boot_fields [simp]:
  "sb (fs_boot B d x) = x" "disk (fs_boot B d x) = d" "logged (fs_boot B d x) = {}" "kstk (fs_boot B d x) = 0x80030000"
  by (simp_all add: fs_boot_def txn_def log_st.defs logged_def)

lemma fs_boot_txn:
  assumes "lru B xs"
  shows "in_txn (fs_boot B d x) {}" "view (fs_boot B d x) = d"
proof -
  let ?s = "fs_boot B d x"
  have "lru (bufs ?s) xs" using assms by (rule lru_cong) (simp add: fs_boot_def txn_def log_st.defs)
  then have inv: "binv ?s xs"
    by (simp add: binv_def) (simp add: fs_boot_def txn_def log_st.defs caches_def initsleeplock_def)
  have none: "slot ?s y = None" for y by (simp add: slot_None) (simp add: fs_boot_def txn_def log_st.defs caches_def)
  show v: "view ?s = d" by (simp add: view_def none fun_eq_iff)
  show "in_txn ?s {}"
    using inv v by (auto simp: in_txn_def bcache_ok_def held_def refs_def none fun_eq_iff)
      (simp_all add: fs_boot_def txn_def log_st.defs)
qed

end
