(* ===== verification/Fs_Block.thy ===== *)
theory Fs_Block
  imports Txn
begin

text \<open>
  The block allocator of \<^verbatim>\<open>kernel/fs.c\<close>: \<open>used s b\<close> is the bit of block \<open>b\<close> in the free map as the
  running transaction sees it. \<^verbatim>\<open>balloc\<close> takes the lowest free block and zeroes it, \<^verbatim>\<open>bfree\<close> gives a
  block back.
\<close>

section \<open>Bits of the free map\<close>

lemma bmbit_iff: "bmbit d bi \<longleftrightarrow> bit (d (of_nat (bi div 8))) (bi mod 8)"
  by (simp add: bmbit_def bit_iff_and_push_bit_not_eq_0)

lemma bitmap_index:
  assumes "bi < BPB" "bj < BPB"
  shows "(of_nat (bi div 8) :: 10 word) = of_nat (bj div 8) \<longleftrightarrow> bi div 8 = bj div 8"
proof -
  have "unat (of_nat (bi div 8) :: 10 word) = bi div 8" "unat (of_nat (bj div 8) :: 10 word) = bj div 8"
    using assms by (simp_all add: unat_offset del: of_nat_div)
  then show ?thesis by metis
qed

lemma bmbit_set: "bi < BPB \<Longrightarrow> bj < BPB \<Longrightarrow> bmbit (bmset bi d) bj \<longleftrightarrow> bj = bi \<or> bmbit d bj"
proof -
  assume b: "bi < BPB" "bj < BPB"
  have "bit (push_bit (bi mod 8) (1 :: 8 word)) (bj mod 8) \<longleftrightarrow> bj mod 8 = bi mod 8"
    by (auto simp: bit_simps)
  moreover have "bj = bi \<longleftrightarrow> bj div 8 = bi div 8 \<and> bj mod 8 = bi mod 8" by (metis div_mod_decomp)
  ultimately show ?thesis using bitmap_index [OF b(2,1)] by (auto simp: bmbit_iff bmset_def bit_or_iff)
qed

lemma bmbit_clear: "bi < BPB \<Longrightarrow> bj < BPB \<Longrightarrow> bmbit (bmclear bi d) bj \<longleftrightarrow> bj \<noteq> bi \<and> bmbit d bj"
proof -
  assume b: "bi < BPB" "bj < BPB"
  have "bit (NOT (push_bit (bi mod 8) (1 :: 8 word))) (bj mod 8) \<longleftrightarrow> bj mod 8 \<noteq> bi mod 8"
    by (auto simp: bit_simps bit_not_iff)
  moreover have "bj = bi \<longleftrightarrow> bj div 8 = bi div 8 \<and> bj mod 8 = bi mod 8" by (metis div_mod_decomp)
  ultimately show ?thesis using bitmap_index [OF b(2,1)] by (auto simp: bmbit_iff bmclear_def bit_and_iff)
qed

lemma balloc_scan_spec:
  "case balloc_scan k d n b bi of
     None \<Rightarrow> \<forall>j. bi \<le> j \<and> j < bi + k \<and> b + j < n \<longrightarrow> bmbit d j
   | Some i \<Rightarrow> bi \<le> i \<and> i < bi + k \<and> b + i < n \<and> \<not> bmbit d i \<and> (\<forall>j. bi \<le> j \<and> j < i \<longrightarrow> bmbit d j)"
proof (induction k arbitrary: bi)
  case 0
  then show ?case by auto
next
  case (Suc k)
  note IH = Suc [of "Suc bi"]
  have step: "bi \<le> j \<longleftrightarrow> j = bi \<or> Suc bi \<le> j" for j by auto
  show ?case
  proof (cases "b + bi < n \<and> bmbit d bi")
    case True
    then show ?thesis using IH by (auto simp: step split: option.splits)
  next
    case False
    then show ?thesis by auto
  qed
qed

section \<open>Which blocks are in use\<close>

definition used :: "'z fs_st_scheme \<Rightarrow> uint \<Rightarrow> bool" where
  "used s b = bmbit (view s (BBLOCK b (sb s))) (unat b mod BPB)"

definition bitmap_blocks :: "superblock \<Rightarrow> uint set" where
  "bitmap_blocks x = {BBLOCK b x |b. b < sb_size x}"

text \<open>The boot block and the free map itself are marked as used.\<close>

definition bitmap_wf :: "'z fs_st_scheme \<Rightarrow> bool" where
  "bitmap_wf s \<longleftrightarrow> used s 0 \<and> (\<forall>x\<in>bitmap_blocks (sb s). x < sb_size (sb s) \<longrightarrow> used s x)"

text \<open>The caller has locked no block of the free map, and only blocks in use.\<close>

definition holds_used :: "'z fs_st_scheme \<Rightarrow> uint set \<Rightarrow> bool" where
  "holds_used s H \<longleftrightarrow> H \<inter> bitmap_blocks (sb s) = {} \<and> (\<forall>x\<in>H. x < sb_size (sb s) \<longrightarrow> used s x)"

lemma unat_div_BPB: "unat (b div of_nat BPB :: uint) = unat b div BPB"
  by (simp add: unat_div)

lemma BBLOCK_of_nat: "c < 2 ^ 32 \<Longrightarrow> BBLOCK (of_nat c) x = of_nat (c div BPB) + sb_bmapstart x"
  unfolding BBLOCK_def
  by (rule arg_cong [where f = "\<lambda>y. y + sb_bmapstart x"], rule word_unat_eq_iff [THEN iffD2])
    (simp add: unat_div unat_of_nat_lt del: of_nat_div)

lemma BBLOCK_inj:
  assumes "BBLOCK b x = BBLOCK c x" "unat b mod BPB = unat c mod BPB"
  shows "b = c"
proof -
  have "unat b div BPB = unat c div BPB"
    using assms(1) unat_div_BPB [of b] unat_div_BPB [of c] by (simp add: BBLOCK_def)
  with assms(2) have "unat b = unat c" by (metis div_mod_decomp)
  then show ?thesis by (simp add: word_unat_eq_iff)
qed

lemma used_mark:
  assumes "view t = (view s)(BBLOCK b (sb s) := bmset (unat b mod BPB) (view s (BBLOCK b (sb s))))" "sb t = sb s"
  shows "used t c \<longleftrightarrow> c = b \<or> used s c"
  using assms BBLOCK_inj [of c "sb s" b] by (auto simp: used_def bmbit_set)

lemma used_unmark:
  assumes "view t = (view s)(BBLOCK b (sb s) := bmclear (unat b mod BPB) (view s (BBLOCK b (sb s))))" "sb t = sb s"
  shows "used t c \<longleftrightarrow> c \<noteq> b \<and> used s c"
  using assms BBLOCK_inj [of c "sb s" b] by (auto simp: used_def bmbit_clear)

section \<open>balloc\<close>

definition alloc_post :: "'z fs_st_scheme \<Rightarrow> uint set \<Rightarrow> uint \<Rightarrow> 'z fs_st_scheme \<Rightarrow> bool" where
  "alloc_post s H r t \<longleftrightarrow> in_txn t H \<and> log_only s t \<and> (\<forall>y c. y \<in> H \<longrightarrow> handle s y c \<longrightarrow> handle t y c) \<and>
     (if \<forall>c < sb_size (sb s). used s c then r = 0 \<and> view t = view s \<and> logged t = logged s
      else r \<noteq> 0 \<and> r < sb_size (sb s) \<and> \<not> used s r \<and> (\<forall>c<r. used s c) \<and> view t r = (\<lambda>_. 0) \<and>
           (\<forall>c < sb_size (sb s). used t c \<longleftrightarrow> c = r \<or> used s c) \<and>
           (\<forall>x. x \<noteq> r \<longrightarrow> x \<noteq> BBLOCK r (sb s) \<longrightarrow> view t x = view s x) \<and>
           logged t = logged s \<union> {BBLOCK r (sb s), r})"

lemma card_room:
  assumes "finite H" "card H + card (logged s) + k \<le> NBUF" "1 \<le> k"
  shows "card (insert x (H \<union> logged s)) \<le> NBUF"
  using card_insert_le_m1 [of NBUF "H \<union> logged s" x] card_Un_le [of H "logged s"] assms
  by (simp add: card_insert_if)

lemma bzero_run:
  fixes s :: "'z fs_st_scheme"
  assumes "in_txn s H" "x \<notin> H" "card H + card (logged s) + 1 \<le> NBUF"
  shows "\<exists>t. bzero ROOTDEV x s = Inr ((), t) \<and> in_txn t H \<and> view t = (view s)(x := \<lambda>_. 0) \<and>
    logged t = insert x (logged s) \<and> log_only s t \<and> (\<forall>y c. y \<in> H \<longrightarrow> handle s y c \<longrightarrow> handle t y c)"
proof -
  have c: "card (insert x (H \<union> logged s)) \<le> NBUF" "card (logged s) < LOGBLOCKS"
    using card_room [OF in_txnD(8) [OF assms(1)] assms(3)] assms(3) by simp_all
  obtain b t u where "bread ROOTDEV x s = Inr (b, t)"
    "bnd (set_data b (\<lambda>_ _. 0)) (\<lambda>_. bnd (log_write b) (\<lambda>_. brelse b)) t = Inr ((), u)"
    "in_txn u H" "view u = (view s)(x := \<lambda>_. 0)" "logged u = insert x (logged s)" "log_only s u"
    "\<And>y c. y \<in> H \<Longrightarrow> handle s y c \<Longrightarrow> handle u y c"
    using change_block [OF assms(1,2) c, of "\<lambda>_ _. 0"] by metis
  then show ?thesis by (simp add: bzero_def run_simps)
qed

lemma alloc_found:
  fixes s :: "'z fs_st_scheme"
  assumes txn: "in_txn s H" and wf: "bitmap_wf s" "holds_used s H"
    and room: "card H + card (logged s) + 2 \<le> NBUF"
    and r: "r < sb_size (sb s)" "\<not> used s r" "\<forall>c<r. used s c"
  obtains bp t u v where "bread ROOTDEV (BBLOCK r (sb s)) s = Inr (bp, t)" "log_only s t"
    "b_data (bufs t bp) = view s (BBLOCK r (sb s))"
    "bnd (set_data bp (bmset (unat r mod BPB))) (\<lambda>_. bnd (log_write bp) (\<lambda>_. brelse bp)) t = Inr ((), u)"
    "bzero ROOTDEV r u = Inr ((), v)" "alloc_post s H r v"
proof -
  let ?x = "BBLOCK r (sb s)"
  have x: "?x \<in> bitmap_blocks (sb s)" using r(1) by (auto simp: bitmap_blocks_def)
  then have xH: "?x \<notin> H" using wf(2) by (auto simp: holds_used_def)
  have rH: "r \<notin> H" using wf(2) r(1,2) by (auto simp: holds_used_def)
  have nbm: "r \<notin> bitmap_blocks (sb s)" using wf(1) r(1,2) by (auto simp: bitmap_wf_def)
  have fin: "finite H" by (rule in_txnD(8) [OF txn])
  have c: "card (insert ?x (H \<union> logged s)) \<le> NBUF" "card (logged s) < LOGBLOCKS"
    using card_room [OF fin room] room by simp_all
  obtain bp t u where t: "bread ROOTDEV ?x s = Inr (bp, t)" "log_only s t" "b_data (bufs t bp) = view s ?x"
    "bnd (set_data bp (bmset (unat r mod BPB))) (\<lambda>_. bnd (log_write bp) (\<lambda>_. brelse bp)) t = Inr ((), u)"
    and u: "in_txn u H" "view u = (view s)(?x := bmset (unat r mod BPB) (view s ?x))" "logged u = insert ?x (logged s)"
      "log_only s u" "\<And>y c. y \<in> H \<Longrightarrow> handle s y c \<Longrightarrow> handle u y c"
    using change_block [OF txn xH c, of "bmset (unat r mod BPB)"] by metis
  have "card H + card (logged u) + 1 \<le> NBUF" using room u(3) by (simp add: card_insert_if)
  then obtain v where v: "bzero ROOTDEV r u = Inr ((), v)" "in_txn v H" "view v = (view u)(r := \<lambda>_. 0)"
    "logged v = insert r (logged u)" "log_only u v" "\<forall>y c. y \<in> H \<longrightarrow> handle u y c \<longrightarrow> handle v y c"
    using bzero_run [OF u(1) rH] by blast
  have sb: "sb u = sb s" "sb v = sb s" using log_only_fs(1) [OF u(4)] log_only_fs(1) [OF v(5)] by simp_all
  have "used v c \<longleftrightarrow> used u c" if "c < sb_size (sb s)" for c
    using that nbm v(3) sb by (auto simp: used_def bitmap_blocks_def)
  then have us: "used v c \<longleftrightarrow> c = r \<or> used s c" if "c < sb_size (sb s)" for c
    using used_mark [OF u(2) sb(1), of c] that by simp
  have "r \<noteq> 0" using wf(1) r(2) by (auto simp: bitmap_wf_def)
  moreover have "\<not> (\<forall>c < sb_size (sb s). used s c)" using r(1,2) by blast
  ultimately have "alloc_post s H r v"
    unfolding alloc_post_def using v(2-6) u r us log_only_trans [OF u(4) v(5)] by auto
  with t v(1) show ?thesis by (rule that)
qed

lemma block_of_bit:
  assumes "b mod BPB = 0" "bi < BPB" "b + bi < 2 ^ 32"
  shows "BBLOCK (of_nat (b + bi)) x = BBLOCK (of_nat b) x" "unat (of_nat (b + bi) :: uint) = b + bi"
    "(b + bi) mod BPB = bi"
proof -
  obtain q where q: "b = BPB * q" using assms(1) by (metis mod_0_imp_dvd dvdE)
  have "(b + bi) div BPB = b div BPB" using assms(2) by (simp add: q)
  then show "BBLOCK (of_nat (b + bi)) x = BBLOCK (of_nat b) x"
    using BBLOCK_of_nat [of "b + bi" x] BBLOCK_of_nat [of b x] assms(3) by (simp del: of_nat_add of_nat_div)
  show "unat (of_nat (b + bi) :: uint) = b + bi" using assms(3) by (intro unat_of_nat_lt) simp
  show "(b + bi) mod BPB = bi" using assms(2) by (simp add: q)
qed

lemma used_bit:
  fixes s :: "'z fs_st_scheme" and c :: uint
  assumes "b mod BPB = 0" "b \<le> unat c" "unat c < b + BPB"
  shows "used s c \<longleftrightarrow> bmbit (view s (BBLOCK (of_nat b) (sb s))) (unat c - b)"
proof -
  define bi where "bi = unat c - b"
  have c: "c = of_nat (b + bi)" "bi < BPB" "b + bi < 2 ^ 32"
    using assms(2,3) unat_lt [of c] by (simp_all add: bi_def)
  show ?thesis
    using block_of_bit(1) [OF assms(1) c(2,3), of "sb s"] block_of_bit(2,3) [OF assms(1) c(2,3)] by (simp add: used_def c(1) bi_def [symmetric] del: of_nat_add)
qed

lemma alloc_post_trans:
  fixes s :: "'z fs_st_scheme"
  assumes "view u = view s" "logged u = logged s" "log_only s u" "\<forall>y c. y \<in> H \<longrightarrow> handle s y c \<longrightarrow> handle u y c"
    and "alloc_post u H r t"
  shows "alloc_post s H r t"
proof -
  have sb: "sb u = sb s" by (rule log_only_fs(1) [OF assms(3)])
  then have us: "used u = used s" using assms(1) by (intro ext) (simp add: used_def)
  note P = assms(5) [unfolded alloc_post_def sb us assms(1,2)]
  have "log_only s t" using P log_only_trans [OF assms(3)] by blast
  moreover have "\<forall>y c. y \<in> H \<longrightarrow> handle s y c \<longrightarrow> handle t y c" using P assms(4) by blast
  ultimately show ?thesis
    unfolding alloc_post_def
    using P [THEN conjunct1] P [THEN conjunct2, THEN conjunct2, THEN conjunct2] by (intro conjI)
qed

lemma balloc_loop_run:
  fixes s :: "'z fs_st_scheme"
  assumes "in_txn s H" "bitmap_wf s" "holds_used s H" "card H + card (logged s) + 2 \<le> NBUF"
    and "b mod BPB = 0" "\<forall>c. unat c < b \<longrightarrow> c < sb_size (sb s) \<longrightarrow> used s c" "unat (sb_size (sb s)) \<le> b + k * BPB"
  shows "wp (balloc_loop (Suc k) ROOTDEV b) (alloc_post s H) s"
  using assms
proof (induction k arbitrary: s b)
  case 0
  then have "\<not> b < unat (sb_size (sb s))" "\<forall>c < sb_size (sb s). used s c"
    by (auto simp: word_less_nat_alt)
  then show ?case using 0(1) by (simp add: wp_simps alloc_post_def)
next
  case (Suc k)
  let ?n = "unat (sb_size (sb s))" and ?x = "BBLOCK (of_nat b) (sb s)"
  show ?case
  proof (cases "b < ?n")
    case False
    with Suc.prems have "\<forall>c < sb_size (sb s). used s c" by (auto simp: word_less_nat_alt)
    then show ?thesis using Suc.prems(1) False by (simp add: wp_simps alloc_post_def)
  next
    case True
    have lim: "?n < 2 ^ 32" using unat_lt [of "sb_size (sb s)"] by simp
    show ?thesis
    proof (cases "balloc_scan BPB (view s ?x) ?n b 0")
      case (Some bi)
      then have bi: "bi < BPB" "b + bi < ?n" "\<not> bmbit (view s ?x) bi" "\<forall>j<bi. bmbit (view s ?x) j"
        using balloc_scan_spec [where k = BPB and d = "view s ?x" and n = ?n and b = b and bi = 0] by auto
      define r :: uint where "r = of_nat (b + bi)"
      have br: "BBLOCK r (sb s) = ?x" "unat r = b + bi" "unat r mod BPB = bi"
        using block_of_bit(1) [OF Suc.prems(5) bi(1), of "sb s"] block_of_bit(2,3) [OF Suc.prems(5) bi(1)] bi(2) lim by (simp_all add: r_def del: of_nat_add)
      have r: "r < sb_size (sb s)" "\<not> used s r" "\<forall>c<r. used s c"
      proof -
        show "r < sb_size (sb s)" using bi(2) br(2) by (simp add: word_less_nat_alt)
        show "\<not> used s r" using used_bit [OF Suc.prems(5), of r s] br(2) bi(1,3) by simp
        show "\<forall>c<r. used s c"
        proof (intro allI impI)
          fix c assume "c < r"
          then have "unat c < b + bi" using br(2) by (simp add: word_less_nat_alt)
          moreover have "c < sb_size (sb s)" using \<open>c < r\<close> \<open>r < sb_size (sb s)\<close> by simp
          ultimately show "used s c"
            using used_bit [OF Suc.prems(5), of c s] Suc.prems(6) bi(1,4) by (cases "unat c < b") auto
        qed
      qed
      obtain bp t u v where t: "bread ROOTDEV ?x s = Inr (bp, t)" "log_only s t" "b_data (bufs t bp) = view s ?x"
        "bnd (set_data bp (bmset bi)) (\<lambda>_. bnd (log_write bp) (\<lambda>_. brelse bp)) t = Inr ((), u)"
        "bzero ROOTDEV r u = Inr ((), v)" "alloc_post s H r v"
        using alloc_found [OF Suc.prems(1-4) r] unfolding br(1,3) by metis
      have "bnd (set_data bp (bmset bi)) (\<lambda>_. bnd (log_write bp) (\<lambda>_. bnd (brelse bp) (\<lambda>_.
          bnd (bzero ROOTDEV r) (\<lambda>_. ret r)))) t = Inr (r, v)"
        using t(4,5) by (auto simp: bnd_eq_Inr ret_def)
      then show ?thesis
        using t True Some log_only_fs(1) [OF t(2)]
        by (simp add: wp_def run_simps r_def [symmetric] del: of_nat_add)
    next
      case None
      then have all: "\<forall>j<BPB. b + j < ?n \<longrightarrow> bmbit (view s ?x) j"
        using balloc_scan_spec [where k = BPB and d = "view s ?x" and n = ?n and b = b and bi = 0] by auto
      have x: "?x \<in> bitmap_blocks (sb s)"
        using True unat_of_nat_lt [of b, where ?'a = 32] lim by (auto simp: bitmap_blocks_def word_less_nat_alt)
      then have xH: "?x \<notin> H" using Suc.prems(3) by (auto simp: holds_used_def)
      obtain bp t u where t: "bread ROOTDEV ?x s = Inr (bp, t)" "log_only s t" "b_data (bufs t bp) = view s ?x"
        "brelse bp t = Inr ((), u)" "in_txn u H" "view u = view s" "logged u = logged s" "log_only s u"
        "\<forall>y c. y \<in> H \<longrightarrow> handle s y c \<longrightarrow> handle u y c"
        using tx.read_release [OF Suc.prems(1) xH card_room [OF in_txnD(8) [OF Suc.prems(1)] Suc.prems(4)]] by auto
      have sb: "sb u = sb s" by (rule log_only_fs(1) [OF t(8)])
      have us: "used u = used s" using t(6) sb by (intro ext) (simp add: used_def)
      have "used u c" if "unat c < b + BPB" "c < sb_size (sb u)" for c
        using Suc.prems(6) used_bit [OF Suc.prems(5) _ that(1), of s] all that
        by (cases "unat c < b") (auto simp: us sb word_less_nat_alt)
      moreover have "bitmap_wf u" "holds_used u H" using Suc.prems(2,3) by (simp_all add: bitmap_wf_def holds_used_def us sb)
      ultimately have "wp (balloc_loop (Suc k) ROOTDEV (b + BPB)) (alloc_post u H) u"
        using Suc.prems(4,5,7) t(5,7) sb by (intro Suc.IH) auto
      then have "wp (balloc_loop (Suc k) ROOTDEV (b + BPB)) (alloc_post s H) u"
        by (rule wp_mono) (rule alloc_post_trans [OF t(6-9)])
      then show ?thesis
        using t(1-4) True None log_only_fs(1) [OF t(2)] by (simp add: wp_def run_simps)
    qed
  qed
qed

text \<open>
  C6. Inside a transaction with room for two more blocks, \<^verbatim>\<open>balloc\<close> returns the lowest block whose
  bit in the free map is clear, sets just that bit and zeroes the block, recording both changed
  blocks in the log; every other block keeps its contents. When no block is free it returns 0 and
  changes nothing. Blocks the caller has locked stay locked.
\<close>

theorem balloc_takes_lowest_free:
  fixes s :: "'z fs_st_scheme"
  assumes "in_txn s H" "bitmap_wf s" "holds_used s H" "card H + card (logged s) + 2 \<le> NBUF"
  shows "wp (balloc ROOTDEV) (\<lambda>r t. in_txn t H \<and>
    (if \<forall>c < sb_size (sb s). used s c then r = 0 \<and> view t = view s
     else r < sb_size (sb s) \<and> \<not> used s r \<and> (\<forall>c<r. used s c) \<and> view t r = (\<lambda>_. 0) \<and>
          (\<forall>c < sb_size (sb s). used t c \<longleftrightarrow> c = r \<or> used s c) \<and>
          (\<forall>x. x \<noteq> r \<longrightarrow> x \<noteq> BBLOCK r (sb s) \<longrightarrow> view t x = view s x) \<and>
          logged t = logged s \<union> {BBLOCK r (sb s), r})) s"
proof -
  let ?n = "unat (sb_size (sb s))"
  have "?n \<le> 0 + Suc (?n div BPB) * BPB" using div_mult_mod_eq [of ?n BPB] mod_less_divisor [of BPB ?n] by simp
  then have "wp (balloc_loop (Suc (Suc (?n div BPB))) ROOTDEV 0) (alloc_post s H) s"
    using assms by (intro balloc_loop_run) simp_all
  then show ?thesis unfolding balloc_def wp_simps
  proof (rule wp_mono)
    fix r t assume P: "alloc_post s H r t"
    show "in_txn t H \<and> (if \<forall>c < sb_size (sb s). used s c then r = 0 \<and> view t = view s
      else r < sb_size (sb s) \<and> \<not> used s r \<and> (\<forall>c<r. used s c) \<and> view t r = (\<lambda>_. 0) \<and>
          (\<forall>c < sb_size (sb s). used t c \<longleftrightarrow> c = r \<or> used s c) \<and>
          (\<forall>x. x \<noteq> r \<longrightarrow> x \<noteq> BBLOCK r (sb s) \<longrightarrow> view t x = view s x) \<and>
          logged t = logged s \<union> {BBLOCK r (sb s), r})"
    proof (cases "\<forall>c < sb_size (sb s). used s c")
      case True
      show ?thesis using P unfolding alloc_post_def if_P [OF True] by (elim conjE) (intro conjI)
    next
      case False
      show ?thesis using P unfolding alloc_post_def if_not_P [OF False] by (elim conjE) (intro conjI)
    qed
  qed
qed

text \<open>
  C38. \<^verbatim>\<open>bfree\<close> panics exactly when the block's bit is clear already; otherwise it clears just that bit,
  in the log, and changes no other block.
\<close>

theorem bfree_clears_bit:
  fixes s :: "'z fs_st_scheme"
  assumes "in_txn s H" "BBLOCK b (sb s) \<notin> H" "card H + card (logged s) + 1 \<le> NBUF"
  shows "if used s b
    then wp (bfree ROOTDEV b) (\<lambda>_ t. in_txn t H \<and> (\<forall>c. used t c \<longleftrightarrow> c \<noteq> b \<and> used s c) \<and>
           (\<forall>x. x \<noteq> BBLOCK b (sb s) \<longrightarrow> view t x = view s x) \<and> logged t = insert (BBLOCK b (sb s)) (logged s)) s
    else bfree ROOTDEV b s = Inl (Panic ''freeing free block'')"
proof -
  let ?x = "BBLOCK b (sb s)" and ?f = "bmclear (unat b mod BPB)"
  have c: "card (insert ?x (H \<union> logged s)) \<le> NBUF" "card (logged s) < LOGBLOCKS"
    using card_room [OF in_txnD(8) [OF assms(1)] assms(3)] assms(3) by simp_all
  obtain bp t u where t: "bread ROOTDEV ?x s = Inr (bp, t)" "log_only s t" "b_data (bufs t bp) = view s ?x"
    "bnd (set_data bp ?f) (\<lambda>_. bnd (log_write bp) (\<lambda>_. brelse bp)) t = Inr ((), u)"
    and u: "in_txn u H" "view u = (view s)(?x := ?f (view s ?x))" "logged u = insert ?x (logged s)" "log_only s u"
    using change_block [OF assms(1,2) c, of ?f] by metis
  show ?thesis
    using t u used_unmark [OF u(2) log_only_fs(1) [OF u(4)]]
    by (auto simp: bfree_def run_simps wp_def used_def)
qed

text \<open>A file system of 200 blocks, free map in block 45, in which only block 46 is free.\<close>

definition one_free :: "(nat \<Rightarrow> buf) \<Rightarrow> fs_st" where
  "one_free B = fs_boot B ((\<lambda>_ _. 0)(45 := bmclear 46 (\<lambda>_. - 1)))
     \<lparr>sb_magic = FSMAGIC, sb_size = 200, sb_nblocks = 154, sb_ninodes = 200, sb_nlog = 31, sb_logstart = 2,
      sb_inodestart = 33, sb_bmapstart = 45\<rparr>"

lemma one_free_used:
  assumes "lru B xs" "c < 200"
  shows "BBLOCK c (sb (one_free B)) = 45" "used (one_free B) c \<longleftrightarrow> c \<noteq> 46"
proof -
  have c: "unat c < 200" using assms(2) by (simp add: word_less_nat_alt)
  then have "c div of_nat BPB = 0" by (simp add: word_unat_eq_iff unat_div)
  then show b: "BBLOCK c (sb (one_free B)) = 45" by (simp add: BBLOCK_def one_free_def)
  have "bmbit (bmclear 46 (\<lambda>_. - 1)) (unat c) \<longleftrightarrow> unat c \<noteq> 46"
    using c by (subst bmbit_clear) (auto simp: bmbit_iff)
  moreover have "unat c \<noteq> 46 \<longleftrightarrow> c \<noteq> 46" by (auto simp: word_unat_eq_iff)
  ultimately show "used (one_free B) c \<longleftrightarrow> c \<noteq> 46"
    using c b fs_boot_txn(2) [OF assms(1)] by (simp add: used_def one_free_def)
qed

lemma one_free_wf:
  assumes "lru B xs"
  shows "in_txn (one_free B) {}" "bitmap_wf (one_free B)" "holds_used (one_free B) {}" "logged (one_free B) = {}"
proof -
  show "in_txn (one_free B) {}" using fs_boot_txn(1) [OF assms] by (simp add: one_free_def)
  have "bitmap_blocks (sb (one_free B)) \<subseteq> {45}"
    using one_free_used(1) [OF assms] by (auto simp: bitmap_blocks_def) (simp add: one_free_def)
  then show "bitmap_wf (one_free B)"
    using one_free_used(2) [OF assms, of 0] one_free_used(2) [OF assms, of 45] by (auto simp: bitmap_wf_def)
  show "holds_used (one_free B) {}" by (simp add: holds_used_def)
  show "logged (one_free B) = {}" by (simp add: one_free_def)
qed

theorem balloc_takes_lowest_free_witness:
  "\<exists>s :: fs_st. wp (balloc ROOTDEV) (\<lambda>r t. r = 46 \<and> used t 46 \<and> view t 46 = (\<lambda>_. 0)) s"
proof -
  obtain B xs where B: "lru B xs" using lru_exists by blast
  note W = one_free_wf [OF B] and U = one_free_used(2) [OF B]
  have sz: "sb_size (sb (one_free B)) = 200" by (simp add: one_free_def)
  have free: "\<not> (\<forall>c < 200. used (one_free B) c)" using U [of 46] by (intro notI) (drule spec [of _ 46], simp)
  have "wp (balloc ROOTDEV) (\<lambda>r t. r = 46 \<and> used t 46 \<and> view t 46 = (\<lambda>_. 0)) (one_free B)"
  proof (rule wp_mono [OF balloc_takes_lowest_free [OF W(1-3)]])
    show "card ({} :: uint set) + card (logged (one_free B)) + 2 \<le> NBUF" using W(4) by simp
  qed (unfold sz if_not_P [OF free], metis U)
  then show ?thesis by blast
qed

theorem bfree_clears_bit_witness:
  "\<exists>s :: fs_st. wp (bfree ROOTDEV 47) (\<lambda>_ t. \<not> used t 47) s \<and> bfree ROOTDEV 46 s = Inl (Panic ''freeing free block'')"
proof -
  obtain B xs where B: "lru B xs" using lru_exists by blast
  note W = one_free_wf [OF B] and U = one_free_used(2) [OF B]
  have room: "card ({} :: uint set) + card (logged (one_free B)) + 1 \<le> NBUF" using W(4) by simp
  have "used (one_free B) 47" using U [of 47] by simp
  then have "wp (bfree ROOTDEV 47) (\<lambda>_ t. (\<forall>c. used t c \<longleftrightarrow> c \<noteq> 47 \<and> used (one_free B) c)) (one_free B)"
    using bfree_clears_bit [OF W(1) _ room, of 47] by (auto elim: wp_mono)
  then have "wp (bfree ROOTDEV 47) (\<lambda>_ t. \<not> used t 47) (one_free B)" by (rule wp_mono) simp
  moreover have "bfree ROOTDEV 46 (one_free B) = Inl (Panic ''freeing free block'')"
    using bfree_clears_bit [OF W(1) _ room, of 46] U [of 46] by simp
  ultimately show ?thesis by blast
qed

end
