(* ===== verification/Copy_Spec.thy ===== *)
theory Copy_Spec
  imports Copy Vm_Alloc
begin

text \<open>
  Copies across the user boundary: when every page of the user's range is mapped, \<^verbatim>\<open>copyin\<close> delivers
  the user's bytes and \<^verbatim>\<open>copyout\<close> puts the kernel's bytes at the physical addresses the page table
  gives, and nothing else changes.
\<close>

section \<open>Translation of user addresses\<close>

definition utrans :: "memory \<Rightarrow> addr \<Rightarrow> addr \<Rightarrow> addr option" where
  "utrans m root va =
     (let va0 = PGROUNDDOWN va; e = leaf m root va0 in
      if va0 < MAXVA \<and> e AND PTE_V \<noteq> 0 \<and> e AND PTE_U \<noteq> 0 \<and> PTE2PA e \<noteq> 0
      then Some (PTE2PA e + (va - va0)) else None)"

text \<open>A copy of \<open>len\<close> bytes at \<open>va\<close> handles \<open>n\<close> bytes in the first page and goes on at the next.\<close>

lemma first_page:
  fixes va len :: addr
  defines "va0 \<equiv> PGROUNDDOWN va"
  defines "n \<equiv> min (PGSIZE - (va - va0)) len"
  assumes "len > 0"
  shows "0 < unat n" "unat n \<le> unat len" "unat (len - n) = unat len - unat n"
    "\<And>j. j < unat n \<Longrightarrow> PGROUNDDOWN (va + of_nat j) = va0"
    "\<And>i. i < unat (len - n) \<Longrightarrow> va0 + PGSIZE + of_nat i = va + of_nat (unat n + i)"
    "unat (va - va0) + unat n \<le> 4096"
proof -
  define off where "off = unat (va - va0)"
  have al: "page_aligned va0" by (simp add: va0_def)
  have off: "off < 4096" using in_page_iff [OF al, of va] by (simp add: off_def va0_def)
  have va: "va = va0 + of_nat off" by (simp add: off_def)
  have un: "unat (PGSIZE - (va - va0)) = 4096 - off"
    using off by (subst unat_sub) (simp_all add: word_le_nat_alt off_def)
  have n: "unat n = min (4096 - off) (unat len)"
    using un by (simp add: n_def min_def word_le_nat_alt)
  have pos: "0 < unat len" using assms(3) by (simp add: unat_gt_0)
  show "0 < unat n" "unat n \<le> unat len" using n off pos by simp_all
  then have le: "n \<le> len" by (simp add: word_le_nat_alt)
  then show d: "unat (len - n) = unat len - unat n" by (rule unat_sub)
  show "PGROUNDDOWN (va + of_nat j) = va0" if "j < unat n" for j
  proof -
    have "j < 4096 - off" using that n by simp
    then have "off + j < 4096" by arith
    from page_offset(1) [OF al this] show ?thesis by (simp add: va add.assoc)
  qed
  show "va0 + PGSIZE + of_nat i = va + of_nat (unat n + i)" if "i < unat (len - n)" for i
  proof -
    have "unat n = 4096 - off" using d n that by simp
    then have "(of_nat off + of_nat (unat n) :: addr) = of_nat 4096"
      using off by (simp flip: of_nat_add)
    then show ?thesis by (simp add: va add.assoc)
  qed
  show "unat (va - va0) + unat n \<le> 4096" using n off by (simp add: off_def)
qed

lemma utrans_page:
  assumes "PGROUNDDOWN (va + of_nat j) = PGROUNDDOWN va" "utrans m root va = Some p"
  shows "utrans m root (va + of_nat j) = Some (p + of_nat j)"
  using assms by (auto simp: utrans_def Let_def split: if_splits)

section \<open>copyin\<close>

lemma copyin_obj_loop_run:
  assumes "pt_inv (mem s) root" "unat len < fuel" "\<forall>i<unat len. utrans (mem s) root (va + of_nat i) \<noteq> None"
  shows "copyin_obj_loop fuel root dst k va len s =
    Inr ((0, \<lambda>i. if k \<le> i \<and> i < k + unat len then mem s (the (utrans (mem s) root (va + of_nat (i - k)))) else dst i), s)"
  using assms(2,3)
proof (induction fuel arbitrary: dst k va len)
  case 0
  then show ?case by simp
next
  case (Suc fuel)
  show ?case
  proof (cases "len > 0")
    case False
    then have "len = 0" by (simp add: word_gt_0)
    then show ?thesis by (auto simp: run_simps fun_eq_iff)
  next
    case True
    let ?va0 = "PGROUNDDOWN va" and ?n = "min (PGSIZE - (va - PGROUNDDOWN va)) len"
    note F = first_page [OF True, where va = va]
    obtain p where p: "utrans (mem s) root va = Some p"
      using Suc.prems(2) [rule_format, of 0] True by (auto simp: unat_gt_0)
    define pa where "pa = PTE2PA (leaf (mem s) root ?va0)"
    have pa: "p = pa + (va - ?va0)" "pa \<noteq> 0" "walkaddr root ?va0 s = Inr (pa, s)"
      using p walkaddr_run [OF assms(1), of ?va0] by (auto simp: utrans_def Let_def pa_def split: if_splits)
    let ?d = "load_bytes (mem s) p k (unat ?n) dst"
    have step: "copyin_obj_loop (Suc fuel) root dst k va len s =
        copyin_obj_loop fuel root ?d (k + unat ?n) (?va0 + PGSIZE) (len - ?n) s"
      using True pa by (simp add: Let_def run_simps)
    have t: "\<forall>i<unat (len - ?n). utrans (mem s) root (?va0 + PGSIZE + of_nat i) \<noteq> None"
      using F(5) Suc.prems(2) F(3) by (simp del: of_nat_add)
    have "unat (len - ?n) < fuel" using F(1-3) Suc.prems(1) by simp
    note IH = Suc.IH [OF this t, of ?d "k + unat ?n"]
    have here: "p + of_nat j = the (utrans (mem s) root (va + of_nat j))" if "j < unat ?n" for j
      using utrans_page [OF F(4) [OF that] p] by simp
    have "(if k + unat ?n \<le> i \<and> i < k + unat ?n + unat (len - ?n)
        then mem s (the (utrans (mem s) root (?va0 + PGSIZE + of_nat (i - (k + unat ?n))))) else ?d i) =
      (if k \<le> i \<and> i < k + unat len then mem s (the (utrans (mem s) root (va + of_nat (i - k)))) else dst i)" for i
    proof (cases "k + unat ?n \<le> i \<and> i < k + unat len")
      case True
      then have "unat ?n + (i - (k + unat ?n)) = i - k" "i - (k + unat ?n) < unat (len - ?n)" using F(2,3) by auto
      then have "?va0 + PGSIZE + of_nat (i - (k + unat ?n)) = va + of_nat (i - k)" using F(5) by metis
      then show ?thesis using True F(2,3) by (simp del: of_nat_diff of_nat_add)
    next
      case False
      then show ?thesis using F(2,3) here [of "i - k"] by (auto simp: load_bytes_def simp del: of_nat_diff of_nat_add)
    qed
    then show ?thesis unfolding step IH by (simp add: fun_eq_iff)
  qed
qed

section \<open>copyout\<close>

text \<open>The user may write the page, and it is not a page of the page table itself.\<close>

definition uwrite :: "memory \<Rightarrow> addr \<Rightarrow> addr \<Rightarrow> bool" where
  "uwrite m root va \<longleftrightarrow> (let e = leaf m root (PGROUNDDOWN va) in
     utrans m root va \<noteq> None \<and> e AND PTE_W \<noteq> 0 \<and> PTE2PA e \<notin> tables m root)"

text \<open>The bytes of the range are stored where the table maps them and nothing else changes.\<close>

definition copied :: "addr \<Rightarrow> obj \<Rightarrow> addr \<Rightarrow> nat \<Rightarrow> 'z vm_st_scheme \<Rightarrow> 'z vm_st_scheme \<Rightarrow> bool" where
  "copied root src va n s t \<longleftrightarrow> t = s\<lparr>mem := mem t\<rparr> \<and>
     (\<forall>i<n. mem t (the (utrans (mem s) root (va + of_nat i))) = src i) \<and>
     (\<forall>x. (\<forall>i<n. utrans (mem s) root (va + of_nat i) \<noteq> Some x) \<longrightarrow> mem t x = mem s x)"

lemma store_frame:
  fixes f :: obj
  assumes "pt_inv m root" "PTE2PA e \<notin> tables m root" "off + n \<le> 4096"
  defines "m' \<equiv> store_bytes m (PTE2PA e + of_nat off) f n"
  shows "pt_inv m' root" "leaf m' root = leaf m root" "tables m' root = tables m root"
    "utrans m' root = utrans m root" "uwrite m' root = uwrite m root"
proof -
  have "same_page m m' q" if "q \<in> tables m root" for q
    unfolding same_page_def
  proof (intro allI impI)
    fix a assume a: "PGROUNDDOWN a = q"
    have "\<not> unat (a - (PTE2PA e + of_nat off)) < n"
    proof
      assume lt: "unat (a - (PTE2PA e + of_nat off)) < n"
      define j where "j = unat (a - (PTE2PA e + of_nat off))"
      have "a = PTE2PA e + of_nat (off + j)" by (simp add: j_def)
      moreover have "off + j < 4096" using lt assms(3) by (simp add: j_def)
      ultimately have "PGROUNDDOWN a = PTE2PA e" using page_offset(1) [of "PTE2PA e" "off + j"] by simp
      with a that assms(2) show False by simp
    qed
    then show "m a = m' a" by (simp add: m'_def store_bytes_def)
  qed
  note T = tables_frame [OF assms(1) this]
  show "pt_inv m' root" "leaf m' root = leaf m root" "tables m' root = tables m root" by (rule T; assumption)+
  then show u: "utrans m' root = utrans m root" by (simp add: utrans_def fun_eq_iff)
  show "uwrite m' root = uwrite m root" using T u by (simp add: uwrite_def fun_eq_iff)
qed

lemma copyout_obj_loop_run:
  assumes "pt_inv (mem s) root" "unat len < fuel" "\<forall>i<unat len. uwrite (mem s) root (va + of_nat i)"
    and "\<forall>i<unat len. \<forall>j<unat len. i \<noteq> j \<longrightarrow> utrans (mem s) root (va + of_nat i) \<noteq> utrans (mem s) root (va + of_nat j)"
  shows "\<exists>t. copyout_obj_loop fuel root va src k len s = Inr (0, t) \<and> copied root (\<lambda>i. src (k + i)) va (unat len) s t"
  using assms
proof (induction fuel arbitrary: s k va len)
  case 0
  then show ?case by simp
next
  case (Suc fuel)
  show ?case
  proof (cases "len > 0")
    case False
    then have "len = 0" by (simp add: word_gt_0)
    then show ?thesis by (auto simp: run_simps copied_def)
  next
    case True
    define va0 where "va0 = PGROUNDDOWN va"
    define n where "n = min (PGSIZE - (va - va0)) len"
    note F = first_page [OF True, where va = va, folded va0_def, folded n_def]
    define e where "e = leaf (mem s) root va0"
    define off where "off = unat (va - va0)"
    have w: "uwrite (mem s) root va" using Suc.prems(3) [rule_format, of 0] True by (simp add: unat_gt_0)
    have e: "va0 < MAXVA" "e AND PTE_V \<noteq> 0" "e AND PTE_U \<noteq> 0" "PTE2PA e \<noteq> 0" "e AND PTE_W \<noteq> 0"
      "PTE2PA e \<notin> tables (mem s) root" "utrans (mem s) root va = Some (PTE2PA e + of_nat off)"
      using w by (auto simp: uwrite_def utrans_def Let_def e_def off_def va0_def [symmetric] split: if_splits)
    obtain q where q: "tbl (mem s) root 2 va0 = Some q" "load64 (mem s) (ent q 2 va0) = e"
      using e(2) by (auto simp: e_def leaf_def split: option.splits)
    have wa: "walkaddr root va0 s = Inr (PTE2PA e, s)" "walk root va0 False s = Inr (ent q 2 va0, s)"
      using walkaddr_run [OF Suc.prems(1), of va0] walk_lookup [OF Suc.prems(1) e(1)] e(1-3) q
      by (simp_all add: e_def)
    let ?m = "store_bytes (mem s) (PTE2PA e + of_nat off) (\<lambda>i. src (k + i)) (unat n)"
    let ?u = "s\<lparr>mem := ?m\<rparr>"
    have step: "copyout_obj_loop (Suc fuel) root va src k len s =
        copyout_obj_loop fuel root (va0 + PGSIZE) src (k + unat n) (len - n) ?u"
      using True wa e(1) [unfolded not_le [symmetric]] e(4,5) q(2)
      by (simp add: Let_def run_simps off_def va0_def [symmetric] n_def [symmetric])
    note S = store_frame [OF Suc.prems(1) e(6), of off "unat n" "\<lambda>i. src (k + i)"]
    have fit: "off + unat n \<le> 4096" using F(6) by (simp add: off_def)
    have u: "pt_inv ?m root" "utrans ?m root = utrans (mem s) root" "uwrite ?m root = uwrite (mem s) root"
      by (rule S(1,4,5) [OF fit])+
    have sub: "unat n + i < unat len" if "i < unat (len - n)" for i using that F(2,3) by simp
    have "\<exists>t. copyout_obj_loop fuel root (va0 + PGSIZE) src (k + unat n) (len - n) ?u = Inr (0, t) \<and>
        copied root (\<lambda>i. src (k + unat n + i)) (va0 + PGSIZE) (unat (len - n)) ?u t"
    proof (rule Suc.IH)
      show "unat (len - n) < fuel" using F(1-3) Suc.prems(2) by simp
      show "\<forall>i<unat (len - n). uwrite (mem ?u) root (va0 + PGSIZE + of_nat i)"
        using Suc.prems(3) F(5) sub by (simp add: u(3) del: of_nat_add)
      show "\<forall>i<unat (len - n). \<forall>j<unat (len - n). i \<noteq> j \<longrightarrow>
          utrans (mem ?u) root (va0 + PGSIZE + of_nat i) \<noteq> utrans (mem ?u) root (va0 + PGSIZE + of_nat j)"
        using Suc.prems(4) F(5) sub by (simp add: u(2) del: of_nat_add)
    qed (simp add: u(1))
    then obtain t where t: "copyout_obj_loop fuel root (va0 + PGSIZE) src (k + unat n) (len - n) ?u = Inr (0, t)"
      "copied root (\<lambda>i. src (k + unat n + i)) (va0 + PGSIZE) (unat (len - n)) ?u t" by blast
    have later: "mem t (the (utrans (mem s) root (va + of_nat (unat n + i)))) = src (k + unat n + i)"
      if "i < unat (len - n)" for i using t(2) that F(5) u(2) by (simp add: copied_def del: of_nat_add)
    have other: "mem t x = ?m x" if "\<forall>i<unat (len - n). utrans (mem s) root (va + of_nat (unat n + i)) \<noteq> Some x" for x
      using t(2) that F(5) u(2) by (simp add: copied_def del: of_nat_add)
    have here: "utrans (mem s) root (va + of_nat j) = Some (PTE2PA e + of_nat off + of_nat j)" if "j < unat n" for j
      using utrans_page [OF F(4) [OF that, unfolded va0_def] e(7)] .
    have "mem t (the (utrans (mem s) root (va + of_nat i))) = src (k + i)" if i: "i < unat len" for i
    proof (cases "i < unat n")
      case True
      have "utrans (mem s) root (va + of_nat (unat n + j)) \<noteq> utrans (mem s) root (va + of_nat i)"
        if "j < unat (len - n)" for j
        using Suc.prems(4) sub [OF that] i True by (metis less_not_refl trans_less_add1)
      then have "mem t (PTE2PA e + of_nat off + of_nat i) = ?m (PTE2PA e + of_nat off + of_nat i)"
        using other here [OF True] by metis
      moreover have "unat (of_nat i :: addr) = i" using True fit by (intro unat_of_nat_lt) simp
      ultimately show ?thesis using here [OF True] True by (simp add: store_bytes_def)
    next
      case False
      then have "unat n + (i - unat n) = i" "i - unat n < unat (len - n)" using i F(2,3) by auto
      then show ?thesis using later [of "i - unat n"] by (simp del: of_nat_add of_nat_diff)
    qed
    moreover have "mem t x = mem s x" if "\<forall>i<unat len. utrans (mem s) root (va + of_nat i) \<noteq> Some x" for x
    proof -
      have "mem t x = ?m x" using other that sub by blast
      moreover have "\<not> unat (x - (PTE2PA e + of_nat off)) < unat n"
      proof
        assume lt: "unat (x - (PTE2PA e + of_nat off)) < unat n"
        from here [OF this] have "utrans (mem s) root (va + of_nat (unat (x - (PTE2PA e + of_nat off)))) = Some x" by simp
        then show False using that lt F(2) by (meson order_less_le_trans)
      qed
      ultimately show ?thesis by (simp add: store_bytes_def)
    qed
    moreover have "t = s\<lparr>mem := mem t\<rparr>" using t(2) by (simp add: copied_def)
    ultimately show ?thesis unfolding step copied_def using t(1) by blast
  qed
qed

section \<open>Properties\<close>

text \<open>
  C24. When every byte of the user's range is mapped for the user, \<^verbatim>\<open>copyin\<close> returns 0, the
  destination holds exactly the user's bytes, read through the page table across page
  boundaries, and neither memory nor anything else changes.
\<close>

theorem copyin_delivers_user_bytes:
  assumes "pt_inv (mem s) root" "\<forall>i<unat len. utrans (mem s) root (srcva + of_nat i) \<noteq> None"
  shows "copyin_obj root dst srcva len s =
    Inr ((0, \<lambda>i. if i < unat len then mem s (the (utrans (mem s) root (srcva + of_nat i))) else dst i), s)"
  using copyin_obj_loop_run [OF assms(1) _ assms(2), of "Suc (unat len)" dst 0, unfolded diff_zero]
  by (simp add: copyin_obj_def)

text \<open>
  C23. When every byte of the user's range is mapped writable, outside the page table, and no two
  of its bytes share a physical address, \<^verbatim>\<open>copyout\<close> returns 0, byte \<open>i\<close> of the source is at the
  physical address of byte \<open>i\<close> of the range, and no other byte of memory changes.
\<close>

theorem copyout_stores_user_bytes:
  assumes "pt_inv (mem s) root" "\<forall>i<unat len. uwrite (mem s) root (dstva + of_nat i)"
    and "\<forall>i<unat len. \<forall>j<unat len. i \<noteq> j \<longrightarrow>
      utrans (mem s) root (dstva + of_nat i) \<noteq> utrans (mem s) root (dstva + of_nat j)"
  shows "wp (copyout_obj root dstva src len) (\<lambda>r t. r = 0 \<and> t = s\<lparr>mem := mem t\<rparr> \<and>
    (\<forall>i<unat len. mem t (the (utrans (mem s) root (dstva + of_nat i))) = src i) \<and>
    (\<forall>x. (\<forall>i<unat len. utrans (mem s) root (dstva + of_nat i) \<noteq> Some x) \<longrightarrow> mem t x = mem s x)) s"
proof -
  obtain t where t: "copyout_obj_loop (Suc (unat len)) root dstva src 0 len s = Inr (0, t)"
    "copied root (\<lambda>i. src (0 + i)) dstva (unat len) s t"
    using copyout_obj_loop_run [OF assms(1) _ assms(2,3), of "Suc (unat len)" src 0] by blast
  show ?thesis unfolding copyout_obj_def
    by (rule wpI [where m = "copyout_obj_loop (Suc (unat len)) root dstva src 0 len", OF t(1)])
      (use t(2) in \<open>simp add: copied_def\<close>)
qed

text \<open>A page table that maps one user page, read-write, at address 0.\<close>

lemma one_user_page:
  obtains m :: memory and p :: addr where "pt_inv m 0x87000000" "\<And>va. va < PGSIZE \<Longrightarrow> utrans m 0x87000000 va = Some (p + va)"
    "\<And>va. va < PGSIZE \<Longrightarrow> uwrite m 0x87000000 va"
proof -
  obtain t :: kmem_st and ps' p where t: "vminv t 0x87000000 ps'" "page_ok t p" "p \<notin> tables (mem t) 0x87000000"
    "leaf (mem t) 0x87000000 0 = entry p (PTE_R OR PTE_U OR PTE_W)"
    using vm_boot_grow by metis
  let ?e = "entry p (PTE_R OR PTE_U OR PTE_W)"
  have pg: "page_aligned p" "unat p < 2 ^ 56" "p \<noteq> 0"
    using t(2) by (auto simp: page_ok_def word_less_nat_alt word_le_nat_alt)
  have pa: "PTE2PA ?e = p" "?e AND PTE_V \<noteq> 0" using entry_decode [OF pg(1,2)] by simp_all
  have "bit ?e 4" "bit ?e 2" by (simp_all add: entry_def bit_simps)
  then have fl: "?e AND PTE_U \<noteq> 0" "?e AND PTE_W \<noteq> 0"
    by (simp_all add: and_exp_eq_0_iff_not_bit [where n = 4, simplified] and_exp_eq_0_iff_not_bit [where n = 2, simplified])
  have va0: "PGROUNDDOWN va = 0" if "va < PGSIZE" for va :: addr
    using that by (simp add: word_unat_eq_iff unat_PGROUNDDOWN word_less_nat_alt)
  have u: "utrans (mem t) 0x87000000 va = Some (p + va)" if "va < PGSIZE" for va
    using t(4) pa pg(3) fl by (simp add: utrans_def va0 [OF that])
  show ?thesis
  proof
    show "pt_inv (mem t) 0x87000000" using t(1) by (simp add: vminv_def)
    show "utrans (mem t) 0x87000000 va = Some (p + va)" if "va < PGSIZE" for va by (rule u [OF that])
    show "uwrite (mem t) 0x87000000 va" if "va < PGSIZE" for va
      using t(3,4) pa fl u [OF that] by (simp add: uwrite_def va0 [OF that])
  qed
qed

definition user_st :: "memory \<Rightarrow> vm_st" where
  "user_st m = \<lparr>mem = m, freelist = 0, kend = 0x80020000, psz = PGSIZE, ppagetable = 0x87000000\<rparr>"

theorem copyin_delivers_user_bytes_witness:
  "\<exists>m p. copyin_obj 0x87000000 (\<lambda>_. 0) 16 4 (user_st m) =
     Inr ((0, \<lambda>i. if i < 4 then m (p + (16 + of_nat i)) else 0), user_st m)"
proof -
  obtain m p where u: "pt_inv m 0x87000000" "\<And>va. va < PGSIZE \<Longrightarrow> utrans m 0x87000000 va = Some (p + va)"
    using one_user_page by metis
  have lt: "(16 :: addr) + of_nat i < PGSIZE" if "i < 4" for i
  proof -
    from that have "i \<in> {0, 1, 2, 3}" by auto
    then show ?thesis by auto
  qed
  have "copyin_obj 0x87000000 (\<lambda>_. 0) 16 4 (user_st m) =
    Inr ((0, \<lambda>i. if i < unat (4 :: addr) then mem (user_st m) (the (utrans (mem (user_st m)) 0x87000000 (16 + of_nat i))) else 0), user_st m)"
    using copyin_delivers_user_bytes [where s = "user_st m" and root = "0x87000000" and len = 4 and srcva = 16 and dst = "\<lambda>_. 0"] u lt by (simp add: user_st_def)
  then show ?thesis using u(2) lt by (intro exI [of _ m] exI [of _ p]) (auto simp: user_st_def fun_eq_iff)
qed

theorem copyout_stores_user_bytes_witness:
  "\<exists>m p. wp (copyout_obj 0x87000000 16 (\<lambda>i. of_nat i) 2) (\<lambda>r t. r = 0 \<and> mem t (p + 17) = 1) (user_st m)"
proof -
  obtain m p where u: "pt_inv m 0x87000000" "\<And>va. va < PGSIZE \<Longrightarrow> utrans m 0x87000000 va = Some (p + va)"
    "\<And>va. va < PGSIZE \<Longrightarrow> uwrite m 0x87000000 va"
    using one_user_page by metis
  note i = less_2_cases_iff
  have "wp (copyout_obj 0x87000000 16 (\<lambda>i. of_nat i) 2) (\<lambda>r t. r = 0 \<and> mem t (p + 17) = 1) (user_st m)"
  proof (rule wp_mono [OF copyout_stores_user_bytes])
    show "pt_inv (mem (user_st m)) 0x87000000" using u(1) by (simp add: user_st_def)
    show "\<forall>i<unat (2 :: addr). uwrite (mem (user_st m)) 0x87000000 (16 + of_nat i)"
      using u(3) [of 16] u(3) [of 17] by (auto simp: i user_st_def)
    show "\<forall>i<unat (2 :: addr). \<forall>j<unat (2 :: addr). i \<noteq> j \<longrightarrow>
      utrans (mem (user_st m)) 0x87000000 (16 + of_nat i) \<noteq> utrans (mem (user_st m)) 0x87000000 (16 + of_nat j)"
      using u(2) [of 16] u(2) [of 17] by (auto simp: i user_st_def)
  qed (use u(2) [of 17] in \<open>auto simp: i user_st_def\<close>)
  then show ?thesis by blast
qed

end
