(* ===== verification/Proc.thy ===== *)
theory Proc
  imports Fs Sched
begin

text \<open>
  The process table of \<^verbatim>\<open>kernel/proc.c\<close>, each section under \<^verbatim>\<open>p->lock\<close>, \<^verbatim>\<open>pid_lock\<close> or \<^verbatim>\<open>wait_lock\<close> being
  atomic (the locks themselves are modelled in \<^verbatim>\<open>Spinlock\<close> and \<^verbatim>\<open>Sched\<close>). Processes are numbered by
  their slot; \<open>curproc\<close> is the process that runs. The fields of the running process that the lower
  layers read (\<open>psz\<close>, \<open>ppagetable\<close>, \<open>mypid\<close>, \<open>pcwd\<close>) follow its table entry: every change of the table
  goes through \<open>upd_proc\<close>. A process that would sleep is \<open>Blocked\<close>. \<open>ktrampoline\<close> and \<open>kforkret\<close> are
  linker symbols.
\<close>

section \<open>State\<close>

text \<open>What a process can sleep on: the objects whose addresses the kernel uses as channels.\<close>

datatype chan = NoChan | ChProc nat | ChRead addr | ChWrite addr | ChTicks | ChBuf nat | ChDisk

record proc =
  p_state :: procstate
  p_chan :: chan
  p_killed :: bool
  p_xstate :: "32 word"
  p_pid :: "32 word"
  p_parent :: "nat option"
  p_kstack :: addr
  p_sz :: addr
  p_pagetable :: addr
  p_trapframe :: addr
  p_ctx_ra :: addr
  p_ctx_sp :: addr
  p_ctx_s :: "nat \<Rightarrow> 64 word"
  p_ofile :: "nat \<Rightarrow> nat option"
  p_cwd :: "nat option"
  p_name :: "nat \<Rightarrow> 8 word"

record proc_st = fs_st +
  procs :: "nat \<Rightarrow> proc"
  nextpid :: "32 word"
  initproc :: "nat option"
  curproc :: nat
  ktrampoline :: addr
  kforkret :: addr

definition sync :: "'z proc_st_scheme \<Rightarrow> 'z proc_st_scheme" where
  "sync s = (let p = procs s (curproc s) in
     s\<lparr>psz := p_sz p, ppagetable := p_pagetable p, mypid := sint (p_pid p),
       pcwd := (case p_cwd p of None \<Rightarrow> 0 | Some i \<Rightarrow> i)\<rparr>)"

definition upd_proc :: "nat \<Rightarrow> (proc \<Rightarrow> proc) \<Rightarrow> ('z proc_st_scheme, unit) km" where
  "upd_proc p f = modify (\<lambda>s. sync (s\<lparr>procs := (procs s)(p := f (procs s p))\<rparr>))"

section \<open>Allocating and freeing a slot\<close>

definition procinit :: "('z proc_st_scheme, unit) km" where
  "procinit = for_each [0..<NPROC] (\<lambda>p. upd_proc p (\<lambda>x. x\<lparr>p_state := UNUSED, p_kstack := KSTACK p\<rparr>))"

definition allocpid :: "('z proc_st_scheme, 32 word) km" where
  "allocpid = bnd get (\<lambda>s.
     bnd (modify (\<lambda>s. s\<lparr>nextpid := nextpid s + 1\<rparr>)) (\<lambda>_. ret (nextpid s)))"

definition proc_pagetable :: "nat \<Rightarrow> ('z proc_st_scheme, addr) km" where
  "proc_pagetable p =
     bnd uvmcreate (\<lambda>pagetable.
     if pagetable = 0 then ret 0
     else bnd get (\<lambda>s.
       bnd (mappages pagetable TRAMPOLINE PGSIZE (ktrampoline s) (PTE_R OR PTE_X)) (\<lambda>r.
       if r < 0 then bnd (uvmfree pagetable 0) (\<lambda>_. ret 0)
       else bnd (mappages pagetable TRAPFRAME PGSIZE (p_trapframe (procs s p)) (PTE_R OR PTE_W)) (\<lambda>r.
         if r < 0
         then bnd (uvmunmap pagetable TRAMPOLINE 1 False) (\<lambda>_.
              bnd (uvmfree pagetable 0) (\<lambda>_. ret 0))
         else ret pagetable))))"

definition proc_freepagetable :: "addr \<Rightarrow> addr \<Rightarrow> ('z kmem_st_scheme, unit) km" where
  "proc_freepagetable pagetable sz =
     bnd (uvmunmap pagetable TRAMPOLINE 1 False) (\<lambda>_.
     bnd (uvmunmap pagetable TRAPFRAME 1 False) (\<lambda>_.
     uvmfree pagetable sz))"

definition freeproc :: "nat \<Rightarrow> ('z proc_st_scheme, unit) km" where
  "freeproc p = bnd get (\<lambda>s.
     bnd (if p_trapframe (procs s p) \<noteq> 0 then kfree (p_trapframe (procs s p)) else skip) (\<lambda>_.
     bnd (upd_proc p (\<lambda>x. x\<lparr>p_trapframe := 0\<rparr>)) (\<lambda>_.
     bnd (if p_pagetable (procs s p) \<noteq> 0
          then proc_freepagetable (p_pagetable (procs s p)) (p_sz (procs s p)) else skip) (\<lambda>_.
     upd_proc p (\<lambda>x. x\<lparr>p_pagetable := 0, p_sz := 0, p_pid := 0, p_parent := None,
       p_name := (p_name x)(0 := 0), p_chan := NoChan, p_killed := False, p_xstate := 0, p_state := UNUSED\<rparr>)))))"

text \<open>The first unused slot.\<close>

primrec find_unused :: "nat list \<Rightarrow> (nat \<Rightarrow> proc) \<Rightarrow> nat option" where
  "find_unused [] P = None"
| "find_unused (p # ps) P = (if p_state (P p) = UNUSED then Some p else find_unused ps P)"

definition allocproc :: "('z proc_st_scheme, nat option) km" where
  "allocproc = bnd get (\<lambda>s.
     case find_unused [0..<NPROC] (procs s) of
       None \<Rightarrow> ret None
     | Some p \<Rightarrow>
         bnd allocpid (\<lambda>pid.
         bnd (upd_proc p (\<lambda>x. x\<lparr>p_pid := pid, p_state := USED\<rparr>)) (\<lambda>_.
         bnd kalloc (\<lambda>tf.
         bnd (upd_proc p (\<lambda>x. x\<lparr>p_trapframe := tf\<rparr>)) (\<lambda>_.
         if tf = 0 then bnd (freeproc p) (\<lambda>_. ret None)
         else bnd (proc_pagetable p) (\<lambda>pt.
              bnd (upd_proc p (\<lambda>x. x\<lparr>p_pagetable := pt\<rparr>)) (\<lambda>_.
              if pt = 0 then bnd (freeproc p) (\<lambda>_. ret None)
              else bnd get (\<lambda>s.
                   bnd (upd_proc p (\<lambda>x. x\<lparr>p_ctx_s := (\<lambda>_. 0), p_ctx_ra := kforkret s,
                     p_ctx_sp := p_kstack x + PGSIZE\<rparr>)) (\<lambda>_.
                   ret (Some p))))))))))"

section \<open>The running process\<close>

definition growproc :: "32 word \<Rightarrow> ('z proc_st_scheme, int) km" where
  "growproc n = bnd get (\<lambda>s.
     let p = curproc s; sz = p_sz (procs s p); pt = p_pagetable (procs s p) in
     if sint n > 0
     then if sz + scast n > TRAPFRAME then ret (- 1)
          else bnd (uvmalloc pt sz (sz + scast n) PTE_W) (\<lambda>sz.
               if sz = 0 then ret (- 1)
               else bnd (upd_proc p (\<lambda>x. x\<lparr>p_sz := sz\<rparr>)) (\<lambda>_. ret 0))
     else if sint n < 0
     then bnd (uvmdealloc pt sz (sz + scast n)) (\<lambda>sz.
          bnd (upd_proc p (\<lambda>x. x\<lparr>p_sz := sz\<rparr>)) (\<lambda>_. ret 0))
     else bnd (upd_proc p (\<lambda>x. x\<lparr>p_sz := sz\<rparr>)) (\<lambda>_. ret 0))"

definition setkilled :: "nat \<Rightarrow> ('z proc_st_scheme, unit) km" where
  "setkilled p = upd_proc p (\<lambda>x. x\<lparr>p_killed := True\<rparr>)"

definition killed :: "nat \<Rightarrow> ('z proc_st_scheme, bool) km" where
  "killed p = bnd get (\<lambda>s. ret (p_killed (procs s p)))"

text \<open>\<^verbatim>\<open>wakeup\<close> with each process lock section atomic.\<close>

definition wakeup_chan :: "chan \<Rightarrow> ('z proc_st_scheme, unit) km" where
  "wakeup_chan chan = for_each [0..<NPROC] (\<lambda>p. bnd get (\<lambda>s.
     if p \<noteq> curproc s \<and> p_state (procs s p) = SLEEPING \<and> p_chan (procs s p) = chan
     then upd_proc p (\<lambda>x. x\<lparr>p_state := RUNNABLE\<rparr>) else skip))"

primrec kkill_scan :: "nat list \<Rightarrow> 32 word \<Rightarrow> ('z proc_st_scheme, int) km" where
  "kkill_scan [] pid = ret (- 1)"
| "kkill_scan (p # ps) pid = bnd get (\<lambda>s.
     if p_pid (procs s p) = pid
     then bnd (upd_proc p (\<lambda>x. x\<lparr>p_killed := True\<rparr>)) (\<lambda>_.
          bnd (if p_state (procs s p) = SLEEPING then upd_proc p (\<lambda>x. x\<lparr>p_state := RUNNABLE\<rparr>) else skip) (\<lambda>_.
          ret 0))
     else kkill_scan ps pid)"

definition kkill :: "32 word \<Rightarrow> ('z proc_st_scheme, int) km" where
  "kkill pid = kkill_scan [0..<NPROC] pid"

text \<open>A pointer to a process as a channel.\<close>

definition proc_chan :: "nat option \<Rightarrow> chan" where
  "proc_chan q = (case q of None \<Rightarrow> NoChan | Some p \<Rightarrow> ChProc p)"

definition reparent :: "nat \<Rightarrow> ('z proc_st_scheme, unit) km" where
  "reparent p = for_each [0..<NPROC] (\<lambda>pp. bnd get (\<lambda>s.
     if p_parent (procs s pp) = Some p
     then bnd (upd_proc pp (\<lambda>x. x\<lparr>p_parent := initproc s\<rparr>)) (\<lambda>_. wakeup_chan (proc_chan (initproc s)))
     else skip))"

text \<open>
  One scan of \<^verbatim>\<open>kwait\<close>: it returns at the first zombie child; at the end it returns -1 when
  there is no child or the caller is killed, and sleeps otherwise.
\<close>

primrec kwait_scan :: "nat list \<Rightarrow> bool \<Rightarrow> addr \<Rightarrow> ('z proc_st_scheme, int) km" where
  "kwait_scan [] havekids addr = bnd get (\<lambda>s.
     bnd (killed (curproc s)) (\<lambda>k.
     if \<not> havekids \<or> k then ret (- 1) else stop_with Blocked))"
| "kwait_scan (pp # pps) havekids addr = bnd get (\<lambda>s.
     if p_parent (procs s pp) = Some (curproc s)
     then if p_state (procs s pp) = ZOMBIE
          then let pid = p_pid (procs s pp) in
               bnd (if addr \<noteq> 0
                    then copyout_obj (p_pagetable (procs s (curproc s))) addr (byte_of (p_xstate (procs s pp))) 4
                    else ret 0) (\<lambda>r.
               if r < 0 then ret (- 1)
               else bnd (freeproc pp) (\<lambda>_. ret (sint pid)))
          else kwait_scan pps True addr
     else kwait_scan pps havekids addr)"

definition kwait :: "addr \<Rightarrow> ('z proc_st_scheme, int) km" where
  "kwait addr = kwait_scan [0..<NPROC] False addr"

text \<open>The path "/" that \<^verbatim>\<open>userinit\<close> looks up is at \<open>rootpath\<close>.\<close>

definition userinit :: "addr \<Rightarrow> ('z proc_st_scheme, unit) km" where
  "userinit rootpath =
     bnd allocproc (\<lambda>mp.
     case mp of
       None \<Rightarrow> stop_with OutOfBounds
     | Some p \<Rightarrow>
         bnd (modify (\<lambda>s. s\<lparr>initproc := Some p\<rparr>)) (\<lambda>_.
         bnd (namei rootpath) (\<lambda>ip.
         bnd (upd_proc p (\<lambda>x. x\<lparr>p_cwd := ip\<rparr>)) (\<lambda>_.
         upd_proc p (\<lambda>x. x\<lparr>p_state := RUNNABLE\<rparr>)))))"

end
