(* ===== verification/File.thy ===== *)
theory File
  imports Proc
begin

text \<open>
  \<^verbatim>\<open>kernel/pipe.c\<close> and \<^verbatim>\<open>kernel/file.c\<close>. A pipe lives in a page from \<^verbatim>\<open>kalloc\<close>; \<open>pipes\<close> maps the address of
  the page to its contents. A file pointer is its index in \<^verbatim>\<open>ftable\<close>. Sections under \<^verbatim>\<open>pi->lock\<close> and
  \<^verbatim>\<open>ftable.lock\<close> are atomic. \<^verbatim>\<open>pipewrite\<close> may sleep after it wrote part of its data: its loop returns
  \<open>Inl i\<close> when it sleeps with \<open>i\<close> bytes written and continues from there once woken. Device drivers
  (\<^verbatim>\<open>devsw\<close>) are arguments.
\<close>

section \<open>State\<close>

record pipe =
  pi_data :: "nat \<Rightarrow> 8 word"
  pi_nread :: uint
  pi_nwrite :: uint
  pi_readopen :: bool
  pi_writeopen :: bool

datatype fdtype = FD_NONE | FD_PIPE | FD_INODE | FD_DEVICE

record kfile =
  f_type :: fdtype
  f_ref :: int
  f_readable :: bool
  f_writable :: bool
  f_pipe :: addr
  f_ip :: nat
  f_off :: uint
  f_major :: "16 word"

record file_st = proc_st +
  ftable :: "nat \<Rightarrow> kfile"
  pipes :: "addr \<Rightarrow> pipe"

type_synonym 'z devfun = "nat \<Rightarrow> (bool \<Rightarrow> addr \<Rightarrow> int \<Rightarrow> ('z file_st_scheme, int) km) option"

abbreviation PIPESIZE :: nat where "PIPESIZE \<equiv> 512"
abbreviation NFILE :: nat where "NFILE \<equiv> 100"
abbreviation NDEV :: nat where "NDEV \<equiv> 10"

definition upd_pipe :: "addr \<Rightarrow> (pipe \<Rightarrow> pipe) \<Rightarrow> ('z file_st_scheme, unit) km" where
  "upd_pipe pi f = modify (\<lambda>s. s\<lparr>pipes := (pipes s)(pi := f (pipes s pi))\<rparr>)"

definition upd_file :: "nat \<Rightarrow> (kfile \<Rightarrow> kfile) \<Rightarrow> ('z file_st_scheme, unit) km" where
  "upd_file f g = modify (\<lambda>s. s\<lparr>ftable := (ftable s)(f := g (ftable s f))\<rparr>)"

section \<open>Pipes\<close>

definition pipeclose :: "addr \<Rightarrow> bool \<Rightarrow> ('z file_st_scheme, unit) km" where
  "pipeclose pi writable =
     bnd (if writable
          then bnd (upd_pipe pi (\<lambda>x. x\<lparr>pi_writeopen := False\<rparr>)) (\<lambda>_. wakeup_chan (ChRead pi))
          else bnd (upd_pipe pi (\<lambda>x. x\<lparr>pi_readopen := False\<rparr>)) (\<lambda>_. wakeup_chan (ChWrite pi))) (\<lambda>_.
     bnd get (\<lambda>s.
     if \<not> pi_readopen (pipes s pi) \<and> \<not> pi_writeopen (pipes s pi) then kfree pi else skip))"

text \<open>The two accesses to the ring: \<^verbatim>\<open>pi->data[pi->nwrite++ % PIPESIZE] = ch\<close> and the read of a byte.\<close>

definition pipe_put :: "8 word \<Rightarrow> pipe \<Rightarrow> pipe" where
  "pipe_put ch x = x\<lparr>pi_data := (pi_data x)(unat (pi_nwrite x) mod PIPESIZE := ch), pi_nwrite := pi_nwrite x + 1\<rparr>"

definition pipe_peek :: "pipe \<Rightarrow> 8 word" where
  "pipe_peek x = pi_data x (unat (pi_nread x) mod PIPESIZE)"

primrec pipewrite_loop :: "nat \<Rightarrow> addr \<Rightarrow> addr \<Rightarrow> int \<Rightarrow> int \<Rightarrow> ('z file_st_scheme, int + int) km" where
  "pipewrite_loop 0 pi addr n i = stop_with Diverge"
| "pipewrite_loop (Suc fuel) pi addr n i =
     (if i < n
      then bnd get (\<lambda>s.
        bnd (killed (curproc s)) (\<lambda>k.
        if \<not> pi_readopen (pipes s pi) \<or> k then ret (Inr (- 1))
        else if pi_nwrite (pipes s pi) = pi_nread (pipes s pi) + of_nat PIPESIZE
        then bnd (wakeup_chan (ChRead pi)) (\<lambda>_. ret (Inl i))
        else bnd (copyin_obj (ppagetable s) (\<lambda>_. 0) (addr + word_of_int i) 1) (\<lambda>(r, ch).
          if r = - 1 then bnd (wakeup_chan (ChRead pi)) (\<lambda>_. ret (Inr i))
          else bnd (upd_pipe pi (pipe_put (ch 0))) (\<lambda>_.
               pipewrite_loop fuel pi addr n (i + 1)))))
      else bnd (wakeup_chan (ChRead pi)) (\<lambda>_. ret (Inr i)))"

definition pipewrite :: "addr \<Rightarrow> addr \<Rightarrow> int \<Rightarrow> ('z file_st_scheme, int) km" where
  "pipewrite pi addr n =
     bnd (pipewrite_loop (Suc (nat n)) pi addr n 0) (\<lambda>r.
     case r of Inl _ \<Rightarrow> stop_with Blocked | Inr x \<Rightarrow> ret x)"

primrec piperead_loop :: "nat \<Rightarrow> addr \<Rightarrow> addr \<Rightarrow> int \<Rightarrow> int \<Rightarrow> ('z file_st_scheme, int) km" where
  "piperead_loop 0 pi addr n i = stop_with Diverge"
| "piperead_loop (Suc fuel) pi addr n i =
     (if i < n
      then bnd get (\<lambda>s.
        if pi_nread (pipes s pi) = pi_nwrite (pipes s pi) then ret i
        else bnd (copyout_obj (ppagetable s) (addr + word_of_int i) (\<lambda>_. pipe_peek (pipes s pi)) 1) (\<lambda>r.
          if r = - 1 then ret (if i = 0 then - 1 else i)
          else bnd (upd_pipe pi (\<lambda>x. x\<lparr>pi_nread := pi_nread x + 1\<rparr>)) (\<lambda>_.
               piperead_loop fuel pi addr n (i + 1))))
      else ret i)"

definition piperead :: "addr \<Rightarrow> addr \<Rightarrow> int \<Rightarrow> ('z file_st_scheme, int) km" where
  "piperead pi addr n = bnd get (\<lambda>s.
     if pi_nread (pipes s pi) = pi_nwrite (pipes s pi) \<and> pi_writeopen (pipes s pi)
     then bnd (killed (curproc s)) (\<lambda>k. if k then ret (- 1) else stop_with Blocked)
     else bnd (piperead_loop (Suc (nat n)) pi addr n 0) (\<lambda>i.
          bnd (wakeup_chan (ChWrite pi)) (\<lambda>_. ret i)))"

section \<open>Files\<close>

primrec find_file :: "nat list \<Rightarrow> (nat \<Rightarrow> kfile) \<Rightarrow> nat option" where
  "find_file [] F = None"
| "find_file (f # fs) F = (if f_ref (F f) = 0 then Some f else find_file fs F)"

definition filealloc :: "('z file_st_scheme, nat option) km" where
  "filealloc = bnd get (\<lambda>s.
     case find_file [0..<NFILE] (ftable s) of
       None \<Rightarrow> ret None
     | Some f \<Rightarrow> bnd (upd_file f (\<lambda>x. x\<lparr>f_ref := 1\<rparr>)) (\<lambda>_. ret (Some f)))"

definition filedup :: "nat \<Rightarrow> ('z file_st_scheme, nat) km" where
  "filedup f = bnd get (\<lambda>s.
     if f_ref (ftable s f) < 1 then panic ''filedup''
     else bnd (upd_file f (\<lambda>x. x\<lparr>f_ref := f_ref x + 1\<rparr>)) (\<lambda>_. ret f))"

definition fileclose :: "nat \<Rightarrow> ('z file_st_scheme, unit) km" where
  "fileclose f = bnd get (\<lambda>s.
     if f_ref (ftable s f) < 1 then panic ''fileclose''
     else bnd (upd_file f (\<lambda>x. x\<lparr>f_ref := f_ref x - 1\<rparr>)) (\<lambda>_.
       if f_ref (ftable s f) - 1 > 0 then skip
       else let ff = ftable s f in
         bnd (upd_file f (\<lambda>x. x\<lparr>f_ref := 0, f_type := FD_NONE\<rparr>)) (\<lambda>_.
         case f_type ff of
           FD_PIPE \<Rightarrow> pipeclose (f_pipe ff) (f_writable ff)
         | FD_NONE \<Rightarrow> skip
         | _ \<Rightarrow> bnd begin_op (\<lambda>_. bnd (iput (f_ip ff)) (\<lambda>_. end_op)))))"

text \<open>
  The 24 bytes of \<^verbatim>\<open>struct stat\<close>; \<^verbatim>\<open>filestat\<close> fills a local, so its four padding bytes are what the
  stack held.
\<close>

definition stat_bytes :: "stat \<Rightarrow> obj \<Rightarrow> obj" where
  "stat_bytes st stale = (\<lambda>i.
     if i < 4 then byte_of (st_dev st) i
     else if i < 8 then byte_of (st_ino st) (i - 4)
     else if i < 10 then byte_of (st_type st) (i - 8)
     else if i < 12 then byte_of (st_nlink st) (i - 10)
     else if i < 16 then stale i
     else byte_of (st_size st) (i - 16))"

definition filestat :: "nat \<Rightarrow> addr \<Rightarrow> ('z file_st_scheme, int) km" where
  "filestat f addr = bnd get (\<lambda>s.
     if f_type (ftable s f) = FD_INODE \<or> f_type (ftable s f) = FD_DEVICE
     then let ip = f_ip (ftable s f) in
       bnd (ilock ip) (\<lambda>_.
       bnd (stati ip) (\<lambda>st.
       bnd (iunlock ip) (\<lambda>_.
       bnd get (\<lambda>s.
       bnd (copyout_obj (ppagetable s) addr (stat_bytes st (\<lambda>i. mem s (kstk s + 64 + of_nat i))) 24) (\<lambda>r.
       if r < 0 then ret (- 1) else ret 0)))))
     else ret (- 1))"

definition fileread :: "'z devfun \<Rightarrow> nat \<Rightarrow> addr \<Rightarrow> int \<Rightarrow> ('z file_st_scheme, int) km" where
  "fileread dev_read f addr n = bnd get (\<lambda>s.
     let x = ftable s f in
     if \<not> f_readable x then ret (- 1)
     else case f_type x of
       FD_PIPE \<Rightarrow> piperead (f_pipe x) addr n
     | FD_DEVICE \<Rightarrow>
         if sint (f_major x) < 0 \<or> sint (f_major x) \<ge> int NDEV then ret (- 1)
         else (case dev_read (unat (f_major x)) of None \<Rightarrow> ret (- 1) | Some rd \<Rightarrow> rd True addr n)
     | FD_INODE \<Rightarrow>
         bnd (ilock (f_ip x)) (\<lambda>_.
         bnd (readi (f_ip x) True addr (f_off x) (word_of_int n)) (\<lambda>r.
         bnd (if sint r > 0 then upd_file f (\<lambda>x. x\<lparr>f_off := f_off x + r\<rparr>) else skip) (\<lambda>_.
         bnd (iunlock (f_ip x)) (\<lambda>_.
         ret (sint r)))))
     | FD_NONE \<Rightarrow> panic ''fileread'')"

text \<open>\<^verbatim>\<open>max\<close> of \<^verbatim>\<open>filewrite\<close>: three blocks, so that one transaction writes at most \<^verbatim>\<open>MAXOPBLOCKS\<close> blocks.\<close>

abbreviation WRITEMAX :: int where "WRITEMAX \<equiv> 3072"

primrec filewrite_loop :: "nat \<Rightarrow> nat \<Rightarrow> addr \<Rightarrow> int \<Rightarrow> int \<Rightarrow> ('z file_st_scheme, int) km" where
  "filewrite_loop 0 f addr n i = stop_with Diverge"
| "filewrite_loop (Suc fuel) f addr n i =
     (if i < n
      then let n1 = min (n - i) WRITEMAX in
        bnd begin_op (\<lambda>_.
        bnd get (\<lambda>s.
        let ip = f_ip (ftable s f) in
        bnd (ilock ip) (\<lambda>_.
        bnd get (\<lambda>s.
        bnd (writei ip True (addr + word_of_int i) (f_off (ftable s f)) (word_of_int n1)) (\<lambda>r.
        bnd (if sint r > 0 then upd_file f (\<lambda>x. x\<lparr>f_off := f_off x + r\<rparr>) else skip) (\<lambda>_.
        bnd (iunlock ip) (\<lambda>_.
        bnd end_op (\<lambda>_.
        if sint r \<noteq> n1 then ret i
        else filewrite_loop fuel f addr n (i + sint r)))))))))
      else ret i)"

definition filewrite :: "'z devfun \<Rightarrow> nat \<Rightarrow> addr \<Rightarrow> int \<Rightarrow> ('z file_st_scheme, int) km" where
  "filewrite dev_write f addr n = bnd get (\<lambda>s.
     let x = ftable s f in
     if \<not> f_writable x then ret (- 1)
     else case f_type x of
       FD_PIPE \<Rightarrow> pipewrite (f_pipe x) addr n
     | FD_DEVICE \<Rightarrow>
         if sint (f_major x) < 0 \<or> sint (f_major x) \<ge> int NDEV then ret (- 1)
         else (case dev_write (unat (f_major x)) of None \<Rightarrow> ret (- 1) | Some wr \<Rightarrow> wr True addr n)
     | FD_INODE \<Rightarrow>
         bnd (filewrite_loop (Suc (nat n)) f addr n 0) (\<lambda>i. ret (if i = n then n else - 1))
     | FD_NONE \<Rightarrow> panic ''filewrite'')"

definition close_opt :: "nat option \<Rightarrow> ('z file_st_scheme, unit) km" where
  "close_opt f = (case f of None \<Rightarrow> skip | Some f \<Rightarrow> fileclose f)"

definition pipealloc :: "('z file_st_scheme, (nat \<times> nat) option) km" where
  "pipealloc =
     bnd filealloc (\<lambda>f0.
     bnd (if f0 = None then ret None else filealloc) (\<lambda>f1.
     case (f0, f1) of
       (Some r, Some w) \<Rightarrow>
         bnd kalloc (\<lambda>pi.
         if pi = 0 then bnd (fileclose r) (\<lambda>_. bnd (fileclose w) (\<lambda>_. ret None))
         else bnd get (\<lambda>s.
           bnd (upd_pipe pi (\<lambda>_. \<lparr>pi_data = (\<lambda>i. mem s (pi + 24 + of_nat i)), pi_nread = 0, pi_nwrite = 0,
             pi_readopen = True, pi_writeopen = True\<rparr>)) (\<lambda>_.
           bnd (upd_file r (\<lambda>x. x\<lparr>f_type := FD_PIPE, f_readable := True, f_writable := False, f_pipe := pi\<rparr>)) (\<lambda>_.
           bnd (upd_file w (\<lambda>x. x\<lparr>f_type := FD_PIPE, f_readable := False, f_writable := True, f_pipe := pi\<rparr>)) (\<lambda>_.
           ret (Some (r, w)))))))
     | _ \<Rightarrow> bnd (close_opt f0) (\<lambda>_. bnd (close_opt f1) (\<lambda>_. ret None))))"

end
