(* ===== verification/Console.thy ===== *)
theory Console
  imports File
begin

text \<open>
  \<^verbatim>\<open>kernel/uart.c\<close>, \<^verbatim>\<open>kernel/console.c\<close> and \<^verbatim>\<open>kernel/printf.c\<close>. The UART is seen through its registers:
  \<open>uart_log\<close> lists the register writes, \<open>uart_lsr n\<close> is what the device answers to the \<open>n\<close>-th read of
  its line status register, and \<open>uart_limit\<close> bounds the polls for one character (the C loop has no
  bound; a run that exceeds it is \<open>Diverge\<close>). \<^verbatim>\<open>cons_lock\<close> and \<^verbatim>\<open>pr.lock\<close> are kept as flags of the one hart,
  so that acquiring a lock this hart holds is the panic of \<^verbatim>\<open>acquire\<close>. A string is the list of its
  bytes; the arguments of \<^verbatim>\<open>printf\<close> are register words or strings. \<open>krodata\<close> is where the linker puts the
  strings the kernel passes by address.
\<close>

section \<open>State\<close>

record cons_st = file_st +
  uart_log :: "(nat \<times> 8 word) list"
  uart_lsr :: "nat \<Rightarrow> 8 word"
  uart_reads :: nat
  uart_limit :: nat
  cons_locked :: bool
  pr_locked :: bool
  ticks :: uint
  krodata :: addr

definition bytes :: "string \<Rightarrow> 8 word list" where
  "bytes s = map of_char s"

section \<open>UART\<close>

definition WriteReg :: "nat \<Rightarrow> 8 word \<Rightarrow> ('z cons_st_scheme, unit) km" where
  "WriteReg reg v = modify (\<lambda>s. s\<lparr>uart_log := uart_log s @ [(reg, v)]\<rparr>)"

definition uartinit :: "('z cons_st_scheme, unit) km" where
  "uartinit =
     bnd (WriteReg 3 0x80) (\<lambda>_.
     bnd (WriteReg 0 0x03) (\<lambda>_.
     bnd (WriteReg 1 0x00) (\<lambda>_.
     WriteReg 3 0x03)))"

text \<open>The polling loop of \<^verbatim>\<open>uartputc\<close>.\<close>

primrec uart_wait :: "nat \<Rightarrow> ('z cons_st_scheme, unit) km" where
  "uart_wait 0 = stop_with Diverge"
| "uart_wait (Suc fuel) = bnd get (\<lambda>s.
     bnd (modify (\<lambda>s. s\<lparr>uart_reads := uart_reads s + 1\<rparr>)) (\<lambda>_.
     if uart_lsr s (uart_reads s) AND 0x20 = 0 then uart_wait fuel else skip))"

definition uartputc :: "8 word \<Rightarrow> ('z cons_st_scheme, unit) km" where
  "uartputc c = bnd get (\<lambda>s. bnd (uart_wait (uart_limit s)) (\<lambda>_. WriteReg 0 c))"

definition uartputs :: "8 word list \<Rightarrow> ('z cons_st_scheme, unit) km" where
  "uartputs s = for_each s uartputc"

section \<open>Console\<close>

definition acquire_cons :: "('z cons_st_scheme, unit) km" where
  "acquire_cons = bnd get (\<lambda>s.
     if cons_locked s then panic ''acquire'' else modify (\<lambda>s. s\<lparr>cons_locked := True\<rparr>))"

definition release_cons :: "('z cons_st_scheme, unit) km" where
  "release_cons = bnd get (\<lambda>s.
     if \<not> cons_locked s then panic ''release'' else modify (\<lambda>s. s\<lparr>cons_locked := False\<rparr>))"

primrec consolewrite_loop :: "nat \<Rightarrow> bool \<Rightarrow> addr \<Rightarrow> int \<Rightarrow> int \<Rightarrow> ('z cons_st_scheme, int) km" where
  "consolewrite_loop 0 user_src src n i = stop_with Diverge"
| "consolewrite_loop (Suc fuel) user_src src n i =
     (if i < n
      then bnd (either_copyin (\<lambda>_. 0) user_src (src + word_of_int i) 1) (\<lambda>(r, c).
           if r = - 1 then ret i
           else bnd (uartputc (c 0)) (\<lambda>_. consolewrite_loop fuel user_src src n (i + 1)))
      else ret i)"

definition consolewrite :: "bool \<Rightarrow> addr \<Rightarrow> int \<Rightarrow> ('z cons_st_scheme, int) km" where
  "consolewrite user_src src n =
     bnd acquire_cons (\<lambda>_.
     bnd (consolewrite_loop (Suc (nat n)) user_src src n 0) (\<lambda>i.
     bnd release_cons (\<lambda>_. ret i)))"

definition consoleputc :: "8 word \<Rightarrow> ('z cons_st_scheme, unit) km" where
  "consoleputc c = bnd acquire_cons (\<lambda>_. bnd (uartputc c) (\<lambda>_. release_cons))"

definition consoleputs :: "8 word list \<Rightarrow> ('z cons_st_scheme, unit) km" where
  "consoleputs s = for_each s consoleputc"

text \<open>The digits of \<open>n\<close>, least significant first, into a buffer of ten characters.\<close>

primrec putuint_digits :: "nat \<Rightarrow> uint \<Rightarrow> 8 word list option" where
  "putuint_digits 0 n = (if n > 0 then None else Some [])"
| "putuint_digits (Suc room) n =
     (if n > 0
      then case putuint_digits room (n div 10) of None \<Rightarrow> None | Some ds \<Rightarrow> Some ((ucast (n mod 10) + 48) # ds)
      else Some [])"

definition consoleputuint :: "uint \<Rightarrow> ('z cons_st_scheme, unit) km" where
  "consoleputuint n =
     (if n = 0 then consoleputc 48
      else case putuint_digits 10 n of
        None \<Rightarrow> stop_with OutOfBounds
      | Some buf \<Rightarrow> for_each (rev buf) consoleputc)"

definition clear_screen :: "('z cons_st_scheme, unit) km" where
  "clear_screen =
     bnd acquire_cons (\<lambda>_.
     bnd (consoleputs (27 # bytes ''[2J'' @ 27 # bytes ''[3J'' @ 27 # bytes ''[H'')) (\<lambda>_.
     release_cons))"

definition goto_xy :: "32 word \<Rightarrow> 32 word \<Rightarrow> ('z cons_st_scheme, unit) km" where
  "goto_xy x y =
     bnd acquire_cons (\<lambda>_.
     bnd (consoleputs (27 # bytes ''['')) (\<lambda>_.
     bnd (consoleputuint y) (\<lambda>_.
     bnd (consoleputc (of_char CHR '';'')) (\<lambda>_.
     bnd (consoleputuint x) (\<lambda>_.
     bnd (consoleputc (of_char CHR ''H'')) (\<lambda>_.
     release_cons))))))"

definition clear_line :: "('z cons_st_scheme, unit) km" where
  "clear_line =
     bnd acquire_cons (\<lambda>_.
     bnd (consoleputs (27 # bytes ''[2K'')) (\<lambda>_.
     release_cons))"

text \<open>The device switch: \<^verbatim>\<open>consoleinit\<close> gives the console a write function and no read function.\<close>

definition console_write_dev :: "'z cons_st_ext devfun" where
  "console_write_dev major = (if major = 1 then Some consolewrite else None)"

definition console_read_dev :: "'z cons_st_ext devfun" where
  "console_read_dev major = None"

section \<open>printf\<close>

datatype va_arg = Word "64 word" | Str "8 word list"

definition digits :: "8 word list" where
  "digits = bytes ''0123456789abcdef''"

text \<open>The digits of \<open>x\<close>, least significant first, into a buffer with \<open>room\<close> places.\<close>

primrec printint_digits :: "nat \<Rightarrow> 64 word \<Rightarrow> 64 word \<Rightarrow> 8 word list option" where
  "printint_digits 0 x base = None"
| "printint_digits (Suc room) x base =
     (if x div base = 0 then Some [digits ! unat (x mod base)]
      else case printint_digits room (x div base) base of
        None \<Rightarrow> None
      | Some ds \<Rightarrow> Some (digits ! unat (x mod base) # ds))"

definition printint :: "64 word \<Rightarrow> 64 word \<Rightarrow> bool \<Rightarrow> ('z cons_st_scheme, unit) km" where
  "printint val base sign =
     bnd (if sign \<and> sint val < 0 then consoleputc (of_char CHR ''-'') else skip) (\<lambda>_.
     case printint_digits 20 (if sign \<and> sint val < 0 then - val else val) base of
       None \<Rightarrow> stop_with OutOfBounds
     | Some buf \<Rightarrow> for_each (rev buf) consoleputc)"

text \<open>\<^verbatim>\<open>va_arg(ap, int)\<close> as a 64-bit value, \<^verbatim>\<open>va_arg(ap, uint64)\<close> and \<^verbatim>\<open>va_arg(ap, char*)\<close>; a null string prints as (null).\<close>

definition va_int :: "va_arg \<Rightarrow> ('z cons_st_scheme, 64 word) km" where
  "va_int a = (case a of Word w \<Rightarrow> ret (scast (ucast w :: 32 word)) | Str _ \<Rightarrow> stop_with OutOfBounds)"

definition va_uint64 :: "va_arg \<Rightarrow> ('z cons_st_scheme, 64 word) km" where
  "va_uint64 a = (case a of Word w \<Rightarrow> ret w | Str _ \<Rightarrow> stop_with OutOfBounds)"

definition va_str :: "va_arg \<Rightarrow> ('z cons_st_scheme, 8 word list) km" where
  "va_str a = (case a of
     Word w \<Rightarrow> if w = 0 then ret (bytes ''(null)'') else stop_with OutOfBounds
   | Str s \<Rightarrow> ret s)"

text \<open>One conversion: the action for the character after a percent sign, and the arguments left.\<close>

definition convert :: "8 word \<Rightarrow> va_arg list \<Rightarrow> ('z cons_st_scheme, va_arg list) km" where
  "convert c ap =
     (if c \<in> set (bytes ''dxpsc'')
      then case ap of
        [] \<Rightarrow> stop_with OutOfBounds
      | a # ap \<Rightarrow>
          bnd (if c = of_char CHR ''d'' then bnd (va_int a) (\<lambda>v. printint v 10 True)
               else if c = of_char CHR ''x'' then bnd (va_int a) (\<lambda>v. printint v 16 False)
               else if c = of_char CHR ''p''
               then bnd (consoleputc 48) (\<lambda>_. bnd (consoleputc (of_char CHR ''x'')) (\<lambda>_.
                    bnd (va_uint64 a) (\<lambda>v. printint v 16 False)))
               else if c = of_char CHR ''s'' then bnd (va_str a) (\<lambda>s. for_each s consoleputc)
               else bnd (va_int a) (\<lambda>v. consoleputc (ucast v))) (\<lambda>_.
          ret ap)
      else if c = 37 then bnd (consoleputc 37) (\<lambda>_. ret ap)
      else bnd (consoleputc 37) (\<lambda>_. bnd (consoleputc c) (\<lambda>_. ret ap)))"

fun vprintf :: "8 word list \<Rightarrow> va_arg list \<Rightarrow> ('z cons_st_scheme, unit) km" where
  "vprintf [] ap = skip"
| "vprintf (c # fmt) ap =
     (if c \<noteq> 37 then bnd (consoleputc c) (\<lambda>_. vprintf fmt ap)
      else case fmt of
        [] \<Rightarrow> skip
      | c # fmt \<Rightarrow> bnd (convert c ap) (\<lambda>ap. vprintf fmt ap))"

definition acquire_pr :: "('z cons_st_scheme, unit) km" where
  "acquire_pr = bnd get (\<lambda>s.
     if pr_locked s then panic ''acquire'' else modify (\<lambda>s. s\<lparr>pr_locked := True\<rparr>))"

definition release_pr :: "('z cons_st_scheme, unit) km" where
  "release_pr = bnd get (\<lambda>s.
     if \<not> pr_locked s then panic ''release'' else modify (\<lambda>s. s\<lparr>pr_locked := False\<rparr>))"

definition printf :: "8 word list \<Rightarrow> va_arg list \<Rightarrow> ('z cons_st_scheme, unit) km" where
  "printf fmt ap = bnd acquire_pr (\<lambda>_. bnd (vprintf fmt ap) (\<lambda>_. release_pr))"

definition printf_color :: "32 word \<Rightarrow> 8 word list \<Rightarrow> va_arg list \<Rightarrow> ('z cons_st_scheme, unit) km" where
  "printf_color color fmt ap =
     bnd acquire_pr (\<lambda>_.
     bnd (consoleputc 27) (\<lambda>_.
     bnd (consoleputc (of_char CHR ''['')) (\<lambda>_.
     bnd (printint (scast color) 10 False) (\<lambda>_.
     bnd (consoleputc (of_char CHR ''m'')) (\<lambda>_.
     bnd (vprintf fmt ap) (\<lambda>_.
     bnd (for_each (27 # bytes ''[0m'') consoleputc) (\<lambda>_.
     release_pr)))))))"

end
