(* ===== verification/Proc_Life.thy ===== *)
theory Proc_Life
  imports File
begin

text \<open>
  \<^verbatim>\<open>kfork\<close> and \<^verbatim>\<open>kexit\<close> of \<^verbatim>\<open>kernel/proc.c\<close>. A trapframe is the page of byte memory at \<^verbatim>\<open>p->trapframe\<close>;
  the offsets are those of \<^verbatim>\<open>struct trapframe\<close>. \<^verbatim>\<open>kexit\<close> ends in \<^verbatim>\<open>sched\<close> and never returns to its
  caller: the model ends with the state that the scheduler takes over.
\<close>

abbreviation NOFILE :: nat where "NOFILE \<equiv> 16"

definition TF_EPC :: addr where "TF_EPC = 24"
definition TF_SP :: addr where "TF_SP = 48"
definition TF_A0 :: addr where "TF_A0 = 112"
definition TF_A1 :: addr where "TF_A1 = 120"
definition TF_A7 :: addr where "TF_A7 = 168"

definition set_tf :: "nat \<Rightarrow> addr \<Rightarrow> 64 word \<Rightarrow> ('z proc_st_scheme, unit) km" where
  "set_tf p off v = modify (\<lambda>s. s\<lparr>mem := store64 (mem s) (p_trapframe (procs s p) + off) v\<rparr>)"

text \<open>\<^verbatim>\<open>safestrcpy\<close> into the name of a process, from byte \<open>k\<close> on.\<close>

primrec name_copy :: "nat \<Rightarrow> obj \<Rightarrow> nat \<Rightarrow> obj \<Rightarrow> obj" where
  "name_copy 0 t k f = f(k := 0)"
| "name_copy (Suc n) t k f =
     (if t k \<noteq> 0 then name_copy n t (Suc k) (f(k := t k)) else f(k := 0, Suc k := 0))"

definition set_name :: "nat \<Rightarrow> obj \<Rightarrow> ('z proc_st_scheme, unit) km" where
  "set_name p t = upd_proc p (\<lambda>x. x\<lparr>p_name := name_copy 15 t 0 (p_name x)\<rparr>)"

text \<open>One turn of the loop of \<^verbatim>\<open>kfork\<close> over the open files.\<close>

definition fork_file :: "nat \<Rightarrow> nat \<Rightarrow> nat \<Rightarrow> ('z file_st_scheme, unit) km" where
  "fork_file p np i = bnd get (\<lambda>s.
     case p_ofile (procs s p) i of
       None \<Rightarrow> skip
     | Some f \<Rightarrow> bnd (filedup f) (\<lambda>f. upd_proc np (\<lambda>x. x\<lparr>p_ofile := (p_ofile x)(i := Some f)\<rparr>)))"

definition kfork :: "('z file_st_scheme, int) km" where
  "kfork = bnd get (\<lambda>s.
     let p = curproc s in
     bnd allocproc (\<lambda>np.
     case np of
       None \<Rightarrow> ret (- 1)
     | Some np \<Rightarrow> bnd get (\<lambda>s.
       let sz = p_sz (procs s p) in
       bnd (uvmcopy (p_pagetable (procs s p)) (p_pagetable (procs s np)) sz) (\<lambda>r.
       if r < 0 then bnd (freeproc np) (\<lambda>_. ret (- 1))
       else
         bnd (upd_proc np (\<lambda>x. x\<lparr>p_sz := sz\<rparr>)) (\<lambda>_.
         bnd (modify (\<lambda>s. s\<lparr>mem := store_bytes (mem s) (p_trapframe (procs s np))
           (\<lambda>i. mem s (p_trapframe (procs s p) + of_nat i)) 288\<rparr>)) (\<lambda>_.
         bnd (set_tf np TF_A0 0) (\<lambda>_.
         bnd (for_each [0..<NOFILE] (fork_file p np)) (\<lambda>_.
         bnd get (\<lambda>s.
         bnd (case p_cwd (procs s p) of None \<Rightarrow> stop_with OutOfBounds | Some ip \<Rightarrow> idup ip) (\<lambda>ip.
         bnd (upd_proc np (\<lambda>x. x\<lparr>p_cwd := Some ip\<rparr>)) (\<lambda>_.
         bnd (set_name np (p_name (procs s p))) (\<lambda>_.
         bnd (upd_proc np (\<lambda>x. x\<lparr>p_parent := Some p\<rparr>)) (\<lambda>_.
         bnd (upd_proc np (\<lambda>x. x\<lparr>p_state := RUNNABLE\<rparr>)) (\<lambda>_.
         ret (sint (p_pid (procs s np)))))))))))))))))"

text \<open>One turn of the loop of \<^verbatim>\<open>kexit\<close> over the open files.\<close>

definition exit_file :: "nat \<Rightarrow> nat \<Rightarrow> ('z file_st_scheme, unit) km" where
  "exit_file p fd = bnd get (\<lambda>s.
     case p_ofile (procs s p) fd of
       None \<Rightarrow> skip
     | Some f \<Rightarrow> bnd (fileclose f) (\<lambda>_. upd_proc p (\<lambda>x. x\<lparr>p_ofile := (p_ofile x)(fd := None)\<rparr>)))"

definition kexit :: "32 word \<Rightarrow> ('z file_st_scheme, unit) km" where
  "kexit status = bnd get (\<lambda>s.
     let p = curproc s in
     if initproc s = Some p then panic ''init exiting''
     else
       bnd (for_each [0..<NOFILE] (exit_file p)) (\<lambda>_.
       bnd begin_op (\<lambda>_.
       bnd get (\<lambda>s.
       bnd (case p_cwd (procs s p) of None \<Rightarrow> stop_with OutOfBounds | Some ip \<Rightarrow> iput ip) (\<lambda>_.
       bnd end_op (\<lambda>_.
       bnd (upd_proc p (\<lambda>x. x\<lparr>p_cwd := None\<rparr>)) (\<lambda>_.
       bnd (reparent p) (\<lambda>_.
       bnd get (\<lambda>s.
       bnd (wakeup_chan (proc_chan (p_parent (procs s p)))) (\<lambda>_.
       upd_proc p (\<lambda>x. x\<lparr>p_xstate := status, p_state := ZOMBIE\<rparr>)))))))))))"

end
