(* ===== verification/Syscall.thy ===== *)
theory Syscall
  imports Console Proc_Life
begin

text \<open>
  Argument fetching of \<^verbatim>\<open>kernel/syscall.c\<close>, the handlers of \<^verbatim>\<open>kernel/sysproc.c\<close> and their dispatch.
  \<open>None\<close> as the result of a handler means that the process never returns from it.
\<close>

section \<open>Arguments\<close>

definition argraw :: "int \<Rightarrow> ('z proc_st_scheme, 64 word) km" where
  "argraw n = bnd get (\<lambda>s.
     if 0 \<le> n \<and> n \<le> 5
     then ret (load64 (mem s) (p_trapframe (procs s (curproc s)) + TF_A0 + 8 * word_of_int n))
     else panic ''argraw'')"

definition argint :: "int \<Rightarrow> ('z proc_st_scheme, 32 word) km" where
  "argint n = bnd (argraw n) (\<lambda>v. ret (ucast v))"

definition argaddr :: "int \<Rightarrow> ('z proc_st_scheme, addr) km" where
  "argaddr n = argraw n"

text \<open>\<open>None\<close> is the return value -1.\<close>

definition fetchaddr :: "addr \<Rightarrow> ('z proc_st_scheme, 64 word option) km" where
  "fetchaddr addr = bnd get (\<lambda>s.
     let x = procs s (curproc s) in
     if addr \<ge> p_sz x \<or> addr + 8 > p_sz x then ret None
     else bnd (copyin_obj (p_pagetable x) (\<lambda>_. 0) addr 8) (\<lambda>(r, d).
          if r \<noteq> 0 then ret None else ret (Some (le_get 8 d))))"

definition fetchstr :: "addr \<Rightarrow> addr \<Rightarrow> 32 word \<Rightarrow> ('z proc_st_scheme, int) km" where
  "fetchstr addr dst mx = bnd get (\<lambda>s.
     bnd (copyinstr (p_pagetable (procs s (curproc s))) dst addr (scast mx)) (\<lambda>r.
     if r < 0 then ret (- 1)
     else bnd get (\<lambda>s.
       case strlen (mem s) dst of None \<Rightarrow> stop_with Diverge | Some n \<Rightarrow> ret (int n))))"

definition argstr :: "int \<Rightarrow> addr \<Rightarrow> 32 word \<Rightarrow> ('z proc_st_scheme, int) km" where
  "argstr n dst mx = bnd (argaddr n) (\<lambda>addr. fetchstr addr dst mx)"

section \<open>Handlers of sysproc.c\<close>

definition sys_exit :: "('z file_st_scheme, 64 word option) km" where
  "sys_exit = bnd (argint 0) (\<lambda>n. bnd (kexit n) (\<lambda>_. ret None))"

definition sys_getpid :: "('z cons_st_scheme, 64 word) km" where
  "sys_getpid = bnd get (\<lambda>s.
     let pid = p_pid (procs s (curproc s)) in
     bnd (printf (bytes ''sys_getpid called by pid %d'' @ [10]) [Word (scast pid)]) (\<lambda>_.
     ret (scast pid)))"

definition sys_fork :: "('z file_st_scheme, 64 word) km" where
  "sys_fork = bnd kfork (\<lambda>r. ret (word_of_int r))"

definition sys_wait :: "('z proc_st_scheme, 64 word) km" where
  "sys_wait = bnd (argaddr 0) (\<lambda>p. bnd (kwait p) (\<lambda>r. ret (word_of_int r)))"

definition sys_sbrk :: "('z proc_st_scheme, 64 word) km" where
  "sys_sbrk =
     bnd (argint 0) (\<lambda>n.
     bnd (argint 1) (\<lambda>t.
     bnd get (\<lambda>s.
     let addr = p_sz (procs s (curproc s)) in
     if t = 1 \<or> sint n < 0
     then bnd (growproc n) (\<lambda>r. if r < 0 then ret (- 1) else ret addr)
     else if addr + scast n < addr then ret (- 1)
     else if addr + scast n > TRAPFRAME then ret (- 1)
     else bnd (upd_proc (curproc s) (\<lambda>x. x\<lparr>p_sz := p_sz x + scast n\<rparr>)) (\<lambda>_. ret addr))))"

text \<open>
  \<^verbatim>\<open>sys_pause\<close> from a wake-up on, \<open>ticks0\<close> being the time of the call; the comparison is between
  unsigned values.
\<close>

definition sys_pause_from :: "uint \<Rightarrow> 32 word \<Rightarrow> ('z cons_st_scheme, 64 word) km" where
  "sys_pause_from ticks0 n = bnd get (\<lambda>s.
     if ticks s - ticks0 < n
     then bnd (killed (curproc s)) (\<lambda>k. if k then ret (- 1) else stop_with Blocked)
     else ret 0)"

definition sys_pause :: "('z cons_st_scheme, 64 word) km" where
  "sys_pause =
     bnd (argint 0) (\<lambda>n.
     bnd get (\<lambda>s.
     sys_pause_from (ticks s) (if sint n < 0 then 0 else n)))"

definition sys_kill :: "('z proc_st_scheme, 64 word) km" where
  "sys_kill = bnd (argint 0) (\<lambda>pid. bnd (kkill pid) (\<lambda>r. ret (word_of_int r)))"

definition sys_uptime :: "('z cons_st_scheme, 64 word) km" where
  "sys_uptime = bnd get (\<lambda>s. ret (ucast (ticks s)))"

end
