(* ===== verification/Exec.thy ===== *)
theory Exec
  imports Syscall
begin

text \<open>
  \<^verbatim>\<open>kernel/exec.c\<close>. The locals \<^verbatim>\<open>elf\<close> and \<^verbatim>\<open>ph\<close> live on the kernel stack at \<open>ELF\<close> and \<open>PH\<close>; the fields are
  read at the offsets of \<^verbatim>\<open>kernel/elf.h\<close>. \<open>argv\<close> is the array of argument pointers, and \<open>ustack\<close> a function
  whose index is checked against its 32 places.
\<close>

abbreviation ELF :: "'z fs_st_scheme \<Rightarrow> addr" where "ELF s \<equiv> kstk s + 512"
abbreviation PH :: "'z fs_st_scheme \<Rightarrow> addr" where "PH s \<equiv> kstk s + 576"
abbreviation MAXARG :: nat where "MAXARG \<equiv> 32"
abbreviation ELF_MAGIC :: uint where "ELF_MAGIC \<equiv> 0x464C457F"

definition load16 :: "memory \<Rightarrow> addr \<Rightarrow> 16 word" where
  "load16 m a = le_get 2 (\<lambda>i. m (a + of_nat i))"

definition load32 :: "memory \<Rightarrow> addr \<Rightarrow> 32 word" where
  "load32 m a = le_get 4 (\<lambda>i. m (a + of_nat i))"

record elfhdr =
  e_magic :: uint
  e_entry :: "64 word"
  e_phoff :: "64 word"
  e_phnum :: "16 word"

definition get_elf :: "memory \<Rightarrow> addr \<Rightarrow> elfhdr" where
  "get_elf m a = \<lparr>e_magic = load32 m a, e_entry = load64 m (a + 24), e_phoff = load64 m (a + 32),
     e_phnum = load16 m (a + 56)\<rparr>"

record proghdr =
  ph_type :: uint
  ph_flags :: uint
  ph_off :: "64 word"
  ph_vaddr :: "64 word"
  ph_filesz :: "64 word"
  ph_memsz :: "64 word"

definition get_ph :: "memory \<Rightarrow> addr \<Rightarrow> proghdr" where
  "get_ph m a = \<lparr>ph_type = load32 m a, ph_flags = load32 m (a + 4), ph_off = load64 m (a + 8),
     ph_vaddr = load64 m (a + 16), ph_filesz = load64 m (a + 32), ph_memsz = load64 m (a + 40)\<rparr>"

definition flags2perm :: "32 word \<Rightarrow> 64 word" where
  "flags2perm flags =
     (if flags AND 1 \<noteq> 0 then PTE_X else 0) OR (if flags AND 2 \<noteq> 0 then PTE_W else 0)"

primrec loadseg_loop :: "nat \<Rightarrow> addr \<Rightarrow> addr \<Rightarrow> nat \<Rightarrow> uint \<Rightarrow> uint \<Rightarrow> uint \<Rightarrow> ('z fs_st_scheme, int) km" where
  "loadseg_loop 0 pagetable va ip offset sz i = stop_with Diverge"
| "loadseg_loop (Suc fuel) pagetable va ip offset sz i =
     (if i < sz
      then bnd (walkaddr pagetable (va + ucast i)) (\<lambda>pa.
        if pa = 0 then panic ''loadseg: address should exist''
        else let n = (if sz - i < PGSIZE then sz - i else PGSIZE) in
          bnd (readi ip False pa (offset + i) n) (\<lambda>r.
          if r \<noteq> n then ret (- 1)
          else loadseg_loop fuel pagetable va ip offset sz (i + PGSIZE)))
      else ret 0)"

text \<open>
  \<^verbatim>\<open>loadseg\<close>; the counter is a \<^verbatim>\<open>uint\<close>, so a size within a page of \<open>2\<^sup>32\<close> makes it wrap and start over
  until \<^verbatim>\<open>readi\<close> fails.
\<close>

definition loadseg :: "addr \<Rightarrow> addr \<Rightarrow> nat \<Rightarrow> uint \<Rightarrow> uint \<Rightarrow> ('z fs_st_scheme, int) km" where
  "loadseg pagetable va ip offset sz = loadseg_loop (2 + unat sz div PGSIZE) pagetable va ip offset sz 0"

text \<open>
  The loop over the program headers; \<open>Inr sz\<close> when all segments are loaded, \<open>Inl sz\<close> for \<^verbatim>\<open>goto bad\<close> with
  the size reached.
\<close>

primrec load_segments ::
  "nat \<Rightarrow> addr \<Rightarrow> nat \<Rightarrow> nat \<Rightarrow> 32 word \<Rightarrow> addr \<Rightarrow> ('z fs_st_scheme, addr + addr) km" where
  "load_segments 0 pagetable ip i off sz = ret (Inr sz)"
| "load_segments (Suc left) pagetable ip i off sz = bnd get (\<lambda>s.
     bnd (readi ip False (PH s) off 56) (\<lambda>r.
     if r \<noteq> 56 then ret (Inl sz)
     else bnd get (\<lambda>s.
       let ph = get_ph (mem s) (PH s) in
       if ph_type ph \<noteq> 1 then load_segments left pagetable ip (Suc i) (off + 56) sz
       else if ph_memsz ph < ph_filesz ph then ret (Inl sz)
       else if ph_vaddr ph + ph_memsz ph < ph_vaddr ph then ret (Inl sz)
       else if ph_vaddr ph mod PGSIZE \<noteq> 0 then ret (Inl sz)
       else bnd (uvmalloc pagetable sz (ph_vaddr ph + ph_memsz ph) (flags2perm (ph_flags ph))) (\<lambda>sz1.
         if sz1 = 0 then ret (Inl sz)
         else bnd (loadseg pagetable (ph_vaddr ph) ip (ucast (ph_off ph)) (ucast (ph_filesz ph))) (\<lambda>r.
              if r < 0 then ret (Inl sz1)
              else load_segments left pagetable ip (Suc i) (off + 56) sz1)))))"

text \<open>
  Copying the argument strings; \<open>Inr (argc, sp, ustack)\<close> at the end of the list, \<open>Inl ()\<close> for
  \<^verbatim>\<open>goto bad\<close>.
\<close>

primrec push_args ::
  "nat \<Rightarrow> addr \<Rightarrow> (nat \<Rightarrow> addr) \<Rightarrow> addr \<Rightarrow> nat \<Rightarrow> addr \<Rightarrow> (nat \<Rightarrow> 64 word) \<Rightarrow>
   ('z vm_st_scheme, unit + nat \<times> addr \<times> (nat \<Rightarrow> 64 word)) km" where
  "push_args 0 pagetable argv stackbase argc sp ustack = stop_with Diverge"
| "push_args (Suc fuel) pagetable argv stackbase argc sp ustack =
     (if argv argc = 0 then ret (Inr (argc, sp, ustack))
      else if argc \<ge> MAXARG then ret (Inl ())
      else bnd get (\<lambda>s.
        case strlen (mem s) (argv argc) of
          None \<Rightarrow> stop_with Diverge
        | Some n \<Rightarrow>
            let sp = sp - (of_nat n + 1); sp = sp - sp mod 16 in
            if sp < stackbase then ret (Inl ())
            else bnd (copyout pagetable sp (argv argc) (of_nat n + 1)) (\<lambda>r.
                 if r < 0 then ret (Inl ())
                 else push_args fuel pagetable argv stackbase (Suc argc) sp (ustack(argc := sp)))))"

text \<open>The byte after the last slash of the path.\<close>

primrec last_elem :: "memory \<Rightarrow> nat \<Rightarrow> addr \<Rightarrow> addr \<Rightarrow> addr" where
  "last_elem m 0 s l = l"
| "last_elem m (Suc n) s l = last_elem m n (s + 1) (if m s = 47 then s + 1 else l)"

definition exec_bad :: "addr \<Rightarrow> addr \<Rightarrow> nat option \<Rightarrow> ('z fs_st_scheme, int) km" where
  "exec_bad pagetable sz ip =
     bnd (if pagetable \<noteq> 0 then proc_freepagetable pagetable sz else skip) (\<lambda>_.
     bnd (case ip of None \<Rightarrow> skip | Some ip \<Rightarrow> bnd (iunlockput ip) (\<lambda>_. end_op)) (\<lambda>_.
     ret (- 1)))"

text \<open>The last part of \<^verbatim>\<open>kexec\<close>: the new image is complete and replaces the old one.\<close>

definition exec_commit :: "addr \<Rightarrow> addr \<Rightarrow> addr \<Rightarrow> addr \<Rightarrow> 64 word \<Rightarrow> addr \<Rightarrow> nat \<Rightarrow> ('z proc_st_scheme, int) km" where
  "exec_commit path pagetable sz sp entry oldsz argc = bnd get (\<lambda>s.
     let p = curproc s in
     bnd (set_tf p TF_A1 sp) (\<lambda>_.
     bnd get (\<lambda>s.
     case strlen (mem s) path of
       None \<Rightarrow> stop_with Diverge
     | Some n \<Rightarrow>
       bnd (set_name p (\<lambda>i. mem s (last_elem (mem s) n path path + of_nat i))) (\<lambda>_.
       let oldpagetable = p_pagetable (procs s p) in
       bnd (upd_proc p (\<lambda>x. x\<lparr>p_pagetable := pagetable, p_sz := sz\<rparr>)) (\<lambda>_.
       bnd (set_tf p TF_EPC entry) (\<lambda>_.
       bnd (set_tf p TF_SP sp) (\<lambda>_.
       bnd (proc_freepagetable oldpagetable oldsz) (\<lambda>_.
       ret (int argc)))))))))"

text \<open>The middle part: stack pages, argument strings and the argument array.\<close>

definition exec_stack :: "addr \<Rightarrow> (nat \<Rightarrow> addr) \<Rightarrow> addr \<Rightarrow> addr \<Rightarrow> 64 word \<Rightarrow> ('z proc_st_scheme, int) km" where
  "exec_stack path argv pagetable sz entry = bnd get (\<lambda>s.
     let oldsz = p_sz (procs s (curproc s)); sz = PGROUNDUP sz in
     bnd (uvmalloc pagetable sz (sz + 2 * PGSIZE) PTE_W) (\<lambda>sz1.
     if sz1 = 0 then exec_bad pagetable sz None
     else
       bnd (uvmclear pagetable (sz1 - 2 * PGSIZE)) (\<lambda>_.
       let stackbase = sz1 - PGSIZE in
       bnd (push_args (MAXARG + 2) pagetable argv stackbase 0 sz1 (\<lambda>_. 0)) (\<lambda>r.
       case r of
         Inl _ \<Rightarrow> exec_bad pagetable sz1 None
       | Inr (argc, sp, ustack) \<Rightarrow>
           if argc \<ge> MAXARG then stop_with OutOfBounds
           else
             let ustack = ustack(argc := 0); sp = sp - (of_nat argc + 1) * 8; sp = sp - sp mod 16 in
             if sp < stackbase then exec_bad pagetable sz1 None
             else
               bnd (copyout_obj pagetable sp (\<lambda>i. byte_of (ustack (i div 8)) (i mod 8)) ((of_nat argc + 1) * 8)) (\<lambda>r.
               if r < 0 then exec_bad pagetable sz1 None
               else exec_commit path pagetable sz1 sp entry oldsz argc)))))"

definition kexec :: "addr \<Rightarrow> (nat \<Rightarrow> addr) \<Rightarrow> ('z proc_st_scheme, int) km" where
  "kexec path argv =
     bnd begin_op (\<lambda>_.
     bnd (namei path) (\<lambda>mip.
     case mip of
       None \<Rightarrow> bnd end_op (\<lambda>_. ret (- 1))
     | Some ip \<Rightarrow>
       bnd (ilock ip) (\<lambda>_.
       bnd get (\<lambda>s.
       bnd (readi ip False (ELF s) 0 64) (\<lambda>r.
       bnd get (\<lambda>s.
       let elf = get_elf (mem s) (ELF s) in
       if r \<noteq> 64 then exec_bad 0 0 (Some ip)
       else if e_magic elf \<noteq> ELF_MAGIC then exec_bad 0 0 (Some ip)
       else
         bnd (proc_pagetable (curproc s)) (\<lambda>pagetable.
         if pagetable = 0 then exec_bad 0 0 (Some ip)
         else
           bnd (load_segments (unat (e_phnum elf)) pagetable ip 0 (ucast (e_phoff elf)) 0) (\<lambda>r.
           case r of
             Inl sz \<Rightarrow> exec_bad pagetable sz (Some ip)
           | Inr sz \<Rightarrow>
               bnd (iunlockput ip) (\<lambda>_.
               bnd end_op (\<lambda>_.
               exec_stack path argv pagetable sz (e_entry elf)))))))))))"

end
