(* ===== verification/Sysfile.thy ===== *)
theory Sysfile
  imports Exec
begin

text \<open>
  \<^verbatim>\<open>kernel/sysfile.c\<close>. Path buffers and directory names are locals on the kernel stack, at the places
  below; \<open>KDOT\<close> and \<open>KDOTDOT\<close> are the addresses of the string literals for a directory itself and its
  parent.
\<close>

abbreviation PATHBUF :: "'z fs_st_scheme \<Rightarrow> addr" where "PATHBUF s \<equiv> kstk s + 256"
abbreviation NEWBUF :: "'z fs_st_scheme \<Rightarrow> addr" where "NEWBUF s \<equiv> kstk s + 384"
abbreviation NAMEARG :: "'z fs_st_scheme \<Rightarrow> addr" where "NAMEARG s \<equiv> kstk s + 32"
abbreviation DE2 :: "'z fs_st_scheme \<Rightarrow> addr" where "DE2 s \<equiv> kstk s + 96"
abbreviation DE3 :: "'z fs_st_scheme \<Rightarrow> addr" where "DE3 s \<equiv> kstk s + 112"
abbreviation KDOT :: "'z cons_st_scheme \<Rightarrow> addr" where "KDOT s \<equiv> krodata s"
abbreviation KDOTDOT :: "'z cons_st_scheme \<Rightarrow> addr" where "KDOTDOT s \<equiv> krodata s + 2"
abbreviation MAXPATH :: "32 word" where "MAXPATH \<equiv> 128"
abbreviation O_WRONLY :: "32 word" where "O_WRONLY \<equiv> 1"
abbreviation O_RDWR :: "32 word" where "O_RDWR \<equiv> 2"
abbreviation O_CREATE :: "32 word" where "O_CREATE \<equiv> 0x200"
abbreviation O_TRUNC :: "32 word" where "O_TRUNC \<equiv> 0x400"

section \<open>File descriptors\<close>

text \<open>The descriptor and the file, or \<open>None\<close> for -1.\<close>

definition argfd :: "int \<Rightarrow> ('z proc_st_scheme, (nat \<times> nat) option) km" where
  "argfd n = bnd (argint n) (\<lambda>fd. bnd get (\<lambda>s.
     if sint fd < 0 \<or> sint fd \<ge> int NOFILE then ret None
     else case p_ofile (procs s (curproc s)) (nat (sint fd)) of
       None \<Rightarrow> ret None
     | Some f \<Rightarrow> ret (Some (nat (sint fd), f))))"

primrec find_fd :: "nat list \<Rightarrow> (nat \<Rightarrow> nat option) \<Rightarrow> nat option" where
  "find_fd [] ofile = None"
| "find_fd (fd # fds) ofile = (if ofile fd = None then Some fd else find_fd fds ofile)"

definition set_ofile :: "nat \<Rightarrow> nat option \<Rightarrow> ('z proc_st_scheme, unit) km" where
  "set_ofile fd f = bnd get (\<lambda>s. upd_proc (curproc s) (\<lambda>x. x\<lparr>p_ofile := (p_ofile x)(fd := f)\<rparr>))"

definition fdalloc :: "nat \<Rightarrow> ('z proc_st_scheme, nat option) km" where
  "fdalloc f = bnd get (\<lambda>s.
     case find_fd [0..<NOFILE] (p_ofile (procs s (curproc s))) of
       None \<Rightarrow> ret None
     | Some fd \<Rightarrow> bnd (set_ofile fd (Some f)) (\<lambda>_. ret (Some fd)))"

definition sys_dup :: "('z file_st_scheme, 64 word) km" where
  "sys_dup = bnd (argfd 0) (\<lambda>a.
     case a of
       None \<Rightarrow> ret (- 1)
     | Some (_, f) \<Rightarrow> bnd (fdalloc f) (\<lambda>fd.
         case fd of
           None \<Rightarrow> ret (- 1)
         | Some fd \<Rightarrow> bnd (filedup f) (\<lambda>_. ret (of_nat fd))))"

definition sys_read :: "'z devfun \<Rightarrow> ('z file_st_scheme, 64 word) km" where
  "sys_read dev_read =
     bnd (argaddr 1) (\<lambda>p.
     bnd (argint 2) (\<lambda>n.
     bnd (argfd 0) (\<lambda>a.
     case a of
       None \<Rightarrow> ret (- 1)
     | Some (_, f) \<Rightarrow> bnd (fileread dev_read f p (sint n)) (\<lambda>r. ret (word_of_int r)))))"

definition sys_write :: "'z devfun \<Rightarrow> ('z file_st_scheme, 64 word) km" where
  "sys_write dev_write =
     bnd (argaddr 1) (\<lambda>p.
     bnd (argint 2) (\<lambda>n.
     bnd (argfd 0) (\<lambda>a.
     case a of
       None \<Rightarrow> ret (- 1)
     | Some (_, f) \<Rightarrow> bnd (filewrite dev_write f p (sint n)) (\<lambda>r. ret (word_of_int r)))))"

definition sys_close :: "('z file_st_scheme, 64 word) km" where
  "sys_close = bnd (argfd 0) (\<lambda>a.
     case a of
       None \<Rightarrow> ret (- 1)
     | Some (fd, f) \<Rightarrow> bnd (set_ofile fd None) (\<lambda>_. bnd (fileclose f) (\<lambda>_. ret 0)))"

definition sys_fstat :: "('z file_st_scheme, 64 word) km" where
  "sys_fstat =
     bnd (argaddr 1) (\<lambda>st.
     bnd (argfd 0) (\<lambda>a.
     case a of
       None \<Rightarrow> ret (- 1)
     | Some (_, f) \<Rightarrow> bnd (filestat f st) (\<lambda>r. ret (word_of_int r))))"

section \<open>Links\<close>

definition add_nlink :: "nat \<Rightarrow> 16 word \<Rightarrow> ('z fs_st_scheme, unit) km" where
  "add_nlink ip k = upd_inode ip (\<lambda>x. x\<lparr>i_nlink := i_nlink x + k\<rparr>)"

definition link_bad :: "nat \<Rightarrow> ('z fs_st_scheme, 64 word) km" where
  "link_bad ip =
     bnd (ilock ip) (\<lambda>_.
     bnd (add_nlink ip (- 1)) (\<lambda>_.
     bnd (iupdate ip) (\<lambda>_.
     bnd (iunlockput ip) (\<lambda>_.
     bnd end_op (\<lambda>_.
     ret (- 1))))))"

text \<open>The second part of \<^verbatim>\<open>sys_link\<close>, after the link count went up.\<close>

definition link_entry :: "nat \<Rightarrow> ('z fs_st_scheme, 64 word) km" where
  "link_entry ip = bnd get (\<lambda>s.
     bnd (nameiparent (NEWBUF s) (NAMEARG s)) (\<lambda>mdp.
     case mdp of
       None \<Rightarrow> link_bad ip
     | Some dp \<Rightarrow>
         bnd (ilock dp) (\<lambda>_.
         bnd get (\<lambda>s.
         bnd (if i_dev (inodes s dp) \<noteq> i_dev (inodes s ip) then ret (- 1)
              else dirlink dp (NAMEARG s) (i_inum (inodes s ip))) (\<lambda>r.
         if r < 0 then bnd (iunlockput dp) (\<lambda>_. link_bad ip)
         else bnd (iunlockput dp) (\<lambda>_. bnd (iput ip) (\<lambda>_. bnd end_op (\<lambda>_. ret 0))))))))"

definition sys_link :: "('z proc_st_scheme, 64 word) km" where
  "sys_link = bnd get (\<lambda>s.
     bnd (argstr 0 (PATHBUF s) MAXPATH) (\<lambda>r0.
     bnd (if r0 < 0 then ret r0 else argstr 1 (NEWBUF s) MAXPATH) (\<lambda>r1.
     if r1 < 0 then ret (- 1)
     else
       bnd begin_op (\<lambda>_.
       bnd (namei (PATHBUF s)) (\<lambda>mip.
       case mip of
         None \<Rightarrow> bnd end_op (\<lambda>_. ret (- 1))
       | Some ip \<Rightarrow>
           bnd (ilock ip) (\<lambda>_.
           bnd get (\<lambda>s.
           if i_type (inodes s ip) = T_DIR
           then bnd (iunlockput ip) (\<lambda>_. bnd end_op (\<lambda>_. ret (- 1)))
           else
             bnd (add_nlink ip 1) (\<lambda>_.
             bnd (iupdate ip) (\<lambda>_.
             bnd (iunlock ip) (\<lambda>_.
             link_entry ip))))))))))"

primrec isdirempty_loop :: "nat \<Rightarrow> nat \<Rightarrow> uint \<Rightarrow> ('z fs_st_scheme, bool) km" where
  "isdirempty_loop 0 dp off = stop_with Diverge"
| "isdirempty_loop (Suc fuel) dp off = bnd get (\<lambda>s.
     if off < i_size (inodes s dp)
     then bnd (readi dp False (DE2 s) off 16) (\<lambda>r.
       if r \<noteq> 16 then panic ''isdirempty: readi''
       else bnd get (\<lambda>s.
         if de_inum (mem s) (DE2 s) \<noteq> 0 then ret False else isdirempty_loop fuel dp (off + 16)))
     else ret True)"

definition isdirempty :: "nat \<Rightarrow> ('z fs_st_scheme, bool) km" where
  "isdirempty dp = bnd get (\<lambda>s. isdirempty_loop (Suc (Suc (unat (i_size (inodes s dp)) div 16))) dp 32)"

definition unlink_bad :: "nat \<Rightarrow> ('z fs_st_scheme, 64 word) km" where
  "unlink_bad dp = bnd (iunlockput dp) (\<lambda>_. bnd end_op (\<lambda>_. ret (- 1)))"

text \<open>The part of \<^verbatim>\<open>sys_unlink\<close> that clears the entry at \<open>off\<close> of \<open>dp\<close> and drops the link to \<open>ip\<close>.\<close>

definition unlink_entry :: "nat \<Rightarrow> nat \<Rightarrow> uint \<Rightarrow> ('z fs_st_scheme, 64 word) km" where
  "unlink_entry dp ip off =
     bnd (modify (\<lambda>s. s\<lparr>mem := memset (mem s) (DE3 s) 0 16\<rparr>)) (\<lambda>_.
     bnd get (\<lambda>s.
     bnd (writei dp False (DE3 s) off 16) (\<lambda>r.
     if r \<noteq> 16 then panic ''unlink: writei''
     else
       bnd get (\<lambda>s.
       bnd (if i_type (inodes s ip) = T_DIR
            then bnd (add_nlink dp (- 1)) (\<lambda>_. iupdate dp) else skip) (\<lambda>_.
       bnd (iunlockput dp) (\<lambda>_.
       bnd (add_nlink ip (- 1)) (\<lambda>_.
       bnd (iupdate ip) (\<lambda>_.
       bnd (iunlockput ip) (\<lambda>_.
       bnd end_op (\<lambda>_.
       ret 0))))))))))"

definition sys_unlink :: "('z cons_st_scheme, 64 word) km" where
  "sys_unlink = bnd get (\<lambda>s.
     bnd (argstr 0 (PATHBUF s) MAXPATH) (\<lambda>r.
     if r < 0 then ret (- 1)
     else
       bnd begin_op (\<lambda>_.
       bnd (nameiparent (PATHBUF s) (NAMEARG s)) (\<lambda>mdp.
       case mdp of
         None \<Rightarrow> bnd end_op (\<lambda>_. ret (- 1))
       | Some dp \<Rightarrow>
           bnd (ilock dp) (\<lambda>_.
           bnd get (\<lambda>s.
           if namecmp (mem s) (NAMEARG s) (KDOT s) = 0 \<or> namecmp (mem s) (NAMEARG s) (KDOTDOT s) = 0
           then unlink_bad dp
           else bnd (dirlookup dp (NAMEARG s)) (\<lambda>found.
             case found of
               None \<Rightarrow> unlink_bad dp
             | Some (ip, off) \<Rightarrow>
                 bnd (ilock ip) (\<lambda>_.
                 bnd get (\<lambda>s.
                 if sint (i_nlink (inodes s ip)) < 1 then panic ''unlink: nlink < 1''
                 else bnd (if i_type (inodes s ip) = T_DIR then isdirempty ip else ret True) (\<lambda>empty.
                   if \<not> empty then bnd (iunlockput ip) (\<lambda>_. unlink_bad dp)
                   else unlink_entry dp ip off))))))))))"

section \<open>Creation\<close>

definition create_fail :: "nat \<Rightarrow> nat \<Rightarrow> ('z fs_st_scheme, nat option) km" where
  "create_fail dp ip =
     bnd (upd_inode ip (\<lambda>x. x\<lparr>i_nlink := 0\<rparr>)) (\<lambda>_.
     bnd (iupdate ip) (\<lambda>_.
     bnd (iunlockput ip) (\<lambda>_.
     bnd (iunlockput dp) (\<lambda>_.
     ret None))))"

text \<open>\<^verbatim>\<open>create\<close> from the new inode on: entries of a directory, then the entry in the parent.\<close>

definition create_entries :: "nat \<Rightarrow> nat \<Rightarrow> 16 word \<Rightarrow> ('z cons_st_scheme, nat option) km" where
  "create_entries dp ip ty = bnd get (\<lambda>s.
     bnd (if ty = T_DIR
          then bnd (dirlink ip (KDOT s) (i_inum (inodes s ip))) (\<lambda>r.
               if r < 0 then ret r else dirlink ip (KDOTDOT s) (i_inum (inodes s dp)))
          else ret 0) (\<lambda>r.
     if r < 0 then create_fail dp ip
     else bnd (dirlink dp (NAMEARG s) (i_inum (inodes s ip))) (\<lambda>r.
       if r < 0 then create_fail dp ip
       else bnd (if ty = T_DIR then bnd (add_nlink dp 1) (\<lambda>_. iupdate dp) else skip) (\<lambda>_.
            bnd (iunlockput dp) (\<lambda>_. ret (Some ip))))))"

definition create :: "addr \<Rightarrow> 16 word \<Rightarrow> 16 word \<Rightarrow> 16 word \<Rightarrow> ('z cons_st_scheme, nat option) km" where
  "create path ty major minor = bnd get (\<lambda>s.
     bnd (nameiparent path (NAMEARG s)) (\<lambda>mdp.
     case mdp of
       None \<Rightarrow> ret None
     | Some dp \<Rightarrow>
         bnd (ilock dp) (\<lambda>_.
         bnd (dirlookup dp (NAMEARG s)) (\<lambda>found.
         case found of
           Some (ip, _) \<Rightarrow>
             bnd (iunlockput dp) (\<lambda>_.
             bnd (ilock ip) (\<lambda>_.
             bnd get (\<lambda>s.
             if ty = T_FILE \<and> (i_type (inodes s ip) = T_FILE \<or> i_type (inodes s ip) = T_DEVICE)
             then ret (Some ip)
             else bnd (iunlockput ip) (\<lambda>_. ret None))))
         | None \<Rightarrow>
             bnd get (\<lambda>s.
             bnd (ialloc (i_dev (inodes s dp)) ty) (\<lambda>mip.
             case mip of
               None \<Rightarrow> bnd (iunlockput dp) (\<lambda>_. ret None)
             | Some ip \<Rightarrow>
                 bnd (ilock ip) (\<lambda>_.
                 bnd (upd_inode ip (\<lambda>x. x\<lparr>i_major := major, i_minor := minor, i_nlink := 1\<rparr>)) (\<lambda>_.
                 bnd (iupdate ip) (\<lambda>_.
                 create_entries dp ip ty)))))))))"

section \<open>Opening and making files\<close>

text \<open>The inode \<^verbatim>\<open>sys_open\<close> goes on with, locked, or \<open>None\<close> when it fails.\<close>

definition open_inode :: "addr \<Rightarrow> 32 word \<Rightarrow> ('z cons_st_scheme, nat option) km" where
  "open_inode path omode =
     (if omode AND O_CREATE \<noteq> 0 then create path T_FILE 0 0
      else bnd (namei path) (\<lambda>mip.
        case mip of
          None \<Rightarrow> ret None
        | Some ip \<Rightarrow>
            bnd (ilock ip) (\<lambda>_.
            bnd get (\<lambda>s.
            if i_type (inodes s ip) = T_DIR \<and> omode \<noteq> 0
            then bnd (iunlockput ip) (\<lambda>_. ret None)
            else ret (Some ip)))))"

text \<open>A new file and a descriptor for it; both are given back when one is missing.\<close>

definition open_fd :: "('z file_st_scheme, (nat \<times> nat) option) km" where
  "open_fd =
     bnd filealloc (\<lambda>mf.
     case mf of
       None \<Rightarrow> ret None
     | Some f \<Rightarrow> bnd (fdalloc f) (\<lambda>mfd.
         case mfd of
           None \<Rightarrow> bnd (fileclose f) (\<lambda>_. ret None)
         | Some fd \<Rightarrow> ret (Some (f, fd))))"

definition open_file :: "nat \<Rightarrow> inode \<Rightarrow> 32 word \<Rightarrow> kfile \<Rightarrow> kfile" where
  "open_file ip node omode x =
     (let x = (if i_type node = T_DEVICE then x\<lparr>f_type := FD_DEVICE, f_major := i_major node\<rparr>
               else x\<lparr>f_type := FD_INODE, f_off := 0\<rparr>)
      in x\<lparr>f_ip := ip, f_readable := (omode AND O_WRONLY = 0),
           f_writable := (omode AND O_WRONLY \<noteq> 0 \<or> omode AND O_RDWR \<noteq> 0)\<rparr>)"

definition sys_open :: "('z cons_st_scheme, 64 word) km" where
  "sys_open =
     bnd (argint 1) (\<lambda>omode.
     bnd get (\<lambda>s.
     let path = PATHBUF s in
     bnd (argstr 0 path MAXPATH) (\<lambda>n.
     if n < 0 then ret (- 1)
     else
       bnd get (\<lambda>s.
       bnd (printf (bytes ''[sys_open] path=%s, mode=%d'' @ [10])
         [Str (cstr (mem s) path (unat MAXPATH)), Word (scast omode)]) (\<lambda>_.
       bnd begin_op (\<lambda>_.
       bnd (open_inode path omode) (\<lambda>mip.
       case mip of
         None \<Rightarrow> bnd end_op (\<lambda>_. ret (- 1))
       | Some ip \<Rightarrow>
         bnd get (\<lambda>s.
         let node = inodes s ip in
         if i_type node = T_DEVICE \<and> (sint (i_major node) < 0 \<or> sint (i_major node) \<ge> int NDEV)
         then bnd (iunlockput ip) (\<lambda>_. bnd end_op (\<lambda>_. ret (- 1)))
         else bnd open_fd (\<lambda>mf.
           case mf of
             None \<Rightarrow> bnd (iunlockput ip) (\<lambda>_. bnd end_op (\<lambda>_. ret (- 1)))
           | Some (f, fd) \<Rightarrow>
             bnd (upd_file f (open_file ip node omode)) (\<lambda>_.
             bnd (if omode AND O_TRUNC \<noteq> 0 \<and> i_type node = T_FILE then itrunc ip else skip) (\<lambda>_.
             bnd (iunlock ip) (\<lambda>_.
             bnd end_op (\<lambda>_.
             ret (of_nat fd))))))))))))))"

definition sys_mkdir :: "('z cons_st_scheme, 64 word) km" where
  "sys_mkdir =
     bnd begin_op (\<lambda>_.
     bnd get (\<lambda>s.
     bnd (argstr 0 (PATHBUF s) MAXPATH) (\<lambda>n.
     bnd (if n < 0 then ret None else create (PATHBUF s) T_DIR 0 0) (\<lambda>mip.
     case mip of
       None \<Rightarrow> bnd end_op (\<lambda>_. ret (- 1))
     | Some ip \<Rightarrow> bnd (iunlockput ip) (\<lambda>_. bnd end_op (\<lambda>_. ret 0))))))"

definition sys_mknod :: "('z cons_st_scheme, 64 word) km" where
  "sys_mknod =
     bnd begin_op (\<lambda>_.
     bnd (argint 1) (\<lambda>major.
     bnd (argint 2) (\<lambda>minor.
     bnd get (\<lambda>s.
     bnd (argstr 0 (PATHBUF s) MAXPATH) (\<lambda>n.
     bnd (if n < 0 then ret None else create (PATHBUF s) T_DEVICE (ucast major) (ucast minor)) (\<lambda>mip.
     case mip of
       None \<Rightarrow> bnd end_op (\<lambda>_. ret (- 1))
     | Some ip \<Rightarrow>
         bnd get (\<lambda>s.
         bnd (printf (bytes ''[sys_mknod] path=%s, major=%d, minor=%d'' @ [10])
           [Str (cstr (mem s) (PATHBUF s) (unat MAXPATH)), Word (scast major), Word (scast minor)]) (\<lambda>_.
         bnd (iunlockput ip) (\<lambda>_. bnd end_op (\<lambda>_. ret 0))))))))))"

definition sys_chdir :: "('z proc_st_scheme, 64 word) km" where
  "sys_chdir =
     bnd begin_op (\<lambda>_.
     bnd get (\<lambda>s.
     bnd (argstr 0 (PATHBUF s) MAXPATH) (\<lambda>n.
     bnd (if n < 0 then ret None else namei (PATHBUF s)) (\<lambda>mip.
     case mip of
       None \<Rightarrow> bnd end_op (\<lambda>_. ret (- 1))
     | Some ip \<Rightarrow>
         bnd (ilock ip) (\<lambda>_.
         bnd get (\<lambda>s.
         if i_type (inodes s ip) \<noteq> T_DIR
         then bnd (iunlockput ip) (\<lambda>_. bnd end_op (\<lambda>_. ret (- 1)))
         else
           bnd (iunlock ip) (\<lambda>_.
           bnd (case p_cwd (procs s (curproc s)) of None \<Rightarrow> stop_with OutOfBounds | Some c \<Rightarrow> iput c) (\<lambda>_.
           bnd end_op (\<lambda>_.
           bnd (upd_proc (curproc s) (\<lambda>x. x\<lparr>p_cwd := Some ip\<rparr>)) (\<lambda>_.
           ret 0))))))))))"

section \<open>exec and pipe\<close>

text \<open>
  The loop of \<^verbatim>\<open>sys_exec\<close> that fetches the argument strings into fresh pages; \<open>Inr argv\<close> when the
  user's array ends, \<open>Inl argv\<close> for \<^verbatim>\<open>goto bad\<close>.
\<close>

primrec fetch_args ::
  "nat \<Rightarrow> addr \<Rightarrow> nat \<Rightarrow> (nat \<Rightarrow> addr) \<Rightarrow> ('z proc_st_scheme, (nat \<Rightarrow> addr) + (nat \<Rightarrow> addr)) km" where
  "fetch_args 0 uargv i argv = ret (Inl argv)"
| "fetch_args (Suc left) uargv i argv =
     bnd (fetchaddr (uargv + 8 * of_nat i)) (\<lambda>mu.
     case mu of
       None \<Rightarrow> ret (Inl argv)
     | Some uarg \<Rightarrow>
         if uarg = 0 then ret (Inr (argv(i := 0)))
         else bnd kalloc (\<lambda>pg.
           if pg = 0 then ret (Inl (argv(i := 0)))
           else bnd (fetchstr uarg pg PGSIZE) (\<lambda>r.
                if r < 0 then ret (Inl (argv(i := pg)))
                else fetch_args left uargv (Suc i) (argv(i := pg)))))"

definition free_args :: "(nat \<Rightarrow> addr) \<Rightarrow> ('z kmem_st_scheme, unit) km" where
  "free_args argv = for_each (takeWhile (\<lambda>i. argv i \<noteq> 0) [0..<MAXARG]) (\<lambda>i. kfree (argv i))"

definition sys_exec :: "('z proc_st_scheme, 64 word) km" where
  "sys_exec =
     bnd (argaddr 1) (\<lambda>uargv.
     bnd get (\<lambda>s.
     bnd (argstr 0 (PATHBUF s) MAXPATH) (\<lambda>n.
     if n < 0 then ret (- 1)
     else bnd (fetch_args MAXARG uargv 0 (\<lambda>_. 0)) (\<lambda>r.
       case r of
         Inl argv \<Rightarrow> bnd (free_args argv) (\<lambda>_. ret (- 1))
       | Inr argv \<Rightarrow>
           bnd (kexec (PATHBUF s) argv) (\<lambda>r.
           bnd (free_args argv) (\<lambda>_. ret (word_of_int r)))))))"

definition pipe_undo :: "nat list \<Rightarrow> nat \<Rightarrow> nat \<Rightarrow> ('z file_st_scheme, 64 word) km" where
  "pipe_undo fds rfile wfile =
     bnd (for_each fds (\<lambda>fd. set_ofile fd None)) (\<lambda>_.
     bnd (fileclose rfile) (\<lambda>_.
     bnd (fileclose wfile) (\<lambda>_.
     ret (- 1))))"

definition sys_pipe :: "('z file_st_scheme, 64 word) km" where
  "sys_pipe =
     bnd (argaddr 0) (\<lambda>fdarray.
     bnd pipealloc (\<lambda>mp.
     case mp of
       None \<Rightarrow> ret (- 1)
     | Some (rfile, wfile) \<Rightarrow>
       bnd (fdalloc rfile) (\<lambda>m0.
       case m0 of
         None \<Rightarrow> pipe_undo [] rfile wfile
       | Some fd0 \<Rightarrow>
         bnd (fdalloc wfile) (\<lambda>m1.
         case m1 of
           None \<Rightarrow> pipe_undo [fd0] rfile wfile
         | Some fd1 \<Rightarrow>
           bnd get (\<lambda>s.
           let pt = p_pagetable (procs s (curproc s)) in
           bnd (copyout_obj pt fdarray (byte_of (of_nat fd0 :: 32 word)) 4) (\<lambda>r.
           bnd (if r < 0 then ret r
                else copyout_obj pt (fdarray + 4) (byte_of (of_nat fd1 :: 32 word)) 4) (\<lambda>r.
           if r < 0 then pipe_undo [fd0, fd1] rfile wfile else ret 0)))))))"

end
