(* ===== verification/Trap.thy ===== *)
theory Trap
  imports Sysfile
begin

text \<open>
  System call dispatch (\<^verbatim>\<open>kernel/syscall.c\<close>), traps (\<^verbatim>\<open>kernel/trap.c\<close>), the interrupt controller
  (\<^verbatim>\<open>kernel/plic.c\<close>) and \<^verbatim>\<open>forkret\<close> of \<^verbatim>\<open>kernel/proc.c\<close>. The control and status registers of the hart are
  fields of the state; \<open>plic_log\<close> lists the writes to the interrupt controller. What the devices answer
  is an argument: \<open>irq\<close> is the value \<^verbatim>\<open>plic_claim\<close> reads, \<open>now\<close> the value of the \<^verbatim>\<open>time\<close> register. The disk
  transfers of this state are complete when they return, so the handler of the disk interrupt, with the
  driver's own state, is an argument as well. A process that yields is left \<open>RUNNABLE\<close>; it continues
  with the rest of the handler when it is scheduled again.
\<close>

section \<open>State\<close>

record trap_st = cons_st +
  csr_sstatus :: "64 word"
  csr_scause :: "64 word"
  csr_sepc :: "64 word"
  csr_stval :: "64 word"
  csr_stvec :: "64 word"
  csr_satp :: "64 word"
  csr_stimecmp :: "64 word"
  csr_tp :: "64 word"
  kernelvec :: addr
  uservec :: addr
  kusertrap :: addr
  plic_log :: "(addr \<times> 32 word) list"
  first :: bool

abbreviation SSTATUS_SPP :: "64 word" where "SSTATUS_SPP \<equiv> 0x100"
abbreviation SSTATUS_SPIE :: "64 word" where "SSTATUS_SPIE \<equiv> 0x20"
abbreviation SSTATUS_SIE :: "64 word" where "SSTATUS_SIE \<equiv> 2"

definition MAKE_SATP :: "addr \<Rightarrow> 64 word" where
  "MAKE_SATP pagetable = push_bit 60 8 OR drop_bit 12 pagetable"

section \<open>Interrupt controller\<close>

definition plic_write :: "addr \<Rightarrow> 32 word \<Rightarrow> ('z trap_st_scheme, unit) km" where
  "plic_write a v = modify (\<lambda>s. s\<lparr>plic_log := plic_log s @ [(a, v)]\<rparr>)"

definition plicinit :: "('z trap_st_scheme, unit) km" where
  "plicinit = bnd (plic_write (PLIC + 40) 1) (\<lambda>_. plic_write (PLIC + 4) 1)"

definition plicinithart :: "('z trap_st_scheme, unit) km" where
  "plicinithart = bnd get (\<lambda>s.
     bnd (plic_write (PLIC + 0x2080 + csr_tp s * 0x100) 0x402) (\<lambda>_.
     plic_write (PLIC + 0x201000 + csr_tp s * 0x2000) 0))"

definition plic_complete :: "32 word \<Rightarrow> ('z trap_st_scheme, unit) km" where
  "plic_complete irq = bnd get (\<lambda>s. plic_write (PLIC + 0x201004 + csr_tp s * 0x2000) irq)"

section \<open>Dispatch of system calls\<close>

definition returns :: "('s, 64 word) km \<Rightarrow> ('s, 64 word option) km" where
  "returns m = bnd m (\<lambda>r. ret (Some r))"

definition syscalls :: "nat \<Rightarrow> ('z cons_st_scheme, 64 word option) km option" where
  "syscalls num =
     (if num = 1 then Some (returns sys_fork)
      else if num = 2 then Some sys_exit
      else if num = 3 then Some (returns sys_wait)
      else if num = 4 then Some (returns sys_pipe)
      else if num = 5 then Some (returns (sys_read console_read_dev))
      else if num = 6 then Some (returns sys_kill)
      else if num = 7 then Some (returns sys_exec)
      else if num = 8 then Some (returns sys_fstat)
      else if num = 9 then Some (returns sys_chdir)
      else if num = 10 then Some (returns sys_dup)
      else if num = 11 then Some (returns sys_getpid)
      else if num = 12 then Some (returns sys_sbrk)
      else if num = 14 then Some (returns sys_uptime)
      else if num = 15 then Some (returns sys_open)
      else if num = 16 then Some (returns (sys_write console_write_dev))
      else if num = 17 then Some (returns sys_mknod)
      else if num = 18 then Some (returns sys_unlink)
      else if num = 19 then Some (returns sys_link)
      else if num = 20 then Some (returns sys_mkdir)
      else if num = 21 then Some (returns sys_close)
      else if num = 22 then Some (returns sys_pause)
      else None)"

definition name_str :: "obj \<Rightarrow> 8 word list" where
  "name_str f = takeWhile (\<lambda>c. c \<noteq> 0) (map f [0..<16])"

text \<open>The result tells whether the process goes on.\<close>

definition syscall :: "('z cons_st_scheme, bool) km" where
  "syscall = bnd get (\<lambda>s.
     let p = curproc s; num = ucast (load64 (mem s) (p_trapframe (procs s p) + TF_A7)) :: 32 word in
     case (if 0 < sint num \<and> sint num < 23 then syscalls (unat num) else None) of
       Some handler \<Rightarrow> bnd handler (\<lambda>r.
         case r of None \<Rightarrow> ret False | Some v \<Rightarrow> bnd (set_tf p TF_A0 v) (\<lambda>_. ret True))
     | None \<Rightarrow>
         bnd (printf (bytes ''%d %s: unknown sys call %d'' @ [10])
           [Word (scast (p_pid (procs s p))), Str (name_str (p_name (procs s p))), Word (scast num)]) (\<lambda>_.
         bnd (set_tf p TF_A0 (- 1)) (\<lambda>_.
         ret True)))"

section \<open>Device interrupts\<close>

definition clockintr :: "64 word \<Rightarrow> ('z trap_st_scheme, unit) km" where
  "clockintr now = bnd get (\<lambda>s.
     bnd (if csr_tp s = 0
          then bnd (modify (\<lambda>s. s\<lparr>ticks := ticks s + 1\<rparr>)) (\<lambda>_. wakeup_chan ChTicks)
          else skip) (\<lambda>_.
     modify (\<lambda>s. s\<lparr>csr_stimecmp := now + 1000000\<rparr>)))"

definition devintr :: "32 word \<Rightarrow> 64 word \<Rightarrow> ('z trap_st_scheme, unit) km \<Rightarrow> ('z trap_st_scheme, nat) km" where
  "devintr irq now disk_intr = bnd get (\<lambda>s.
     if csr_scause s = 0x8000000000000009
     then
       bnd (if irq = 10 then panic ''uartintr''
            else if irq = 1 then disk_intr
            else if irq \<noteq> 0 then printf (bytes ''unexpected interrupt irq=%d'' @ [10]) [Word (scast irq)]
            else skip) (\<lambda>_.
       bnd (if irq \<noteq> 0 then plic_complete irq else skip) (\<lambda>_.
       ret 1))
     else if csr_scause s = 0x8000000000000005 then bnd (clockintr now) (\<lambda>_. ret 2)
     else ret 0)"

section \<open>Traps\<close>

definition RED :: "32 word" where "RED = 31"

definition cause_message :: "64 word \<Rightarrow> 8 word list" where
  "cause_message scause =
     bytes (if scause = 2 then ''  -> Type: Illegal Instruction''
       else if scause = 12 then ''  -> Type: Instruction Page Fault''
       else if scause = 13 then ''  -> Type: Load Page Fault''
       else if scause = 15 then ''  -> Type: Store Page Fault''
       else ''  -> Type: Unknown exception'') @ [10]"

definition print_exception_details :: "64 word \<Rightarrow> 64 word \<Rightarrow> 64 word \<Rightarrow> ('z cons_st_scheme, unit) km" where
  "print_exception_details scause sepc stval =
     bnd (printf (bytes ''  scause: 0x%p (cause code: %d)'' @ [10]) [Word scause, Word scause]) (\<lambda>_.
     bnd (printf (bytes ''  sepc:   0x%p (faulting address)'' @ [10]) [Word sepc]) (\<lambda>_.
     bnd (printf (bytes ''  stval:  0x%p (trap value)'' @ [10]) [Word stval]) (\<lambda>_.
     printf_color RED (cause_message scause) [])))"

text \<open>How a handler leaves: back to user space with the page table to switch to, giving up the hart, or never.\<close>

datatype trap_end = Return "64 word" | Yielded | Exited

definition prepare_return :: "('z trap_st_scheme, unit) km" where
  "prepare_return = bnd get (\<lambda>s.
     let p = curproc s in
     bnd (modify (\<lambda>s. s\<lparr>csr_sstatus := csr_sstatus s AND NOT SSTATUS_SIE\<rparr>)) (\<lambda>_.
     bnd (modify (\<lambda>s. s\<lparr>csr_stvec := TRAMPOLINE + (uservec s - ktrampoline s)\<rparr>)) (\<lambda>_.
     bnd (set_tf p 0 (csr_satp s)) (\<lambda>_.
     bnd (set_tf p 8 (p_kstack (procs s p) + PGSIZE)) (\<lambda>_.
     bnd (set_tf p 16 (kusertrap s)) (\<lambda>_.
     bnd (set_tf p 32 (csr_tp s)) (\<lambda>_.
     bnd (modify (\<lambda>s. s\<lparr>csr_sstatus := (csr_sstatus s AND NOT SSTATUS_SPP) OR SSTATUS_SPIE\<rparr>)) (\<lambda>_.
     modify (\<lambda>s. s\<lparr>csr_sepc := load64 (mem s) (p_trapframe (procs s p) + TF_EPC)\<rparr>)))))))))"

text \<open>The end of \<^verbatim>\<open>usertrap\<close> once the process goes back to user space.\<close>

definition usertrap_return :: "('z trap_st_scheme, trap_end) km" where
  "usertrap_return =
     bnd prepare_return (\<lambda>_.
     bnd get (\<lambda>s. ret (Return (MAKE_SATP (p_pagetable (procs s (curproc s)))))))"

definition yield_cpu :: "('z proc_st_scheme, unit) km" where
  "yield_cpu = bnd get (\<lambda>s. upd_proc (curproc s) (\<lambda>x. x\<lparr>p_state := RUNNABLE\<rparr>))"

definition usertrap ::
  "32 word \<Rightarrow> 64 word \<Rightarrow> ('z trap_st_scheme, unit) km \<Rightarrow> ('z trap_st_scheme, trap_end) km" where
  "usertrap irq now disk_intr = bnd get (\<lambda>s.
     if csr_sstatus s AND SSTATUS_SPP \<noteq> 0 then panic ''usertrap: not from user mode''
     else
       bnd (modify (\<lambda>s. s\<lparr>csr_stvec := kernelvec s\<rparr>)) (\<lambda>_.
       let p = curproc s in
       bnd (set_tf p TF_EPC (csr_sepc s)) (\<lambda>_.
       bnd (if csr_scause s = 8
            then bnd (killed p) (\<lambda>k.
                 if k then bnd (kexit (- 1)) (\<lambda>_. ret None)
                 else
                   bnd (set_tf p TF_EPC (csr_sepc s + 4)) (\<lambda>_.
                   bnd (modify (\<lambda>s. s\<lparr>csr_sstatus := csr_sstatus s OR SSTATUS_SIE\<rparr>)) (\<lambda>_.
                   bnd syscall (\<lambda>alive. ret (if alive then Some 0 else None)))))
            else bnd (devintr irq now disk_intr) (\<lambda>which_dev.
                 if which_dev \<noteq> 0 then ret (Some which_dev)
                 else
                   bnd (printf_color RED ([10] @ bytes ''>>> USER EXCEPTION <<<'' @ [10]) []) (\<lambda>_.
                   bnd (printf (bytes ''  Process %d (%s) triggered.'' @ [10])
                     [Word (scast (p_pid (procs s p))), Str (name_str (p_name (procs s p)))]) (\<lambda>_.
                   bnd (print_exception_details (csr_scause s) (csr_sepc s) (csr_stval s)) (\<lambda>_.
                   bnd (setkilled p) (\<lambda>_.
                   ret (Some 0))))))) (\<lambda>which.
       case which of
         None \<Rightarrow> ret Exited
       | Some which_dev \<Rightarrow>
           bnd (killed p) (\<lambda>k.
           if k then bnd (kexit (- 1)) (\<lambda>_. ret Exited)
           else if which_dev = 2 then bnd yield_cpu (\<lambda>_. ret Yielded)
           else usertrap_return)))))"

text \<open>\<^verbatim>\<open>kerneltrap\<close>; \<open>inproc\<close> tells whether a process runs on the hart.\<close>

definition kerneltrap ::
  "bool \<Rightarrow> 32 word \<Rightarrow> 64 word \<Rightarrow> ('z trap_st_scheme, unit) km \<Rightarrow> ('z trap_st_scheme, bool) km" where
  "kerneltrap inproc irq now disk_intr = bnd get (\<lambda>s.
     let sepc = csr_sepc s; sstatus = csr_sstatus s in
     if sstatus AND SSTATUS_SPP = 0 then panic ''kerneltrap: not from supervisor mode''
     else if sstatus AND SSTATUS_SIE \<noteq> 0 then panic ''kerneltrap: interrupts enabled''
     else
       bnd (devintr irq now disk_intr) (\<lambda>which_dev.
       if which_dev = 0
       then
         bnd (printf_color RED ([10] @ bytes ''>>> KERNEL EXCEPTION <<<'' @ [10]) []) (\<lambda>_.
         bnd (print_exception_details (csr_scause s) sepc (csr_stval s)) (\<lambda>_.
         panic ''Kernel exception''))
       else
         bnd (if which_dev = 2 \<and> inproc then yield_cpu else skip) (\<lambda>_.
         bnd (modify (\<lambda>s. s\<lparr>csr_sepc := sepc, csr_sstatus := sstatus\<rparr>)) (\<lambda>_.
         ret (which_dev = 2 \<and> inproc)))))"

text \<open>\<^verbatim>\<open>forkret\<close>: the first process to run initialises the file system and becomes \<^verbatim>\<open>/init\<close>.\<close>

definition forkret :: "('z trap_st_scheme, trap_end) km" where
  "forkret = bnd get (\<lambda>s.
     let p = curproc s; path = krodata s + 5 in
     bnd (if first s
          then
            bnd (fsinit ROOTDEV) (\<lambda>_.
            bnd (modify (\<lambda>s. s\<lparr>first := False\<rparr>)) (\<lambda>_.
            bnd (kexec path (\<lambda>i. if i = 0 then path else 0)) (\<lambda>r.
            bnd (set_tf p TF_A0 (word_of_int r)) (\<lambda>_.
            if r = - 1 then panic ''exec'' else skip))))
          else skip) (\<lambda>_.
     usertrap_return))"

end
