(* ===== verification/Proc_Spec.thy ===== *)
theory Proc_Spec
  imports Proc
begin

text \<open>
  The process table as a function: what \<^verbatim>\<open>wakeup\<close>, \<^verbatim>\<open>kkill\<close>, \<^verbatim>\<open>reparent\<close> and \<^verbatim>\<open>kwait\<close> do to it, in closed
  form. \<open>synced\<close> says that the fields of the running process that the lower layers read agree with the
  table.
\<close>

section \<open>Updates of the table\<close>

definition synced :: "'z proc_st_scheme \<Rightarrow> bool" where
  "synced s \<longleftrightarrow> psz s = p_sz (procs s (curproc s)) \<and> ppagetable s = p_pagetable (procs s (curproc s)) \<and>
     mypid s = sint (p_pid (procs s (curproc s))) \<and>
     pcwd s = (case p_cwd (procs s (curproc s)) of None \<Rightarrow> 0 | Some i \<Rightarrow> i)"

lemma sync_synced: "synced s \<Longrightarrow> sync s = s"
  by (cases s) (simp add: sync_def synced_def Let_def)

lemma synced_sync: "synced (sync s)"
  by (simp add: sync_def synced_def Let_def)

text \<open>\<open>visible\<close> is the part of an entry that the lower layers see.\<close>

definition visible :: "proc \<Rightarrow> addr \<times> addr \<times> 32 word \<times> nat option" where
  "visible x = (p_sz x, p_pagetable x, p_pid x, p_cwd x)"

lemma synced_procs:
  "synced s \<Longrightarrow> visible (P (curproc s)) = visible (procs s (curproc s)) \<Longrightarrow> synced (s\<lparr>procs := P\<rparr>)"
  by (simp add: synced_def visible_def)

lemma upd_proc_run:
  assumes "synced s" "p = curproc s \<Longrightarrow> visible (f (procs s p)) = visible (procs s p)"
  shows "upd_proc p f s = Inr ((), s\<lparr>procs := (procs s)(p := f (procs s p))\<rparr>)"
    and "synced (s\<lparr>procs := (procs s)(p := f (procs s p))\<rparr>)"
proof -
  show "synced (s\<lparr>procs := (procs s)(p := f (procs s p))\<rparr>)" using assms by (intro synced_procs) auto
  from sync_synced [OF this] show "upd_proc p f s = Inr ((), s\<lparr>procs := (procs s)(p := f (procs s p))\<rparr>)"
    by (simp add: upd_proc_def run_simps)
qed

text \<open>A loop over the table whose body changes only the entry it looks at.\<close>

lemma for_each_table:
  assumes "synced s" "curproc s = c" "distinct ps"
    and body: "\<And>p t. synced t \<Longrightarrow> curproc t = c \<Longrightarrow> body p t = Inr ((), t\<lparr>procs := (procs t)(p := f p (procs t p))\<rparr>)"
    and vis: "\<And>x. visible (f c x) = visible x"
  shows "for_each ps body s = Inr ((), s\<lparr>procs := \<lambda>p. if p \<in> set ps then f p (procs s p) else procs s p\<rparr>)"
    and "synced (s\<lparr>procs := \<lambda>p. if p \<in> set ps then f p (procs s p) else procs s p\<rparr>)"
proof -
  show "for_each ps body s = Inr ((), s\<lparr>procs := \<lambda>p. if p \<in> set ps then f p (procs s p) else procs s p\<rparr>)"
    using assms(1-3)
  proof (induction ps arbitrary: s)
    case Nil
    then show ?case by (simp add: run_simps)
  next
    case (Cons p ps)
    let ?t = "s\<lparr>procs := (procs s)(p := f p (procs s p))\<rparr>"
    have b: "body p s = Inr ((), ?t)" using Cons.prems by (intro body)
    have "synced ?t" using Cons.prems(1,2) vis by (intro synced_procs) auto
    from Cons.IH [OF this] Cons.prems
    have "for_each ps body ?t =
      Inr ((), ?t\<lparr>procs := \<lambda>q. if q \<in> set ps then f q (procs ?t q) else procs ?t q\<rparr>)" by simp
    moreover have "(\<lambda>q. if q \<in> set ps then f q (procs ?t q) else procs ?t q) =
      (\<lambda>q. if q \<in> set (p # ps) then f q (procs s q) else procs s q)"
      using Cons.prems(3) by (auto simp: fun_eq_iff)
    ultimately show ?case using b by (simp add: run_simps del: list.set)
  qed
  show "synced (s\<lparr>procs := \<lambda>p. if p \<in> set ps then f p (procs s p) else procs s p\<rparr>)"
    using assms(1,2) vis by (intro synced_procs) auto
qed

section \<open>wakeup\<close>

definition woken :: "chan \<Rightarrow> nat \<Rightarrow> (nat \<Rightarrow> proc) \<Rightarrow> nat \<Rightarrow> proc" where
  "woken ch c P = (\<lambda>p. if p < NPROC \<and> p \<noteq> c \<and> p_state (P p) = SLEEPING \<and> p_chan (P p) = ch
     then (P p)\<lparr>p_state := RUNNABLE\<rparr> else P p)"

lemma wakeup_chan_run:
  assumes "synced s"
  shows "wakeup_chan ch s = Inr ((), s\<lparr>procs := woken ch (curproc s) (procs s)\<rparr>)"
    and "synced (s\<lparr>procs := woken ch (curproc s) (procs s)\<rparr>)"
proof -
  let ?c = "curproc s"
  let ?f = "\<lambda>p x. if p \<noteq> ?c \<and> p_state x = SLEEPING \<and> p_chan x = ch then x\<lparr>p_state := RUNNABLE\<rparr> else x"
  let ?b = "\<lambda>p. bnd get (\<lambda>s. if p \<noteq> curproc s \<and> p_state (procs s p) = SLEEPING \<and> p_chan (procs s p) = ch
     then upd_proc p (\<lambda>x. x\<lparr>p_state := RUNNABLE\<rparr>) else skip)"
  have b: "?b p t = Inr ((), t\<lparr>procs := (procs t)(p := ?f p (procs t p))\<rparr>)"
    if "synced t" "curproc t = ?c" for p and t :: "'a proc_st_scheme"
    using that upd_proc_run(1) [of t p "\<lambda>x. x\<lparr>p_state := RUNNABLE\<rparr>"] by (auto simp: run_simps)
  have w: "(\<lambda>p. if p \<in> set [0..<NPROC] then ?f p (procs s p) else procs s p) = woken ch ?c (procs s)"
    by (simp add: woken_def fun_eq_iff)
  note T = for_each_table [where s = s and c = ?c and ps = "[0..<NPROC]" and f = ?f and body = ?b, OF assms refl _ b, unfolded w]
  show "wakeup_chan ch s = Inr ((), s\<lparr>procs := woken ch (curproc s) (procs s)\<rparr>)"
    unfolding wakeup_chan_def by (rule T(1)) simp_all
  show "synced (s\<lparr>procs := woken ch (curproc s) (procs s)\<rparr>)"
    by (rule T(2)) simp_all
qed

lemma visible_woken [simp]: "visible (woken ch c P p) = visible (P p)"
  by (simp add: woken_def visible_def)

end
