(* ===== verification/Frame.thy ===== *)
theory Frame
  imports Fs
begin

text \<open>
  What memory management, the buffer cache, the log and the file system leave alone. A part \<open>\<pi>\<close> of the
  state that no update of their own fields changes is the same after every one of their operations. The
  layers above instantiate \<open>\<pi>\<close> with their own fields.
\<close>

locale fs_frame =
  fixes \<pi> :: "'z fs_st_scheme \<Rightarrow> 'v"
  assumes vm_fields: "\<And>s x. \<pi> (s\<lparr>mem := x\<rparr>) = \<pi> s" "\<And>s x. \<pi> (s\<lparr>freelist := x\<rparr>) = \<pi> s"
    and bio_fields: "\<And>s x. \<pi> (s\<lparr>bufs := x\<rparr>) = \<pi> s" "\<And>s x. \<pi> (s\<lparr>disk := x\<rparr>) = \<pi> s"
      "\<And>s x. \<pi> (s\<lparr>disk_writes := x\<rparr>) = \<pi> s"
    and log_fields: "\<And>s x. \<pi> (s\<lparr>log_outstanding := x\<rparr>) = \<pi> s" "\<And>s x. \<pi> (s\<lparr>log_committing := x\<rparr>) = \<pi> s"
      "\<And>s x. \<pi> (s\<lparr>lh_n := x\<rparr>) = \<pi> s" "\<And>s x. \<pi> (s\<lparr>lh_block := x\<rparr>) = \<pi> s"
    and fs_fields: "\<And>s x. \<pi> (s\<lparr>inodes := x\<rparr>) = \<pi> s"
begin

lemmas fields = vm_fields bio_fields log_fields fs_fields

subsection \<open>Memory\<close>

lemma stable_kalloc [stable_intros]: "stable \<pi> kalloc" "stable \<pi> (kfree pa)"
  unfolding kalloc_def kfree_def by (intro stable_intros stable_modify; simp add: fields)+

lemma stable_walk [stable_intros]: "stable \<pi> (walk pagetable va alloc)" "stable \<pi> (walkaddr pagetable va)"
proof -
  have l: "stable \<pi> (walk_level n pagetable va alloc)" for n pagetable alloc
    by (induction n arbitrary: pagetable) (auto intro!: stable_intros stable_modify simp: fields)
  show w: "stable \<pi> (walk pagetable va alloc)" for pagetable alloc
    unfolding walk_def by (intro stable_intros l)
  show "stable \<pi> (walkaddr pagetable va)" unfolding walkaddr_def by (intro stable_intros w)
qed

lemma stable_mappages [stable_intros]: "stable \<pi> (mappages pagetable va sz pa perm)"
proof -
  have l: "stable \<pi> (mappages_loop n pagetable a l pa perm)" for n a l pa
    by (induction n arbitrary: a pa) (auto intro!: stable_intros stable_modify simp: fields)
  show ?thesis unfolding mappages_def by (intro stable_intros l)
qed

lemma stable_uvmunmap [stable_intros]: "stable \<pi> (uvmunmap pagetable va npages do_free)"
proof -
  have l: "stable \<pi> (uvmunmap_loop n pagetable a e do_free)" for n a e
    by (induction n arbitrary: a) (auto intro!: stable_intros stable_modify simp: fields)
  show ?thesis unfolding uvmunmap_def by (intro stable_intros l)
qed

lemma stable_uvmcreate [stable_intros]: "stable \<pi> uvmcreate"
  unfolding uvmcreate_def by (intro stable_intros stable_modify) (simp_all add: fields)

lemma stable_uvmdealloc [stable_intros]: "stable \<pi> (uvmdealloc pagetable oldsz newsz)"
  unfolding uvmdealloc_def by (intro stable_intros)

lemma stable_uvmalloc [stable_intros]: "stable \<pi> (uvmalloc pagetable oldsz newsz xperm)"
proof -
  have l: "stable \<pi> (uvmalloc_loop n pagetable a l u xperm)" for n a l u
    by (induction n arbitrary: a) (auto intro!: stable_intros stable_modify simp: fields Let_def)
  show ?thesis unfolding uvmalloc_def by (intro stable_intros l)
qed

lemma stable_uvmfree [stable_intros]: "stable \<pi> (uvmfree pagetable sz)"
proof -
  have l: "stable \<pi> (freewalk_depth n p)" for n p
    by (induction n arbitrary: p) (auto intro!: stable_intros stable_modify simp: fields Let_def)
  show ?thesis unfolding uvmfree_def freewalk_def by (intro stable_intros l)
qed

lemma stable_uvmcopy [stable_intros]: "stable \<pi> (uvmcopy old new sz)"
proof -
  have l: "stable \<pi> (uvmcopy_loop n old new i sz)" for n i
    by (induction n arbitrary: i) (auto intro!: stable_intros stable_modify simp: fields Let_def)
  show ?thesis unfolding uvmcopy_def by (intro stable_intros l)
qed

lemma stable_uvmclear [stable_intros]: "stable \<pi> (uvmclear pagetable va)"
  unfolding uvmclear_def by (intro stable_intros stable_modify) (simp_all add: fields)

lemma stable_vmfault [stable_intros]: "stable \<pi> (vmfault pagetable va)"
  unfolding vmfault_def ismapped_def by (intro stable_intros stable_modify) (simp_all add: fields)

lemma stable_copyout_obj [stable_intros]: "stable \<pi> (copyout_obj pagetable dstva src len)"
proof -
  have l: "stable \<pi> (copyout_obj_loop n pagetable dstva src k len)" for n dstva k len
    by (induction n arbitrary: dstva k len) (auto intro!: stable_intros stable_modify simp: fields Let_def)
  show ?thesis unfolding copyout_obj_def by (intro stable_intros l)
qed

lemma stable_copyin_obj [stable_intros]: "stable \<pi> (copyin_obj pagetable dst srcva len)"
proof -
  have l: "stable \<pi> (copyin_obj_loop n pagetable dst k srcva len)" for n srcva k len dst
    by (induction n arbitrary: srcva k len dst) (auto intro!: stable_intros stable_modify simp: fields Let_def)
  show ?thesis unfolding copyin_obj_def by (intro stable_intros l)
qed

lemma stable_copyout [stable_intros]: "stable \<pi> (copyout pagetable dstva src len)"
proof -
  have l: "stable \<pi> (copyout_loop n pagetable dstva src len)" for n dstva src len
    by (induction n arbitrary: dstva src len) (auto intro!: stable_intros stable_modify simp: fields Let_def)
  show ?thesis unfolding copyout_def by (intro stable_intros l)
qed

lemma stable_copyinstr [stable_intros]: "stable \<pi> (copyinstr pagetable dst srcva mx)"
proof -
  have l: "stable \<pi> (copyinstr_loop n pagetable dst srcva mx)" for n dst srcva mx
    by (induction n arbitrary: dst srcva mx) (auto intro!: stable_intros stable_modify simp: fields Let_def)
  show ?thesis unfolding copyinstr_def by (intro stable_intros l)
qed

lemma stable_either [stable_intros]:
  "stable \<pi> (either_copyout user dst src len)" "stable \<pi> (either_copyin obj user va len)"
  unfolding either_copyout_def either_copyin_def by (intro stable_intros stable_modify; simp add: fields)+

subsection \<open>Buffers and the log\<close>

lemma stable_bio [stable_intros]:
  "stable \<pi> (upd_buf b f)" "stable \<pi> (set_data b g)" "stable \<pi> (disk_rw b w)" "stable \<pi> (lock_buf b)"
  unfolding upd_buf_def set_data_def disk_rw_def lock_buf_def
  by (intro stable_intros stable_modify; simp add: fields)+

lemma stable_bread [stable_intros]: "stable \<pi> (bread dev blockno)"
proof -
  have l: "stable \<pi> (bget_cached n b dev blockno)" "stable \<pi> (bget_unused n b)" for n b
    by (induction n arbitrary: b) (auto intro!: stable_intros)
  show ?thesis unfolding bread_def bget_def by (intro stable_intros l)
qed

lemma stable_buffers [stable_intros]:
  "stable \<pi> (bwrite b)" "stable \<pi> (brelse b)" "stable \<pi> (bpin b)" "stable \<pi> (bunpin b)"
  unfolding bwrite_def brelse_def bpin_def bunpin_def
  by (intro stable_intros stable_modify; simp add: fields)+

lemma stable_log [stable_intros]:
  "stable \<pi> (install_trans r)" "stable \<pi> write_head" "stable \<pi> write_log"
  unfolding install_trans_def install_one_def write_head_def write_log_def write_log_one_def read_lh_block_def
  by (intro stable_intros stable_modify; simp add: fields)+

lemma stable_ops [stable_intros]: "stable \<pi> begin_op" "stable \<pi> end_op" "stable \<pi> (log_write b)"
  unfolding begin_op_def end_op_def commit_def log_write_def
  by (intro stable_intros stable_modify; simp add: fields)+

subsection \<open>The file system\<close>

lemma stable_bzero [stable_intros]: "stable \<pi> (bzero dev bno)"
  unfolding bzero_def by (intro stable_intros)

lemma stable_balloc [stable_intros]: "stable \<pi> (balloc dev)" "stable \<pi> (bfree dev b)"
proof -
  have l: "stable \<pi> (balloc_loop n dev k)" for n k
    by (induction n arbitrary: k) (auto intro!: stable_intros simp: Let_def)
  show "stable \<pi> (balloc dev)" "stable \<pi> (bfree dev b)"
    unfolding balloc_def bfree_def by (intro stable_intros l)+
qed

lemma stable_upd_inode [stable_intros]: "stable \<pi> (upd_inode ip f)" "stable \<pi> (lock_inode ip)"
  unfolding upd_inode_def lock_inode_def by (intro stable_intros stable_modify; simp add: fields)+

lemma stable_inode [stable_intros]:
  "stable \<pi> (iget dev inum)" "stable \<pi> (iupdate ip)" "stable \<pi> (idup ip)" "stable \<pi> (ilock ip)" "stable \<pi> (iunlock ip)"
  unfolding iget_def iupdate_def idup_def ilock_def iunlock_def
  by (intro stable_intros stable_modify; simp add: fields)+

lemma stable_ialloc [stable_intros]: "stable \<pi> (ialloc dev ty)"
proof -
  have l: "stable \<pi> (ialloc_loop n dev ty k)" for n k
    by (induction n arbitrary: k) (auto intro!: stable_intros simp: Let_def)
  show ?thesis unfolding ialloc_def by (intro stable_intros l)
qed

lemma stable_bmap [stable_intros]: "stable \<pi> (bmap ip bn)"
  unfolding bmap_def addr_or_alloc_def by (intro stable_intros)

lemma stable_iput [stable_intros]: "stable \<pi> (itrunc ip)" "stable \<pi> (iput ip)" "stable \<pi> (iunlockput ip)"
  unfolding itrunc_def iput_def iunlockput_def by (intro stable_intros)+

lemma stable_stati [stable_intros]: "stable \<pi> (stati ip)"
  unfolding stati_def by (intro stable_intros)

lemma stable_readi [stable_intros]: "stable \<pi> (readi ip user dst off n)"
proof -
  have l: "stable \<pi> (readi_loop k ip user dst off n tot)" for k dst off n tot
    by (induction k arbitrary: dst off tot) (auto intro!: stable_intros simp: Let_def)
  show ?thesis unfolding readi_def by (intro stable_intros l)
qed

lemma stable_writei [stable_intros]: "stable \<pi> (writei ip user src off n)"
proof -
  have l: "stable \<pi> (writei_loop k ip user src off n tot)" for k src off tot
    by (induction k arbitrary: src off tot) (auto intro!: stable_intros simp: Let_def)
  show ?thesis unfolding writei_def by (intro stable_intros l)
qed

lemma stable_dirlookup [stable_intros]: "stable \<pi> (dirlookup dp name)"
proof -
  have l: "stable \<pi> (dirlookup_loop k dp name off)" for k off
    by (induction k arbitrary: off) (auto intro!: stable_intros)
  show ?thesis unfolding dirlookup_def by (intro stable_intros l)
qed

lemma stable_dirlink [stable_intros]: "stable \<pi> (dirlink dp name inum)"
proof -
  have l: "stable \<pi> (dirlink_loop k dp off)" for k off
    by (induction k arbitrary: off) (auto intro!: stable_intros)
  show ?thesis unfolding dirlink_def by (intro stable_intros l stable_modify; simp add: fields)
qed

lemma stable_namex [stable_intros]: "stable \<pi> (namei path)" "stable \<pi> (nameiparent path name)"
proof -
  have l: "stable \<pi> (namex_loop k ip path parent name)" for k ip path parent name
    by (induction k arbitrary: ip path) (auto intro!: stable_intros stable_modify simp: fields)
  have x: "stable \<pi> (namex path parent name)" for parent name
    unfolding namex_def by (intro stable_intros l)
  show "stable \<pi> (namei path)" "stable \<pi> (nameiparent path name)"
    unfolding namei_def nameiparent_def by (intro stable_intros x)+
qed

end

end
