(* ===== verification/Sample.thy ===== *)
theory Sample
  imports Proc_Life
begin

text \<open>
  Concrete kernel states for the witnesses: a memory, a process table in which process 0 is \<^verbatim>\<open>init\<close> and
  runs, empty caches and file tables.
\<close>

definition blank_buf :: buf where
  "blank_buf = \<lparr>b_valid = False, b_disk = False, b_dev = 0, b_blockno = 0, b_lock = initsleeplock, b_refcnt = 0, b_prev = 0, b_next = 0,
     b_data = (\<lambda>_. 0)\<rparr>"

definition blank_inode :: inode where
  "blank_inode = \<lparr>i_dev = 0, i_inum = 0, i_ref = 0, i_lock = initsleeplock, i_valid = False, i_type = 0,
     i_major = 0, i_minor = 0, i_nlink = 0, i_size = 0, i_addrs = (\<lambda>_. 0)\<rparr>"

definition blank_file :: kfile where
  "blank_file = \<lparr>f_type = FD_NONE, f_ref = 0, f_readable = False, f_writable = False, f_pipe = 0, f_ip = 0, f_off = 0, f_major = 0\<rparr>"

definition blank_pipe :: pipe where
  "blank_pipe = \<lparr>pi_data = (\<lambda>_. 0), pi_nread = 0, pi_nwrite = 0, pi_readopen = True, pi_writeopen = True\<rparr>"

definition blank_proc :: proc where
  "blank_proc = \<lparr>p_state = UNUSED, p_chan = NoChan, p_killed = False, p_xstate = 0, p_pid = 0, p_parent = None, p_kstack = 0,
     p_sz = 0, p_pagetable = 0, p_trapframe = 0, p_ctx_ra = 0, p_ctx_sp = 0, p_ctx_s = (\<lambda>_. 0), p_ofile = (\<lambda>_. None),
     p_cwd = None, p_name = (\<lambda>_. 0)\<rparr>"

definition init_proc :: proc where
  "init_proc = blank_proc\<lparr>p_state := RUNNING, p_pid := 1, p_pagetable := 0x87000000, p_trapframe := 0x87004000, p_sz := 0x1000\<rparr>"

definition init_table :: "nat \<Rightarrow> proc" where
  "init_table = (\<lambda>_. blank_proc)(0 := init_proc)"

definition kstate :: "memory \<Rightarrow> (nat \<Rightarrow> proc) \<Rightarrow> file_st" where
  "kstate m P = \<lparr>mem = m, freelist = 0, kend = 0x80020000, psz = p_sz (P 0), ppagetable = p_pagetable (P 0),
     mypid = sint (p_pid (P 0)), bufs = (\<lambda>_. blank_buf), disk = (\<lambda>_ _. 0), disk_writes = [],
     log_start = 2, log_outstanding = 0, log_committing = False, log_dev = 1, lh_n = 0, lh_block = (\<lambda>_. 0),
     sb = \<lparr>sb_magic = FSMAGIC, sb_size = 2000, sb_nblocks = 1954, sb_ninodes = 200, sb_nlog = 31, sb_logstart = 2,
       sb_inodestart = 33, sb_bmapstart = 46\<rparr>,
     inodes = (\<lambda>_. blank_inode), pcwd = (case p_cwd (P 0) of None \<Rightarrow> 0 | Some i \<Rightarrow> i), kstk = 0x80030000, procs = P, nextpid = 2, initproc = Some 0,
     curproc = 0, ktrampoline = 0x80001000, kforkret = 0x80002000, ftable = (\<lambda>_. blank_file), pipes = (\<lambda>_. blank_pipe)\<rparr>"

lemma kstate_fields [simp]:
  "mem (kstate m P) = m" "procs (kstate m P) = P" "curproc (kstate m P) = 0" "nextpid (kstate m P) = 2"
  "initproc (kstate m P) = Some 0" "ppagetable (kstate m P) = p_pagetable (P 0)" "psz (kstate m P) = p_sz (P 0)"
  "mypid (kstate m P) = sint (p_pid (P 0))" "pcwd (kstate m P) = (case p_cwd (P 0) of None \<Rightarrow> 0 | Some i \<Rightarrow> i)"
  "pipes (kstate m P) = (\<lambda>_. blank_pipe)" "ftable (kstate m P) = (\<lambda>_. blank_file)"
  by (simp_all add: kstate_def)

end
