(* ===== verification/Proc_Inv.thy ===== *)
theory Proc_Inv
  imports Frame Sample
begin

text \<open>
  Well-formedness of the process table under the operations of \<^verbatim>\<open>kernel/proc.c\<close>: unused slots are clean,
  live ones have memory and a process id of their own, and the parent of every process is alive, so that
  every zombie has a process that can wait for it.
\<close>

section \<open>The table and what changes it\<close>

text \<open>The part of the state above the file system.\<close>

definition rest :: "'z file_st_scheme \<Rightarrow> 32 word \<times> nat option \<times> nat \<times> (nat \<Rightarrow> kfile) \<times> (addr \<Rightarrow> pipe)" where
  "rest s = (nextpid s, initproc s, curproc s, ftable s, pipes s)"

definition tab :: "'z file_st_scheme \<Rightarrow> (nat \<Rightarrow> proc) \<times> 32 word \<times> nat option \<times> nat \<times> (nat \<Rightarrow> kfile) \<times> (addr \<Rightarrow> pipe)" where
  "tab s = (procs s, rest s)"

interpretation tf: fs_frame tab
  by unfold_locales (simp_all add: tab_def rest_def)

lemma tab_eq:
  "tab t = tab s \<longleftrightarrow> procs t = procs s \<and> nextpid t = nextpid s \<and> initproc t = initproc s \<and> curproc t = curproc s \<and>
     ftable t = ftable s \<and> pipes t = pipes s"
  by (auto simp: tab_def rest_def)

lemma rest_eq:
  "rest t = rest s \<longleftrightarrow> nextpid t = nextpid s \<and> initproc t = initproc s \<and> curproc t = curproc s \<and>
     ftable t = ftable s \<and> pipes t = pipes s"
  by (auto simp: rest_def)

text \<open>Running on past an operation that leaves the table alone, and past an update of a slot.\<close>

lemma wlp_over: "stable tab m \<Longrightarrow> (\<And>x t. tab t = tab s \<Longrightarrow> wlp (f x) Q t) \<Longrightarrow> wlp (bnd m f) Q s"
  unfolding wlp_bnd by (rule wlp_stable)

lemma wlp_get_over: "wlp (f s) Q s \<Longrightarrow> wlp (bnd get f) Q s"
  by (simp add: wlp_simps)

lemma wlp_over_mono: "wlp m R s \<Longrightarrow> (\<And>x t. R x t \<Longrightarrow> wlp (f x) Q t) \<Longrightarrow> wlp (bnd m f) Q s"
  unfolding wlp_bnd by (rule wlp_mono)

lemma wlp_keeps: "keeps R m \<Longrightarrow> (\<And>x t. R s t \<Longrightarrow> Q x t) \<Longrightarrow> wlp m Q s"
  by (auto simp: wlp_def keeps_def)

lemma wlp_keeps_over: "keeps R m \<Longrightarrow> (\<And>x t. R s t \<Longrightarrow> wlp (f x) Q t) \<Longrightarrow> wlp (bnd m f) Q s"
  unfolding wlp_bnd by (rule wlp_keeps)

lemma wlp_cases: "(b \<Longrightarrow> wlp m Q s) \<Longrightarrow> (\<not> b \<Longrightarrow> wlp n Q s) \<Longrightarrow> wlp (if b then m else n) Q s"
  by simp

lemma tab_upd: "procs (sync s) = procs s" "rest (sync s) = rest s" "rest (s\<lparr>procs := P\<rparr>) = rest s"
  by (simp_all add: sync_def rest_def Let_def)

lemma wlp_upd_proc:
  assumes "\<And>t. procs t = (procs s)(p := f (procs s p)) \<Longrightarrow> rest t = rest s \<Longrightarrow> Q () t"
  shows "wlp (upd_proc p f) Q s"
  unfolding upd_proc_def wlp_basic by (rule assms) (simp_all add: tab_upd)

lemma wlp_upd_proc_over:
  assumes "\<And>t. procs t = (procs s)(p := f (procs s p)) \<Longrightarrow> rest t = rest s \<Longrightarrow> wlp (g ()) Q t"
  shows "wlp (bnd (upd_proc p f) g) Q s"
  unfolding wlp_bnd by (rule wlp_upd_proc) (rule assms)

lemma stable_proc_freepagetable [stable_intros]: "stable tab (proc_freepagetable pagetable sz)"
  unfolding proc_freepagetable_def by (intro stable_intros)

lemma stable_proc_pagetable [stable_intros]: "stable tab (proc_pagetable p)"
  unfolding proc_pagetable_def by (intro stable_intros)

lemma stable_set_tf [stable_intros]: "stable tab (set_tf p off v)"
  unfolding set_tf_def by (intro stable_modify) (simp add: tf.fields)

definition freed :: "proc \<Rightarrow> proc" where
  "freed x = x\<lparr>p_trapframe := 0, p_pagetable := 0, p_sz := 0, p_pid := 0, p_parent := None,
     p_name := (p_name x)(0 := 0), p_chan := NoChan, p_killed := False, p_xstate := 0, p_state := UNUSED\<rparr>"

lemma wlp_freeproc:
  assumes "\<And>t. procs t = (procs s)(p := freed (procs s p)) \<Longrightarrow> rest t = rest s \<Longrightarrow> Q () t"
  shows "wlp (freeproc p) Q s"
  unfolding freeproc_def wlp_bnd wlp_basic
proof (rule wlp_stable [where \<pi> = tab], intro stable_intros)
  fix t :: "'a file_st_scheme" assume t: "tab t = tab s"
  show "wlp (upd_proc p (\<lambda>x. x\<lparr>p_trapframe := 0\<rparr>)) (\<lambda>_. wlp (if p_pagetable (procs s p) \<noteq> 0
      then proc_freepagetable (p_pagetable (procs s p)) (p_sz (procs s p)) else skip) (\<lambda>_.
      wlp (upd_proc p (\<lambda>x. x\<lparr>p_pagetable := 0, p_sz := 0, p_pid := 0, p_parent := None,
        p_name := (p_name x)(0 := 0), p_chan := NoChan, p_killed := False, p_xstate := 0, p_state := UNUSED\<rparr>)) Q)) t"
  proof (rule wlp_upd_proc, rule wlp_stable [where \<pi> = tab], intro stable_intros, rule wlp_upd_proc, rule assms)
    fix u v w :: "'a file_st_scheme"
    assume "procs u = (procs t)(p := (procs t p)\<lparr>p_trapframe := 0\<rparr>)" "rest u = rest t" "tab v = tab u"
      and w: "procs w = (procs v)(p := (procs v p)\<lparr>p_pagetable := 0, p_sz := 0, p_pid := 0, p_parent := None,
        p_name := (p_name (procs v p))(0 := 0), p_chan := NoChan, p_killed := False, p_xstate := 0, p_state := UNUSED\<rparr>)"
        "rest w = rest v"
    with t have "procs v = (procs s)(p := (procs s p)\<lparr>p_trapframe := 0\<rparr>)" "rest v = rest s"
      by (simp_all add: tab_def)
    with w show "procs w = (procs s)(p := freed (procs s p))" "rest w = rest s" by (simp_all add: freed_def)
  qed
qed

section \<open>Well-formed tables\<close>

definition live :: "procstate \<Rightarrow> bool" where
  "live x \<longleftrightarrow> x \<noteq> UNUSED \<and> x \<noteq> ZOMBIE"

definition slot_wf :: "proc \<Rightarrow> bool" where
  "slot_wf x \<longleftrightarrow>
     (if p_state x = UNUSED
      then p_pid x = 0 \<and> p_parent x = None \<and> p_trapframe x = 0 \<and> p_pagetable x = 0 \<and> p_sz x = 0 \<and>
        \<not> p_killed x \<and> p_chan x = NoChan \<and> p_xstate x = 0
      else p_pid x \<noteq> 0 \<and> p_trapframe x \<noteq> 0 \<and> p_pagetable x \<noteq> 0) \<and>
     (\<not> live (p_state x) \<longrightarrow> p_cwd x = None \<and> (\<forall>fd<NOFILE. p_ofile x fd = None))"

definition table_wf :: "(nat \<Rightarrow> proc) \<Rightarrow> 32 word \<Rightarrow> bool" where
  "table_wf P next \<longleftrightarrow>
     (\<forall>p<NPROC. slot_wf (P p)) \<and>
     (\<forall>p<NPROC. \<forall>q. p_parent (P p) = Some q \<longrightarrow> q < NPROC \<and> live (p_state (P q))) \<and>
     (\<forall>p<NPROC. p_state (P p) \<noteq> UNUSED \<longrightarrow> p_pid (P p) < next) \<and>
     (\<forall>p<NPROC. \<forall>q<NPROC. p_state (P p) \<noteq> UNUSED \<longrightarrow> p_state (P q) \<noteq> UNUSED \<longrightarrow> p_pid (P p) = p_pid (P q) \<longrightarrow> p = q) \<and>
     next \<noteq> 0"

lemma table_wfI:
  assumes "\<And>p. p < NPROC \<Longrightarrow> slot_wf (P p)"
    and "\<And>p q. p < NPROC \<Longrightarrow> p_parent (P p) = Some q \<Longrightarrow> q < NPROC \<and> live (p_state (P q))"
    and "\<And>p. p < NPROC \<Longrightarrow> p_state (P p) \<noteq> UNUSED \<Longrightarrow> p_pid (P p) < next"
    and "\<And>p q. p < NPROC \<Longrightarrow> q < NPROC \<Longrightarrow> p_state (P p) \<noteq> UNUSED \<Longrightarrow> p_state (P q) \<noteq> UNUSED \<Longrightarrow>
      p_pid (P p) = p_pid (P q) \<Longrightarrow> p = q"
    and "next \<noteq> 0"
  shows "table_wf P next"
  using assms unfolding table_wf_def by blast

lemma table_wfD:
  assumes "table_wf P next"
  shows "\<And>p. p < NPROC \<Longrightarrow> slot_wf (P p)"
    and "\<And>p q. p < NPROC \<Longrightarrow> p_parent (P p) = Some q \<Longrightarrow> q < NPROC"
    and "\<And>p q. p < NPROC \<Longrightarrow> p_parent (P p) = Some q \<Longrightarrow> live (p_state (P q))"
    and "\<And>p. p < NPROC \<Longrightarrow> p_state (P p) \<noteq> UNUSED \<Longrightarrow> p_pid (P p) < next"
    and "\<And>p q. p < NPROC \<Longrightarrow> q < NPROC \<Longrightarrow> p_state (P p) \<noteq> UNUSED \<Longrightarrow> p_state (P q) \<noteq> UNUSED \<Longrightarrow>
      p_pid (P p) = p_pid (P q) \<Longrightarrow> p = q"
    and "next \<noteq> 0"
  using assms unfolding table_wf_def by blast+

text \<open>
  A change of one slot keeps the table well formed when the slot stays well formed, keeps its id, stays
  live if it was, and gets a live parent.
\<close>

lemma table_wf_upd:
  assumes wf: "table_wf P next" and "p < NPROC" "slot_wf x"
    and same: "p_state (P p) \<noteq> UNUSED" "p_state x \<noteq> UNUSED" "p_pid x = p_pid (P p)"
    and alive: "live (p_state (P p)) \<Longrightarrow> live (p_state x)"
    and parent: "\<And>q. p_parent x = Some q \<Longrightarrow> p_parent (P p) = Some q \<or> q < NPROC \<and> live (p_state ((P(p := x)) q))"
  shows "table_wf (P(p := x)) next"
proof (rule table_wfI)
  note D = table_wfD [OF wf]
  show "slot_wf ((P(p := x)) q)" if "q < NPROC" for q using that D(1) assms(3) by simp
  have l: "live (p_state ((P(p := x)) q))" if "live (p_state (P q))" for q using that alive by (cases "q = p") simp_all
  show "q < NPROC \<and> live (p_state ((P(p := x)) q))" if "r < NPROC" "p_parent ((P(p := x)) r) = Some q" for r q
  proof (cases "r = p")
    case True
    then have "p_parent x = Some q" using that by simp
    then show ?thesis using parent [of q] D(2,3) [of p q] assms(2) l [of q] by blast
  next
    case False
    then have "p_parent (P r) = Some q" using that by simp
    then show ?thesis using that(1) D(2,3) [of r q] l [of q] by blast
  qed
  show "p_pid ((P(p := x)) q) < next" if "q < NPROC" "p_state ((P(p := x)) q) \<noteq> UNUSED" for q
    using that D(4) [of q] same by (cases "q = p") simp_all
  show "q = r" if "q < NPROC" "r < NPROC" "p_state ((P(p := x)) q) \<noteq> UNUSED" "p_state ((P(p := x)) r) \<noteq> UNUSED"
    "p_pid ((P(p := x)) q) = p_pid ((P(p := x)) r)" for q r
    using that D(5) [of q r] same by (cases "q = p"; cases "r = p") simp_all
qed (rule table_wfD(6) [OF wf])

text \<open>A process that nobody has as parent becomes a zombie, or its slot is freed.\<close>

lemma table_wf_dead:
  assumes wf: "table_wf P next" and "p < NPROC" "slot_wf x" "p_parent x = None \<or> p_parent x = p_parent (P p)"
    and orphan: "\<And>q. q < NPROC \<Longrightarrow> p_parent (P q) \<noteq> Some p"
    and pid: "p_state x \<noteq> UNUSED \<Longrightarrow> p_state (P p) \<noteq> UNUSED \<and> p_pid x = p_pid (P p)"
  shows "table_wf (P(p := x)) next"
proof (rule table_wfI)
  note D = table_wfD [OF wf]
  show "slot_wf ((P(p := x)) q)" if "q < NPROC" for q using that D(1) assms(3) by simp
  show "q < NPROC \<and> live (p_state ((P(p := x)) q))" if "r < NPROC" "p_parent ((P(p := x)) r) = Some q" for r q
  proof -
    have "p_parent (P r) = Some q" using that assms(4) by (cases "r = p") auto
    then show ?thesis using that(1) orphan [of r] D(2,3) [of r q] by auto
  qed
  show "p_pid ((P(p := x)) q) < next" if "q < NPROC" "p_state ((P(p := x)) q) \<noteq> UNUSED" for q
    using that D(4) [of q] pid by (cases "q = p") simp_all
  show "q = r" if "q < NPROC" "r < NPROC" "p_state ((P(p := x)) q) \<noteq> UNUSED" "p_state ((P(p := x)) r) \<noteq> UNUSED"
    "p_pid ((P(p := x)) q) = p_pid ((P(p := x)) r)" for q r
    using that D(5) [of q r] pid by (cases "q = p"; cases "r = p") simp_all
qed (rule table_wfD(6) [OF wf])

text \<open>A clean slot becomes a live process with a new id.\<close>

lemma table_wf_new:
  assumes wf: "table_wf P next" and "p < NPROC" "slot_wf x" "live (p_state x)" "p_parent x = None"
    and clean: "p_state (P p) = UNUSED" and "p_pid x = next" "unat next + 1 < 2 ^ 32"
  shows "table_wf (P(p := x)) (next + 1)"
proof (rule table_wfI)
  note D = table_wfD [OF wf]
  have nx: "unat (next + 1) = unat next + 1" using assms(8) unat_add_nowrap [of "next" 1] by simp
  have lt: "a < next + 1" if "a \<le> next" for a using that nx by (simp add: word_less_nat_alt word_le_nat_alt)
  show "slot_wf ((P(p := x)) q)" if "q < NPROC" for q using that D(1) assms(3) by simp
  show "q < NPROC \<and> live (p_state ((P(p := x)) q))" if "r < NPROC" "p_parent ((P(p := x)) r) = Some q" for r q
    using that D(2,3) [of r q] assms(4,5) by (cases "r = p") auto
  show "p_pid ((P(p := x)) q) < next + 1" if "q < NPROC" "p_state ((P(p := x)) q) \<noteq> UNUSED" for q
    using that D(4) [of q] assms(7) lt by (cases "q = p") (auto intro: less_imp_le)
  show "q = r" if "q < NPROC" "r < NPROC" "p_state ((P(p := x)) q) \<noteq> UNUSED" "p_state ((P(p := x)) r) \<noteq> UNUSED"
    "p_pid ((P(p := x)) q) = p_pid ((P(p := x)) r)" for q r
    using that D(5) [of q r] D(4) [of q] D(4) [of r] assms(7) by (cases "q = p"; cases "r = p") auto
  show "next + 1 \<noteq> 0" using nx by (metis add_is_0 one_neq_zero unat_0)
qed

section \<open>Wake-ups\<close>

definition wakes :: "(nat \<Rightarrow> proc) \<Rightarrow> (nat \<Rightarrow> proc) \<Rightarrow> bool" where
  "wakes P Q \<longleftrightarrow> (\<forall>p. Q p = P p \<or> p_state (P p) = SLEEPING \<and> Q p = (P p)\<lparr>p_state := RUNNABLE\<rparr>)"

lemma wakes_refl [simp]: "wakes P P"
  by (simp add: wakes_def)

lemma wakes_trans: "wakes P Q \<Longrightarrow> wakes Q R \<Longrightarrow> wakes P R"
  unfolding wakes_def by (metis proc.select_convs(1) proc.surjective proc.update_convs(1) procstate.distinct)

lemma wakes_fields:
  assumes "wakes P Q"
  shows "p_pid (Q p) = p_pid (P p)" "p_parent (Q p) = p_parent (P p)" "live (p_state (Q p)) = live (p_state (P p))"
    "p_state (Q p) = UNUSED \<longleftrightarrow> p_state (P p) = UNUSED" "slot_wf (Q p) = slot_wf (P p)"
    "p_ofile (Q p) = p_ofile (P p)" "p_cwd (Q p) = p_cwd (P p)" "p_state (P p) \<noteq> SLEEPING \<Longrightarrow> Q p = P p"
proof -
  consider "Q p = P p" | "p_state (P p) = SLEEPING" "Q p = (P p)\<lparr>p_state := RUNNABLE\<rparr>"
    using assms unfolding wakes_def by blast
  then have "p_pid (Q p) = p_pid (P p) \<and> p_parent (Q p) = p_parent (P p) \<and>
    live (p_state (Q p)) = live (p_state (P p)) \<and> (p_state (Q p) = UNUSED \<longleftrightarrow> p_state (P p) = UNUSED) \<and>
    slot_wf (Q p) = slot_wf (P p) \<and> p_ofile (Q p) = p_ofile (P p) \<and> p_cwd (Q p) = p_cwd (P p) \<and>
    (p_state (P p) \<noteq> SLEEPING \<longrightarrow> Q p = P p)"
    by cases (simp_all add: slot_wf_def live_def)
  then show "p_pid (Q p) = p_pid (P p)" "p_parent (Q p) = p_parent (P p)" "live (p_state (Q p)) = live (p_state (P p))"
    "p_state (Q p) = UNUSED \<longleftrightarrow> p_state (P p) = UNUSED" "slot_wf (Q p) = slot_wf (P p)"
    "p_ofile (Q p) = p_ofile (P p)" "p_cwd (Q p) = p_cwd (P p)" "p_state (P p) \<noteq> SLEEPING \<Longrightarrow> Q p = P p"
    by blast+
qed

lemma wakes_wf:
  assumes "wakes P Q" "table_wf P next"
  shows "table_wf Q next"
  using assms(2) unfolding table_wf_def wakes_fields [OF assms(1)] .

lemma wlp_for_each:
  "(\<And>k s. k < n \<Longrightarrow> I k s \<Longrightarrow> wlp (f k) (\<lambda>_. I (Suc k)) s) \<Longrightarrow> I 0 s \<Longrightarrow> wlp (for_each [0..<n] f) (\<lambda>_. I n) s"
proof -
  assume step: "\<And>k s. k < n \<Longrightarrow> I k s \<Longrightarrow> wlp (f k) (\<lambda>_. I (Suc k)) s" and "I 0 s"
  have "wlp (for_each [k..<n] f) (\<lambda>_. I n) s" if "k \<le> n" "I k s" for k s
    using that
  proof (induction "n - k" arbitrary: k s)
    case 0
    then show ?case by (simp add: wlp_simps)
  next
    case (Suc m)
    then have k: "k < n" by simp
    have "wlp (f k) (\<lambda>_. wlp (for_each [Suc k..<n] f) (\<lambda>_. I n)) s"
      by (rule wlp_mono [OF step [OF k Suc.prems(2)]]) (use Suc k in simp)
    then show ?case using k by (simp add: upt_conv_Cons wlp_simps)
  qed
  from this [of 0 s] \<open>I 0 s\<close> show ?thesis by simp
qed

lemma wlp_wakeup: "wlp (wakeup_chan ch) (\<lambda>_ t. wakes (procs s) (procs t) \<and> rest t = rest s) s"
  unfolding wakeup_chan_def
proof (rule wlp_for_each)
  fix k and u :: "'a file_st_scheme" assume u: "wakes (procs s) (procs u) \<and> rest u = rest s"
  show "wlp (bnd get (\<lambda>s. if k \<noteq> curproc s \<and> p_state (procs s k) = SLEEPING \<and> p_chan (procs s k) = ch
     then upd_proc k (\<lambda>x. x\<lparr>p_state := RUNNABLE\<rparr>) else skip)) (\<lambda>_ t. wakes (procs s) (procs t) \<and> rest t = rest s) u"
  proof (cases "k \<noteq> curproc u \<and> p_state (procs u k) = SLEEPING \<and> p_chan (procs u k) = ch")
    case True
    have "wlp (upd_proc k (\<lambda>x. x\<lparr>p_state := RUNNABLE\<rparr>)) (\<lambda>_ t. wakes (procs s) (procs t) \<and> rest t = rest s) u"
    proof (rule wlp_upd_proc)
      fix t assume t: "procs t = (procs u)(k := (procs u k)\<lparr>p_state := RUNNABLE\<rparr>)" "rest t = rest u"
      have "wakes (procs u) (procs t)" using t(1) True by (simp add: wakes_def)
      with u t(2) show "wakes (procs s) (procs t) \<and> rest t = rest s" by (auto intro: wakes_trans)
    qed
    then show ?thesis using True by (simp add: wlp_simps)
  next
    case False
    then show ?thesis using u by (auto simp: wlp_simps)
  qed
qed simp

section \<open>Closing files\<close>

definition core :: "'z file_st_scheme \<Rightarrow> 32 word \<times> nat option \<times> nat" where
  "core s = (nextpid s, initproc s, curproc s)"

lemma core_rest: "rest t = rest s \<Longrightarrow> core t = core s"
  by (simp add: rest_def core_def)

definition quiet :: "'z file_st_scheme \<Rightarrow> 'z file_st_scheme \<Rightarrow> bool" where
  "quiet s t \<longleftrightarrow> wakes (procs s) (procs t) \<and> core t = core s"

lemma quiet_refl: "quiet s s"
  by (simp add: quiet_def)

lemma quiet_trans: "quiet s t \<Longrightarrow> quiet t u \<Longrightarrow> quiet s u"
  unfolding quiet_def by (auto intro: wakes_trans)

lemma quiet_tab: "tab t = tab s \<Longrightarrow> quiet s t"
  by (auto simp: quiet_def tab_def intro: core_rest)

lemma keeps_quiet_stable: "stable tab m \<Longrightarrow> keeps quiet m"
  by (auto simp: stable_def keeps_def intro: quiet_tab)

lemma transp_quiet [keeps_intros]: "transp quiet"
  by (auto intro: transpI quiet_trans)

lemma reflp_quiet [keeps_intros]: "reflp quiet"
  by (auto intro: reflpI quiet_refl)

lemma keeps_wakeup [keeps_intros]: "keeps quiet (wakeup_chan ch)"
  unfolding keeps_def quiet_def using wlpD [OF wlp_wakeup] core_rest by blast

lemma keeps_upd_file [keeps_intros]: "keeps quiet (upd_file f g)" "keeps quiet (upd_pipe pi h)"
  unfolding upd_file_def upd_pipe_def by (auto intro!: keeps_modify simp: quiet_def core_def)

lemma keeps_pipeclose [keeps_intros]: "keeps quiet (pipeclose pi w)"
  unfolding pipeclose_def
  by (intro keeps_bnd [OF transp_quiet] keeps_get_bnd keeps_intros keeps_quiet_stable [OF tf.stable_kalloc(2)])

lemma keeps_fs [keeps_intros]: "keeps quiet begin_op" "keeps quiet end_op" "keeps quiet (iput ip)"
  by (intro keeps_quiet_stable stable_intros)+

lemma keeps_fileclose [keeps_intros]: "keeps quiet (fileclose f)"
  unfolding fileclose_def Let_def
  by (auto intro!: keeps_bnd [OF transp_quiet] keeps_get_bnd keeps_intros split: fdtype.split)

lemma keeps_filedup [keeps_intros]: "keeps quiet (filedup f)"
  unfolding filedup_def by (auto intro!: keeps_bnd [OF transp_quiet] keeps_get_bnd keeps_intros)

section \<open>The invariant\<close>

definition pinv :: "'z file_st_scheme \<Rightarrow> bool" where
  "pinv s \<longleftrightarrow> table_wf (procs s) (nextpid s) \<and>
     (case initproc s of None \<Rightarrow> False | Some i \<Rightarrow> i < NPROC \<and> live (p_state (procs s i))) \<and> curproc s < NPROC"

lemma pinv_quiet: "quiet s t \<Longrightarrow> pinv s \<Longrightarrow> pinv t"
  unfolding pinv_def quiet_def core_def by (auto simp: wakes_fields(3) [of "procs s" "procs t"] wakes_wf split: option.splits)

lemma pinv_upd:
  assumes inv: "pinv s" and p: "p < NPROC" "live (p_state (procs s p))" "live (p_state x)"
    and same: "p_pid x = p_pid (procs s p)" "p_trapframe x = p_trapframe (procs s p)" "p_pagetable x \<noteq> 0"
    and parent: "p_parent x = p_parent (procs s p) \<or> (\<exists>q. p_parent x = Some q \<and> q < NPROC \<and> live (p_state (procs s q)))"
    and t: "procs t = (procs s)(p := x)" "core t = core s"
  shows "pinv t"
proof -
  note D = table_wfD [of "procs s" "nextpid s"]
  have wf: "table_wf (procs s) (nextpid s)" using inv by (simp add: pinv_def)
  have x: "slot_wf x" using D(1) [OF wf p(1)] p(2,3) same by (auto simp: slot_wf_def live_def)
  have "table_wf ((procs s)(p := x)) (nextpid s)"
  proof (rule table_wf_upd [OF wf p(1) x])
    show "p_parent (procs s p) = Some q \<or> q < NPROC \<and> live (p_state (((procs s)(p := x)) q))"
      if "p_parent x = Some q" for q using parent that p(3) by auto
  qed (use p same in \<open>auto simp: live_def\<close>)
  then show ?thesis using inv t p(3) by (auto simp: pinv_def core_def split: option.splits)
qed

text \<open>A process that exits: what it has given up so far.\<close>

definition exiting :: "nat \<Rightarrow> nat \<Rightarrow> bool \<Rightarrow> nat \<Rightarrow> 'z file_st_scheme \<Rightarrow> bool" where
  "exiting p n c k s \<longleftrightarrow> pinv s \<and> p < NPROC \<and> p_state (procs s p) = RUNNING \<and> initproc s \<noteq> Some p \<and>
     (\<forall>fd<n. p_ofile (procs s p) fd = None) \<and> (c \<longrightarrow> p_cwd (procs s p) = None) \<and>
     (\<forall>q<k. p_parent (procs s q) \<noteq> Some p)"

lemma exiting_quiet:
  assumes "quiet s t" "exiting p n c k s"
  shows "exiting p n c k t"
proof -
  have w: "wakes (procs s) (procs t)" "core t = core s" using assms(1) by (simp_all add: quiet_def)
  have "procs t p = procs s p" using assms(2) by (intro wakes_fields(8) [OF w(1)]) (simp add: exiting_def)
  then show ?thesis using assms pinv_quiet [OF assms(1)] w(2) wakes_fields(2) [OF w(1)]
    by (simp add: exiting_def core_def)
qed

lemma exiting_upd:
  assumes "exiting p n c k s" "p_state x = RUNNING" "p_pid x = p_pid (procs s p)" "p_trapframe x = p_trapframe (procs s p)"
    "p_pagetable x = p_pagetable (procs s p)" "p_parent x = p_parent (procs s p)"
    and "\<forall>fd<n'. p_ofile x fd = None" "c' \<longrightarrow> p_cwd x = None"
    and t: "procs t = (procs s)(p := x)" "rest t = rest s"
  shows "exiting p n' c' k t"
proof -
  have s: "pinv s" "p < NPROC" "p_state (procs s p) = RUNNING" "initproc s \<noteq> Some p"
    "\<forall>q<k. p_parent (procs s q) \<noteq> Some p" using assms(1) by (simp_all add: exiting_def)
  have "slot_wf (procs s p)" using s(1,2) table_wfD(1) by (auto simp: pinv_def)
  then have "p_pagetable (procs s p) \<noteq> 0" using s(3) by (simp add: slot_wf_def)
  then have "pinv t" using s assms core_rest [OF t(2)]
    by (intro pinv_upd [of s p x t]) (simp_all add: live_def)
  then show ?thesis using s assms by (simp add: exiting_def rest_def)
qed

lemma wlp_exit_file:
  assumes "exiting p k False 0 s" "k < NOFILE"
  shows "wlp (exit_file p k) (\<lambda>_. exiting p (Suc k) False 0) s"
proof (cases "p_ofile (procs s p) k")
  case None
  then show ?thesis using assms by (auto simp: exit_file_def wlp_simps exiting_def less_Suc_eq)
next
  case (Some f)
  have "wlp (fileclose f) (\<lambda>_. wlp (upd_proc p (\<lambda>x. x\<lparr>p_ofile := (p_ofile x)(k := None)\<rparr>))
      (\<lambda>_. exiting p (Suc k) False 0)) s"
  proof (rule wlp_keeps [OF keeps_fileclose], rule wlp_upd_proc)
    fix t u assume "quiet s t" and u: "procs u = (procs t)(p := (procs t p)\<lparr>p_ofile := (p_ofile (procs t p))(k := None)\<rparr>)"
      "rest u = rest t"
    then have t: "exiting p k False 0 t" using assms(1) exiting_quiet by blast
    show "exiting p (Suc k) False 0 u"
      by (rule exiting_upd [OF t _ _ _ _ _ _ _ u]) (use t in \<open>auto simp: exiting_def less_Suc_eq\<close>)
  qed
  then show ?thesis using Some by (simp add: exit_file_def wlp_simps)
qed

lemma wlp_reparent:
  assumes "exiting p n c 0 s"
  shows "wlp (reparent p) (\<lambda>_. exiting p n c NPROC) s"
  unfolding reparent_def
proof (rule wlp_for_each)
  fix k and s :: "'a file_st_scheme" assume s: "exiting p n c k s" and k: "k < NPROC"
  let ?b = "\<lambda>pp. bnd get (\<lambda>s. if p_parent (procs s pp) = Some p
     then bnd (upd_proc pp (\<lambda>x. x\<lparr>p_parent := initproc s\<rparr>)) (\<lambda>_. wakeup_chan (proc_chan (initproc s))) else skip)"
  show "wlp (?b k) (\<lambda>_. exiting p n c (Suc k)) s"
  proof (cases "p_parent (procs s k) = Some p")
    case False
    then show ?thesis using s by (auto simp: wlp_simps exiting_def less_Suc_eq)
  next
    case True
    have inv: "pinv s" "p < NPROC" "p_state (procs s p) = RUNNING" "initproc s \<noteq> Some p"
      using s by (simp_all add: exiting_def)
    obtain i where i: "initproc s = Some i" "i < NPROC" "live (p_state (procs s i))"
      using inv(1) by (auto simp: pinv_def split: option.splits)
    have sl: "slot_wf (procs s k)" using inv(1) k table_wfD(1) by (auto simp: pinv_def)
    have "wlp (upd_proc k (\<lambda>x. x\<lparr>p_parent := initproc s\<rparr>)) (\<lambda>_. exiting p n c (Suc k)) s"
    proof (rule wlp_upd_proc)
      fix t assume t: "procs t = (procs s)(k := (procs s k)\<lparr>p_parent := initproc s\<rparr>)" "rest t = rest s"
      have used: "p_state (procs s k) \<noteq> UNUSED" using sl True by (auto simp: slot_wf_def split: if_splits)
      have wf: "table_wf (procs s) (nextpid s)" using inv(1) by (simp add: pinv_def)
      have "table_wf (procs t) (nextpid s)" unfolding t(1)
        by (rule table_wf_upd [OF wf k]) (use sl used i in \<open>auto simp: slot_wf_def live_def\<close>)
      then have "pinv t" using inv(1) t i by (auto simp: pinv_def rest_def)
      then show "exiting p n c (Suc k) t" using s t i inv(4) by (auto simp: exiting_def less_Suc_eq rest_def)
    qed
    then have "wlp (upd_proc k (\<lambda>x. x\<lparr>p_parent := initproc s\<rparr>)) (\<lambda>_. wlp (wakeup_chan (proc_chan (initproc s)))
        (\<lambda>_. exiting p n c (Suc k))) s"
      by (rule wlp_mono) (rule wlp_keeps [OF keeps_wakeup], rule exiting_quiet)
    then show ?thesis using True by (simp add: wlp_simps)
  qed
qed (rule assms)

lemma wlp_kexit:
  assumes "pinv s" "p_state (procs s (curproc s)) = RUNNING"
  shows "wlp (kexit status) (\<lambda>_. pinv) s"
proof (cases "initproc s = Some (curproc s)")
  case True
  then show ?thesis by (simp add: kexit_def wlp_simps)
next
  case False
  define p where "p = curproc s"
  have s: "exiting p 0 False 0 s" using assms False by (simp add: exiting_def pinv_def p_def)
  have last: "wlp (upd_proc p (\<lambda>x. x\<lparr>p_xstate := status, p_state := ZOMBIE\<rparr>)) (\<lambda>_. pinv) t"
    if t: "exiting p NOFILE True NPROC t" for t
  proof (rule wlp_upd_proc)
    fix u assume u: "procs u = (procs t)(p := (procs t p)\<lparr>p_xstate := status, p_state := ZOMBIE\<rparr>)" "rest u = rest t"
    have p: "pinv t" "p < NPROC" "p_state (procs t p) = RUNNING" "initproc t \<noteq> Some p"
      "\<forall>fd<NOFILE. p_ofile (procs t p) fd = None" "p_cwd (procs t p) = None" "\<forall>q<NPROC. p_parent (procs t q) \<noteq> Some p"
      using t unfolding exiting_def by simp_all
    have wf: "table_wf (procs t) (nextpid t)" using p(1) by (simp add: pinv_def)
    have sl: "slot_wf (procs t p)" using table_wfD(1) [OF wf p(2)] .
    have "table_wf (procs u) (nextpid t)" unfolding u(1)
      by (rule table_wf_dead [OF wf p(2)]) (use sl p in \<open>auto simp: slot_wf_def live_def\<close>)
    then show "pinv u" using p u by (auto simp: pinv_def rest_def split: option.splits)
  qed
  have files: "wlp (for_each [0..<NOFILE] (exit_file p)) (\<lambda>_. exiting p NOFILE False 0) s"
    by (rule wlp_for_each [where I = "\<lambda>k. exiting p k False 0", OF wlp_exit_file s])
  have cwd: "exiting p NOFILE True 0 u"
    if t: "exiting p NOFILE False 0 t" and u: "procs u = (procs t)(p := (procs t p)\<lparr>p_cwd := None\<rparr>)" "rest u = rest t"
    for t u :: "'a file_st_scheme"
    by (rule exiting_upd [OF t _ _ _ _ _ _ _ u]) (use t in \<open>auto simp: exiting_def\<close>)
  have iput: "keeps quiet (case p_cwd x of None \<Rightarrow> stop_with OutOfBounds | Some ip \<Rightarrow> iput ip)" for x
    by (intro keeps_intros)
  show ?thesis
    unfolding kexit_def Let_def
    apply (rule wlp_get_over, subst if_not_P [OF False], unfold p_def [symmetric])
    apply (rule wlp_over_mono [OF files])
    apply (rule wlp_keeps_over [OF keeps_fs(1)], drule (1) exiting_quiet)
    apply (rule wlp_get_over, rule wlp_keeps_over [OF iput], drule (1) exiting_quiet)
    apply (rule wlp_keeps_over [OF keeps_fs(2)], drule (1) exiting_quiet)
    apply (rule wlp_upd_proc_over, drule (2) cwd)
    apply (rule wlp_over_mono [OF wlp_reparent], assumption)
    apply (rule wlp_get_over, rule wlp_keeps_over [OF keeps_wakeup], drule (1) exiting_quiet)
    apply (erule last)
    done
qed

section \<open>Creating and reaping processes\<close>

lemma find_unused_Some: "find_unused ps P = Some p \<Longrightarrow> p \<in> set ps \<and> p_state (P p) = UNUSED"
  by (induction ps) (auto split: if_splits)

lemma table_wf_next:
  assumes "table_wf P next" "unat next + 1 < 2 ^ 32"
  shows "table_wf P (next + 1)"
proof -
  have nx: "unat (next + 1) = unat next + 1" using assms(2) unat_add_nowrap [of "next" 1] by simp
  have "next < next + 1" using nx by (simp add: word_less_nat_alt)
  moreover have "next + 1 \<noteq> 0" using nx by (metis add_is_0 one_neq_zero unat_0)
  ultimately show ?thesis using assms(1) unfolding table_wf_def by (meson order_less_trans)
qed

text \<open>Outcome of \<^verbatim>\<open>allocproc\<close>: a fresh slot, or nothing but a clean slot cleaned again.\<close>

definition fresh_slot :: "proc \<Rightarrow> bool" where
  "fresh_slot x \<longleftrightarrow> p_state x = USED \<and> p_parent x = None \<and> p_cwd x = None \<and> (\<forall>fd<NOFILE. p_ofile x fd = None)"

definition same_files :: "'z file_st_scheme \<Rightarrow> 'z file_st_scheme \<Rightarrow> bool" where
  "same_files s t \<longleftrightarrow> (\<forall>p. p_ofile (procs t p) = p_ofile (procs s p)) \<and> ftable t = ftable s \<and> pipes t = pipes s \<and>
     initproc t = initproc s \<and> curproc t = curproc s"

definition allocated :: "'z file_st_scheme \<Rightarrow> nat option \<Rightarrow> 'z file_st_scheme \<Rightarrow> bool" where
  "allocated s r t \<longleftrightarrow> pinv t \<and> same_files s t \<and> nextpid t = nextpid s + (if find_unused [0..<NPROC] (procs s) = None then 0 else 1) \<and>
     (case r of
        None \<Rightarrow> (\<forall>q. live (p_state (procs s q)) \<longrightarrow> procs t q = procs s q)
      | Some np \<Rightarrow> np < NPROC \<and> p_state (procs s np) = UNUSED \<and> fresh_slot (procs t np) \<and>
          (\<forall>q. q \<noteq> np \<longrightarrow> procs t q = procs s q))"

lemma allocated_Some:
  assumes "pinv s" "unat (nextpid s) + 1 < 2 ^ 32" "find_unused [0..<NPROC] (procs s) = Some p"
    and x: "slot_wf x" "fresh_slot x" "p_pid x = nextpid s" "p_ofile x = p_ofile (procs s p)"
    and t: "procs t = (procs s)(p := x)" "nextpid t = nextpid s + 1" "initproc t = initproc s" "curproc t = curproc s"
      "ftable t = ftable s" "pipes t = pipes s"
  shows "allocated s (Some p) t"
proof -
  have p: "p < NPROC" "p_state (procs s p) = UNUSED" using find_unused_Some [OF assms(3)] by auto
  have wf: "table_wf (procs s) (nextpid s)" using assms(1) by (simp add: pinv_def)
  have "table_wf (procs t) (nextpid t)" unfolding t(1,2)
    by (rule table_wf_new [OF wf p(1) x(1) _ _ p(2) x(3) assms(2)]) (use x(2) in \<open>auto simp: fresh_slot_def live_def\<close>)
  moreover have "live (p_state x)" using x(2) by (simp add: fresh_slot_def live_def)
  ultimately have "pinv t" using assms(1) t by (auto simp: pinv_def split: option.splits)
  then show ?thesis using p x t assms(3) by (simp add: allocated_def same_files_def)
qed

lemma allocated_None:
  assumes "pinv s" "unat (nextpid s) + 1 < 2 ^ 32" "find_unused [0..<NPROC] (procs s) = Some p"
    and x: "slot_wf x" "p_state x = UNUSED" "p_ofile x = p_ofile (procs s p)"
    and t: "procs t = (procs s)(p := x)" "nextpid t = nextpid s + 1" "initproc t = initproc s" "curproc t = curproc s"
      "ftable t = ftable s" "pipes t = pipes s"
  shows "allocated s None t"
proof -
  have p: "p < NPROC" "p_state (procs s p) = UNUSED" using find_unused_Some [OF assms(3)] by auto
  have wf: "table_wf (procs s) (nextpid s)" using assms(1) by (simp add: pinv_def)
  have orphan: "p_parent (procs s q) \<noteq> Some p" if "q < NPROC" for q
    using table_wfD(3) [OF wf that, of p] p(2) by (auto simp: live_def)
  have "p_parent x = None" using x(1,2) by (simp add: slot_wf_def)
  then have "table_wf (procs t) (nextpid t)" unfolding t(1,2)
    by (intro table_wf_next [OF table_wf_dead [OF wf p(1) x(1)] assms(2)]) (use orphan x(2) in auto)
  then have "pinv t" using assms(1) t p(2) by (auto simp: pinv_def live_def split: option.splits)
  then show ?thesis using p x t assms(3) by (auto simp: allocated_def same_files_def live_def)
qed

lemma rest_fields:
  assumes "rest t = rest s"
  shows "nextpid t = nextpid s" "initproc t = initproc s" "curproc t = curproc s" "ftable t = ftable s" "pipes t = pipes s"
  using assms by (simp_all add: rest_def)

lemma wlp_allocproc:
  assumes inv: "pinv s" "unat (nextpid s) + 1 < 2 ^ 32"
  shows "wlp allocproc (allocated s) s"
proof (cases "find_unused [0..<NPROC] (procs s)")
  case None
  then show ?thesis using inv by (simp add: allocproc_def wlp_simps allocated_def same_files_def)
next
  case (Some p)
  have p: "p < NPROC" "p_state (procs s p) = UNUSED" using find_unused_Some [OF Some] by auto
  have wf: "table_wf (procs s) (nextpid s)" using inv(1) by (simp add: pinv_def)
  have slot: "slot_wf (procs s p)" using table_wfD(1) [OF wf p(1)] .
  have pid: "nextpid s \<noteq> 0" using table_wfD(6) [OF wf] .
  define started where "started u \<longleftrightarrow> procs u = (procs s)(p := procs u p) \<and> rest u = rest (s\<lparr>nextpid := nextpid s + 1\<rparr>)"
    for u :: "'a file_st_scheme"
  have upd: "started v \<and> procs v p = y" if "started u" "procs v = (procs u)(p := y)" "rest v = rest u"
    for u v :: "'a file_st_scheme" and y using that unfolding started_def by (metis fun_upd_same fun_upd_upd)
  have over: "started v \<and> procs v p = procs u p" if "started u" "tab v = tab u" for u v :: "'a file_st_scheme"
    using that by (simp add: started_def tab_def)
  have fields: "procs t = (procs s)(p := procs t p)" "nextpid t = nextpid s + 1" "initproc t = initproc s"
    "curproc t = curproc s" "ftable t = ftable s" "pipes t = pipes s" if "started t" for t :: "'a file_st_scheme"
    using that by (simp_all add: started_def rest_def)
  have fail: "wlp (freeproc p) (\<lambda>_. allocated s None) u"
    if u: "started u" and x: "p_ofile (procs u p) = p_ofile (procs s p)" "p_cwd (procs u p) = p_cwd (procs s p)" for u
  proof (rule wlp_freeproc)
    fix t :: "'a file_st_scheme" assume "procs t = (procs u)(p := freed (procs u p))" "rest t = rest u"
    from upd [OF u this] have t: "started t" "procs t p = freed (procs u p)" by simp_all
    show "allocated s None t"
      by (rule allocated_None [OF inv Some _ _ _ fields [OF t(1)]])
        (use x slot p(2) in \<open>simp_all add: t(2) freed_def slot_wf_def live_def\<close>)
  qed
  have ok: "allocated s (Some p) t"
    if t: "started t" and x: "p_state (procs t p) = USED" "p_pid (procs t p) = nextpid s" "p_trapframe (procs t p) \<noteq> 0"
      "p_pagetable (procs t p) \<noteq> 0" "p_ofile (procs t p) = p_ofile (procs s p)" "p_cwd (procs t p) = p_cwd (procs s p)"
      "p_parent (procs t p) = p_parent (procs s p)" for t
    by (rule allocated_Some [OF inv Some _ _ _ _ fields [OF t]])
      (use x slot p(2) pid in \<open>simp_all add: slot_wf_def live_def fresh_slot_def\<close>)
  have s0: "started (s\<lparr>nextpid := nextpid s + 1\<rparr>) \<and> procs (s\<lparr>nextpid := nextpid s + 1\<rparr>) p = procs s p"
    by (simp add: started_def)
  have pid_step: "wlp (modify (\<lambda>s. s\<lparr>nextpid := nextpid s + 1\<rparr>)) (\<lambda>_ t. started t \<and> procs t p = procs s p) s"
    unfolding wlp_basic by (rule s0)
  show ?thesis
    unfolding allocproc_def allocpid_def
    apply (rule wlp_get_over)
    apply (simp only: Some option.case bnd_assoc)
    apply (rule wlp_get_over, rule wlp_over_mono [OF pid_step], elim conjE)
    apply (subst wlp_bnd, subst wlp_basic(1))
    apply (rule wlp_upd_proc_over, drule (2) upd, elim conjE)
    apply (rule wlp_over [OF tf.stable_kalloc(1)], drule (1) over, elim conjE)
    apply (rule wlp_upd_proc_over, drule (2) upd, elim conjE)
    apply (rule wlp_cases, rule wlp_over_mono, erule fail, simp, simp, simp add: wlp_simps)
    apply (rule wlp_over [OF stable_proc_pagetable], drule (1) over, elim conjE)
    apply (rule wlp_upd_proc_over, drule (2) upd, elim conjE)
    apply (rule wlp_cases, rule wlp_over_mono, erule fail, simp, simp, simp add: wlp_simps)
    apply (rule wlp_get_over, rule wlp_upd_proc_over, drule (2) upd, elim conjE)
    apply (subst wlp_basic(1), erule ok, simp_all)
    done
qed

lemma pinv_freed:
  assumes inv: "pinv s" and p: "p < NPROC" "initproc s \<noteq> Some p" "p_cwd (procs s p) = None" "\<forall>fd<NOFILE. p_ofile (procs s p) fd = None"
    and orphan: "\<And>q. q < NPROC \<Longrightarrow> p_parent (procs s q) \<noteq> Some p"
    and t: "procs t = (procs s)(p := freed (procs s p))" "rest t = rest s"
  shows "pinv t"
proof -
  have wf: "table_wf (procs s) (nextpid s)" using inv by (simp add: pinv_def)
  have "table_wf (procs t) (nextpid s)" unfolding t(1)
    by (rule table_wf_dead [OF wf p(1)]) (use p orphan in \<open>auto simp: freed_def slot_wf_def\<close>)
  then show ?thesis using inv t p(2) by (auto simp: pinv_def rest_def split: option.splits)
qed

text \<open>A parent and its new child while \<^verbatim>\<open>kfork\<close> fills in the child.\<close>

definition forking :: "nat \<Rightarrow> nat \<Rightarrow> 'z file_st_scheme \<Rightarrow> bool" where
  "forking p np s \<longleftrightarrow> pinv s \<and> p < NPROC \<and> np < NPROC \<and> live (p_state (procs s p)) \<and> live (p_state (procs s np))"

lemma forking_quiet: "quiet s t \<Longrightarrow> forking p np s \<Longrightarrow> forking p np t"
  unfolding forking_def using pinv_quiet [of s t] by (auto simp: quiet_def wakes_fields(3) [of "procs s" "procs t"])

lemma forking_upd:
  assumes "forking p np s" "live (p_state x)" "p_pid x = p_pid (procs s np)" "p_trapframe x = p_trapframe (procs s np)"
    "p_pagetable x = p_pagetable (procs s np)" "p_parent x = p_parent (procs s np) \<or> p_parent x = Some p"
    and t: "procs t = (procs s)(np := x)" "rest t = rest s"
  shows "forking p np t"
proof -
  have s: "pinv s" "p < NPROC" "np < NPROC" "live (p_state (procs s p))" "live (p_state (procs s np))"
    using assms(1) by (simp_all add: forking_def)
  have "slot_wf (procs s np)" using s(1,3) table_wfD(1) by (auto simp: pinv_def)
  then have "p_pagetable (procs s np) \<noteq> 0" using s(5) by (auto simp: slot_wf_def live_def)
  then have "pinv t" using s assms core_rest [OF t(2)] by (intro pinv_upd [of s np x t]) auto
  then show ?thesis using s assms(2) t by (auto simp: forking_def)
qed

lemma wlp_fork_upd:
  assumes "forking p np s" "\<And>x. live (p_state x) \<Longrightarrow> live (p_state (f x))" "\<And>x. p_pid (f x) = p_pid x"
    "\<And>x. p_trapframe (f x) = p_trapframe x" "\<And>x. p_pagetable (f x) = p_pagetable x"
    "\<And>x. p_parent (f x) = p_parent x \<or> p_parent (f x) = Some p"
  shows "wlp (upd_proc np f) (\<lambda>_. forking p np) s"
proof (rule wlp_upd_proc)
  fix t assume t: "procs t = (procs s)(np := f (procs s np))" "rest t = rest s"
  show "forking p np t"
    by (rule forking_upd [OF assms(1) _ _ _ _ _ t]) (use assms in \<open>auto simp: forking_def\<close>)
qed

lemma keeps_tab [keeps_intros]: "keeps quiet (idup ip)" "keeps quiet (uvmcopy old new sz)" "keeps quiet (set_tf p off v)"
  by (intro keeps_quiet_stable stable_intros)+

lemma wlp_fork_file: "forking p np s \<Longrightarrow> wlp (fork_file p np k) (\<lambda>_. forking p np) s"
  unfolding fork_file_def
  apply (rule wlp_get_over)
  apply (cases "p_ofile (procs s p) k")
   apply (simp add: wlp_simps)
  apply (simp only: option.case)
  apply (rule wlp_keeps_over [OF keeps_filedup], drule (1) forking_quiet)
  apply (erule wlp_fork_upd; simp)
  done

lemma wlp_kfork:
  assumes inv: "pinv s" "unat (nextpid s) + 1 < 2 ^ 32" and run: "p_state (procs s (curproc s)) = RUNNING"
  shows "wlp kfork (\<lambda>_. pinv) s"
proof -
  define p where "p = curproc s"
  have p: "p < NPROC" "live (p_state (procs s p))" using inv(1) run by (simp_all add: pinv_def p_def live_def)
  have start: "forking p np t" if "allocated s (Some np) t" for np t
    using that p by (auto simp: allocated_def forking_def fresh_slot_def live_def)
  have undo: "wlp (freeproc np) (\<lambda>_. pinv) u" if a: "allocated s (Some np) t" and "quiet t u" for np t u
  proof (rule wlp_freeproc)
    fix v assume v: "procs v = (procs u)(np := freed (procs u np))" "rest v = rest u"
    have w: "wakes (procs t) (procs u)" "core u = core t" using \<open>quiet t u\<close> by (simp_all add: quiet_def)
    have t: "pinv t" "np < NPROC" "p_state (procs s np) = UNUSED" "fresh_slot (procs t np)" "\<forall>q. q \<noteq> np \<longrightarrow> procs t q = procs s q"
      "initproc t = initproc s" using a by (auto simp: allocated_def same_files_def)
    have wf: "table_wf (procs s) (nextpid s)" using inv(1) by (simp add: pinv_def)
    have orphan: "p_parent (procs u q) \<noteq> Some np" if "q < NPROC" for q
      using table_wfD(3) [OF wf that, of np] t(3-5) wakes_fields(2) [OF w(1), of q]
      by (cases "q = np") (auto simp: live_def fresh_slot_def)
    have "initproc u \<noteq> Some np" using inv(1) t(3,6) w(2) by (auto simp: pinv_def core_def live_def split: option.splits)
    then show "pinv v" using t(4) wakes_fields(6,7) [OF w(1), of np]
      by (intro pinv_freed [OF pinv_quiet [OF \<open>quiet t u\<close> t(1)] t(2) _ _ _ orphan v]) (simp_all add: fresh_slot_def)
  qed
  have files: "wlp (for_each [0..<NOFILE] (fork_file p np)) (\<lambda>_. forking p np) t" if "forking p np t" for np t
    by (rule wlp_for_each [where I = "\<lambda>_. forking p np", OF wlp_fork_file that])
  have dup: "keeps quiet (case p_cwd x of None \<Rightarrow> stop_with OutOfBounds | Some ip \<Rightarrow> idup ip)" for x
    by (intro keeps_intros)
  have bytes: "keeps quiet (modify (\<lambda>s :: 'a file_st_scheme. s\<lparr>mem := store_bytes (mem s) (f s) (g s) 288\<rparr>))" for f g
    by (intro keeps_modify quiet_tab) (simp add: tf.fields)
  show ?thesis
    unfolding kfork_def Let_def
    apply (rule wlp_get_over, unfold p_def [symmetric])
    apply (rule wlp_over_mono [OF wlp_allocproc [OF inv]])
    subgoal for r t
      apply (cases r)
       apply (simp add: wlp_simps allocated_def)
      apply (simp only: option.case)
      apply (rule wlp_get_over, rule wlp_keeps_over [OF keeps_tab(2)])
      apply (rule wlp_cases, rule wlp_over_mono, erule (1) undo, simp add: wlp_simps)
      apply (frule start, drule (1) forking_quiet)
      apply (rule wlp_over_mono, erule wlp_fork_upd; (simp; fail)?)
      apply (rule wlp_keeps_over [OF bytes], drule (1) forking_quiet)
      apply (rule wlp_keeps_over [OF keeps_tab(3)], drule (1) forking_quiet)
      apply (rule wlp_over_mono [OF files], assumption)
      apply (rule wlp_get_over, rule wlp_keeps_over [OF dup], drule (1) forking_quiet)
      apply (rule wlp_over_mono, erule wlp_fork_upd; (simp; fail)?)
      apply (unfold set_name_def, rule wlp_over_mono, erule wlp_fork_upd; (simp; fail)?)
      apply (rule wlp_over_mono, erule wlp_fork_upd; (simp; fail)?)
      apply (rule wlp_over_mono, erule wlp_fork_upd; (simp add: live_def; fail)?)
      apply (simp add: wlp_simps forking_def)
      done
    done
qed

lemma wlp_kwait_scan: "pinv s \<Longrightarrow> set ps \<subseteq> {..<NPROC} \<Longrightarrow> wlp (kwait_scan ps havekids addr) (\<lambda>_. pinv) s"
proof (induction ps arbitrary: havekids)
  case Nil
  then show ?case by (simp add: killed_def wlp_simps)
next
  case (Cons pp ps)
  have IH: "wlp (kwait_scan ps k addr) (\<lambda>_. pinv) s" for k using Cons by simp
  have reap: "wlp (freeproc pp) (\<lambda>_. pinv) t" if z: "p_state (procs s pp) = ZOMBIE" and t: "tab t = tab s"
    for t :: "'a file_st_scheme"
  proof (rule wlp_freeproc)
    fix u :: "'a file_st_scheme" assume u: "procs u = (procs t)(pp := freed (procs t pp))" "rest u = rest t"
    have "quiet s t" using t by (rule quiet_tab)
    then have inv: "pinv t" using Cons.prems(1) by (rule pinv_quiet)
    have pp: "pp < NPROC" "p_state (procs t pp) = ZOMBIE" using Cons.prems(2) z t by (auto simp: tab_def)
    have wf: "table_wf (procs t) (nextpid t)" using inv by (simp add: pinv_def)
    have orphan: "p_parent (procs t q) \<noteq> Some pp" if "q < NPROC" for q
      using table_wfD(3) [OF wf that, of pp] pp(2) by (auto simp: live_def)
    have "initproc t \<noteq> Some pp" using inv pp(2) by (auto simp: pinv_def live_def split: option.splits)
    then show "pinv u" using table_wfD(1) [OF wf pp(1)] pp(2)
      by (intro pinv_freed [OF inv pp(1) _ _ _ orphan u]) (auto simp: slot_wf_def live_def)
  qed
  show ?case
    apply (simp only: kwait_scan.simps Let_def)
    apply (rule wlp_get_over)
    apply (rule wlp_cases [OF wlp_cases IH])
     apply (rule wlp_over [where m = "if addr \<noteq> 0 then _ else _"], intro stable_intros)
     apply (rule wlp_cases)
      apply (simp add: wlp_simps pinv_quiet [OF quiet_tab Cons.prems(1)])
     apply (rule wlp_over_mono [OF reap], assumption, assumption, simp add: wlp_simps)
    apply (rule IH)
    done
qed

text \<open>
  Steps of the table between processes: the running process sleeps or yields, another one is woken
  or dispatched, and it calls \<^verbatim>\<open>kfork\<close>, \<^verbatim>\<open>kexit\<close>, \<^verbatim>\<open>kwait\<close>, \<^verbatim>\<open>kkill\<close> or \<^verbatim>\<open>growproc\<close>.
\<close>

definition sleep_on :: "chan \<Rightarrow> ('z proc_st_scheme, unit) km" where
  "sleep_on ch = bnd get (\<lambda>s. upd_proc (curproc s) (\<lambda>x. x\<lparr>p_chan := ch, p_state := SLEEPING\<rparr>))"

definition give_up :: "('z proc_st_scheme, unit) km" where
  "give_up = bnd get (\<lambda>s. upd_proc (curproc s) (\<lambda>x. x\<lparr>p_state := RUNNABLE\<rparr>))"

definition run_next :: "nat \<Rightarrow> ('z proc_st_scheme, unit) km" where
  "run_next p = modify (\<lambda>s. sync (s\<lparr>curproc := p, procs := (procs s)(p := (procs s p)\<lparr>p_state := RUNNING\<rparr>)\<rparr>))"

inductive proc_step :: "'z file_st_scheme \<Rightarrow> 'z file_st_scheme \<Rightarrow> bool" where
  fork: "p_state (procs s (curproc s)) = RUNNING \<Longrightarrow> unat (nextpid s) + 1 < 2 ^ 32 \<Longrightarrow> kfork s = Inr (r, t) \<Longrightarrow> proc_step s t"
| exit: "p_state (procs s (curproc s)) = RUNNING \<Longrightarrow> kexit status s = Inr (u, t) \<Longrightarrow> proc_step s t"
| wait: "p_state (procs s (curproc s)) = RUNNING \<Longrightarrow> kwait addr s = Inr (r, t) \<Longrightarrow> proc_step s t"
| kill: "p_state (procs s (curproc s)) = RUNNING \<Longrightarrow> kkill pid s = Inr (r, t) \<Longrightarrow> pid \<noteq> 0 \<Longrightarrow> proc_step s t"
| grow: "p_state (procs s (curproc s)) = RUNNING \<Longrightarrow> growproc n s = Inr (r, t) \<Longrightarrow> proc_step s t"
| sleep: "p_state (procs s (curproc s)) = RUNNING \<Longrightarrow> sleep_on ch s = Inr (u, t) \<Longrightarrow> proc_step s t"
| yield: "p_state (procs s (curproc s)) = RUNNING \<Longrightarrow> give_up s = Inr (u, t) \<Longrightarrow> proc_step s t"
| wakeup: "wakeup_chan ch s = Inr (u, t) \<Longrightarrow> proc_step s t"
| dispatch: "p < NPROC \<Longrightarrow> p_state (procs s p) = RUNNABLE \<Longrightarrow> p_state (procs s (curproc s)) \<noteq> RUNNING \<Longrightarrow>
    run_next p s = Inr (u, t) \<Longrightarrow> proc_step s t"

lemma wlp_live_upd:
  assumes "pinv s" "p < NPROC" "live (p_state (procs s p))" "\<And>x. live (p_state x) \<Longrightarrow> live (p_state (f x))"
    "\<And>x. p_pid (f x) = p_pid x" "\<And>x. p_trapframe (f x) = p_trapframe x" "\<And>x. p_pagetable (f x) = p_pagetable x"
    "\<And>x. p_parent (f x) = p_parent x"
  shows "wlp (upd_proc p f) (\<lambda>_ t. pinv t \<and> rest t = rest s \<and> live (p_state (procs t p))) s"
proof (rule wlp_upd_proc)
  fix t assume t: "procs t = (procs s)(p := f (procs s p))" "rest t = rest s"
  have "slot_wf (procs s p)" using assms(1,2) table_wfD(1) by (auto simp: pinv_def)
  then have "p_pagetable (procs s p) \<noteq> 0" using assms(3) by (auto simp: slot_wf_def live_def)
  then have "pinv t" using assms core_rest [OF t(2)] by (intro pinv_upd [OF assms(1,2,3), of "f (procs s p)" t]) (auto simp: t)
  then show "pinv t \<and> rest t = rest s \<and> live (p_state (procs t p))" using t assms by simp
qed

lemma used_slot: "pinv s \<Longrightarrow> p < NPROC \<Longrightarrow> p_pid (procs s p) \<noteq> 0 \<Longrightarrow> p_state (procs s p) \<noteq> UNUSED"
  by (auto simp: pinv_def slot_wf_def dest: table_wfD(1) split: if_splits)

lemma wlp_kkill_scan:
  assumes "pinv s" "set ps \<subseteq> {..<NPROC}" "pid \<noteq> 0"
  shows "wlp (kkill_scan ps pid) (\<lambda>_. pinv) s"
  using assms(2)
proof (induction ps)
  case Nil
  then show ?case using assms(1) by (simp add: wlp_simps)
next
  case (Cons p ps)
  show ?case
  proof (cases "p_pid (procs s p) = pid")
    case False
    then show ?thesis using Cons by (simp add: wlp_simps)
  next
    case True
    let ?k = "(procs s p)\<lparr>p_killed := True\<rparr>" and ?r = "(procs s p)\<lparr>p_killed := True, p_state := RUNNABLE\<rparr>"
    have p: "p < NPROC" "p_state (procs s p) \<noteq> UNUSED" using Cons.prems True used_slot [OF assms(1)] assms(3) by auto
    have wf: "table_wf (procs s) (nextpid s)" using assms(1) by (simp add: pinv_def)
    have sl: "slot_wf (procs s p)" using table_wfD(1) [OF wf p(1)] .
    have one: "pinv t" if "procs t = (procs s)(p := x)" "rest t = rest s" "slot_wf x" "p_state x \<noteq> UNUSED" "p_pid x = p_pid (procs s p)"
      "p_parent x = p_parent (procs s p)" "live (p_state x) = live (p_state (procs s p))" for t x
    proof -
      have "table_wf (procs t) (nextpid s)" unfolding that(1)
        by (rule table_wf_upd [OF wf p(1)]) (use that p in auto)
      then show ?thesis using assms(1) that by (auto simp: pinv_def rest_def split: option.splits)
    qed
    have killed: "slot_wf ?k" using sl p by (simp add: slot_wf_def)
    show ?thesis
    proof (cases "p_state (procs s p) = SLEEPING")
      case False
      have "wlp (upd_proc p (\<lambda>x. x\<lparr>p_killed := True\<rparr>)) (\<lambda>_. pinv) s"
        by (rule wlp_upd_proc, rule one [of _ ?k]) (use killed p in auto)
      then show ?thesis using True False by (simp add: wlp_simps) (elim wlp_mono, simp add: wlp_simps)
    next
      case True
      have "wlp (upd_proc p (\<lambda>x. x\<lparr>p_killed := True\<rparr>)) (\<lambda>_. wlp (upd_proc p (\<lambda>x. x\<lparr>p_state := RUNNABLE\<rparr>)) (\<lambda>_. pinv)) s"
        by (rule wlp_upd_proc, rule wlp_upd_proc, rule one [of _ ?r]) (use killed p True in \<open>auto simp: slot_wf_def live_def\<close>)
      then show ?thesis using True \<open>p_pid (procs s p) = pid\<close>
        by (simp add: wlp_simps) (elim wlp_mono, simp add: wlp_simps, elim wlp_mono, simp add: wlp_simps)
    qed
  qed
qed

lemma wlp_growproc:
  assumes "pinv s" "p_state (procs s (curproc s)) = RUNNING"
  shows "wlp (growproc n) (\<lambda>_. pinv) s"
proof -
  have p: "curproc s < NPROC" using assms(1) by (simp add: pinv_def)
  have upd: "wlp (upd_proc (curproc s) (\<lambda>x. x\<lparr>p_sz := sz\<rparr>)) (\<lambda>_. pinv) t" if "tab t = tab s"
    for sz and t :: "'a file_st_scheme"
  proof -
    have t: "pinv t" "live (p_state (procs t (curproc s)))"
      using pinv_quiet [OF quiet_tab [OF that] assms(1)] that assms(2) by (simp_all add: tab_def live_def)
    show ?thesis by (rule wlp_mono [OF wlp_live_upd [OF t(1) p t(2)]]) simp_all
  qed
  have al: "wlp (uvmalloc pt a b c) (\<lambda>sz t. tab t = tab s) s" "wlp (uvmdealloc pt a b) (\<lambda>sz t. tab t = tab s) s" for pt a b c
    by (rule wlp_stable [where \<pi> = tab], intro stable_intros, assumption)+
  show ?thesis
    unfolding growproc_def Let_def
    apply (rule wlp_get_over)
    apply (rule wlp_cases)+
        apply (simp add: wlp_simps assms)
       apply (rule wlp_over_mono [OF al(1)], rule wlp_cases)
        apply (simp add: wlp_simps pinv_quiet [OF quiet_tab assms(1)])
       apply (rule wlp_over_mono [OF upd], assumption, simp add: wlp_simps)
      apply (rule wlp_cases)
       apply (rule wlp_over_mono [OF al(2)], rule wlp_over_mono [OF upd], assumption, simp add: wlp_simps)
      apply (rule wlp_over_mono [OF upd [OF refl]], simp add: wlp_simps)
    done
qed

lemma pinv_step: "proc_step s t \<Longrightarrow> pinv s \<Longrightarrow> pinv t"
proof (induction rule: proc_step.induct)
  case (fork s r t)
  then show ?case using wlpD [OF wlp_kfork] by blast
next
  case (exit s status u t)
  then show ?case using wlpD [OF wlp_kexit] by blast
next
  case (wait s addr r t)
  have "wlp (kwait addr) (\<lambda>_. pinv) s" unfolding kwait_def using wait by (intro wlp_kwait_scan) auto
  then show ?case using wait by (blast dest: wlpD)
next
  case (kill s pid r t)
  have "wlp (kkill pid) (\<lambda>_. pinv) s" unfolding kkill_def using kill by (intro wlp_kkill_scan) auto
  then show ?case using kill by (blast dest: wlpD)
next
  case (grow s n r t)
  then show ?case using wlpD [OF wlp_growproc] by blast
next
  case (sleep s ch u t)
  have "wlp (sleep_on ch) (\<lambda>_. pinv) s" unfolding sleep_on_def using sleep
    by (intro wlp_get_over wlp_mono [OF wlp_live_upd]) (auto simp: pinv_def live_def)
  then show ?case using sleep by (blast dest: wlpD)
next
  case (yield s u t)
  have "wlp give_up (\<lambda>_. pinv) s" unfolding give_up_def using yield
    by (intro wlp_get_over wlp_mono [OF wlp_live_upd]) (auto simp: pinv_def live_def)
  then show ?case using yield by (blast dest: wlpD)
next
  case (wakeup ch s u t)
  then show ?case using keepsD [OF keeps_wakeup] pinv_quiet by blast
next
  case (dispatch p s u t)
  let ?s = "s\<lparr>curproc := p\<rparr>"
  have inv: "pinv ?s" using dispatch by (auto simp: pinv_def split: option.splits)
  have "wlp (upd_proc p (\<lambda>x. x\<lparr>p_state := RUNNING\<rparr>)) (\<lambda>_ t. pinv t \<and> rest t = rest ?s \<and> live (p_state (procs t p))) ?s"
    by (rule wlp_live_upd [OF inv]) (use dispatch in \<open>simp_all add: live_def\<close>)
  moreover have "upd_proc p (\<lambda>x. x\<lparr>p_state := RUNNING\<rparr>) ?s = run_next p s"
    by (simp add: upd_proc_def run_next_def run_simps)
  ultimately show ?case using dispatch(4) by (auto dest: wlpD)
qed

section \<open>Properties\<close>


lemma pinv_init: "pinv (kstate m init_table)"
  by (auto simp: pinv_def table_wf_def slot_wf_def init_table_def init_proc_def blank_proc_def live_def)


section \<open>Killing process 0\<close>

lemma find_unused_pid:
  assumes "pinv s" "find_unused [0..<NPROC] (procs s) = Some p"
  shows "p < NPROC" "p_state (procs s p) = UNUSED" "kkill_scan [0..<NPROC] 0 s = Inr (0, sync (s\<lparr>procs := (procs s)(p := (procs s p)\<lparr>p_killed := True\<rparr>)\<rparr>))"
proof -
  show p: "p < NPROC" "p_state (procs s p) = UNUSED" using find_unused_Some [OF assms(2)] by auto
  have "kkill_scan ps 0 s = Inr (0, sync (s\<lparr>procs := (procs s)(p := (procs s p)\<lparr>p_killed := True\<rparr>)\<rparr>))"
    if "find_unused ps (procs s) = Some p" "set ps \<subseteq> {..<NPROC}" for ps
    using that
  proof (induction ps)
    case Nil
    then show ?case by simp
  next
    case (Cons q ps)
    have "slot_wf (procs s q)" using assms(1) Cons.prems(2) table_wfD(1) by (auto simp: pinv_def)
    then have pid: "p_state (procs s q) = UNUSED \<longleftrightarrow> p_pid (procs s q) = 0" by (simp add: slot_wf_def split: if_splits)
    show ?case
    proof (cases "p_state (procs s q) = UNUSED")
      case True
      then have "q = p" using Cons.prems(1) by simp
      with True pid show ?thesis by (simp add: run_simps upd_proc_def fun_upd_def)
    next
      case False
      then show ?thesis using Cons pid by (simp add: run_simps)
    qed
  qed
  from this [OF assms(2)]
  show "kkill_scan [0..<NPROC] 0 s = Inr (0, sync (s\<lparr>procs := (procs s)(p := (procs s p)\<lparr>p_killed := True\<rparr>)\<rparr>))"
    by (rule) auto
qed

lemma wlp_allocproc_killed:
  fixes s :: "'a file_st_scheme"
  shows "wlp allocproc (\<lambda>r t. r \<noteq> None \<longrightarrow> r = find_unused [0..<NPROC] (procs s) \<and> (\<forall>q. p_killed (procs t q) = p_killed (procs s q))) s"
proof (cases "find_unused [0..<NPROC] (procs s)")
  case None
  then show ?thesis by (simp add: allocproc_def wlp_simps)
next
  case (Some p)
  let ?K = "\<lambda>t. \<forall>q. p_killed (procs t q) = p_killed (procs s q)"
  have over: "?K u" if "?K t" "tab u = tab t" for t u :: "'a file_st_scheme" using that by (simp add: tab_def)
  have upd: "wlp (upd_proc p f) (\<lambda>_. ?K) t" if "?K t" "\<And>x. p_killed (f x) = p_killed x" for f and t :: "'a file_st_scheme"
    by (rule wlp_upd_proc) (use that in simp)
  have fail: "wlp (bnd (freeproc p) (\<lambda>_. ret None)) (\<lambda>r t. r \<noteq> None \<longrightarrow> Q r t) t" for Q and t :: "'a file_st_scheme"
    by (auto simp: wlp_def bnd_eq_Inr run_simps)
  have pid: "wlp (modify (\<lambda>s. s\<lparr>nextpid := nextpid s + 1\<rparr>)) (\<lambda>_. ?K) s" by (simp add: wlp_simps)
  show ?thesis
    unfolding allocproc_def allocpid_def
    apply (rule wlp_get_over)
    apply (simp only: Some option.case bnd_assoc)
    apply (rule wlp_get_over, rule wlp_over_mono [OF pid])
    apply (subst wlp_bnd, subst wlp_basic(1))
    apply (rule wlp_over_mono [OF upd], assumption, simp)
    apply (rule wlp_over [OF tf.stable_kalloc(1)], drule (1) over)
    apply (rule wlp_over_mono [OF upd], assumption, simp)
    apply (rule wlp_cases, rule fail)
    apply (rule wlp_over [OF stable_proc_pagetable], drule (1) over)
    apply (rule wlp_over_mono [OF upd], assumption, simp)
    apply (rule wlp_cases, rule fail)
    apply (rule wlp_get_over, rule wlp_over_mono [OF upd], assumption, simp)
    apply (simp add: wlp_simps)
    done
qed



end
