(* ===== verification/File_Spec.thy ===== *)
theory File_Spec
  imports Proc_Inv Trap
begin

text \<open>
  Reference counts of the file table: \<^verbatim>\<open>f->ref\<close> is the number of descriptors, in all processes, that refer
  to the file. Inside an operation a count may be ahead of the descriptors or behind them by a known
  offset; \<open>rinv h\<close> is the invariant with that offset.
\<close>

section \<open>Counting descriptors\<close>

definition fdsum :: "proc \<Rightarrow> nat \<Rightarrow> int" where
  "fdsum x f = (\<Sum>fd<NOFILE. if p_ofile x fd = Some f then 1 else 0)"

definition descriptors :: "(nat \<Rightarrow> proc) \<Rightarrow> nat \<Rightarrow> int" where
  "descriptors P f = (\<Sum>p<NPROC. fdsum (P p) f)"

definition rinv :: "(nat \<Rightarrow> int) \<Rightarrow> 'z file_st_scheme \<Rightarrow> bool" where
  "rinv h s \<longleftrightarrow> (\<forall>f. f_ref (ftable s f) = descriptors (procs s) f + h f)"

lemma descriptors_upd:
  assumes "p < NPROC"
  shows "descriptors (P(p := x)) f = descriptors P f - fdsum (P p) f + fdsum x f"
  using assms by (simp add: descriptors_def sum.remove [of "{..<64}" p])

lemma fdsum_upd:
  assumes "fd < NOFILE"
  shows "fdsum (x\<lparr>p_ofile := (p_ofile x)(fd := v)\<rparr>) f =
    fdsum x f - (if p_ofile x fd = Some f then 1 else 0) + (if v = Some f then 1 else 0)"
  using assms by (simp add: fdsum_def sum.remove [of "{..<16}" fd])

lemma fdsum_cong: "p_ofile x = p_ofile y \<Longrightarrow> fdsum x f = fdsum y f"
  by (simp add: fdsum_def)

text \<open>Operations that touch neither the counts nor the descriptors.\<close>

definition files_of :: "'z file_st_scheme \<Rightarrow> (nat \<Rightarrow> kfile) \<times> (nat \<Rightarrow> nat \<Rightarrow> nat option)" where
  "files_of s = (ftable s, \<lambda>p. p_ofile (procs s p))"

lemma rinv_files: "files_of t = files_of s \<Longrightarrow> rinv h t = rinv h s"
  by (auto simp: rinv_def files_of_def descriptors_def fdsum_def fun_eq_iff)

lemma stable_files: "stable tab m \<Longrightarrow> stable files_of m"
  by (auto simp: stable_def keeps_def tab_eq files_of_def)

section \<open>Operations of file.c\<close>

text \<open>\<open>counts s t d\<close>: only counts changed, by \<open>d\<close>; processes may have been woken.\<close>

definition counts :: "(nat \<Rightarrow> int) \<Rightarrow> 'z file_st_scheme \<Rightarrow> 'z file_st_scheme \<Rightarrow> bool" where
  "counts d s t \<longleftrightarrow> quiet s t \<and> (\<forall>f. f_ref (ftable t f) = f_ref (ftable s f) + d f)"

abbreviation one :: "nat \<Rightarrow> nat \<Rightarrow> int" where
  "one f \<equiv> (\<lambda>_. 0)(f := 1)"

lemma wakes_descriptors: "wakes P Q \<Longrightarrow> descriptors Q f = descriptors P f"
  unfolding descriptors_def using wakes_fields(6) [of P Q] by (intro sum.cong fdsum_cong) auto

lemma counts_rinv: "counts d s t \<Longrightarrow> rinv h s \<Longrightarrow> rinv (\<lambda>f. h f + d f) t"
  unfolding counts_def rinv_def quiet_def using wakes_descriptors [of "procs s" "procs t"] by auto

lemma counts_stable: "stable tab m \<Longrightarrow> wlp m (\<lambda>_. counts (\<lambda>_. 0) s) s"
  by (rule wlp_stable) (auto simp: counts_def quiet_tab tab_eq)

lemma find_file_Some: "find_file fs F = Some f \<Longrightarrow> f_ref (F f) = 0"
  by (induction fs) (auto split: if_splits)

lemma wlp_filealloc: "wlp filealloc (\<lambda>r. counts (case r of None \<Rightarrow> \<lambda>_. 0 | Some f \<Rightarrow> one f) s) s"
proof (cases "find_file [0..<NFILE] (ftable s)")
  case None
  then show ?thesis by (simp add: filealloc_def wlp_simps counts_def quiet_refl)
next
  case (Some f)
  then show ?thesis using find_file_Some [OF Some]
    by (simp add: filealloc_def wlp_simps counts_def upd_file_def quiet_def core_def)
qed

lemma wlp_filedup: "wlp (filedup f) (\<lambda>r t. r = f \<and> counts (one f) s t) s"
  by (auto simp: filedup_def wlp_simps counts_def upd_file_def quiet_def core_def)

lemma keeps_ftable:
  "keeps (\<lambda>s t. ftable t = ftable s) (upd_pipe pi g)" "keeps (\<lambda>s t. ftable t = ftable s) (wakeup_chan ch :: ('z file_st_scheme, unit) km)"
proof -
  show "keeps (\<lambda>s t. ftable t = ftable s) (upd_pipe pi g)" unfolding upd_pipe_def by (rule keeps_modify) simp
  show "keeps (\<lambda>s t. ftable t = ftable s) (wakeup_chan ch :: ('z file_st_scheme, unit) km)"
    unfolding keeps_def using wlpD [OF wlp_wakeup] by (auto simp: rest_eq)
qed

lemma wlp_pipeclose: "wlp (pipeclose pi w) (\<lambda>_. counts (\<lambda>_. 0) s) s"
proof -
  have "keeps (\<lambda>s t :: 'a file_st_scheme. ftable t = ftable s) (pipeclose pi w)"
    unfolding pipeclose_def
    by (intro keeps_bnd keeps_get_bnd keeps_intros keeps_ftable) (auto intro: transpI reflpI simp: keeps_def dest!: stableD [OF tf.stable_kalloc(2)] simp: tab_eq)
  then show ?thesis unfolding wlp_def counts_def by (auto dest: keepsD intro: keepsD [OF keeps_pipeclose])
qed

lemma wlp_fileclose: "wlp (fileclose f) (\<lambda>_. counts (\<lambda>g. - one f g) s) s"
proof (cases "f_ref (ftable s f) \<le> 1")
  case False
  then show ?thesis by (simp add: fileclose_def wlp_simps Let_def counts_def upd_file_def quiet_def core_def)
next
  case True
  let ?ff = "ftable s f"
  let ?t = "s\<lparr>ftable := (ftable s)(f := (?ff\<lparr>f_ref := f_ref ?ff - 1\<rparr>)\<lparr>f_ref := 0, f_type := FD_NONE\<rparr>)\<rparr>"
  have t: "counts (\<lambda>g. - one f g) s ?t" if "f_ref ?ff = 1"
    using that by (simp add: counts_def quiet_def core_def)
  have more: "counts (\<lambda>g. - one f g) s u" if "f_ref ?ff = 1" "counts (\<lambda>_. 0) ?t u" for u
    using t [OF that(1)] that(2) quiet_trans [of s ?t u] by (auto simp: counts_def)
  have ops: "wlp (bnd begin_op (\<lambda>_. bnd (iput ip) (\<lambda>_. end_op))) (\<lambda>_. counts (\<lambda>_. 0) ?t) ?t" for ip
    by (rule counts_stable) (intro stable_intros)
  show ?thesis
  proof (cases "f_ref ?ff = 1")
    case False
    then show ?thesis using True by (simp add: fileclose_def wlp_simps)
  next
    case ref: True
    have "wlp (case f_type ?ff of FD_PIPE \<Rightarrow> pipeclose (f_pipe ?ff) (f_writable ?ff) | FD_NONE \<Rightarrow> skip
        | _ \<Rightarrow> bnd begin_op (\<lambda>_. bnd (iput (f_ip ?ff)) (\<lambda>_. end_op))) (\<lambda>_. counts (\<lambda>g. - one f g) s) ?t"
      using wlp_mono [OF wlp_pipeclose more [OF ref]] wlp_mono [OF ops more [OF ref]] t [OF ref]
      by (cases "f_type ?ff") (simp_all add: wlp_basic)
    then show ?thesis using ref by (simp add: fileclose_def wlp_bnd wlp_basic upd_file_def Let_def)
  qed
qed

section \<open>The running process\<close>

definition good :: "(nat \<Rightarrow> int) \<Rightarrow> 'z file_st_scheme \<Rightarrow> bool" where
  "good h s \<longleftrightarrow> pinv s \<and> p_state (procs s (curproc s)) = RUNNING \<and> rinv h s"

lemma good_eq: "good h s \<Longrightarrow> (\<And>f. h f = h' f) \<Longrightarrow> good h' s"
  by (simp add: good_def rinv_def)

lemma good_counts:
  assumes "good h s" "counts d s t"
  shows "good (\<lambda>f. h f + d f) t"
proof -
  have q: "wakes (procs s) (procs t)" "curproc t = curproc s" "quiet s t"
    using assms(2) by (simp_all add: counts_def quiet_def core_def)
  have "procs t (curproc s) = procs s (curproc s)" using assms(1) by (intro wakes_fields(8) [OF q(1)]) (simp add: good_def)
  then show ?thesis using assms pinv_quiet [OF q(3)] counts_rinv [OF assms(2)] q(2) by (simp add: good_def)
qed

lemma wlp_good_stable: "stable tab m \<Longrightarrow> good h s \<Longrightarrow> wlp m (\<lambda>_. good h) s"
  by (rule wlp_mono [OF counts_stable], assumption, drule (1) good_counts) simp

lemma wlp_good_over: "good h s \<Longrightarrow> stable tab m \<Longrightarrow> (\<And>x t. good h t \<Longrightarrow> wlp (f x) Q t) \<Longrightarrow> wlp (bnd m f) Q s"
  by (rule wlp_over_mono [OF wlp_good_stable])

lemma wlp_set_ofile:
  assumes "good h s" "fd < NOFILE"
  shows "wlp (set_ofile fd v) (\<lambda>_ t. good (\<lambda>f. h f + (if p_ofile (procs s (curproc s)) fd = Some f then 1 else 0)
      - (if v = Some f then 1 else 0)) t \<and> curproc t = curproc s \<and> ftable t = ftable s \<and>
      p_ofile (procs t (curproc s)) = (p_ofile (procs s (curproc s)))(fd := v)) s"
proof -
  let ?p = "curproc s" and ?f = "\<lambda>x. x\<lparr>p_ofile := (p_ofile x)(fd := v)\<rparr>"
  have s: "pinv s" "?p < NPROC" "p_state (procs s ?p) = RUNNING" "rinv h s" using assms by (simp_all add: good_def pinv_def)
  have l: "live (p_state (procs s ?p))" using s(3) by (simp add: live_def)
  have "wlp (upd_proc ?p ?f) (\<lambda>_ t. pinv t \<and> rest t = rest s \<and> procs t = (procs s)(?p := ?f (procs s ?p))) s"
    unfolding wlp_def
  proof (intro allI impI conjI)
    fix x t assume run: "upd_proc ?p ?f s = Inr (x, t)"
    show "pinv t" "rest t = rest s" using wlpD [OF wlp_live_upd [OF s(1,2) l, of ?f] run] by simp_all
    show "procs t = (procs s)(?p := ?f (procs s ?p))" using run by (auto simp: upd_proc_def run_simps tab_upd)
  qed
  then show ?thesis
    unfolding set_ofile_def wlp_bnd wlp_basic
  proof (rule wlp_mono)
    fix x t assume t: "pinv t \<and> rest t = rest s \<and> procs t = (procs s)(?p := ?f (procs s ?p))"
    then have "curproc t = ?p" "ftable t = ftable s" by (auto simp: rest_eq)
    with t s(2-4) show "good (\<lambda>f. h f + (if p_ofile (procs s ?p) fd = Some f then 1 else 0) - (if v = Some f then 1 else 0)) t \<and>
        curproc t = ?p \<and> ftable t = ftable s \<and> p_ofile (procs t ?p) = (p_ofile (procs s ?p))(fd := v)"
      by (simp add: good_def rinv_def descriptors_upd fdsum_upd [OF assms(2)])
  qed
qed

lemma find_fd_Some: "find_fd fds ofile = Some fd \<Longrightarrow> fd \<in> set fds \<and> ofile fd = None"
  by (induction fds) (auto split: if_splits)

definition ofiles :: "'z file_st_scheme \<Rightarrow> nat \<Rightarrow> nat option" where
  "ofiles s = p_ofile (procs s (curproc s))"

lemma wlp_fdalloc:
  assumes "good h s"
  shows "wlp (fdalloc f) (\<lambda>r t. case r of None \<Rightarrow> good h t \<and> ofiles t = ofiles s
    | Some fd \<Rightarrow> good (\<lambda>g. h g - one f g) t \<and> fd < NOFILE \<and> ofiles s fd = None \<and> ofiles t = (ofiles s)(fd := Some f)) s"
    (is "wlp _ ?Q s")
proof (cases "find_fd [0..<NOFILE] (p_ofile (procs s (curproc s)))")
  case None
  then show ?thesis using assms by (simp add: fdalloc_def wlp_simps)
next
  case (Some fd)
  have fd: "fd < NOFILE" "p_ofile (procs s (curproc s)) fd = None" using find_fd_Some [OF Some] by auto
  have "wlp (set_ofile fd (Some f)) (\<lambda>_ t. good (\<lambda>g. h g - one f g) t \<and> ofiles t = (ofiles s)(fd := Some f)) s"
    by (rule wlp_mono [OF wlp_set_ofile [OF assms fd(1), of "Some f"]]) (use fd(2) in \<open>auto simp: ofiles_def elim!: good_eq\<close>)
  then have "wlp (set_ofile fd (Some f)) (\<lambda>_. wlp (ret (Some fd)) ?Q) s"
    by (rule wlp_mono) (use fd in \<open>simp add: wlp_simps ofiles_def\<close>)
  then show ?thesis using Some by (simp add: fdalloc_def wlp_bnd wlp_basic)
qed

lemma stable_args [stable_intros]:
  "stable tab (argraw n)" "stable tab (argint n)" "stable tab (argaddr n)" "stable tab (fetchaddr a)" "stable tab (fetchstr a d m)"
  "stable tab (argstr n d m)" "stable tab (argfd n)"
  unfolding argraw_def argint_def argaddr_def fetchaddr_def fetchstr_def argstr_def argfd_def
  by (intro stable_intros)+

lemma wlp_argfd: "wlp (argfd n) (\<lambda>r t. t = s \<and> (\<forall>a. r = Some a \<longrightarrow> fst a < NOFILE \<and> p_ofile (procs s (curproc s)) (fst a) = Some (snd a))) s"
  unfolding wlp_def argfd_def argint_def argraw_def
  by (auto simp: bnd_eq_Inr ret_def get_def stop_with_def split: if_splits option.splits)

section \<open>System calls on descriptors\<close>

lemma wlp_sys_dup:
  assumes "good (\<lambda>_. 0) s"
  shows "wlp sys_dup (\<lambda>_. good (\<lambda>_. 0)) s"
proof -
  have dup: "wlp (filedup f) (\<lambda>_. good (\<lambda>_. 0)) t" if "good (\<lambda>g. 0 - one f g) t" for f and t :: "'a file_st_scheme"
    by (rule wlp_mono [OF wlp_filedup]) (auto elim!: good_eq dest!: good_counts [OF that])
  show ?thesis
    unfolding sys_dup_def
    apply (rule wlp_over_mono [OF wlp_argfd], elim conjE, simp only:)
    subgoal for a
      apply (cases a)
       apply (simp add: wlp_simps assms)
      apply (simp only: option.case case_prod_beta)
      apply (rule wlp_over_mono [OF wlp_fdalloc [OF assms]])
      subgoal for p r
        apply (cases r)
         apply (simp add: wlp_simps)
        apply (simp only: option.case)
        apply (rule wlp_over_mono [OF dup])
         apply simp
        apply (simp add: wlp_simps)
        done
      done
    done
qed

lemma wlp_good_fileclose: "good h s \<Longrightarrow> wlp (fileclose f) (\<lambda>_. good (\<lambda>g. h g - one f g)) s"
  by (rule wlp_mono [OF wlp_fileclose], drule (1) good_counts, erule good_eq) simp

lemma wlp_good_filealloc:
  "good h s \<Longrightarrow> wlp filealloc (\<lambda>r. case r of None \<Rightarrow> good h | Some f \<Rightarrow> good (\<lambda>g. h g + one f g)) s"
  by (rule wlp_mono [OF wlp_filealloc], drule (1) good_counts) (auto split: option.splits elim!: good_eq)

lemma wlp_sys_close:
  assumes "good (\<lambda>_. 0) s"
  shows "wlp sys_close (\<lambda>_. good (\<lambda>_. 0)) s"
proof -
  have set: "wlp (set_ofile (fst a) None) (\<lambda>_. good (one (snd a))) s"
    if "fst a < NOFILE" "p_ofile (procs s (curproc s)) (fst a) = Some (snd a)" for a
    by (rule wlp_mono [OF wlp_set_ofile [OF assms that(1), of None]]) (use that(2) in \<open>auto elim!: good_eq\<close>)
  show ?thesis
    unfolding sys_close_def
    apply (rule wlp_over_mono [OF wlp_argfd], elim conjE, simp only:)
    subgoal for a
      apply (cases a)
       apply (simp add: wlp_simps assms)
      apply (simp only: option.case case_prod_beta)
      apply (rule wlp_over_mono [OF set]; (simp; fail)?)
      apply (rule wlp_over_mono [OF wlp_good_fileclose], assumption)
      apply (auto simp: wlp_simps elim!: good_eq)
      done
    done
qed

text \<open>Changes of a file that leave its count alone.\<close>

lemma wlp_good_upd_file: "good h s \<Longrightarrow> (\<And>x. f_ref (g x) = f_ref x) \<Longrightarrow> wlp (upd_file f g) (\<lambda>_. good h) s"
  by (auto simp: upd_file_def wlp_simps good_def rinv_def pinv_def split: option.splits)

lemma wlp_good_upd_pipe: "good h s \<Longrightarrow> wlp (upd_pipe pi g) (\<lambda>_. good h) s"
  by (auto simp: upd_pipe_def wlp_simps good_def rinv_def pinv_def split: option.splits)

lemma wlp_open_fd:
  assumes "good (\<lambda>_. 0) s"
  shows "wlp open_fd (\<lambda>_. good (\<lambda>_. 0)) s"
  unfolding open_fd_def
  apply (rule wlp_over_mono [OF wlp_good_filealloc [OF assms]])
  subgoal for mf t
    apply (cases mf)
     apply (simp add: wlp_simps)
    apply (simp only: option.case)
    apply (rule wlp_over_mono [OF wlp_fdalloc], assumption)
    subgoal for f mfd u
      apply (cases mfd)
       apply (simp only: option.case, elim conjE)
       apply (rule wlp_over_mono [OF wlp_good_fileclose], assumption)
       apply (auto simp: wlp_simps elim!: good_eq)
      done
    done
  done

lemma stable_cons [stable_intros]:
  "stable tab (WriteReg r v)" "stable tab (uart_wait n)" "stable tab (uartputc c)" "stable tab acquire_cons"
  "stable tab release_cons" "stable tab (consoleputc c)" "stable tab acquire_pr" "stable tab release_pr"
proof -
  show w: "stable tab (WriteReg r v)" for r v unfolding WriteReg_def by (intro stable_modify) (simp add: tab_def rest_def)
  show l: "stable tab (uart_wait n)" for n
    by (induction n) (auto intro!: stable_intros stable_modify simp: tab_def rest_def)
  show u: "stable tab (uartputc c)" unfolding uartputc_def by (intro stable_intros w l)
  show a: "stable tab acquire_cons" "stable tab release_cons" "stable tab acquire_pr" "stable tab release_pr"
    unfolding acquire_cons_def release_cons_def acquire_pr_def release_pr_def
    by (intro stable_intros stable_modify; simp add: tab_def rest_def)+
  show "stable tab (consoleputc c)" unfolding consoleputc_def by (intro stable_intros u a)
qed

lemma stable_printf [stable_intros]: "stable tab (printf fmt ap)"
proof -
  have c: "stable tab (convert c ap)" for c ap
    unfolding convert_def printint_def va_int_def va_uint64_def va_str_def
    by (auto intro!: stable_intros split: list.split va_arg.split)
  have "stable tab (vprintf fmt ap)"
  proof (induction fmt ap rule: vprintf.induct)
    case (1 ap)
    then show ?case by (simp add: stable_intros)
  next
    case (2 c fmt ap)
    show ?case
    proof (cases "c = 37")
      case True
      then show ?thesis using 2(2) by (cases fmt) (simp_all add: stable_intros c stable_bnd)
    next
      case False
      then show ?thesis using 2(1) by (simp add: stable_intros stable_bnd)
    qed
  qed
  then show ?thesis unfolding printf_def by (intro stable_intros)
qed

lemma stable_create [stable_intros]: "stable tab (create path ty major minor)" "stable tab (open_inode path omode)"
proof -
  show c: "stable tab (create path ty major minor)" for path ty major minor
    unfolding create_def create_entries_def create_fail_def add_nlink_def by (intro stable_intros)
  show "stable tab (open_inode path omode)" unfolding open_inode_def by (intro stable_intros c)
qed

lemma wlp_sys_open:
  fixes s :: "'a cons_st_scheme"
  assumes "good (\<lambda>_. 0) s"
  shows "wlp sys_open (\<lambda>_. good (\<lambda>_. 0)) s"
proof -
  have fail: "wlp (bnd (iunlockput ip) (\<lambda>_. bnd end_op (\<lambda>_. ret (- 1)))) (\<lambda>_. good (\<lambda>_. 0)) t" "wlp (bnd end_op (\<lambda>_. ret (- 1))) (\<lambda>_. good (\<lambda>_. 0)) t"
    if "good (\<lambda>_. 0) t" for ip and t :: "'a cons_st_scheme"
    by (rule wlp_good_stable [OF _ that], intro stable_intros)+
  have opn: "wlp (upd_file f (open_file ip node omode)) (\<lambda>_. good (\<lambda>_. 0)) t" if "good (\<lambda>_. 0) t" for f ip node omode and t :: "'a cons_st_scheme"
    by (rule wlp_good_upd_file [OF that]) (simp add: open_file_def)
  show ?thesis
    unfolding sys_open_def Let_def
    apply (rule wlp_good_over [OF assms], intro stable_intros)
    apply (rule wlp_get_over, rule wlp_good_over, assumption, intro stable_intros)
    apply (rule wlp_cases, simp add: wlp_simps)
    apply (rule wlp_get_over, rule wlp_good_over, assumption, intro stable_intros)
    apply (rule wlp_good_over, assumption, intro stable_intros)
    apply (rule wlp_good_over, assumption, intro stable_intros)
    subgoal for omode t n u a w b x mip y
      apply (cases mip)
       apply (simp add: fail)
      apply (simp only: option.case)
      apply (rule wlp_get_over, rule wlp_cases, erule fail)
      apply (rule wlp_over_mono [OF wlp_open_fd], assumption)
      subgoal for ip mf z
        apply (cases mf)
         apply (simp add: fail)
        apply (simp only: option.case case_prod_beta)
        apply (rule wlp_over_mono [OF opn], assumption)
        apply (rule wlp_good_stable, intro stable_intros, assumption)
        done
      done
    done
qed

section \<open>Pipes\<close>

lemma wlp_pipealloc:
  assumes "good h s"
  shows "wlp pipealloc (\<lambda>r t. case r of None \<Rightarrow> good h t | Some (rf, wt) \<Rightarrow> good (\<lambda>g. h g + one rf g + one wt g) t) s"
proof -
  have kalloc: "stable tab kalloc" by (intro stable_intros)
  note upd = wlp_over_mono [OF wlp_good_upd_file] and close = wlp_over_mono [OF wlp_good_fileclose]
  show ?thesis
    unfolding pipealloc_def
    apply (rule wlp_over_mono [OF wlp_good_filealloc [OF assms]])
    subgoal for f0 t
      apply (cases f0)
       apply (simp add: close_opt_def wlp_simps)
      apply (simp only: option.case option.distinct if_False)
      apply (rule wlp_over_mono [OF wlp_good_filealloc], assumption)
      subgoal for f f1 u
        apply (cases f1)
         apply (simp only: option.case prod.case close_opt_def)
         apply (rule close, assumption)
         apply (auto simp: wlp_simps elim!: good_eq)[1]
        apply (simp only: option.case prod.case)
        apply (rule wlp_good_over, assumption, rule kalloc)
        apply (rule wlp_cases)
         apply (rule close, assumption, rule close, assumption)
         apply (auto simp: wlp_simps elim!: good_eq)[1]
        apply (rule wlp_get_over, rule wlp_over_mono [OF wlp_good_upd_pipe], assumption)
        apply (rule upd, assumption, simp, rule upd, assumption, simp)
        apply (auto simp: wlp_simps elim!: good_eq)
        done
      done
    done
qed

lemma wlp_clear_fd:
  "good h s \<Longrightarrow> fd < NOFILE \<Longrightarrow> ofiles s fd = Some f \<Longrightarrow>
    wlp (set_ofile fd None) (\<lambda>_ t. good (\<lambda>g. h g + one f g) t \<and> ofiles t = (ofiles s)(fd := None)) s"
  by (rule wlp_mono [OF wlp_set_ofile [where v = None]]) (auto simp: ofiles_def elim!: good_eq)

lemma wlp_pipe_undo:
  assumes "good h s"
  shows "(\<And>g. h g = one rf g + one wt g) \<Longrightarrow> wlp (pipe_undo [] rf wt) (\<lambda>_. good (\<lambda>_. 0)) s"
    and "(\<And>g. h g = one wt g) \<Longrightarrow> fd0 < NOFILE \<Longrightarrow> ofiles s fd0 = Some rf \<Longrightarrow> wlp (pipe_undo [fd0] rf wt) (\<lambda>_. good (\<lambda>_. 0)) s"
    and "(\<And>g. h g = 0) \<Longrightarrow> fd0 < NOFILE \<Longrightarrow> fd1 < NOFILE \<Longrightarrow> fd0 \<noteq> fd1 \<Longrightarrow> ofiles s fd0 = Some rf \<Longrightarrow> ofiles s fd1 = Some wt \<Longrightarrow>
      wlp (pipe_undo [fd0, fd1] rf wt) (\<lambda>_. good (\<lambda>_. 0)) s"
proof -
  have close: "wlp (bnd (fileclose rf) (\<lambda>_. bnd (fileclose wt) (\<lambda>_. ret (- 1)))) (\<lambda>_. good (\<lambda>_. 0)) t"
    if "good k t" "\<And>g. k g = one rf g + one wt g" for k and t :: "'a file_st_scheme"
    apply (rule wlp_over_mono [OF wlp_good_fileclose [OF that(1)]])
    apply (rule wlp_over_mono [OF wlp_good_fileclose], assumption)
    apply (simp only: wlp_basic)
    apply (erule good_eq)
    apply (simp add: that(2))
    done
  show "wlp (pipe_undo [] rf wt) (\<lambda>_. good (\<lambda>_. 0)) s" if "\<And>g. h g = one rf g + one wt g"
    using close [OF assms that] by (simp add: pipe_undo_def wlp_bnd wlp_basic)
  show "wlp (pipe_undo [fd0] rf wt) (\<lambda>_. good (\<lambda>_. 0)) s"
    if "\<And>g. h g = one wt g" "fd0 < NOFILE" "ofiles s fd0 = Some rf"
    unfolding pipe_undo_def
    apply (simp only: for_each.simps bnd_assoc)
    apply (rule wlp_over_mono [OF wlp_clear_fd [OF assms that(2,3)]], subst wlp_bnd, subst wlp_basic(2))
    apply (elim conjE, erule close)
    apply (simp add: that(1))
    done
  show "wlp (pipe_undo [fd0, fd1] rf wt) (\<lambda>_. good (\<lambda>_. 0)) s"
    if "\<And>g. h g = 0" "fd0 < NOFILE" "fd1 < NOFILE" "fd0 \<noteq> fd1" "ofiles s fd0 = Some rf" "ofiles s fd1 = Some wt"
    unfolding pipe_undo_def
    apply (simp only: for_each.simps bnd_assoc)
    apply (rule wlp_over_mono [OF wlp_clear_fd [OF assms that(2,5)]], elim conjE)
    apply (rule wlp_over_mono [OF wlp_clear_fd [where f = wt]], assumption, rule that(3), simp add: that that(4) [symmetric])
    apply (subst wlp_bnd, subst wlp_basic(2), elim conjE, erule close)
    apply (simp add: that(1))
    done
qed

lemma good_tab:
  fixes s t :: "'a file_st_scheme"
  shows "good h s \<Longrightarrow> tab t = tab s \<Longrightarrow> good h t \<and> ofiles t = ofiles s"
  using good_counts [of h s "\<lambda>_. 0" t] by (auto simp: counts_def quiet_tab tab_eq ofiles_def)

lemma wlp_sys_pipe:
  assumes "good (\<lambda>_. 0) s"
  shows "wlp sys_pipe (\<lambda>_. good (\<lambda>_. 0)) s"
proof -
  have tail: "wlp (bnd get (\<lambda>s. let pt = p_pagetable (procs s (curproc s)) in
       bnd (copyout_obj pt fdarray (byte_of (of_nat fd0 :: 32 word)) 4) (\<lambda>r.
       bnd (if r < 0 then ret r else copyout_obj pt (fdarray + 4) (byte_of (of_nat fd1 :: 32 word)) 4) (\<lambda>r.
       if r < 0 then pipe_undo [fd0, fd1] rf wt else ret 0)))) (\<lambda>_. good (\<lambda>_. 0)) t"
    if t: "good h t" "\<And>g. h g = 0" "fd0 < NOFILE" "fd1 < NOFILE" "fd0 \<noteq> fd1" "ofiles t fd0 = Some rf" "ofiles t fd1 = Some wt"
    for h fdarray fd0 fd1 rf wt and t :: "'a file_st_scheme"
    unfolding Let_def
    apply (rule wlp_get_over)
    apply (rule wlp_over [where m = "copyout_obj _ _ _ _"], intro stable_intros)
    apply (rule wlp_over [where m = "if _ < 0 then _ else _"], intro stable_intros)
    apply (drule good_tab [OF t(1)], elim conjE, drule (1) good_tab, elim conjE)
    apply (rule wlp_cases, rule wlp_pipe_undo(3), assumption, rule t(2))
         apply (simp_all add: t wlp_simps)
    apply (erule good_eq, rule t(2))
    done
  show ?thesis
    unfolding sys_pipe_def
    apply (rule wlp_good_over [OF assms], intro stable_intros)
    apply (rule wlp_over_mono [OF wlp_pipealloc], assumption)
    subgoal for fdarray t mp u
      apply (cases mp)
       apply (simp add: wlp_simps)
      subgoal for rw
        apply (cases rw)
        subgoal for rf wt
          apply (simp only: option.case prod.case)
          apply (rule wlp_over_mono [OF wlp_fdalloc], assumption)
          subgoal for m0 v
            apply (cases m0)
             apply (simp only: option.case, elim conjE, erule wlp_pipe_undo(1), simp)
            apply (simp only: option.case, elim conjE)
            apply (rule wlp_over_mono [OF wlp_fdalloc], assumption)
            subgoal for fd0 m1 w
              apply (cases m1)
               apply (simp only: option.case, elim conjE, erule wlp_pipe_undo(2); simp)
              apply (simp only: option.case, elim conjE, erule tail; auto)
              done
            done
          done
        done
      done
    done
qed

section \<open>Reading and writing\<close>

definition same_counts :: "'z file_st_scheme \<Rightarrow> 'z file_st_scheme \<Rightarrow> bool" where
  "same_counts s t \<longleftrightarrow> counts (\<lambda>_. 0) s t"

lemma transp_counts [keeps_intros]: "transp same_counts"
  by (rule transpI) (auto simp: same_counts_def counts_def intro: quiet_trans)

lemma reflp_counts [keeps_intros]: "reflp same_counts"
  by (rule reflpI) (simp add: same_counts_def counts_def quiet_refl)

lemma keeps_counts_stable: "stable tab m \<Longrightarrow> keeps same_counts m"
  unfolding keeps_def same_counts_def by (intro allI impI) (rule wlpD [OF counts_stable])

lemma keeps_counts [keeps_intros]:
  "keeps same_counts (upd_pipe pi g)" "(\<And>x. f_ref (r x) = f_ref x) \<Longrightarrow> keeps same_counts (upd_file f r)"
  "keeps same_counts (wakeup_chan ch)"
proof -
  show "keeps same_counts (upd_pipe pi g)" unfolding upd_pipe_def
    by (rule keeps_modify) (simp add: same_counts_def counts_def quiet_def core_def)
  show "keeps same_counts (upd_file f r)" if "\<And>x. f_ref (r x) = f_ref x" unfolding upd_file_def
    by (rule keeps_modify) (simp add: same_counts_def counts_def quiet_def core_def that)
  show "keeps same_counts (wakeup_chan ch)"
    unfolding keeps_def same_counts_def counts_def
    by (auto intro: keepsD [OF keeps_wakeup] dest: keepsD [OF keeps_ftable(2)])
qed

lemma stable_killed [stable_intros]: "stable tab (killed p)"
  unfolding killed_def by (intro stable_intros)

lemma keeps_counts_vm [keeps_intros]:
  "keeps same_counts (killed p)" "keeps same_counts (copyin_obj pt dst va len)" "keeps same_counts (copyout_obj pt va src len)"
  "keeps same_counts (ilock ip)" "keeps same_counts (iunlock ip)" "keeps same_counts begin_op" "keeps same_counts end_op"
  "keeps same_counts (readi ip user udst off n)" "keeps same_counts (writei ip user usrc off n)" "keeps same_counts (stati ip)"
  by (intro keeps_counts_stable stable_intros)+

lemma keeps_counts_bnd [keeps_intros]:
  "keeps same_counts m \<Longrightarrow> (\<And>x. keeps same_counts (f x)) \<Longrightarrow> keeps same_counts (bnd m f)"
  by (rule keeps_bnd [OF transp_counts])

lemma keeps_counts_basic [keeps_intros]:
  "keeps same_counts get" "keeps same_counts (ret x)" "keeps same_counts skip" "keeps same_counts (stop_with e)"
  by (intro keeps_counts_stable stable_intros)+

lemma keeps_pipe [keeps_intros]: "keeps same_counts (pipewrite pi addr n)" "keeps same_counts (piperead pi addr n)"
proof -
  have w: "keeps same_counts (pipewrite_loop k pi addr n i)" for k i
    by (induction k arbitrary: i) (auto intro!: keeps_intros split: prod.split)
  have r: "keeps same_counts (piperead_loop k pi addr n i)" for k i
    by (induction k arbitrary: i) (auto intro!: keeps_intros)
  show "keeps same_counts (pipewrite pi addr n)" unfolding pipewrite_def by (auto intro!: keeps_intros w split: sum.split)
  show "keeps same_counts (piperead pi addr n)" unfolding piperead_def by (auto intro!: keeps_intros r)
qed

lemma keeps_fdtype:
  "keeps R a \<Longrightarrow> keeps R b \<Longrightarrow> keeps R c \<Longrightarrow> keeps R d \<Longrightarrow>
    keeps R (case x of FD_NONE \<Rightarrow> a | FD_PIPE \<Rightarrow> b | FD_INODE \<Rightarrow> c | FD_DEVICE \<Rightarrow> d)"
  by (cases x) simp_all

lemma keeps_fileio:
  assumes "\<And>major rd user a k. dev major = Some rd \<Longrightarrow> stable tab (rd user a k)"
  shows "keeps same_counts (fileread dev f addr n)" "keeps same_counts (filewrite dev f addr n)" "keeps same_counts (filestat f addr)"
proof -
  have l: "keeps same_counts (filewrite_loop k f addr n i)" for k i
    by (induction k arbitrary: i) (auto simp: Let_def intro!: keeps_intros)
  have d: "keeps same_counts (case dev m of None \<Rightarrow> ret (- 1) | Some rd \<Rightarrow> rd True addr n)" for m
    using assms by (cases "dev m") (auto intro!: keeps_intros keeps_counts_stable)
  show "keeps same_counts (fileread dev f addr n)" "keeps same_counts (filewrite dev f addr n)" "keeps same_counts (filestat f addr)"
    unfolding fileread_def filewrite_def filestat_def Let_def
    by (intro keeps_intros keeps_fdtype d l; simp)+
qed

lemma stable_consolewrite: "stable tab (consolewrite user src n)"
proof -
  have l: "stable tab (consolewrite_loop k user src n i)" for k i
    by (induction k arbitrary: i) (auto intro!: stable_intros)
  show ?thesis unfolding consolewrite_def by (intro stable_intros l)
qed

lemma wlp_good_io:
  fixes s :: "'a cons_st_scheme"
  assumes "good h s"
  shows "wlp (sys_read console_read_dev) (\<lambda>_. good h) s" "wlp (sys_write console_write_dev) (\<lambda>_. good h) s" "wlp sys_fstat (\<lambda>_. good h) s"
proof -
  have rd: "stable tab (rd user a k)" if "console_read_dev major = Some rd" for major rd user a and k :: int
    using that by (simp add: console_read_dev_def)
  have wr: "stable tab (wr user a k)" if "console_write_dev major = Some wr" for major wr user a and k :: int
    using that by (auto simp: console_write_dev_def stable_consolewrite split: if_splits)
  have io: "keeps same_counts (fileread console_read_dev f a k)" "keeps same_counts (filewrite console_write_dev f a k)"
    "keeps same_counts (filestat f a)" for f a k
    using rd wr by (auto intro!: keeps_fileio [where dev = console_read_dev] keeps_fileio(2) [where dev = console_write_dev])
  have args: "keeps same_counts (argaddr i)" "keeps same_counts (argint i)" "keeps same_counts (argfd i)" for i
    by (intro keeps_counts_stable stable_intros)+
  have k: "keeps same_counts (sys_read console_read_dev)" "keeps same_counts (sys_write console_write_dev)" "keeps same_counts sys_fstat"
    unfolding sys_read_def sys_write_def sys_fstat_def by (auto intro!: keeps_intros args io split: option.split)
  have g: "good h t" if "same_counts s t" for t using good_counts [OF assms, of "\<lambda>_. 0" t] that by (simp add: same_counts_def)
  show "wlp (sys_read console_read_dev) (\<lambda>_. good h) s" "wlp (sys_write console_write_dev) (\<lambda>_. good h) s" "wlp sys_fstat (\<lambda>_. good h) s"
    by (rule wlp_keeps [OF k(1)] wlp_keeps [OF k(2)] wlp_keeps [OF k(3)], erule g)+
qed

section \<open>Processes\<close>

interpretation ff: fs_frame files_of
  by unfold_locales (simp_all add: files_of_def)

lemma stable_files_upd [stable_intros]:
  "(\<And>x. p_ofile (f x) = p_ofile x) \<Longrightarrow> stable files_of (upd_proc p f)"
  unfolding upd_proc_def by (rule stable_modify) (auto simp: files_of_def sync_def Let_def fun_eq_iff)

lemma stable_files_wakeup [stable_intros]: "stable files_of (wakeup_chan ch)"
  unfolding wakeup_chan_def by (intro stable_intros) simp

lemma stable_files_freeproc [stable_intros]: "stable files_of (freeproc p)"
  unfolding freeproc_def proc_freepagetable_def by (intro stable_intros; simp)

lemma stable_files_allocproc [stable_intros]: "stable files_of allocproc"
  unfolding allocproc_def allocpid_def proc_pagetable_def
  by (intro stable_intros stable_modify; simp add: files_of_def)

lemma stable_files_steps:
  "stable files_of (kwait addr)" "stable files_of (kkill pid)" "stable files_of (growproc n)" "stable files_of (sleep_on ch)"
  "stable files_of give_up" "stable files_of (run_next p)" "stable files_of (reparent p)"
proof -
  have w: "stable files_of (kwait_scan ps k addr)" for ps k
    by (induction ps arbitrary: k) (auto simp: killed_def Let_def intro!: stable_intros)
  have k: "stable files_of (kkill_scan ps pid)" for ps
    by (induction ps) (auto intro!: stable_intros)
  show "stable files_of (kwait addr)" "stable files_of (kkill pid)" "stable files_of (growproc n)" "stable files_of (sleep_on ch)"
    "stable files_of give_up" "stable files_of (reparent p)"
    unfolding kwait_def kkill_def growproc_def sleep_on_def give_up_def reparent_def
    by (intro stable_intros w k; simp)+
  show "stable files_of (run_next p)" unfolding run_next_def
    by (rule stable_modify) (auto simp: files_of_def sync_def Let_def fun_eq_iff)
qed

lemma wlp_rinv_stable: "stable files_of m \<Longrightarrow> rinv h s \<Longrightarrow> wlp m (\<lambda>_. rinv h) s"
  by (rule wlp_stable) (blast dest: rinv_files)+

lemma wlp_rinv_over: "rinv h s \<Longrightarrow> stable files_of m \<Longrightarrow> (\<And>x t. rinv h t \<Longrightarrow> wlp (f x) Q t) \<Longrightarrow> wlp (bnd m f) Q s"
  by (rule wlp_over_mono [OF wlp_rinv_stable])

lemma counts_ofile: "counts d s t \<Longrightarrow> p_ofile (procs t p) = p_ofile (procs s p)"
  by (auto simp: counts_def quiet_def wakes_fields(6))

text \<open>A descriptor of process \<open>p\<close> changes along with the count.\<close>

lemma rinv_ofile:
  assumes "rinv h s" "p < NPROC" "fd < NOFILE"
    and "procs t = (procs s)(p := (procs s p)\<lparr>p_ofile := (p_ofile (procs s p))(fd := v)\<rparr>)" "rest t = rest s"
  shows "rinv (\<lambda>f. h f + (if p_ofile (procs s p) fd = Some f then 1 else 0) - (if v = Some f then 1 else 0)) t"
  using assms by (simp add: rinv_def descriptors_upd fdsum_upd rest_eq)

lemma rinv_eq: "rinv h s \<Longrightarrow> (\<And>f. h f = h' f) \<Longrightarrow> rinv h' s"
  by (simp add: rinv_def)

lemma wlp_rinv_exit_file:
  assumes "rinv (\<lambda>_. 0) s" "p < NPROC" "fd < NOFILE"
  shows "wlp (exit_file p fd) (\<lambda>_. rinv (\<lambda>_. 0)) s"
proof (cases "p_ofile (procs s p) fd")
  case None
  then show ?thesis using assms by (simp add: exit_file_def wlp_simps)
next
  case (Some f)
  have "wlp (fileclose f) (\<lambda>_. wlp (upd_proc p (\<lambda>x. x\<lparr>p_ofile := (p_ofile x)(fd := None)\<rparr>)) (\<lambda>_. rinv (\<lambda>_. 0))) s"
  proof (rule wlp_mono [OF wlp_fileclose], rule wlp_upd_proc)
    fix t u assume t: "counts (\<lambda>g. - one f g) s t"
      and u: "procs u = (procs t)(p := (procs t p)\<lparr>p_ofile := (p_ofile (procs t p))(fd := None)\<rparr>)" "rest u = rest t"
    from rinv_ofile [OF counts_rinv [OF t assms(1)] assms(2,3) u]
    show "rinv (\<lambda>_. 0) u" using Some counts_ofile [OF t, of p] by (elim rinv_eq) auto
  qed
  then show ?thesis using Some by (simp add: exit_file_def wlp_simps)
qed

lemma wlp_rinv_kexit:
  assumes "rinv (\<lambda>_. 0) s" "curproc s < NPROC"
  shows "wlp (kexit status) (\<lambda>_. rinv (\<lambda>_. 0)) s"
proof -
  have files: "wlp (for_each [0..<NOFILE] (exit_file (curproc s))) (\<lambda>_. rinv (\<lambda>_. 0)) s"
    by (rule wlp_for_each [where I = "\<lambda>_. rinv (\<lambda>_. 0)", OF wlp_rinv_exit_file]) (use assms in auto)
  show ?thesis
    unfolding kexit_def Let_def
    apply (rule wlp_get_over, rule wlp_cases, simp add: wlp_simps)
    apply (rule wlp_over_mono [OF files])
    apply (rule wlp_rinv_stable [rotated], assumption)
    apply (intro stable_intros stable_files_steps; simp)
    done
qed

definition fork_files :: "nat \<Rightarrow> nat \<Rightarrow> 'z file_st_scheme \<Rightarrow> bool" where
  "fork_files np i s \<longleftrightarrow> rinv (\<lambda>_. 0) s \<and> np < NPROC \<and> (\<forall>j<NOFILE. i \<le> j \<longrightarrow> p_ofile (procs s np) j = None)"

lemma fork_files_stable: "fork_files np i s \<Longrightarrow> files_of t = files_of s \<Longrightarrow> fork_files np i t"
  using rinv_files [of t s] by (auto simp: fork_files_def files_of_def fun_eq_iff)

lemma wlp_fork_over:
  assumes "fork_files np i s" "stable files_of m" "\<And>x t. fork_files np i t \<Longrightarrow> wlp (f x) Q t"
  shows "wlp (bnd m f) Q s"
  by (rule wlp_over_mono [OF wlp_stable [OF assms(2), of _ "\<lambda>_. fork_files np i"] assms(3)])
    (use assms(1) fork_files_stable in blast)+

lemma wlp_fork_files:
  assumes "fork_files np i s" "i < NOFILE"
  shows "wlp (fork_file p np i) (\<lambda>_. fork_files np (Suc i)) s"
proof (cases "p_ofile (procs s p) i")
  case None
  then show ?thesis using assms by (simp add: fork_file_def wlp_simps fork_files_def)
next
  case (Some f)
  have s: "rinv (\<lambda>_. 0) s" "np < NPROC" "p_ofile (procs s np) i = None" using assms by (simp_all add: fork_files_def)
  have "wlp (filedup f) (\<lambda>f. wlp (upd_proc np (\<lambda>x. x\<lparr>p_ofile := (p_ofile x)(i := Some f)\<rparr>)) (\<lambda>_. fork_files np (Suc i))) s"
  proof (rule wlp_mono [OF wlp_filedup], elim conjE, rule wlp_upd_proc)
    fix r t u assume t: "r = f" "counts (one f) s t"
      and u: "procs u = (procs t)(np := (procs t np)\<lparr>p_ofile := (p_ofile (procs t np))(i := Some r)\<rparr>)" "rest u = rest t"
    have "rinv (\<lambda>_. 0) u"
      using rinv_ofile [OF counts_rinv [OF t(2) s(1)] s(2) assms(2) u] s(3) t(1) counts_ofile [OF t(2), of np]
      by (elim rinv_eq) auto
    then show "fork_files np (Suc i) u"
      using assms(1) u counts_ofile [OF t(2), of np] by (auto simp: fork_files_def)
  qed
  then show ?thesis using Some by (simp add: fork_file_def wlp_simps)
qed

lemma wlp_rinv_kfork:
  fixes s :: "'a file_st_scheme"
  assumes "rinv (\<lambda>_. 0) s" "pinv s" "unat (nextpid s) + 1 < 2 ^ 32"
  shows "wlp kfork (\<lambda>_. rinv (\<lambda>_. 0)) s"
proof -
  have start: "rinv (\<lambda>_. 0) t" "\<And>np. r = Some np \<Longrightarrow> fork_files np 0 t" if a: "allocated s r t" for r t
  proof -
    have "files_of t = files_of s" using a by (auto simp: allocated_def same_files_def files_of_def)
    then show "rinv (\<lambda>_. 0) t" using assms(1) rinv_files by blast
    then show "fork_files np 0 t" if "r = Some np" for np
      using a that by (auto simp: allocated_def fork_files_def fresh_slot_def)
  qed
  have files: "wlp (for_each [0..<NOFILE] (fork_file p np)) (\<lambda>_. fork_files np NOFILE) t" if "fork_files np 0 t" for p np and t :: "'a file_st_scheme"
    by (rule wlp_for_each [where I = "fork_files np", OF wlp_fork_files that])
  have bytes: "stable files_of (modify (\<lambda>s :: 'a file_st_scheme. s\<lparr>mem := store_bytes (mem s) (f s) (g s) 288\<rparr>))" for f g
    by (intro stable_modify) (simp add: ff.fields)
  have tf: "stable files_of (set_tf p off v)" for p off v
    unfolding set_tf_def by (intro stable_modify) (simp add: ff.fields)
  show ?thesis
    unfolding kfork_def Let_def
    apply (rule wlp_get_over)
    apply (rule wlp_over_mono [OF wlp_allocproc [OF assms(2,3)]])
    subgoal for r t
      apply (cases r)
       apply (simp add: wlp_simps start)
      apply (simp only: option.case)
      apply (rule wlp_get_over)
      apply (rule wlp_fork_over [OF start(2) [OF _ refl] ff.stable_uvmcopy], assumption)
      apply (rule wlp_cases)
       apply (rule wlp_rinv_stable, intro stable_intros, simp add: fork_files_def)
      apply (rule wlp_fork_over, assumption, intro stable_intros, simp)
      apply (rule wlp_fork_over, assumption, rule bytes)
      apply (rule wlp_fork_over, assumption, rule tf)
      apply (rule wlp_over_mono [OF files], assumption)
      apply (rule wlp_rinv_stable)
       apply (intro stable_intros; simp add: set_name_def stable_intros)
      apply (simp add: fork_files_def)
      done
    done
qed

section \<open>Names and images\<close>

text \<open>The descriptors are counted, \<open>p\<close> runs, and nobody else holds a reference.\<close>

definition runs :: "nat \<Rightarrow> 'z file_st_scheme \<Rightarrow> bool" where
  "runs p s \<longleftrightarrow> good (\<lambda>_. 0) s \<and> curproc s = p"

lemma wlp_runs_stable: "stable tab m \<Longrightarrow> runs p s \<Longrightarrow> wlp m (\<lambda>_. runs p) s"
  by (rule wlp_stable) (auto simp: runs_def dest: good_tab, simp add: tab_eq)

lemma wlp_runs_over: "runs p s \<Longrightarrow> stable tab m \<Longrightarrow> (\<And>x t. runs p t \<Longrightarrow> wlp (f x) Q t) \<Longrightarrow> wlp (bnd m f) Q s"
  by (rule wlp_over_mono [OF wlp_runs_stable])

lemma wlp_runs_get: "runs p s \<Longrightarrow> (\<And>s'. runs p s' \<Longrightarrow> curproc s' = p \<Longrightarrow> wlp (f s') Q s') \<Longrightarrow> wlp (bnd get f) Q s"
  by (simp add: wlp_simps runs_def)

lemma wlp_runs_end: "runs p s \<Longrightarrow> stable tab m \<Longrightarrow> wlp m (\<lambda>_. good (\<lambda>_. 0)) s"
  by (rule wlp_mono [OF wlp_runs_stable]) (auto simp: runs_def)

lemma wlp_runs_upd:
  assumes "runs p s" "\<And>x. p_state (f x) = p_state x" "\<And>x. p_pid (f x) = p_pid x" "\<And>x. p_trapframe (f x) = p_trapframe x"
    "\<And>x. p_parent (f x) = p_parent x" "\<And>x. p_ofile (f x) = p_ofile x" "\<And>x. p_pagetable x \<noteq> 0 \<Longrightarrow> p_pagetable (f x) \<noteq> 0"
  shows "wlp (upd_proc p f) (\<lambda>_. runs p) s"
proof (rule wlp_upd_proc)
  fix t assume t: "procs t = (procs s)(p := f (procs s p))" "rest t = rest s"
  have s: "pinv s" "p < NPROC" "p_state (procs s p) = RUNNING" "rinv (\<lambda>_. 0) s" "curproc s = p"
    using assms(1) by (auto simp: runs_def good_def pinv_def)
  have "slot_wf (procs s p)" using s table_wfD(1) by (auto simp: pinv_def)
  then have "p_pagetable (procs s p) \<noteq> 0" using s(3) by (auto simp: slot_wf_def live_def)
  then have "pinv t" using assms s core_rest [OF t(2)]
    by (intro pinv_upd [OF s(1,2), of "f (procs s p)" t]) (auto simp: t live_def)
  moreover have "rinv (\<lambda>_. 0) t"
    using s(4) rinv_files [of t s] t assms(6) by (auto simp: files_of_def rest_eq fun_eq_iff)
  ultimately show "runs p t" using s t assms(2) by (simp add: runs_def good_def rest_eq)
qed

lemma stable_names:
  "stable tab sys_link" "stable tab sys_unlink" "stable tab sys_mkdir" "stable tab sys_mknod"
proof -
  have e: "stable tab (isdirempty_loop n dp off)" for n dp off
    by (induction n arbitrary: off) (auto intro!: stable_intros)
  show "stable tab sys_link" "stable tab sys_unlink" "stable tab sys_mkdir" "stable tab sys_mknod"
    unfolding sys_link_def link_entry_def link_bad_def sys_unlink_def unlink_bad_def unlink_entry_def isdirempty_def
      sys_mkdir_def sys_mknod_def add_nlink_def
    by (intro stable_intros stable_modify e; simp add: tf.fields)+
qed

lemma wlp_sys_chdir:
  assumes "good (\<lambda>_. 0) s"
  shows "wlp sys_chdir (\<lambda>_. good (\<lambda>_. 0)) s"
proof -
  have r: "runs (curproc s) s" using assms by (simp add: runs_def)
  show ?thesis
    unfolding sys_chdir_def
    apply (rule wlp_runs_over [OF r], intro stable_intros)
    apply (rule wlp_runs_get, assumption)
    apply (rule wlp_runs_over, assumption, intro stable_intros)
    apply (rule wlp_runs_over, assumption, intro stable_intros)
    subgoal for _ _ _ _ _ mip
      apply (cases mip; simp only: option.case)
       apply (erule wlp_runs_end, intro stable_intros)
      apply (rule wlp_runs_over, assumption, intro stable_intros)
      apply (rule wlp_runs_get, assumption)
      apply (rule wlp_cases)
       apply (erule wlp_runs_end, intro stable_intros)
      apply (rule wlp_runs_over, assumption, intro stable_intros)+
      apply (simp only:)
      apply (rule wlp_over_mono [OF wlp_runs_upd], assumption, simp_all add: wlp_simps runs_def)
      done
    done
qed

lemma wlp_exec_commit:
  assumes "runs p s" "pagetable \<noteq> 0"
  shows "wlp (exec_commit path pagetable sz sp entry oldsz argc) (\<lambda>_. runs p) s"
proof -
  have tf: "stable tab (set_tf p off v)" for p off v
    unfolding set_tf_def by (intro stable_modify) (simp add: tf.fields)
  show ?thesis
    unfolding exec_commit_def Let_def set_name_def
    apply (rule wlp_runs_get [OF assms(1)], simp only:)
    apply (rule wlp_runs_over, assumption, rule tf)
    apply (rule wlp_runs_get, assumption)
    subgoal for _ _ _ t
      apply (cases "strlen (mem t) path"; simp only: option.case)
       apply (simp add: wlp_simps)
      apply (rule wlp_over_mono [OF wlp_runs_upd], assumption, simp_all)
      apply (rule wlp_over_mono [OF wlp_runs_upd], assumption, simp_all add: assms(2))
      apply (rule wlp_runs_over, assumption, rule tf)+
      apply (rule wlp_runs_stable)
       apply (auto simp: proc_freepagetable_def intro!: stable_intros)
      done
    done
qed

lemma stable_exec [stable_intros]:
  "stable tab (exec_bad pagetable sz ip)" "stable tab (load_segments n pagetable ip' i off sz')"
  "stable tab (push_args k pagetable argv stackbase argc sp ustack)"
  "stable tab (fetch_args l uargv j argv)" "stable tab (free_args argv)"
proof -
  show "stable tab (exec_bad pagetable sz ip)" "stable tab (free_args argv)"
    unfolding exec_bad_def proc_freepagetable_def free_args_def by (auto intro!: stable_intros split: option.split)
  have l: "stable tab (loadseg_loop n pagetable va ip offset sz i)" for n pagetable va ip offset sz i
    by (induction n arbitrary: i) (auto intro!: stable_intros simp: Let_def)
  show "stable tab (load_segments n pagetable ip' i off sz')"
    by (induction n arbitrary: i off sz') (auto intro!: stable_intros l simp: loadseg_def Let_def)
  show "stable tab (push_args k pagetable argv stackbase argc sp ustack)"
    by (induction k arbitrary: argc sp ustack) (auto intro!: stable_intros simp: Let_def split: option.split)
  show "stable tab (fetch_args l uargv j argv)"
    by (induction l arbitrary: j argv) (auto intro!: stable_intros split: option.split)
qed

lemma wlp_exec_stack:
  assumes "runs p s" "pagetable \<noteq> 0"
  shows "wlp (exec_stack path argv pagetable sz entry) (\<lambda>_. runs p) s"
  unfolding exec_stack_def Let_def
  apply (rule wlp_runs_get [OF assms(1)])
  apply (rule wlp_runs_over, assumption, intro stable_intros)
  apply (rule wlp_cases, erule wlp_runs_stable [rotated], intro stable_intros)
  apply (rule wlp_runs_over, assumption, intro stable_intros)+
  subgoal for _ _ _ _ _ r
    apply (cases r; simp only: sum.case prod.case)
     apply (erule wlp_runs_stable [rotated], intro stable_intros)
    apply (clarsimp simp: wlp_basic)
    apply (intro conjI impI; (erule wlp_runs_stable [rotated], intro stable_intros; fail)?)
    apply (rule wlp_runs_over, assumption, intro stable_intros)
    apply (rule wlp_cases, erule wlp_runs_stable [rotated], intro stable_intros)
    apply (erule wlp_exec_commit [OF _ assms(2)])
    done
  done

lemma wlp_kexec:
  assumes "runs p s"
  shows "wlp (kexec path argv) (\<lambda>_. runs p) s"
  unfolding kexec_def Let_def
  apply (rule wlp_runs_over [OF assms], intro stable_intros)
  apply (rule wlp_runs_over, assumption, intro stable_intros)
  subgoal for _ _ mip
    apply (cases mip; simp only: option.case)
     apply (erule wlp_runs_stable [rotated], intro stable_intros)
    apply (rule wlp_runs_over, assumption, intro stable_intros)
    apply (rule wlp_runs_get, assumption)
    apply (rule wlp_runs_over, assumption, intro stable_intros)
    apply (rule wlp_runs_get, assumption)
    apply (rule wlp_cases, erule wlp_runs_stable [rotated], intro stable_intros)+
    apply (rule wlp_runs_over, assumption, rule stable_proc_pagetable)
    apply (rule wlp_cases, erule wlp_runs_stable [rotated], intro stable_intros)
    apply (rule wlp_runs_over, assumption, intro stable_intros)
    subgoal for _ _ _ _ _ _ _ _ _ r
      apply (cases r; simp only: sum.case)
       apply (erule wlp_runs_stable [rotated], intro stable_intros)
      apply (rule wlp_runs_over, assumption, intro stable_intros)+
      apply (erule (1) wlp_exec_stack)
      done
    done
  done

lemma wlp_sys_exec:
  assumes "good (\<lambda>_. 0) s"
  shows "wlp sys_exec (\<lambda>_. good (\<lambda>_. 0)) s"
proof -
  have r: "runs (curproc s) s" using assms by (simp add: runs_def)
  show ?thesis
    unfolding sys_exec_def
    apply (rule wlp_runs_over [OF r], intro stable_intros)
    apply (rule wlp_runs_get, assumption)
    apply (rule wlp_runs_over, assumption, intro stable_intros)
    apply (rule wlp_cases, erule wlp_runs_end, intro stable_intros)
    apply (rule wlp_runs_over, assumption, intro stable_intros)
    subgoal for _ _ _ _ _ r
      apply (cases r; simp only: sum.case)
       apply (erule wlp_runs_end, intro stable_intros)
      apply (rule wlp_over_mono [OF wlp_kexec], assumption)
      apply (erule wlp_runs_end, intro stable_intros)
      done
    done
qed

section \<open>Runs of the kernel\<close>

text \<open>
  A turn of the kernel on the file table: a complete system call of the running process, or a step of the
  process table.
\<close>

inductive file_step :: "'z cons_st_scheme \<Rightarrow> 'z cons_st_scheme \<Rightarrow> bool" where
  process: "proc_step s t \<Longrightarrow> file_step s t"
| dup: "p_state (procs s (curproc s)) = RUNNING \<Longrightarrow> sys_dup s = Inr (r, t) \<Longrightarrow> file_step s t"
| close: "p_state (procs s (curproc s)) = RUNNING \<Longrightarrow> sys_close s = Inr (r, t) \<Longrightarrow> file_step s t"
| open_call: "p_state (procs s (curproc s)) = RUNNING \<Longrightarrow> sys_open s = Inr (r, t) \<Longrightarrow> file_step s t"
| pipe: "p_state (procs s (curproc s)) = RUNNING \<Longrightarrow> sys_pipe s = Inr (r, t) \<Longrightarrow> file_step s t"
| read: "p_state (procs s (curproc s)) = RUNNING \<Longrightarrow> sys_read console_read_dev s = Inr (r, t) \<Longrightarrow> file_step s t"
| write_call: "p_state (procs s (curproc s)) = RUNNING \<Longrightarrow> sys_write console_write_dev s = Inr (r, t) \<Longrightarrow> file_step s t"
| fstat: "p_state (procs s (curproc s)) = RUNNING \<Longrightarrow> sys_fstat s = Inr (r, t) \<Longrightarrow> file_step s t"
| link: "p_state (procs s (curproc s)) = RUNNING \<Longrightarrow> sys_link s = Inr (r, t) \<Longrightarrow> file_step s t"
| unlink: "p_state (procs s (curproc s)) = RUNNING \<Longrightarrow> sys_unlink s = Inr (r, t) \<Longrightarrow> file_step s t"
| mkdir: "p_state (procs s (curproc s)) = RUNNING \<Longrightarrow> sys_mkdir s = Inr (r, t) \<Longrightarrow> file_step s t"
| mknod: "p_state (procs s (curproc s)) = RUNNING \<Longrightarrow> sys_mknod s = Inr (r, t) \<Longrightarrow> file_step s t"
| chdir: "p_state (procs s (curproc s)) = RUNNING \<Longrightarrow> sys_chdir s = Inr (r, t) \<Longrightarrow> file_step s t"
| exec: "p_state (procs s (curproc s)) = RUNNING \<Longrightarrow> sys_exec s = Inr (r, t) \<Longrightarrow> file_step s t"

lemma rinv_step: "proc_step s t \<Longrightarrow> pinv s \<Longrightarrow> rinv (\<lambda>_. 0) s \<Longrightarrow> rinv (\<lambda>_. 0) t"
proof (induction rule: proc_step.induct)
  case (fork s r t)
  then show ?case using wlpD [OF wlp_rinv_kfork] by blast
next
  case (exit s status u t)
  then show ?case using wlpD [OF wlp_rinv_kexit] by (auto simp: pinv_def)
next
  case (wakeup ch s u t)
  then show ?case using wlpD [OF wlp_rinv_stable [OF stable_files_wakeup]] by blast
qed (metis wlpD wlp_rinv_stable stable_files_steps)+

lemma file_step_inv:
  assumes "file_step s t" "pinv s \<and> rinv (\<lambda>_. 0) s"
  shows "pinv t \<and> rinv (\<lambda>_. 0) t"
proof -
  have good: "good (\<lambda>_. 0) s" if "p_state (procs s (curproc s)) = RUNNING" using that assms(2) by (simp add: good_def)
  have step: "pinv t \<and> rinv (\<lambda>_. 0) t" if "wlp m (\<lambda>_. good (\<lambda>_. 0)) s" "m s = Inr (r, t)" for m r and t :: "'a cons_st_scheme"
    using wlpD [OF that] by (simp add: good_def)
  note calls = wlp_sys_dup wlp_sys_close wlp_sys_open wlp_sys_pipe wlp_good_io wlp_sys_chdir wlp_sys_exec
    wlp_good_stable [OF stable_names(1)] wlp_good_stable [OF stable_names(2)]
    wlp_good_stable [OF stable_names(3)] wlp_good_stable [OF stable_names(4)]
  from assms(1) show ?thesis
  proof cases
    case process
    then show ?thesis using pinv_step rinv_step assms(2) by blast
  qed (rule step [OF calls(1) [OF good]] step [OF calls(2) [OF good]] step [OF calls(3) [OF good]] step [OF calls(4) [OF good]]
    step [OF calls(5) [OF good]] step [OF calls(6) [OF good]] step [OF calls(7) [OF good]] step [OF calls(8) [OF good]]
    step [OF calls(9) [OF good]] step [OF calls(10) [OF good]] step [OF calls(11) [OF good]] step [OF calls(12) [OF good]]
    step [OF calls(13) [OF good]], assumption, assumption)+
qed

lemma descriptors_bounds: "0 \<le> descriptors P f" "descriptors P f \<le> int (NPROC * NOFILE)"
proof -
  have "fdsum x f \<le> (\<Sum>fd<NOFILE. 1)" for x unfolding fdsum_def by (rule sum_mono) simp
  then have "fdsum (P p) f \<le> 16" for p by simp
  then have "descriptors P f \<le> (\<Sum>p<NPROC. 16)" unfolding descriptors_def by (intro sum_mono) simp
  then show "descriptors P f \<le> int (NPROC * NOFILE)" by simp
  show "0 \<le> descriptors P f" unfolding descriptors_def fdsum_def by (intro sum_nonneg) simp
qed


text \<open>A state in which \<^verbatim>\<open>init\<close> has one open file, at descriptor 0.\<close>

definition one_file :: cons_st where
  "one_file = file_st.extend
     ((kstate (\<lambda>_. 0) (init_table(0 := init_proc\<lparr>p_ofile := (\<lambda>_. None)(0 := Some 0)\<rparr>)))\<lparr>ftable := (\<lambda>_. blank_file)(0 := blank_file\<lparr>f_type := FD_INODE, f_ref := 1\<rparr>)\<rparr>)
     (cons_st.fields [] (\<lambda>_. 0x20) 0 0 False False 0 0x80010000)"

lemma one_file_fields [simp]:
  "procs one_file = init_table(0 := init_proc\<lparr>p_ofile := (\<lambda>_. None)(0 := Some 0)\<rparr>)" "curproc one_file = 0" "mem one_file = (\<lambda>_. 0)"
  "ftable one_file = (\<lambda>_. blank_file)(0 := blank_file\<lparr>f_type := FD_INODE, f_ref := 1\<rparr>)" "nextpid one_file = 2" "initproc one_file = Some 0"
  by (simp_all add: one_file_def kstate_def file_st.defs)

lemma one_file_counts: "pinv one_file" "\<forall>f. f_ref (ftable one_file f) = descriptors (procs one_file) f"
proof -
  show "pinv one_file"
    by (auto simp: pinv_def table_wf_def slot_wf_def init_table_def init_proc_def blank_proc_def live_def)
  have "fdsum (procs one_file p) f = (if p = 0 \<and> f = 0 then 1 else 0)" for p f
  proof -
    have "(\<Sum>fd<NOFILE. if (if fd = 0 then Some 0 else None) = Some f then 1 else 0) = (\<Sum>fd<NOFILE. if fd = 0 then if f = 0 then 1 else 0 else 0 :: int)"
      by (rule sum.cong) auto
    also have "\<dots> = (if f = 0 then 1 else 0)" by (subst sum.delta) auto
    finally show ?thesis by (auto simp: fdsum_def init_table_def init_proc_def blank_proc_def)
  qed
  then show "\<forall>f. f_ref (ftable one_file f) = descriptors (procs one_file) f"
    by (auto simp: descriptors_def blank_file_def)
qed


end
