(* ===== verification/Ring.thy ===== *)
theory Ring
  imports Xv6_Prelude
begin

text \<open>
  Ring buffers with running counters, as pipes and the queues of the disk use them: a read and a write
  counter that are never reduced, and a slot array indexed by the counters modulo the capacity. The counters
  may wrap around because the capacity divides \<open>2\<^sup>n\<close>.
\<close>

definition ring :: "nat \<Rightarrow> (nat \<Rightarrow> 'b) \<Rightarrow> 'a::len word \<Rightarrow> 'a word \<Rightarrow> 'b list" where
  "ring cap data r w = map (\<lambda>i. data (unat (r + of_nat i) mod cap)) [0..<unat (w - r)]"

lemma length_ring [simp]: "length (ring cap data r w) = unat (w - r)"
  by (simp add: ring_def)

lemma ring_nth: "i < unat (w - r) \<Longrightarrow> ring cap data r w ! i = data (unat (r + of_nat i) mod cap)"
  by (simp add: ring_def)

lemma ring_index:
  fixes a :: "'a::len word"
  assumes "cap dvd 2 ^ LENGTH('a)"
  shows "unat (a + of_nat i) mod cap = (unat a + i) mod cap"
proof -
  have "unat (a + of_nat i) = (unat a + i) mod 2 ^ LENGTH('a)" by (simp add: unat_word_ariths unat_of_nat mod_add_right_eq)
  then show ?thesis using assms by (simp add: mod_mod_cancel)
qed

lemma ring_slots:
  assumes "i < j" "j < (cap :: nat)"
  shows "(a + i) mod cap \<noteq> (a + j) mod cap"
proof
  assume "(a + i) mod cap = (a + j) mod cap"
  then have "cap dvd (a + j) - (a + i)" using assms(1) mod_eq_dvd_iff_nat [of "a + i" "a + j" cap] by simp
  then have "cap dvd j - i" by simp
  then show False using assms by (auto dest: dvd_imp_le)
qed

lemma ring_empty: "ring cap data r w = [] \<longleftrightarrow> r = w"
  by (auto simp: ring_def unat_eq_0)

text \<open>Writing behind the last element and removing the first one.\<close>

lemma ring_same [simp]: "ring cap data r r = []"
  by (simp add: ring_def)

lemma ring_push:
  fixes r w :: "'a::len word"
  assumes "cap dvd 2 ^ LENGTH('a)" "cap < 2 ^ LENGTH('a)" "unat (w - r) < cap"
  shows "ring cap (data(unat w mod cap := x)) r (w + 1) = ring cap data r w @ [x]" "unat (w + 1 - r) = Suc (unat (w - r))"
proof -
  let ?d = "unat (w - r)"
  show e: "unat (w + 1 - r) = Suc ?d"
  proof -
    have "w + 1 - r = of_nat (Suc ?d)" by (simp add: algebra_simps)
    then show ?thesis using assms(2,3) by (simp add: unat_of_nat_lt del: of_nat_Suc)
  qed
  have "w = r + of_nat ?d" by simp
  then have wr: "unat w mod cap = (unat r + ?d) mod cap" using ring_index [OF assms(1), of r ?d] by simp
  have "(data(unat w mod cap := x)) (unat (r + of_nat i) mod cap) = data (unat (r + of_nat i) mod cap)" if "i < ?d" for i
    using ring_slots [OF that assms(3), of "unat r"] by (simp add: wr ring_index [OF assms(1)])
  then show "ring cap (data(unat w mod cap := x)) r (w + 1) = ring cap data r w @ [x]"
    by (simp add: ring_def e wr ring_index [OF assms(1)])
qed

lemma ring_pop:
  fixes r w :: "'a::len word"
  assumes "r \<noteq> w"
  shows "ring cap data r w = data (unat r mod cap) # ring cap data (r + 1) w" "unat (w - (r + 1)) = unat (w - r) - 1"
proof -
  let ?d = "unat (w - r)"
  have ne: "w - r \<noteq> 0" using assms by simp
  have eq: "w - (r + 1) = (w - r) - 1" by (simp add: algebra_simps)
  show e: "unat (w - (r + 1)) = ?d - 1" unfolding eq by (rule unat_minus_one [OF ne])
  have "0 < ?d" using ne by (simp add: unat_gt_0)
  then have "[0..<?d] = 0 # map Suc [0..<?d - 1]" by (simp add: upt_conv_Cons map_Suc_upt)
  then show "ring cap data r w = data (unat r mod cap) # ring cap data (r + 1) w"
    by (simp add: ring_def e add.assoc)
qed

lemma ring_cong:
  assumes "\<And>i. i < unat (w - r) \<Longrightarrow> data (unat (r + of_nat i) mod cap) = data' (unat (r + of_nat i) mod cap)"
  shows "ring cap data r w = ring cap data' r w"
  using assms by (simp add: ring_def)

end
