(* ===== verification/Pipe_Spec.thy ===== *)
theory Pipe_Spec
  imports Ring File_Spec Proc_Spec Copy_Spec
begin

text \<open>
  A pipe is a queue of at most 512 bytes. \<open>bounded_fifo\<close> is the contract of the ring; the pipe of the
  code meets it because 512 divides \<open>2\<^sup>32\<close>, so the counters may wrap. The loops of \<^verbatim>\<open>pipewrite\<close> and
  \<^verbatim>\<open>piperead\<close> are the queue operations on the bytes of the user's range.
\<close>

section \<open>The contract of the ring\<close>

locale bounded_fifo =
  fixes elems :: "'q \<Rightarrow> 'b list" and wf :: "'q \<Rightarrow> bool" and put :: "'b \<Rightarrow> 'q \<Rightarrow> 'q" and peek :: "'q \<Rightarrow> 'b"
    and advance :: "'q \<Rightarrow> 'q" and full :: "'q \<Rightarrow> bool" and empty :: "'q \<Rightarrow> bool" and cap :: nat
  assumes fits: "wf q \<Longrightarrow> length (elems q) \<le> cap"
    and full_iff: "wf q \<Longrightarrow> full q \<longleftrightarrow> length (elems q) = cap"
    and empty_iff: "wf q \<Longrightarrow> empty q \<longleftrightarrow> elems q = []"
    and put_elems: "wf q \<Longrightarrow> \<not> full q \<Longrightarrow> elems (put b q) = elems q @ [b]"
    and put_wf: "wf q \<Longrightarrow> \<not> full q \<Longrightarrow> wf (put b q)"
    and peek_hd: "wf q \<Longrightarrow> \<not> empty q \<Longrightarrow> peek q = hd (elems q)"
    and advance_elems: "wf q \<Longrightarrow> \<not> empty q \<Longrightarrow> elems (advance q) = tl (elems q)"
    and advance_wf: "wf q \<Longrightarrow> \<not> empty q \<Longrightarrow> wf (advance q)"
begin

lemma put_all:
  "wf q \<Longrightarrow> length (elems q) + length bs \<le> cap \<Longrightarrow> elems (fold put bs q) = elems q @ bs \<and> wf (fold put bs q)"
proof (induction bs arbitrary: q)
  case Nil
  then show ?case by simp
next
  case (Cons b bs)
  then have f: "\<not> full q" using full_iff by auto
  have "length (elems (put b q)) + length bs \<le> cap" using Cons.prems f put_elems by simp
  from Cons.IH [OF put_wf [OF Cons.prems(1) f] this] show ?case using Cons.prems(1) f put_elems by simp
qed

lemma advance_all:
  "wf q \<Longrightarrow> k \<le> length (elems q) \<Longrightarrow> elems ((advance ^^ k) q) = drop k (elems q) \<and> wf ((advance ^^ k) q)"
proof (induction k)
  case 0
  then show ?case by simp
next
  case (Suc k)
  then have IH: "elems ((advance ^^ k) q) = drop k (elems q)" "wf ((advance ^^ k) q)" by simp_all
  then have e: "\<not> empty ((advance ^^ k) q)" using Suc.prems(2) empty_iff by simp
  show ?case using IH advance_elems [OF IH(2) e] advance_wf [OF IH(2) e] by (simp add: drop_Suc tl_drop)
qed

lemma put_front: "wf q \<Longrightarrow> \<not> full q \<Longrightarrow> \<not> empty q \<Longrightarrow> peek (put b q) = peek q"
  using put_elems [of q b] put_wf [of q b] empty_iff [of "put b q"] peek_hd [of "put b q"] peek_hd [of q] empty_iff [of q] by simp

end

section \<open>The pipe as a queue\<close>

definition pipe_bytes :: "pipe \<Rightarrow> 8 word list" where
  "pipe_bytes x = ring PIPESIZE (pi_data x) (pi_nread x) (pi_nwrite x)"

definition pipe_ok :: "pipe \<Rightarrow> bool" where
  "pipe_ok x \<longleftrightarrow> unat (pi_nwrite x - pi_nread x) \<le> PIPESIZE"

definition pipe_advance :: "pipe \<Rightarrow> pipe" where
  "pipe_advance x = x\<lparr>pi_nread := pi_nread x + 1\<rparr>"

definition pipe_full :: "pipe \<Rightarrow> bool" where
  "pipe_full x \<longleftrightarrow> pi_nwrite x = pi_nread x + of_nat PIPESIZE"

definition pipe_empty :: "pipe \<Rightarrow> bool" where
  "pipe_empty x \<longleftrightarrow> pi_nread x = pi_nwrite x"

interpretation pq: bounded_fifo pipe_bytes pipe_ok pipe_put pipe_peek pipe_advance pipe_full pipe_empty PIPESIZE
proof
  fix q :: pipe and b :: "8 word"
  let ?d = "unat (pi_nwrite q - pi_nread q)"
  assume ok: "pipe_ok q"
  then show "length (pipe_bytes q) \<le> PIPESIZE" by (simp add: pipe_ok_def pipe_bytes_def)
  have "pi_nwrite q = pi_nread q + of_nat PIPESIZE \<longleftrightarrow> pi_nwrite q - pi_nread q = of_nat PIPESIZE" by (simp add: algebra_simps)
  also have "\<dots> \<longleftrightarrow> ?d = PIPESIZE" by (simp add: word_unat_eq_iff)
  finally show full: "pipe_full q \<longleftrightarrow> length (pipe_bytes q) = PIPESIZE" by (simp add: pipe_full_def pipe_bytes_def)
  show empty: "pipe_empty q \<longleftrightarrow> pipe_bytes q = []" by (simp add: pipe_empty_def pipe_bytes_def ring_empty)
  show "pipe_bytes (pipe_put b q) = pipe_bytes q @ [b]" and "pipe_ok (pipe_put b q)" if "\<not> pipe_full q"
  proof -
    have d: "?d < PIPESIZE" using that full ok by (simp add: pipe_ok_def pipe_bytes_def)
    then show "pipe_bytes (pipe_put b q) = pipe_bytes q @ [b]" "pipe_ok (pipe_put b q)"
      using ring_push(1) [of PIPESIZE "pi_nwrite q" "pi_nread q" "pi_data q" b] ring_push(2) [of PIPESIZE "pi_nwrite q" "pi_nread q"]
      by (simp_all add: pipe_bytes_def pipe_ok_def pipe_put_def)
  qed
  assume "\<not> pipe_empty q"
  then have P: "pi_nread q \<noteq> pi_nwrite q" by (simp add: pipe_empty_def)
  note P = ring_pop [OF P]
  show "pipe_peek q = hd (pipe_bytes q)" "pipe_ok (pipe_advance q)" "pipe_bytes (pipe_advance q) = tl (pipe_bytes q)"
    using P(1) [of PIPESIZE "pi_data q"] P(2) ok by (simp_all add: pipe_peek_def pipe_bytes_def pipe_ok_def pipe_advance_def)
qed

section \<open>Writing\<close>

text \<open>The bytes of the user's range from byte \<open>i\<close> to byte \<open>n\<close>.\<close>

definition user_bytes :: "memory \<Rightarrow> addr \<Rightarrow> addr \<Rightarrow> int \<Rightarrow> int \<Rightarrow> 8 word list" where
  "user_bytes m root va i n = map (\<lambda>j. m (the (utrans m root (va + word_of_int j)))) [i..n - 1]"

definition mapped :: "memory \<Rightarrow> addr \<Rightarrow> addr \<Rightarrow> int \<Rightarrow> int \<Rightarrow> bool" where
  "mapped m root va i n \<longleftrightarrow> (\<forall>j. i \<le> j \<and> j < n \<longrightarrow> utrans m root (va + word_of_int j) \<noteq> None)"

lemma user_bytes_Cons:
  "i < n \<Longrightarrow> user_bytes m root va i n = m (the (utrans m root (va + word_of_int i))) # user_bytes m root va (i + 1) n"
  by (simp add: user_bytes_def upto_rec1)

lemma copyin_byte:
  assumes "pt_inv (mem s) root" "utrans (mem s) root va \<noteq> None"
  shows "copyin_obj root (\<lambda>_. 0) va 1 s = Inr ((0, \<lambda>i. if i < 1 then mem s (the (utrans (mem s) root va)) else 0), s)"
  using copyin_obj_loop_run [OF assms(1), of 1 "Suc (unat (1 :: 64 word))" va "\<lambda>_. 0" 0] assms(2)
  by (auto simp: copyin_obj_def fun_eq_iff)

lemma pipe_put_open [simp]: "pi_readopen (pipe_put b x) = pi_readopen x"
  by (simp add: pipe_put_def)

lemma pipewrite_loop_run:
  fixes s :: "'a file_st_scheme" and pi :: addr
  defines "x \<equiv> \<lambda>s :: 'a file_st_scheme. pipes s pi"
  assumes "synced s" "pt_inv (mem s) (ppagetable s)" "mapped (mem s) (ppagetable s) addr i n"
    "pi_readopen (x s)" "\<not> p_killed (procs s (curproc s))" "pipe_ok (x s)" "i \<le> n" "nat (n - i) < fuel"
  shows "let bs = user_bytes (mem s) (ppagetable s) addr i n; k = min (nat (n - i)) (PIPESIZE - length (pipe_bytes (x s))) in
    pipewrite_loop fuel pi addr n i s = Inr (if nat (n - i) \<le> PIPESIZE - length (pipe_bytes (x s)) then Inr n else Inl (i + int k),
      s\<lparr>pipes := (pipes s)(pi := fold pipe_put (take k bs) (x s)), procs := woken (ChRead pi) (curproc s) (procs s)\<rparr>)"
  using assms(2-)
proof (induction fuel arbitrary: s i)
  case 0
  then show ?case by simp
next
  case (Suc fuel)
  have x: "x s = pipes s pi" by (simp add: x_def)
  have fits: "length (pipe_bytes (pipes s pi)) \<le> PIPESIZE" using pq.fits Suc.prems(6) by (simp add: x)
  show ?case
  proof (cases "i < n")
    case False
    then have i: "i = n" using Suc.prems(7) by simp
    have "s\<lparr>pipes := pipes s, procs := P\<rparr> = s\<lparr>procs := P\<rparr>" for P by (cases s) simp
    then have e: "s\<lparr>pipes := (pipes s)(pi := pipes s pi), procs := P\<rparr> = s\<lparr>procs := P\<rparr>" for P by simp
    have "pipewrite_loop (Suc fuel) pi addr n n s = Inr (Inr n, s\<lparr>procs := woken (ChRead pi) (curproc s) (procs s)\<rparr>)"
      by (simp add: run_simps wakeup_chan_run(1) [OF Suc.prems(1)])
    then show ?thesis unfolding i x Let_def by (simp only: diff_self nat_0 min_0L take_0 fold_simps e le0 if_True)
  next
    case less: True
    show ?thesis
    proof (cases "pipe_full (pipes s pi)")
      case True
      then have "length (pipe_bytes (pipes s pi)) = PIPESIZE" using pq.full_iff Suc.prems(6) by (simp add: x)
      then have z: "PIPESIZE - length (pipe_bytes (pipes s pi)) = 0" by simp
      have "s\<lparr>pipes := pipes s, procs := P\<rparr> = s\<lparr>procs := P\<rparr>" for P by (cases s) simp
      then have e: "s\<lparr>pipes := (pipes s)(pi := pipes s pi), procs := P\<rparr> = s\<lparr>procs := P\<rparr>" for P by simp
      have "pipewrite_loop (Suc fuel) pi addr n i s = Inr (Inl i, s\<lparr>procs := woken (ChRead pi) (curproc s) (procs s)\<rparr>)"
        using less True Suc.prems(4,5) by (simp add: run_simps x pipe_full_def killed_def wakeup_chan_run(1) [OF Suc.prems(1)])
      moreover have "\<not> nat (n - i) \<le> 0" using less by simp
      ultimately show ?thesis unfolding x Let_def z by (simp only: min_0R take_0 fold_simps e if_False) simp
    next
      case False
      define b where "b = mem s (the (utrans (mem s) (ppagetable s) (addr + word_of_int i)))"
      define t where "t = s\<lparr>pipes := (pipes s)(pi := pipe_put b (pipes s pi))\<rparr>"
      have sp: "length (pipe_bytes (pipes s pi)) < PIPESIZE" using False fits pq.full_iff Suc.prems(6) by (simp add: x)
      have b: "copyin_obj (ppagetable s) (\<lambda>_. 0) (addr + word_of_int i) 1 s = Inr ((0, \<lambda>j. if j < 1 then b else 0), s)"
        unfolding b_def using Suc.prems(2,3) less by (intro copyin_byte) (auto simp: mapped_def)
      have step: "pipewrite_loop (Suc fuel) pi addr n i s = pipewrite_loop fuel pi addr n (i + 1) t"
        using less False Suc.prems(4,5) b
        by (simp add: run_simps x killed_def pipe_full_def upd_pipe_def t_def)
      have l: "length (pipe_bytes (pipe_put b (pipes s pi))) = Suc (length (pipe_bytes (pipes s pi)))"
        using pq.put_elems Suc.prems(6) False by (simp add: x)
      have t: "x t = pipe_put b (pipes s pi)" "mem t = mem s" "ppagetable t = ppagetable s" "procs t = procs s" "curproc t = curproc s"
        by (simp_all add: t_def x_def)
      have ft: "t\<lparr>pipes := (pipes t)(pi := v), procs := P\<rparr> = s\<lparr>pipes := (pipes s)(pi := v), procs := P\<rparr>" for v P
        by (simp add: t_def)
      have h: "synced t" "pt_inv (mem t) (ppagetable t)" "pi_readopen (x t)" "\<not> p_killed (procs t (curproc t))" "i + 1 \<le> n" "nat (n - (i + 1)) < fuel"
        using Suc.prems less by (simp_all add: t x) (simp add: t_def synced_def)
      have m: "mapped (mem t) (ppagetable t) addr (i + 1) n" using Suc.prems(3) by (auto simp: mapped_def t)
      have o: "pipe_ok (x t)" using pq.put_wf Suc.prems(6) False by (simp add: t x)
      note IH = Suc.IH [OF h(1,2) m h(3,4) o h(5,6)]
      define k where "k = min (nat (n - (i + 1))) (PIPESIZE - length (pipe_bytes (x t)))"
      have k: "min (nat (n - i)) (PIPESIZE - length (pipe_bytes (pipes s pi))) = Suc k"
        using less sp by (auto simp: k_def t l min_def)
      have c: "nat (n - i) \<le> PIPESIZE - length (pipe_bytes (pipes s pi)) \<longleftrightarrow> nat (n - (i + 1)) \<le> PIPESIZE - length (pipe_bytes (x t))"
        using less sp by (auto simp: t l)
      have "pipewrite_loop fuel pi addr n (i + 1) t = Inr (if nat (n - (i + 1)) \<le> PIPESIZE - length (pipe_bytes (x t)) then Inr n else Inl (i + 1 + int k),
          s\<lparr>pipes := (pipes s)(pi := fold pipe_put (take k (user_bytes (mem s) (ppagetable s) addr (i + 1) n)) (pipe_put b (pipes s pi))),
            procs := woken (ChRead pi) (curproc s) (procs s)\<rparr>)"
        using IH unfolding Let_def k_def [symmetric] t(2-5) ft unfolding t(1) .
      then show ?thesis unfolding step Let_def x k c user_bytes_Cons [OF less] b_def [symmetric] by simp
    qed
  qed
qed

section \<open>Reading\<close>

definition writable :: "memory \<Rightarrow> addr \<Rightarrow> addr \<Rightarrow> nat \<Rightarrow> nat \<Rightarrow> bool" where
  "writable m root va i n \<longleftrightarrow> (\<forall>j. i \<le> j \<and> j < n \<longrightarrow> uwrite m root (va + of_nat j)) \<and>
     (\<forall>j k. i \<le> j \<and> j < n \<and> i \<le> k \<and> k < n \<and> j \<noteq> k \<longrightarrow> utrans m root (va + of_nat j) \<noteq> utrans m root (va + of_nat k))"

lemma copyout_byte:
  fixes s :: "'a vm_st_scheme" and b :: "8 word"
  assumes "pt_inv (mem s) root" "uwrite (mem s) root va"
  defines "m \<equiv> (mem s)(the (utrans (mem s) root va) := b)"
  shows "copyout_obj root va (\<lambda>_. b) 1 s = Inr (0, s\<lparr>mem := m\<rparr>)"
    and "pt_inv m root" "utrans m root = utrans (mem s) root" "uwrite m root = uwrite (mem s) root"
proof -
  obtain t where t: "copyout_obj root va (\<lambda>_. b) 1 s = Inr (0, t)" "copied root (\<lambda>i. b) va 1 s t"
    using copyout_obj_loop_run [of s root 1 "Suc (unat (1 :: 64 word))" va "\<lambda>_. b" 0] assms(1,2) by (auto simp: copyout_obj_def)
  have u: "utrans (mem s) root va \<noteq> None" using assms(2) by (simp add: uwrite_def Let_def)
  have "mem t x = m x" for x using t(2) u by (auto simp: copied_def m_def)
  then have "mem t = m" by (simp add: fun_eq_iff)
  then show "copyout_obj root va (\<lambda>_. b) 1 s = Inr (0, s\<lparr>mem := m\<rparr>)" using t by (simp add: copied_def)
  define e where "e = leaf (mem s) root (PGROUNDDOWN va)"
  have e: "PTE2PA e \<notin> tables (mem s) root" "the (utrans (mem s) root va) = PTE2PA e + of_nat (unat (va - PGROUNDDOWN va))"
    using assms(2) by (auto simp: uwrite_def utrans_def Let_def e_def split: if_splits)
  have "unat (va - PGROUNDDOWN va) < 4096" using in_page_iff [of "PGROUNDDOWN va" va] by simp
  then have off: "unat (va - PGROUNDDOWN va) + 1 \<le> 4096" by simp
  have "store_bytes (mem s) p (\<lambda>_. b) 1 = (mem s)(p := b)" for p by (auto simp: store_bytes_def fun_eq_iff unat_eq_0)
  then have "m = store_bytes (mem s) (PTE2PA e + of_nat (unat (va - PGROUNDDOWN va))) (\<lambda>_. b) 1" by (simp add: m_def e(2))
  with store_frame [OF assms(1) e(1) off, of "\<lambda>_. b"]
  show "pt_inv m root" "utrans m root = utrans (mem s) root" "uwrite m root = uwrite (mem s) root" by simp_all
qed

text \<open>The bytes \<open>bs\<close> stored one after the other at the addresses \<open>f\<close> gives.\<close>

primrec put_at :: "memory \<Rightarrow> (nat \<Rightarrow> addr) \<Rightarrow> nat \<Rightarrow> 8 word list \<Rightarrow> memory" where
  "put_at m f i [] = m"
| "put_at m f i (b # bs) = put_at (m(f i := b)) f (Suc i) bs"

definition phys_of :: "memory \<Rightarrow> addr \<Rightarrow> addr \<Rightarrow> nat \<Rightarrow> addr" where
  "phys_of m root va j = the (utrans m root (va + of_nat j))"

lemma put_at_other: "(\<And>j. i \<le> j \<Longrightarrow> j < i + length bs \<Longrightarrow> f j \<noteq> a) \<Longrightarrow> put_at m f i bs a = m a"
proof (induction bs arbitrary: m i)
  case Nil
  then show ?case by simp
next
  case (Cons b bs)
  then have "f i \<noteq> a" by simp
  moreover have "put_at (m(f i := b)) f (Suc i) bs a = (m(f i := b)) a" using Cons.prems by (intro Cons.IH) simp
  ultimately show ?case by simp
qed

lemma put_at_here:
  assumes "inj_on f {i..<i + length bs}" "j < length bs"
  shows "put_at m f i bs (f (i + j)) = bs ! j"
  using assms
proof (induction bs arbitrary: m i j)
  case Nil
  then show ?case by simp
next
  case (Cons b bs)
  have inj: "inj_on f {Suc i..<Suc i + length bs}" using Cons.prems(1) by (rule inj_on_subset) auto
  show ?case
  proof (cases j)
    case 0
    have "put_at (m(f i := b)) f (Suc i) bs (f i) = (m(f i := b)) (f i)"
      using inj_on_eq_iff [OF Cons.prems(1), of _ i] by (intro put_at_other) auto
    then show ?thesis using 0 by simp
  next
    case (Suc k)
    then show ?thesis using Cons.IH [OF inj, of k] Cons.prems(2) by simp
  qed
qed

lemma piperead_loop_run:
  fixes s :: "'a file_st_scheme" and pi :: addr
  assumes "pt_inv (mem s) (ppagetable s)" "writable (mem s) (ppagetable s) addr i n" "pipe_ok (pipes s pi)" "i \<le> n" "n - i < fuel"
  shows "let bs = take (n - i) (pipe_bytes (pipes s pi)) in
    piperead_loop fuel pi addr (int n) (int i) s = Inr (int (i + length bs),
      s\<lparr>mem := put_at (mem s) (phys_of (mem s) (ppagetable s) addr) i bs, pipes := (pipes s)(pi := (pipe_advance ^^ length bs) (pipes s pi))\<rparr>)"
  using assms
proof (induction fuel arbitrary: s i)
  case 0
  then show ?case by simp
next
  case (Suc fuel)
  let ?x = "pipes s pi"
  have e: "s\<lparr>mem := mem s, pipes := pipes s\<rparr> = s" by (cases s) simp
  show ?case
  proof (cases "i < n \<and> \<not> pipe_empty ?x")
    case False
    then have z: "take (n - i) (pipe_bytes ?x) = []" using Suc.prems(3,4) pq.empty_iff by auto
    have r: "piperead_loop (Suc fuel) pi addr (int n) (int i) s = Inr (int i, s)"
      using False by (auto simp: run_simps pipe_empty_def)
    show ?thesis unfolding Let_def z r by (simp add: e)
  next
    case True
    let ?b = "pipe_peek ?x" and ?va = "addr + of_nat i"
    have u: "uwrite (mem s) (ppagetable s) ?va" using Suc.prems(2) True by (simp add: writable_def)
    note C = copyout_byte [OF Suc.prems(1) u, of ?b]
    define m where "m = (mem s)(the (utrans (mem s) (ppagetable s) ?va) := ?b)"
    define t where "t = s\<lparr>mem := m, pipes := (pipes s)(pi := pipe_advance ?x)\<rparr>"
    have step: "piperead_loop (Suc fuel) pi addr (int n) (int i) s = piperead_loop fuel pi addr (int n) (int (Suc i)) t"
      using True C(1) by (simp add: run_simps pipe_empty_def upd_pipe_def t_def m_def pipe_advance_def add.commute)
    have t: "pipes t pi = pipe_advance ?x" "mem t = m" "ppagetable t = ppagetable s" by (simp_all add: t_def)
    have h: "pt_inv (mem t) (ppagetable t)" "pipe_ok (pipes t pi)" "Suc i \<le> n" "n - Suc i < fuel"
      using C(2) pq.advance_wf Suc.prems(3,5) True by (auto simp: t m_def)
    have w: "writable (mem t) (ppagetable t) addr (Suc i) n"
      using Suc.prems(2) C(3,4) by (auto simp: writable_def t m_def)
    note IH = Suc.IH [OF h(1) w h(2-4)]
    define bs where "bs = take (n - Suc i) (pipe_bytes (pipe_advance ?x))"
    have bs: "take (n - i) (pipe_bytes ?x) = ?b # bs"
      using True pq.advance_elems pq.peek_hd pq.empty_iff Suc.prems(3)
      by (cases "pipe_bytes ?x") (auto simp: bs_def Suc_diff_Suc [symmetric])
    have ft: "t\<lparr>mem := m', pipes := (pipes t)(pi := v)\<rparr> = s\<lparr>mem := m', pipes := (pipes s)(pi := v)\<rparr>" for m' v
      by (simp add: t_def)
    have p: "phys_of m (ppagetable s) addr = phys_of (mem s) (ppagetable s) addr"
      using C(3) by (simp add: phys_of_def fun_eq_iff m_def)
    have "piperead_loop fuel pi addr (int n) (int (Suc i)) t = Inr (int (Suc i + length bs),
        s\<lparr>mem := put_at m (phys_of (mem s) (ppagetable s) addr) (Suc i) bs, pipes := (pipes s)(pi := (pipe_advance ^^ length bs) (pipe_advance ?x))\<rparr>)"
      using IH unfolding Let_def ft unfolding t bs_def [symmetric] p .
    then show ?thesis unfolding step Let_def bs by (simp add: m_def phys_of_def funpow_swap1)
  qed
qed

section \<open>Properties\<close>

text \<open>
  C10. \<^verbatim>\<open>pipewrite\<close> refines the append of a bounded queue: with \<open>i\<close> bytes already written it appends as many of the
  remaining bytes of the user's range as the 512-byte ring has room for, in order, whatever the counters are,
  wrapped or not. It returns \<open>n\<close> when all fit and otherwise sleeps with the queue full; sleeping readers
  become runnable in both cases, and nothing else changes.
\<close>

theorem pipewrite_appends:
  assumes "synced s" "pt_inv (mem s) (ppagetable s)" "mapped (mem s) (ppagetable s) addr i n" "pi_readopen (pipes s pi)"
    "\<not> p_killed (procs s (curproc s))" "pipe_ok (pipes s pi)" "0 \<le> i" "i \<le> n"
  defines "bs \<equiv> user_bytes (mem s) (ppagetable s) addr i n"
  defines "room \<equiv> PIPESIZE - length (pipe_bytes (pipes s pi))"
  shows "\<exists>x. pipewrite_loop (Suc (nat n)) pi addr n i s =
      Inr (if length bs \<le> room then Inr n else Inl (i + int room), s\<lparr>pipes := (pipes s)(pi := x), procs := woken (ChRead pi) (curproc s) (procs s)\<rparr>) \<and>
    pipe_ok x \<and> pipe_bytes x = pipe_bytes (pipes s pi) @ take room bs"
proof -
  have len: "length bs = nat (n - i)" by (simp add: bs_def user_bytes_def)
  define k where "k = min (nat (n - i)) room"
  define x where "x = fold pipe_put (take k bs) (pipes s pi)"
  have "length (pipe_bytes (pipes s pi)) + length (take k bs) \<le> PIPESIZE"
    using pq.fits [OF assms(6)] by (auto simp: k_def room_def)
  from pq.put_all [OF assms(6) this] have x: "pipe_bytes x = pipe_bytes (pipes s pi) @ take k bs" "pipe_ok x" by (simp_all add: x_def)
  have tk: "take k bs = take room bs" by (simp add: k_def len [symmetric] min_def)
  have "nat (n - i) < Suc (nat n)" using assms(7,8) by simp
  note R = pipewrite_loop_run [OF assms(1-6) assms(8) this, unfolded Let_def bs_def [symmetric] room_def [symmetric] k_def [symmetric] x_def [symmetric]]
  have "(if nat (n - i) \<le> room then Inr n else Inl (i + int k)) = (if length bs \<le> room then Inr n else Inl (i + int room))"
    by (simp add: k_def len)
  with R x tk show ?thesis by auto
qed

text \<open>
  C11. \<^verbatim>\<open>piperead\<close> refines the removal from a bounded queue: from a non-empty queue, or one without writers, it takes the
  first \<open>n\<close> bytes (all, when there are fewer), stores them in order at the physical addresses of the user's
  range and nowhere else, leaves the rest in the queue, wakes the writers and returns the count.
\<close>

theorem piperead_removes:
  assumes "synced s" "pt_inv (mem s) (ppagetable s)" "writable (mem s) (ppagetable s) addr 0 n" "pipe_ok (pipes s pi)"
    "pipe_bytes (pipes s pi) \<noteq> [] \<or> \<not> pi_writeopen (pipes s pi)"
  defines "bs \<equiv> take n (pipe_bytes (pipes s pi))"
  shows "\<exists>x m. piperead pi addr (int n) s =
      Inr (int (length bs), s\<lparr>mem := m, pipes := (pipes s)(pi := x), procs := woken (ChWrite pi) (curproc s) (procs s)\<rparr>) \<and>
    pipe_ok x \<and> pipe_bytes x = drop n (pipe_bytes (pipes s pi)) \<and>
    (\<forall>j<length bs. m (phys_of (mem s) (ppagetable s) addr j) = bs ! j) \<and>
    (\<forall>a. (\<forall>j<length bs. phys_of (mem s) (ppagetable s) addr j \<noteq> a) \<longrightarrow> m a = mem s a)"
proof -
  let ?f = "phys_of (mem s) (ppagetable s) addr"
  define x where "x = (pipe_advance ^^ length bs) (pipes s pi)"
  define m where "m = put_at (mem s) ?f 0 bs"
  define t where "t = s\<lparr>mem := m, pipes := (pipes s)(pi := x)\<rparr>"
  have run: "piperead_loop (Suc n) pi addr (int n) 0 s = Inr (int (length bs), t)"
    using piperead_loop_run [OF assms(2-4), of "Suc n"] by (simp add: Let_def bs_def [symmetric] x_def m_def t_def)
  have sy: "synced t" using assms(1) by (simp add: t_def synced_def)
  have ne: "\<not> (pi_nread (pipes s pi) = pi_nwrite (pipes s pi) \<and> pi_writeopen (pipes s pi))"
    using assms(5) pq.empty_iff [OF assms(4)] by (auto simp: pipe_empty_def)
  have "piperead pi addr (int n) s = Inr (int (length bs), s\<lparr>mem := m, pipes := (pipes s)(pi := x), procs := woken (ChWrite pi) (curproc s) (procs s)\<rparr>)"
    using ne by (simp add: piperead_def run_simps run wakeup_chan_run(1) [OF sy] del: piperead_loop.simps de_Morgan_conj) (simp add: t_def)
  moreover have "pipe_ok x \<and> pipe_bytes x = drop n (pipe_bytes (pipes s pi))"
    using pq.advance_all [OF assms(4), of "length bs"] by (auto simp: x_def bs_def min_def)
  moreover have "inj_on ?f {0..<0 + length bs}"
  proof (rule inj_onI, rule ccontr)
    fix j k assume jk: "j \<in> {0..<0 + length bs}" "k \<in> {0..<0 + length bs}" "?f j = ?f k" "j \<noteq> k"
    then have lt: "j < n" "k < n" by (auto simp: bs_def)
    have "utrans (mem s) (ppagetable s) (addr + of_nat i) \<noteq> None" if "i < n" for i
      using assms(3) that by (auto simp: writable_def uwrite_def Let_def)
    from this [OF lt(1)] this [OF lt(2)] jk(3)
    have "utrans (mem s) (ppagetable s) (addr + of_nat j) = utrans (mem s) (ppagetable s) (addr + of_nat k)"
      by (auto simp: phys_of_def)
    then show False using assms(3) lt jk(4) by (auto simp: writable_def)
  qed
  ultimately show ?thesis using put_at_here [of ?f 0 bs _ "mem s"] put_at_other [of 0 bs ?f _ "mem s"] unfolding m_def by auto
qed

text \<open>
  \<^verbatim>\<open>init\<close> with one user page and an empty pipe whose counters are about to wrap.
\<close>

definition pipe_st :: "memory \<Rightarrow> pipe \<Rightarrow> file_st" where
  "pipe_st m x = (kstate m init_table)\<lparr>pipes := (\<lambda>_. blank_pipe)(0x87010000 := x)\<rparr>"

definition late_pipe :: pipe where
  "late_pipe = blank_pipe\<lparr>pi_nread := 0xFFFFFFFF, pi_nwrite := 0xFFFFFFFF\<rparr>"

lemma pipe_st_fields [simp]:
  "mem (pipe_st m x) = m" "ppagetable (pipe_st m x) = 0x87000000" "pipes (pipe_st m x) 0x87010000 = x" "procs (pipe_st m x) = init_table"
  "curproc (pipe_st m x) = 0"
  by (simp_all add: pipe_st_def init_table_def init_proc_def)

lemma pipe_st_synced: "synced (pipe_st m x)"
  by (simp add: synced_def pipe_st_def init_table_def init_proc_def blank_proc_def)

lemma late_pipe_empty: "pipe_ok late_pipe" "pipe_bytes late_pipe = []" "pi_readopen late_pipe"
  by (simp_all add: pipe_ok_def pipe_bytes_def ring_empty late_pipe_def blank_pipe_def)

lemma not_killed: "\<not> p_killed (init_table 0)"
  by (simp add: init_table_def init_proc_def blank_proc_def)

theorem pipewrite_appends_witness:
  "\<exists>m p x t. pipewrite_loop 3 0x87010000 16 2 0 (pipe_st m late_pipe) = Inr (Inr 2, t) \<and> pipes t 0x87010000 = x \<and>
     pipe_ok x \<and> pipe_bytes x = [m (p + 16), m (p + 17)]"
proof -
  obtain m p where u: "pt_inv m 0x87000000" "\<And>va. va < PGSIZE \<Longrightarrow> utrans m 0x87000000 va = Some (p + va)"
    using one_user_page by metis
  have map: "mapped m 0x87000000 16 0 2"
  proof -
    have "utrans m 0x87000000 (16 + word_of_int j) \<noteq> None" if "0 \<le> j" "j < 2" for j
    proof -
      have "j = 0 \<or> j = 1" using that by auto
      then show ?thesis using u(2) [of 16] u(2) [of 17] by auto
    qed
    then show ?thesis by (simp add: mapped_def)
  qed
  have bytes: "user_bytes m 0x87000000 16 0 2 = [m (p + 16), m (p + 17)]"
    using u(2) [of 16] u(2) [of 17] by (simp add: user_bytes_def upto_rec1)
  have "\<exists>x. pipewrite_loop (Suc (nat 2)) 0x87010000 16 2 0 (pipe_st m late_pipe) =
      Inr (Inr 2, (pipe_st m late_pipe)\<lparr>pipes := (pipes (pipe_st m late_pipe))(0x87010000 := x), procs := woken (ChRead 0x87010000) 0 init_table\<rparr>) \<and>
    pipe_ok x \<and> pipe_bytes x = [m (p + 16), m (p + 17)]"
    using pipewrite_appends [where s = "pipe_st m late_pipe" and addr = 16 and i = 0 and n = 2 and pi = "0x87010000"]
      pipe_st_synced u(1) map late_pipe_empty not_killed by (simp add: bytes del: pipewrite_loop.simps)
  then obtain x where x: "pipewrite_loop (Suc (nat 2)) 0x87010000 16 2 0 (pipe_st m late_pipe) =
      Inr (Inr 2, (pipe_st m late_pipe)\<lparr>pipes := (pipes (pipe_st m late_pipe))(0x87010000 := x), procs := woken (ChRead 0x87010000) 0 init_table\<rparr>)"
    "pipe_ok x" "pipe_bytes x = [m (p + 16), m (p + 17)]" by blast
  have "Suc (nat 2) = 3" by simp
  show ?thesis by (intro exI conjI, rule x(1) [unfolded \<open>Suc (nat 2) = 3\<close>], simp, rule x(2), rule x(3))
qed

theorem piperead_removes_witness:
  "\<exists>m p t. piperead 0x87010000 16 1 (pipe_st m (pipe_put 7 (pipe_put 5 late_pipe))) = Inr (1, t) \<and>
     mem t (p + 16) = 5 \<and> pipe_bytes (pipes t 0x87010000) = [7]"
proof -
  obtain m p where u: "pt_inv m 0x87000000" "\<And>va. va < PGSIZE \<Longrightarrow> utrans m 0x87000000 va = Some (p + va)"
    "\<And>va. va < PGSIZE \<Longrightarrow> uwrite m 0x87000000 va" using one_user_page by metis
  let ?x = "pipe_put 7 (pipe_put 5 late_pipe)"
  have x: "pipe_bytes ?x = [5, 7]" "pipe_ok ?x"
    using pq.put_all [OF late_pipe_empty(1), of "[5, 7]"] by (simp_all add: late_pipe_empty)
  have w: "writable m 0x87000000 16 0 1" using u(3) [of 16] by (auto simp: writable_def)
  have f: "phys_of m 0x87000000 16 0 = p + 16" using u(2) [of 16] by (simp add: phys_of_def)
  have "\<exists>t. piperead 0x87010000 16 1 (pipe_st m ?x) = Inr (1, t) \<and> mem t (p + 16) = 5 \<and> pipe_bytes (pipes t 0x87010000) = [7]"
    using piperead_removes [where s = "pipe_st m ?x" and addr = 16 and n = 1 and pi = "0x87010000"] pipe_st_synced u(1) w x by (auto simp: f)
  then show ?thesis by blast
qed

end
