(* ===== verification/Console_Spec.thy ===== *)
theory Console_Spec
  imports Console Sample
begin

text \<open>
  What the console prints. \<open>emits m bs x\<close> says that \<open>m\<close> returns \<open>x\<close> after it sent exactly the bytes \<open>bs\<close> to the
  UART. The reference for \<^verbatim>\<open>printf\<close> is the function \<open>formatted\<close> from format and arguments to bytes, with
  numbers in positional notation.
\<close>

section \<open>Sending bytes\<close>

text \<open>The device becomes ready within the polls allowed for a character, and the console is not locked.\<close>

definition uart_ready :: "'z cons_st_scheme \<Rightarrow> bool" where
  "uart_ready s \<longleftrightarrow> (\<forall>r. \<exists>k<uart_limit s. uart_lsr s (r + k) AND 0x20 \<noteq> 0) \<and> \<not> cons_locked s"

definition sent :: "'z cons_st_scheme \<Rightarrow> nat \<Rightarrow> 8 word list \<Rightarrow> 'z cons_st_scheme" where
  "sent s r bs = s\<lparr>uart_log := uart_log s @ map (Pair 0) bs, uart_reads := r\<rparr>"

definition emits :: "('z cons_st_scheme, 'a) km \<Rightarrow> 8 word list \<Rightarrow> 'a \<Rightarrow> bool" where
  "emits m bs x \<longleftrightarrow> (\<forall>s. uart_ready s \<longrightarrow> (\<exists>r. m s = Inr (x, sent s r bs)))"

lemma uart_ready_sent [simp]: "uart_ready (sent s r bs) = uart_ready s"
  by (simp add: uart_ready_def sent_def)

lemma sent_sent: "sent (sent s r bs) r' cs = sent s r' (bs @ cs)"
  by (simp add: sent_def)

lemma emits_ret: "emits (ret x) [] x"
  unfolding emits_def
proof (intro allI impI exI)
  fix s :: "'a cons_st_scheme"
  show "ret x s = Inr (x, sent s (uart_reads s) [])" by (cases s) (simp add: ret_def sent_def)
qed

lemma emits_skip: "emits skip [] ()"
  using emits_ret [of "()"] unfolding skip_def ret_def .

lemma emits_bnd:
  assumes "emits m bs x" "emits (f x) cs y"
  shows "emits (bnd m f) (bs @ cs) y"
  unfolding emits_def
proof (intro allI impI)
  fix s :: "'a cons_st_scheme" assume s: "uart_ready s"
  obtain r where r: "m s = Inr (x, sent s r bs)" using assms(1) s by (auto simp: emits_def)
  have "uart_ready (sent s r bs)" using s by simp
  then obtain r' where "f x (sent s r bs) = Inr (y, sent (sent s r bs) r' cs)" using assms(2) unfolding emits_def by blast
  then show "\<exists>r. bnd m f s = Inr (y, sent s r (bs @ cs))" using r by (auto simp: run_simps sent_sent)
qed

lemma emits_bnd_eq: "emits m bs x \<Longrightarrow> emits (f x) cs y \<Longrightarrow> ds = bs @ cs \<Longrightarrow> emits (bnd m f) ds y"
  using emits_bnd [of m bs x f cs y] by simp

lemma emits_for_each: "(\<And>b. b \<in> set bs \<Longrightarrow> emits (f b) (g b) ()) \<Longrightarrow> emits (for_each bs f) (concat (map g bs)) ()"
  by (induction bs) (auto intro: emits_skip emits_bnd)

lemma uart_wait_run:
  "\<exists>k<n. uart_lsr s (uart_reads s + k) AND 0x20 \<noteq> 0 \<Longrightarrow> \<exists>r. uart_wait n s = Inr ((), s\<lparr>uart_reads := r\<rparr>)"
proof (induction n arbitrary: s)
  case 0
  then show ?case by simp
next
  case (Suc n)
  show ?case
  proof (cases "uart_lsr s (uart_reads s) AND 0x20 = 0")
    case False
    then show ?thesis by (auto simp: run_simps)
  next
    case True
    let ?t = "s\<lparr>uart_reads := uart_reads s + 1\<rparr>"
    obtain k where k: "k < Suc n" "uart_lsr s (uart_reads s + k) AND 0x20 \<noteq> 0" using Suc.prems by blast
    then obtain j where j: "k = Suc j" using True by (cases k) auto
    then have "\<exists>k<n. uart_lsr ?t (uart_reads ?t + k) AND 0x20 \<noteq> 0" using k by (intro exI [of _ j]) simp
    from Suc.IH [OF this] show ?thesis using True by (auto simp: run_simps)
  qed
qed

lemma emits_consoleputc: "emits (consoleputc c) [c] ()"
  unfolding emits_def
proof (intro allI impI)
  fix s :: "'a cons_st_scheme" assume s: "uart_ready s"
  let ?t = "s\<lparr>cons_locked := True\<rparr>"
  obtain r where r: "uart_wait (uart_limit s) ?t = Inr ((), ?t\<lparr>uart_reads := r\<rparr>)"
    using uart_wait_run [of "uart_limit s" ?t] s by (auto simp: uart_ready_def)
  have "consoleputc c s = Inr ((), sent s r [c])"
    using s r by (simp add: consoleputc_def acquire_cons_def uartputc_def WriteReg_def release_cons_def run_simps uart_ready_def sent_def)
  then show "\<exists>r. consoleputc c s = Inr ((), sent s r [c])" by blast
qed

lemma emits_puts: "emits (for_each bs consoleputc) bs ()"
  using emits_for_each [of bs consoleputc "\<lambda>b. [b]", OF emits_consoleputc] by simp

section \<open>Numbers\<close>

text \<open>Positional notation, most significant digit first.\<close>

function radix :: "nat \<Rightarrow> nat \<Rightarrow> 8 word list" where
  "radix b n = (if n < b \<or> b < 2 then [digits ! (n mod b)] else radix b (n div b) @ [digits ! (n mod b)])"
  by auto
termination by (relation "measure snd") auto

declare radix.simps [simp del]

lemma printint_digits_radix:
  assumes "2 \<le> unat base" "unat x < unat base ^ room" "0 < room"
  shows "\<exists>ds. printint_digits room x base = Some ds \<and> rev ds = radix (unat base) (unat x)"
  using assms(2,3)
proof (induction room arbitrary: x)
  case 0
  then show ?case by simp
next
  case (Suc room)
  show ?case
  proof (cases "unat x < unat base")
    case True
    then have "x div base = 0" by (simp add: word_unat_eq_iff unat_div)
    then show ?thesis using True by (simp add: radix.simps unat_mod)
  next
    case False
    then have nz: "x div base \<noteq> 0" using assms(1) by (simp add: word_unat_eq_iff unat_div div_eq_0_iff)
    have "unat (x div base) < unat base ^ room" using Suc.prems assms(1) by (simp add: unat_div less_mult_imp_div_less mult.commute)
    moreover have "0 < room" using Suc.prems(1) False by (cases room) auto
    ultimately obtain ds where "printint_digits room (x div base) base = Some ds" "rev ds = radix (unat base) (unat (x div base))"
      using Suc.IH by blast
    then show ?thesis using nz False assms(1) by (simp add: radix.simps [of "unat base" "unat x"] unat_mod unat_div)
  qed
qed

text \<open>The value of a digit and of a list of digits, least significant first.\<close>

definition digit_value :: "8 word \<Rightarrow> nat" where
  "digit_value d = (if d < 58 then unat d - 48 else unat d - 87)"

definition read_digits :: "nat \<Rightarrow> 8 word list \<Rightarrow> nat" where
  "read_digits base ds = foldr (\<lambda>d n. digit_value d + base * n) ds 0"

lemma all_digits: "map digit_value digits = [0..<16]" "length digits = 16"
  by code_simp+

lemma digit_value: "n < 16 \<Longrightarrow> digit_value (digits ! n) = n"
  using all_digits nth_map [of n digits digit_value] by simp

lemma printint_digits_value:
  assumes "2 \<le> unat base" "unat base \<le> 16" "printint_digits room x base = Some ds"
  shows "length ds \<le> room \<and> read_digits (unat base) ds = unat x"
  using assms(3)
proof (induction room arbitrary: x ds)
  case 0
  then show ?case by simp
next
  case (Suc room)
  have d: "digit_value (digits ! unat (x mod base)) = unat x mod unat base"
    using assms(1,2) by (subst digit_value) (auto simp: unat_mod intro: less_le_trans [OF mod_less_divisor])
  show ?case
  proof (cases "x div base = 0")
    case True
    then have "unat x < unat base" using assms(1) by (simp add: word_unat_eq_iff unat_div div_eq_0_iff)
    then show ?thesis using Suc.prems True d by (auto simp: read_digits_def)
  next
    case False
    then obtain es where es: "printint_digits room (x div base) base = Some es" "ds = digits ! unat (x mod base) # es"
      using Suc.prems by (auto split: option.splits)
    have "read_digits (unat base) ds = unat x mod unat base + unat base * (unat x div unat base)"
      using Suc.IH [OF es(1)] es(2) d by (simp add: read_digits_def unat_div)
    then show ?thesis using Suc.IH [OF es(1)] es(2) by simp
  qed
qed

lemma base10_fits: "unat (x :: 64 word) < b ^ 20" if "10 \<le> b"
proof -
  have "unat x < 2 ^ 64" using unsigned_less [of x] by simp
  also have "(2 :: nat) ^ 64 \<le> 10 ^ 20" by simp
  also have "(10 :: nat) ^ 20 \<le> b ^ 20" using that by (rule power_mono) simp
  finally show ?thesis .
qed

section \<open>Formatted output\<close>

definition int_text :: "int \<Rightarrow> 8 word list" where
  "int_text v = (if v < 0 then of_char CHR ''-'' # radix 10 (nat (- v)) else radix 10 (nat v))"

lemma emits_radix:
  assumes "10 \<le> unat base"
  shows "emits (case printint_digits 20 x base of None \<Rightarrow> stop_with OutOfBounds | Some buf \<Rightarrow> for_each (rev buf) consoleputc)
    (radix (unat base) (unat x)) ()"
proof -
  obtain ds where "printint_digits 20 x base = Some ds" "rev ds = radix (unat base) (unat x)"
    using printint_digits_radix [of base x 20] assms base10_fits [OF assms] by auto
  then show ?thesis using emits_puts [of "rev ds"] by simp
qed

lemma emits_printint_unsigned: "10 \<le> unat base \<Longrightarrow> emits (printint v base False) (radix (unat base) (unat v)) ()"
  unfolding printint_def using emits_bnd [OF emits_skip emits_radix] by simp

lemma unat_signed:
  fixes v :: "64 word"
  shows "sint v < 0 \<Longrightarrow> unat (- v) = nat (- sint v)" "0 \<le> sint v \<Longrightarrow> unat v = nat (sint v)"
proof -
  have b: "- (2 ^ 63) \<le> sint v" "sint v < 2 ^ 63" using sint_ge [of v] sint_lt [of v] by simp_all
  have w: "unat (word_of_int k :: 64 word) = nat k" if "0 \<le> k" "k \<le> 2 ^ 63" for k
    using that by (simp add: unat_eq_nat_uint uint_word_of_int)
  have "- v = word_of_int (- sint v)" "v = word_of_int (sint v)" by simp_all
  then show "sint v < 0 \<Longrightarrow> unat (- v) = nat (- sint v)" "0 \<le> sint v \<Longrightarrow> unat v = nat (sint v)"
    using w [of "- sint v"] w [of "sint v"] b by simp_all
qed

lemma emits_printint_signed: "emits (printint v 10 True) (int_text (sint v)) ()"
proof (cases "sint v < 0")
  case True
  then show ?thesis unfolding printint_def int_text_def
    using emits_bnd [OF emits_consoleputc [of "of_char CHR ''-''"] emits_radix [of 10 "- v"]] unat_signed(1) by simp
next
  case False
  then show ?thesis unfolding printint_def int_text_def
    using emits_bnd [OF emits_skip emits_radix [of 10 v]] unat_signed(2) by simp
qed

text \<open>
  The text of one conversion and the arguments left; \<open>None\<close> when the arguments do not match the format.
  A word printed by \<^verbatim>\<open>%x\<close> is an \<^verbatim>\<open>int\<close> extended with its sign to 64 bits.
\<close>

definition conversion :: "8 word \<Rightarrow> va_arg list \<Rightarrow> (8 word list \<times> va_arg list) option" where
  "conversion c ap =
     (if c = of_char CHR ''d'' then case ap of Word w # ap \<Rightarrow> Some (int_text (sint (ucast w :: 32 word)), ap) | _ \<Rightarrow> None
      else if c = of_char CHR ''x''
      then case ap of Word w # ap \<Rightarrow> Some (radix 16 (unat (scast (ucast w :: 32 word) :: 64 word)), ap) | _ \<Rightarrow> None
      else if c = of_char CHR ''p'' then case ap of Word w # ap \<Rightarrow> Some (bytes ''0x'' @ radix 16 (unat w), ap) | _ \<Rightarrow> None
      else if c = of_char CHR ''s''
      then case ap of Str s # ap \<Rightarrow> Some (s, ap) | Word w # ap \<Rightarrow> if w = 0 then Some (bytes ''(null)'', ap) else None | _ \<Rightarrow> None
      else if c = of_char CHR ''c'' then case ap of Word w # ap \<Rightarrow> Some ([ucast w], ap) | _ \<Rightarrow> None
      else if c = of_char CHR ''%'' then Some (bytes ''%'', ap)
      else Some (bytes ''%'' @ [c], ap))"

fun formatted :: "8 word list \<Rightarrow> va_arg list \<Rightarrow> 8 word list option" where
  "formatted [] ap = Some []"
| "formatted (c # fmt) ap =
     (if c \<noteq> of_char CHR ''%'' then map_option ((#) c) (formatted fmt ap)
      else case fmt of
        [] \<Rightarrow> Some []
      | d # fmt \<Rightarrow> (case conversion d ap of
          None \<Rightarrow> None
        | Some (bs, ap) \<Rightarrow> map_option ((@) bs) (formatted fmt ap)))"

lemma scast_int: "sint (scast (v :: 32 word) :: 64 word) = sint v"
  by (simp add: signed_scast_eq min_def) (simp add: sint_uint)

lemma conv_chars: "set (bytes ''dxpsc'') = {100, 120, 112, 115, 99}" "of_char CHR ''d'' = (100 :: 8 word)" "of_char CHR ''x'' = (120 :: 8 word)"
  "of_char CHR ''p'' = (112 :: 8 word)" "of_char CHR ''s'' = (115 :: 8 word)" "of_char CHR ''c'' = (99 :: 8 word)" "of_char CHR ''%'' = (37 :: 8 word)"
  "bytes ''0x'' = [48, 120]" "bytes ''%'' = [37]"
  by (simp_all add: bytes_def of_char_def)

lemma emits_va:
  "emits (va_int (Word w)) [] (scast (ucast w :: 32 word))" "emits (va_uint64 (Word w)) [] w" "emits (va_str (Str s)) [] s"
  "emits (va_str (Word 0)) [] (bytes ''(null)'')"
  by (simp_all add: va_int_def va_uint64_def va_str_def emits_ret)

lemma emits_then: "emits m [] x \<Longrightarrow> emits (f x) cs y \<Longrightarrow> emits (bnd m f) cs y"
  using emits_bnd [of m "[]" x f cs y] by simp

lemma emits_last: "emits m bs u \<Longrightarrow> emits (bnd m (\<lambda>_. ret x)) bs x"
  using emits_bnd [of m bs u "\<lambda>_. ret x" "[]" x, OF _ emits_ret] by simp

lemma ucast_low: "(ucast (scast (ucast (w :: 64 word) :: 32 word) :: 64 word) :: 8 word) = ucast w"
  by (intro bit_word_eqI) (auto simp: bit_simps)

lemma emits_convert:
  assumes "conversion c ap = Some (bs, ap')"
  shows "emits (convert c ap) bs ap'"
proof (cases "c \<in> {100, 120, 112, 115, 99}")
  case False
  have two: "emits (bnd (consoleputc 37) (\<lambda>_. bnd (consoleputc c) (\<lambda>_. ret ap))) [37, c] ap"
    using emits_bnd [OF emits_consoleputc [of 37] emits_last [OF emits_consoleputc [of c]]] by simp
  show ?thesis using False assms two emits_last [OF emits_consoleputc [of 37], where x = ap]
    by (auto simp: convert_def conversion_def conv_chars split: if_splits)
next
  case True
  then obtain a ap0 where ap: "ap = a # ap0" using assms
    by (cases ap) (auto simp: conversion_def conv_chars split: if_splits)
  have x: "emits (bnd (va_int (Word w)) (\<lambda>v. printint v 16 False)) (radix 16 (unat (scast (ucast w :: 32 word) :: 64 word))) ()" for w
    using emits_then [OF emits_va(1) emits_printint_unsigned [of 16]] by simp
  have d: "emits (bnd (va_int (Word w)) (\<lambda>v. printint v 10 True)) (int_text (sint (ucast w :: 32 word))) ()" for w
    using emits_then [OF emits_va(1) [of w], of "\<lambda>v. printint v 10 True", OF emits_printint_signed] by (simp add: scast_int)
  have p: "emits (bnd (consoleputc 48) (\<lambda>_. bnd (consoleputc 120) (\<lambda>_. bnd (va_uint64 (Word w)) (\<lambda>v. printint v 16 False))))
      ([48, 120] @ radix 16 (unat w)) ()" for w
    using emits_bnd [OF emits_consoleputc [of 48] emits_bnd [OF emits_consoleputc [of 120]
      emits_then [OF emits_va(2) [of w], of "\<lambda>v. printint v 16 False", OF emits_printint_unsigned [of 16]]]] by simp
  have s: "emits (bnd (va_str (Str t)) (\<lambda>t. for_each t consoleputc)) t ()"
    "emits (bnd (va_str (Word 0)) (\<lambda>t. for_each t consoleputc)) (bytes ''(null)'') ()" for t
    by (rule emits_then, rule emits_va, rule emits_puts)+
  have c: "emits (bnd (va_int (Word w)) (\<lambda>v. consoleputc (ucast v))) [ucast w] ()" for w
    using emits_then [OF emits_va(1) [of w], of "\<lambda>v. consoleputc (ucast v)", OF emits_consoleputc] by (simp add: ucast_low)
  show ?thesis using True assms ap emits_last [OF x] emits_last [OF d] emits_last [OF p] emits_last [OF s(1)] emits_last [OF s(2)] emits_last [OF c]
    by (auto simp: convert_def conversion_def conv_chars split: if_splits va_arg.splits)
qed

lemma emits_vprintf: "formatted fmt ap = Some bs \<Longrightarrow> emits (vprintf fmt ap) bs ()"
proof (induction fmt ap arbitrary: bs rule: formatted.induct)
  case (1 ap)
  then show ?case by (simp add: emits_skip)
next
  case (2 c fmt ap)
  show ?case
  proof (cases "c = 37")
    case False
    then obtain cs where cs: "formatted fmt ap = Some cs" "bs = c # cs" using 2 by (auto simp: conv_chars)
    then show ?thesis using emits_bnd [OF emits_consoleputc [of c] 2(1)] False by (simp add: conv_chars)
  next
    case True
    show ?thesis
    proof (cases fmt)
      case Nil
      then show ?thesis using True 2 emits_skip by (simp add: conv_chars)
    next
      case (Cons d fmt')
      then obtain xs ap' cs where "conversion d ap = Some (xs, ap')" "formatted fmt' ap' = Some cs" "bs = xs @ cs"
        using True 2 by (auto simp: conv_chars split: option.splits)
      then show ?thesis using emits_bnd [OF emits_convert 2(2)] True Cons by (simp add: conv_chars)
    qed
  qed
qed

section \<open>Properties\<close>

text \<open>
  C28. \<^verbatim>\<open>printf\<close> is equivalent to the reference: when the UART answers and the locks are free, it sends exactly
  the bytes of \<open>formatted fmt ap\<close>, in order, for every format and every matching argument list, and leaves
  the rest of the state and both locks as they were.
\<close>

theorem printf_prints_formatted:
  assumes "uart_ready s" "\<not> pr_locked s" "formatted fmt ap = Some bs"
  shows "\<exists>r. printf fmt ap s = Inr ((), s\<lparr>uart_log := uart_log s @ map (Pair 0) bs, uart_reads := r\<rparr>)"
proof -
  let ?t = "s\<lparr>pr_locked := True\<rparr>"
  have "uart_ready ?t" using assms(1) by (simp add: uart_ready_def)
  then obtain r where r: "vprintf fmt ap ?t = Inr ((), sent ?t r bs)" using emits_vprintf [OF assms(3)] unfolding emits_def by blast
  have "printf fmt ap s = Inr ((), s\<lparr>uart_log := uart_log s @ map (Pair 0) bs, uart_reads := r\<rparr>)"
    using assms(2) r by (simp add: printf_def acquire_pr_def release_pr_def run_simps sent_def)
  then show ?thesis by blast
qed

definition console_st :: cons_st where
  "console_st = file_st.extend (kstate (\<lambda>_. 0) init_table) (cons_st.fields [] (\<lambda>_. 0x20) 0 1 False False 0 0x80010000)"

lemma console_st_fields [simp]:
  "uart_log console_st = []" "uart_lsr console_st = (\<lambda>_. 0x20)" "uart_limit console_st = 1" "\<not> cons_locked console_st" "\<not> pr_locked console_st"
  by (simp_all add: console_st_def kstate_def file_st.defs cons_st.defs)

theorem printf_prints_formatted_witness:
  "\<exists>t. printf (bytes ''a%d %x%%'') [Word (- 12), Word 255] console_st = Inr ((), t) \<and> uart_log t = map (Pair 0) (bytes ''a-12 ff%'')"
proof -
  have "formatted (bytes ''a%d %x%%'') [Word (- 12), Word 255] = Some (bytes ''a-12 ff%'')" by code_simp
  moreover have "uart_ready console_st" by (simp add: uart_ready_def)
  ultimately show ?thesis using printf_prints_formatted [of console_st] by fastforce
qed

text \<open>
  C29. The digits of a 64-bit value in a base from 10 to 16 always fit in the 20 bytes of \<^verbatim>\<open>buf\<close> of \<^verbatim>\<open>printint\<close>, and
  they are the value: read back in the same base they give it exactly.
\<close>

theorem printint_fits_buffer:
  assumes "10 \<le> unat base" "unat base \<le> 16"
  shows "\<exists>ds. printint_digits 20 x base = Some ds \<and> length ds \<le> 20 \<and> read_digits (unat base) ds = unat x"
  using printint_digits_radix [of base x 20] printint_digits_value [of base 20 x] base10_fits [OF assms(1), of x] assms by auto

theorem printint_fits_buffer_witness:
  "\<exists>ds. printint_digits 20 0xFFFFFFFFFFFFFFFF 10 = Some ds \<and> length ds \<le> 20 \<and> read_digits 10 ds = 2 ^ 64 - 1"
  using printint_fits_buffer [of 10 "0xFFFFFFFFFFFFFFFF"] by simp

lemma locked_twice: "bnd acquire_cons (\<lambda>_. bnd (consoleputs (b # bs)) f) s = Inl (Panic ''acquire'')"
  by (cases "cons_locked s") (simp_all add: consoleputs_def consoleputc_def acquire_cons_def run_simps)

text \<open>
  C40. The screen operations of the console can never complete: \<^verbatim>\<open>clear_screen\<close>, \<^verbatim>\<open>goto_xy\<close> and \<^verbatim>\<open>clear_line\<close> take
  \<^verbatim>\<open>cons_lock\<close> and then print through \<^verbatim>\<open>consoleputc\<close>, which acquires the same lock, so each of them
  panics in \<^verbatim>\<open>acquire\<close> in every state.
\<close>

theorem screen_operations_panic:
  "clear_screen s = Inl (Panic ''acquire'') \<and> goto_xy x y s = Inl (Panic ''acquire'') \<and> clear_line s = Inl (Panic ''acquire'')"
  unfolding clear_screen_def goto_xy_def clear_line_def by (simp add: locked_twice)

end
