(* ===== verification/Virtio.thy ===== *)
theory Virtio
  imports Trap Ring
begin

text \<open>
  \<^verbatim>\<open>kernel/virtio_disk.c\<close>: the driver of the virtio disk. The descriptor table and the two rings, which the
  device reads by DMA, are fields of \<open>vdisk\<close>; the address in a descriptor is the object it points to. The
  register writes are listed in \<open>v_mmio\<close>, and what the device answers to reads is an argument. Sections under
  \<^verbatim>\<open>vdisk_lock\<close> are atomic: \<^verbatim>\<open>virtio_disk_rw\<close> is cut where it sleeps, into \<open>virtio_disk_submit\<close>, which returns
  \<open>None\<close> when it sleeps for descriptors, and \<open>virtio_disk_finish\<close>, which is \<open>Blocked\<close> until the interrupt
  handler has cleared \<^verbatim>\<open>b->disk\<close>.
\<close>

section \<open>State\<close>

datatype dma = DmaNull | DmaReq nat | DmaData nat | DmaStatus nat

record virtq_desc =
  d_addr :: dma
  d_len :: uint
  d_flags :: "16 word"
  d_next :: "16 word"

record virtio_blk_req =
  r_type :: uint
  r_reserved :: uint
  r_sector :: "64 word"

record vdisk =
  v_pages :: "addr \<times> addr \<times> addr"
  v_desc :: "nat \<Rightarrow> virtq_desc"
  v_avail_idx :: "16 word"
  v_avail_ring :: "nat \<Rightarrow> 16 word"
  v_used :: "16 word"
  v_used_ring :: "nat \<Rightarrow> uint"
  v_free :: "nat \<Rightarrow> bool"
  v_used_idx :: "16 word"
  v_info_b :: "nat \<Rightarrow> nat option"
  v_info_status :: "nat \<Rightarrow> 8 word"
  v_ops :: "nat \<Rightarrow> virtio_blk_req"
  v_mmio :: "(nat \<times> uint) list"

record vdisk_st = trap_st +
  vd :: vdisk

abbreviation NUM :: nat where "NUM \<equiv> 8"
abbreviation VRING_DESC_F_NEXT :: "16 word" where "VRING_DESC_F_NEXT \<equiv> 1"
abbreviation VRING_DESC_F_WRITE :: "16 word" where "VRING_DESC_F_WRITE \<equiv> 2"
abbreviation VIRTIO_BLK_T_IN :: uint where "VIRTIO_BLK_T_IN \<equiv> 0"
abbreviation VIRTIO_BLK_T_OUT :: uint where "VIRTIO_BLK_T_OUT \<equiv> 1"

definition upd_vd :: "(vdisk \<Rightarrow> vdisk) \<Rightarrow> ('z vdisk_st_scheme, unit) km" where
  "upd_vd f = modify (\<lambda>s. s\<lparr>vd := f (vd s)\<rparr>)"

text \<open>A write to register \<open>r\<close>.\<close>

definition write_reg :: "nat \<Rightarrow> uint \<Rightarrow> ('z vdisk_st_scheme, unit) km" where
  "write_reg r v = upd_vd (\<lambda>d. d\<lparr>v_mmio := v_mmio d @ [(r, v)]\<rparr>)"

section \<open>Initialisation\<close>

definition no_desc :: virtq_desc where
  "no_desc = \<lparr>d_addr = DmaNull, d_len = 0, d_flags = 0, d_next = 0\<rparr>"

text \<open>The features the driver accepts: all that the device offers but seven.\<close>

definition accept_features :: "uint \<Rightarrow> uint" where
  "accept_features offered =
     (let features = ucast offered :: 64 word;
          features = features AND NOT (push_bit 5 1);
          features = features AND NOT (push_bit 7 1);
          features = features AND NOT (push_bit 11 1);
          features = features AND NOT (push_bit 12 1);
          features = features AND NOT (push_bit 27 1);
          features = features AND NOT (push_bit 29 1);
          features = features AND NOT (push_bit 28 1)
      in ucast features)"

text \<open>Allocating the queue's pages and telling the device about them.\<close>

definition virtio_queue_init :: "('z vdisk_st_scheme, unit) km" where
  "virtio_queue_init =
     bnd kalloc (\<lambda>d. bnd kalloc (\<lambda>a. bnd kalloc (\<lambda>u.
     if d = 0 \<or> a = 0 \<or> u = 0 then panic ''virtio disk kalloc''
     else
       bnd (upd_vd (\<lambda>x. x\<lparr>v_pages := (d, a, u), v_desc := \<lambda>_. no_desc, v_avail_idx := 0, v_avail_ring := \<lambda>_. 0,
         v_used := 0, v_used_ring := \<lambda>_. 0\<rparr>)) (\<lambda>_.
       bnd (modify (\<lambda>s. s\<lparr>mem := memset (memset (memset (mem s) d 0 PGSIZE) a 0 PGSIZE) u 0 PGSIZE\<rparr>)) (\<lambda>_.
       bnd (write_reg 0x038 (of_nat NUM)) (\<lambda>_.
       bnd (write_reg 0x080 (ucast d)) (\<lambda>_.
       bnd (write_reg 0x084 (ucast (drop_bit 32 d))) (\<lambda>_.
       bnd (write_reg 0x090 (ucast a)) (\<lambda>_.
       bnd (write_reg 0x094 (ucast (drop_bit 32 a))) (\<lambda>_.
       bnd (write_reg 0x0a0 (ucast u)) (\<lambda>_.
       bnd (write_reg 0x0a4 (ucast (drop_bit 32 u))) (\<lambda>_.
       bnd (write_reg 0x044 1) (\<lambda>_.
       upd_vd (\<lambda>x. x\<lparr>v_free := \<lambda>i. if i < NUM then True else v_free x i\<rparr>))))))))))))))"

text \<open>\<open>mmio r\<close> is what the device answers when register \<open>r\<close> is read; each is read at most once.\<close>

definition virtio_disk_init :: "(nat \<Rightarrow> uint) \<Rightarrow> ('z vdisk_st_scheme, unit) km" where
  "virtio_disk_init mmio =
     (if mmio 0x000 \<noteq> 0x74726976 \<or> mmio 0x004 \<noteq> 2 \<or> mmio 0x008 \<noteq> 2 \<or> mmio 0x00c \<noteq> 0x554d4551
      then panic ''could not find virtio disk''
      else
        bnd (write_reg 0x070 0) (\<lambda>_.
        bnd (write_reg 0x070 1) (\<lambda>_.
        bnd (write_reg 0x070 (1 OR 2)) (\<lambda>_.
        bnd (write_reg 0x020 (accept_features (mmio 0x010))) (\<lambda>_.
        bnd (write_reg 0x070 (1 OR 2 OR 8)) (\<lambda>_.
        let status = mmio 0x070 in
        if status AND 8 = 0 then panic ''virtio disk FEATURES_OK unset''
        else
          bnd (write_reg 0x030 0) (\<lambda>_.
          if mmio 0x044 \<noteq> 0 then panic ''virtio disk should not be ready''
          else if mmio 0x034 = 0 then panic ''virtio disk has no queue 0''
          else if mmio 0x034 < of_nat NUM then panic ''virtio disk max queue too short''
          else
            bnd virtio_queue_init (\<lambda>_.
            write_reg 0x070 (status OR 4)))))))))"

section \<open>Descriptors\<close>

primrec find_desc :: "nat list \<Rightarrow> (nat \<Rightarrow> bool) \<Rightarrow> nat option" where
  "find_desc [] f = None"
| "find_desc (i # is) f = (if f i then Some i else find_desc is f)"

text \<open>\<open>None\<close> is the return value -1.\<close>

definition alloc_desc :: "('z vdisk_st_scheme, nat option) km" where
  "alloc_desc = bnd get (\<lambda>s.
     case find_desc [0..<NUM] (v_free (vd s)) of
       None \<Rightarrow> ret None
     | Some i \<Rightarrow> bnd (upd_vd (\<lambda>d. d\<lparr>v_free := (v_free d)(i := False)\<rparr>)) (\<lambda>_. ret (Some i)))"

definition free_desc :: "nat \<Rightarrow> ('z vdisk_st_scheme, unit) km" where
  "free_desc i =
     (if i \<ge> NUM then panic ''free_desc 1''
      else bnd get (\<lambda>s.
        if v_free (vd s) i then panic ''free_desc 2''
        else
          bnd (upd_vd (\<lambda>d. d\<lparr>v_desc := (v_desc d)(i := no_desc), v_free := (v_free d)(i := True)\<rparr>)) (\<lambda>_.
          wakeup_chan ChDisk)))"

text \<open>The loop frees another descriptor in every turn, or panics, so \<open>NUM + 1\<close> turns are enough.\<close>

primrec free_chain_loop :: "nat \<Rightarrow> nat \<Rightarrow> ('z vdisk_st_scheme, unit) km" where
  "free_chain_loop 0 i = stop_with Diverge"
| "free_chain_loop (Suc fuel) i = bnd get (\<lambda>s.
     bnd (free_desc i) (\<lambda>_.
     if d_flags (v_desc (vd s) i) AND VRING_DESC_F_NEXT \<noteq> 0
     then free_chain_loop fuel (unat (d_next (v_desc (vd s) i)))
     else skip))"

definition free_chain :: "nat \<Rightarrow> ('z vdisk_st_scheme, unit) km" where
  "free_chain i = free_chain_loop (NUM + 1) i"

primrec alloc3_loop :: "nat \<Rightarrow> nat list \<Rightarrow> ('z vdisk_st_scheme, nat list option) km" where
  "alloc3_loop 0 idx = ret (Some idx)"
| "alloc3_loop (Suc left) idx = bnd alloc_desc (\<lambda>r.
     case r of
       None \<Rightarrow> bnd (for_each idx free_desc) (\<lambda>_. ret None)
     | Some i \<Rightarrow> alloc3_loop left (idx @ [i]))"

definition alloc3_desc :: "('z vdisk_st_scheme, nat list option) km" where
  "alloc3_desc = alloc3_loop 3 []"

section \<open>Requests\<close>

text \<open>The three descriptors of a request and the command header.\<close>

definition format_request :: "nat \<Rightarrow> nat \<Rightarrow> nat \<Rightarrow> nat \<Rightarrow> bool \<Rightarrow> 64 word \<Rightarrow> vdisk \<Rightarrow> vdisk" where
  "format_request i0 i1 i2 b write sector d =
     d\<lparr>v_ops := (v_ops d)(i0 := \<lparr>r_type = (if write then VIRTIO_BLK_T_OUT else VIRTIO_BLK_T_IN), r_reserved = 0, r_sector = sector\<rparr>),
       v_desc := (v_desc d)(
         i0 := \<lparr>d_addr = DmaReq i0, d_len = 16, d_flags = VRING_DESC_F_NEXT, d_next = of_nat i1\<rparr>,
         i1 := \<lparr>d_addr = DmaData b, d_len = of_nat BSIZE,
           d_flags = (if write then 0 else VRING_DESC_F_WRITE) OR VRING_DESC_F_NEXT, d_next = of_nat i2\<rparr>,
         i2 := \<lparr>d_addr = DmaStatus i0, d_len = 1, d_flags = VRING_DESC_F_WRITE, d_next = 0\<rparr>),
       v_info_status := (v_info_status d)(i0 := 0xff)\<rparr>"

text \<open>\<^verbatim>\<open>virtio_disk_rw\<close> up to the wait for the device; the result is the head of the chain.\<close>

definition virtio_disk_submit :: "nat \<Rightarrow> bool \<Rightarrow> ('z vdisk_st_scheme, nat option) km" where
  "virtio_disk_submit b write = bnd get (\<lambda>s.
     let sector = ucast (b_blockno (bufs s b) * 2) in
     bnd alloc3_desc (\<lambda>r.
     case r of
       None \<Rightarrow> ret None
     | Some idx \<Rightarrow>
         bnd (upd_vd (format_request (idx ! 0) (idx ! 1) (idx ! 2) b write sector)) (\<lambda>_.
         bnd (upd_buf b (\<lambda>x. x\<lparr>b_disk := True\<rparr>)) (\<lambda>_.
         bnd (upd_vd (\<lambda>d. d\<lparr>v_info_b := (v_info_b d)(idx ! 0 := Some b)\<rparr>)) (\<lambda>_.
         bnd (upd_vd (\<lambda>d. d\<lparr>v_avail_ring := (v_avail_ring d)(unat (v_avail_idx d) mod NUM := of_nat (idx ! 0))\<rparr>)) (\<lambda>_.
         bnd (upd_vd (\<lambda>d. d\<lparr>v_avail_idx := v_avail_idx d + 1\<rparr>)) (\<lambda>_.
         bnd (write_reg 0x050 0) (\<lambda>_.
         ret (Some (idx ! 0))))))))))"

text \<open>The rest of \<^verbatim>\<open>virtio_disk_rw\<close>, once the request is done.\<close>

definition virtio_disk_finish :: "nat \<Rightarrow> nat \<Rightarrow> ('z vdisk_st_scheme, unit) km" where
  "virtio_disk_finish b i0 = bnd get (\<lambda>s.
     if b_disk (bufs s b) then stop_with Blocked
     else
       bnd (upd_vd (\<lambda>d. d\<lparr>v_info_b := (v_info_b d)(i0 := None)\<rparr>)) (\<lambda>_.
       free_chain i0))"

text \<open>
  The loop of \<^verbatim>\<open>virtio_disk_intr\<close> over the used ring; an identifier outside the table or a request without a
  buffer is an access outside every object.
\<close>

primrec virtio_intr_loop :: "nat \<Rightarrow> ('z vdisk_st_scheme, unit) km" where
  "virtio_intr_loop 0 = stop_with Diverge"
| "virtio_intr_loop (Suc fuel) = bnd get (\<lambda>s.
     if v_used_idx (vd s) \<noteq> v_used (vd s)
     then
       let id = unat (v_used_ring (vd s) (unat (v_used_idx (vd s)) mod NUM)) in
       if id \<ge> NUM then stop_with OutOfBounds
       else if v_info_status (vd s) id \<noteq> 0 then panic ''virtio_disk_intr status''
       else case v_info_b (vd s) id of
         None \<Rightarrow> stop_with OutOfBounds
       | Some b \<Rightarrow>
           bnd (upd_buf b (\<lambda>x. x\<lparr>b_disk := False\<rparr>)) (\<lambda>_.
           bnd (wakeup_chan (ChBuf b)) (\<lambda>_.
           bnd (upd_vd (\<lambda>d. d\<lparr>v_used_idx := v_used_idx d + 1\<rparr>)) (\<lambda>_.
           virtio_intr_loop fuel)))
     else skip)"

text \<open>\<open>istat\<close> is the interrupt status register.\<close>

definition virtio_disk_intr :: "uint \<Rightarrow> ('z vdisk_st_scheme, unit) km" where
  "virtio_disk_intr istat =
     bnd (write_reg 0x064 (istat AND 3)) (\<lambda>_.
     bnd get (\<lambda>s. virtio_intr_loop (Suc (unat (v_used (vd s) - v_used_idx (vd s))))))"

end
