(* ===== verification/Virtio_Spec.thy ===== *)
theory Virtio_Spec
  imports Virtio Frame Sample Vm_Alloc
begin

text \<open>
  The disk driver against the device. Any number of processes use \<^verbatim>\<open>virtio_disk_rw\<close> at the same time; the
  device and the interrupt handler run between their atomic sections in any order. The device is arbitrary
  within \<open>virtio_spec\<close>, the part of the virtio specification the driver relies on: it takes heads of chains from
  the available ring and completes them in any order; on a malformed chain it may do anything. The driver
  then never panics and implements the contract of the buffer cache: each request is one atomic \<open>disk_rw\<close>.
\<close>

section \<open>The system\<close>

text \<open>
  Where a process is in \<^verbatim>\<open>virtio_disk_rw\<close>: outside, asleep until descriptors are free, or waiting for the request
  with the given head.
\<close>

datatype phase = Idle | Waiting nat bool | InFlight nat bool nat

primrec buf_of :: "phase \<Rightarrow> nat option" where
  "buf_of Idle = None"
| "buf_of (Waiting b w) = Some b"
| "buf_of (InFlight b w h) = Some b"

text \<open>\<open>dev_avail\<close> is how far the device has read the available ring, \<open>dev_heads\<close> what it is working on.\<close>

record io =
  st :: vdisk_st
  phase_of :: "nat \<Rightarrow> phase"
  dev_avail :: "16 word"
  dev_heads :: "nat list"

definition chain :: "vdisk \<Rightarrow> nat \<Rightarrow> nat list" where
  "chain v h = (let i1 = unat (d_next (v_desc v h)); i2 = unat (d_next (v_desc v i1)) in [h, i1, i2])"

text \<open>
  How the device reads a chain: direction, sector, buffer and status byte; \<open>None\<close> when it is not a block
  request of one block.
\<close>

definition decode :: "vdisk \<Rightarrow> nat \<Rightarrow> (bool \<times> 64 word \<times> nat \<times> nat) option" where
  "decode v h =
     (let d0 = v_desc v h; d1 = v_desc v (unat (d_next d0)); d2 = v_desc v (unat (d_next d1)) in
      case (d_addr d0, d_addr d1, d_addr d2) of
        (DmaReq k, DmaData b, DmaStatus j) \<Rightarrow>
          (let w = (r_type (v_ops v k) = VIRTIO_BLK_T_OUT) in
           if d_flags d0 = VRING_DESC_F_NEXT \<and> d_len d0 = 16 \<and> (w \<or> r_type (v_ops v k) = VIRTIO_BLK_T_IN) \<and>
             d_flags d1 = (if w then 0 else VRING_DESC_F_WRITE) OR VRING_DESC_F_NEXT \<and> d_len d1 = of_nat BSIZE \<and>
             d_flags d2 = VRING_DESC_F_WRITE \<and> d_len d2 = 1
           then Some (w, r_sector (v_ops v k), b, j) else None)
      | _ \<Rightarrow> None)"

text \<open>The transfer of a block, the status byte and the entry of the used ring.\<close>

definition complete :: "nat \<Rightarrow> bool \<Rightarrow> 64 word \<Rightarrow> nat \<Rightarrow> nat \<Rightarrow> vdisk_st \<Rightarrow> vdisk_st" where
  "complete h w sector b j s =
     (let blk = ucast (sector div 2);
          v = (vd s)\<lparr>v_used := v_used (vd s) + 1, v_used_ring := (v_used_ring (vd s))(unat (v_used (vd s)) mod NUM := of_nat h),
            v_info_status := (v_info_status (vd s))(j := 0)\<rparr>
      in if w then s\<lparr>disk := (disk s)(blk := b_data (bufs s b)), disk_writes := disk_writes s @ [(blk, b_data (bufs s b))], vd := v\<rparr>
         else s\<lparr>bufs := upd b (\<lambda>x. x\<lparr>b_data := disk s blk\<rparr>) (bufs s), vd := v\<rparr>)"

inductive virtio_spec :: "io \<Rightarrow> io \<Rightarrow> bool" where
  fetch: "dev_avail s \<noteq> v_avail_idx (vd (st s)) \<Longrightarrow>
    virtio_spec s (s\<lparr>dev_avail := dev_avail s + 1,
      dev_heads := dev_heads s @ [unat (v_avail_ring (vd (st s)) (unat (dev_avail s) mod NUM))]\<rparr>)"
| serve: "h \<in> set (dev_heads s) \<Longrightarrow> decode (vd (st s)) h = Some (w, sector, b, j) \<Longrightarrow>
    virtio_spec s (s\<lparr>st := complete h w sector b j (st s), dev_heads := remove1 h (dev_heads s)\<rparr>)"
| chaos: "h \<in> set (dev_heads s) \<Longrightarrow> decode (vd (st s)) h = None \<Longrightarrow> virtio_spec s t"

definition device_ok :: "(io \<Rightarrow> io \<Rightarrow> bool) \<Rightarrow> bool" where
  "device_ok dev \<longleftrightarrow> (\<forall>s t. dev s t \<longrightarrow> virtio_spec s t)"

text \<open>
  A step of a process in the driver, of the device, of the interrupt handler, or of the rest of the kernel,
  which leaves the driver's data and the buffers in use alone. The caller of \<^verbatim>\<open>virtio_disk_rw\<close> holds the
  buffer's sleep lock, so no two calls share a buffer.
\<close>

inductive io_step :: "(io \<Rightarrow> io \<Rightarrow> bool) \<Rightarrow> io \<Rightarrow> io \<Rightarrow> bool" for dev where
  submit: "phase_of s p = Idle \<or> phase_of s p = Waiting b w \<Longrightarrow> (\<And>q. q \<noteq> p \<Longrightarrow> buf_of (phase_of s q) \<noteq> Some b) \<Longrightarrow>
    b_blockno (bufs (st s) b) < 0x80000000 \<Longrightarrow> virtio_disk_submit b w (st s) = Inr (r, t) \<Longrightarrow>
    io_step dev s (s\<lparr>st := t, phase_of := (phase_of s)(p := case r of None \<Rightarrow> Waiting b w | Some h \<Rightarrow> InFlight b w h)\<rparr>)"
| device: "dev s t \<Longrightarrow> io_step dev s t"
| interrupt: "virtio_disk_intr istat (st s) = Inr ((), t) \<Longrightarrow> io_step dev s (s\<lparr>st := t\<rparr>)"
| finish: "phase_of s p = InFlight b w h \<Longrightarrow> virtio_disk_finish b h (st s) = Inr ((), t) \<Longrightarrow>
    io_step dev s (s\<lparr>st := t, phase_of := (phase_of s)(p := Idle)\<rparr>)"
| kernel: "vd t = vd (st s) \<Longrightarrow> disk t = disk (st s) \<Longrightarrow> disk_writes t = disk_writes (st s) \<Longrightarrow>
    (\<And>p b. buf_of (phase_of s p) = Some b \<Longrightarrow> bufs t b = bufs (st s) b) \<Longrightarrow> io_step dev s (s\<lparr>st := t\<rparr>)"

section \<open>The driver's invariant\<close>

definition req_ok :: "vdisk \<Rightarrow> (nat \<Rightarrow> buf) \<Rightarrow> nat \<Rightarrow> bool \<Rightarrow> nat \<Rightarrow> bool" where
  "req_ok v B b w h \<longleftrightarrow> distinct (chain v h) \<and> set (chain v h) \<subseteq> {..<NUM} \<and>
     decode v h = Some (w, ucast (b_blockno (B b) * 2), b, h) \<and> d_addr (v_desc v h) = DmaReq h \<and>
     v_info_b v h = Some b \<and> b_blockno (B b) < 0x80000000"

text \<open>The requests the device has not taken yet, and those it has completed and the driver has not seen.\<close>

definition avail :: "vdisk \<Rightarrow> 16 word \<Rightarrow> nat list" where
  "avail v da = ring NUM (\<lambda>i. unat (v_avail_ring v i)) da (v_avail_idx v)"

definition used :: "vdisk \<Rightarrow> nat list" where
  "used v = ring NUM (\<lambda>i. unat (v_used_ring v i)) (v_used_idx v) (v_used v)"

definition active :: "(nat \<Rightarrow> buf) \<Rightarrow> (nat \<Rightarrow> phase) \<Rightarrow> nat set" where
  "active B ph = {h. \<exists>p b w. ph p = InFlight b w h \<and> b_disk (B b)}"

text \<open>
  Every request in flight has a well-formed chain of its own; the free descriptors are the others; a request is
  with the device exactly while its buffer is marked, in one place.
\<close>

definition drv :: "vdisk \<Rightarrow> (nat \<Rightarrow> buf) \<Rightarrow> (nat \<Rightarrow> phase) \<Rightarrow> 16 word \<Rightarrow> nat list \<Rightarrow> bool" where
  "drv v B ph da hs \<longleftrightarrow>
     (\<forall>p b w h. ph p = InFlight b w h \<longrightarrow> req_ok v B b w h) \<and>
     (\<forall>p q b. buf_of (ph p) = Some b \<longrightarrow> buf_of (ph q) = Some b \<longrightarrow> p = q) \<and>
     (\<forall>p q b w h b' w' h'. ph p = InFlight b w h \<longrightarrow> ph q = InFlight b' w' h' \<longrightarrow> p \<noteq> q \<longrightarrow>
       set (chain v h) \<inter> set (chain v h') = {}) \<and>
     (\<forall>i<NUM. v_free v i \<longleftrightarrow> (\<forall>p b w h. ph p = InFlight b w h \<longrightarrow> i \<notin> set (chain v h))) \<and>
     distinct (avail v da @ hs @ used v) \<and> set (avail v da @ hs @ used v) = active B ph \<and>
     (\<forall>h\<in>set (used v). v_info_status v h = 0)"

lemma drvI:
  assumes "\<And>p b w h. ph p = InFlight b w h \<Longrightarrow> req_ok v B b w h"
    and "\<And>p q b. buf_of (ph p) = Some b \<Longrightarrow> buf_of (ph q) = Some b \<Longrightarrow> p = q"
    and "\<And>p q b w h b' w' h'. ph p = InFlight b w h \<Longrightarrow> ph q = InFlight b' w' h' \<Longrightarrow> p \<noteq> q \<Longrightarrow> set (chain v h) \<inter> set (chain v h') = {}"
    and "\<And>i. i < NUM \<Longrightarrow> v_free v i \<longleftrightarrow> (\<forall>p b w h. ph p = InFlight b w h \<longrightarrow> i \<notin> set (chain v h))"
    and "distinct (avail v da @ hs @ used v)" "set (avail v da @ hs @ used v) = active B ph"
    and "\<And>h. h \<in> set (used v) \<Longrightarrow> v_info_status v h = 0"
  shows "drv v B ph da hs"
  unfolding drv_def by (intro conjI; (intro allI impI ballI)?; rule assms; assumption)

lemma drvD:
  assumes "drv v B ph da hs"
  shows "\<And>p b w h. ph p = InFlight b w h \<Longrightarrow> req_ok v B b w h"
    and "\<And>p q b. buf_of (ph p) = Some b \<Longrightarrow> buf_of (ph q) = Some b \<Longrightarrow> p = q"
    and "\<And>p q b w h b' w' h'. ph p = InFlight b w h \<Longrightarrow> ph q = InFlight b' w' h' \<Longrightarrow> p \<noteq> q \<Longrightarrow> set (chain v h) \<inter> set (chain v h') = {}"
    and "\<And>i. i < NUM \<Longrightarrow> v_free v i \<longleftrightarrow> (\<forall>p b w h. ph p = InFlight b w h \<longrightarrow> i \<notin> set (chain v h))"
    and "distinct (avail v da @ hs @ used v)" "set (avail v da @ hs @ used v) = active B ph"
    and "\<And>h. h \<in> set (used v) \<Longrightarrow> v_info_status v h = 0"
  by (insert assms, unfold drv_def, elim conjE) (blast | (erule allE, erule impE, assumption, assumption) | assumption)+

lemma chain_head [simp]: "h \<in> set (chain v h)"
  by (simp add: chain_def Let_def)

lemma req_ok_lt: "req_ok v B b w h \<Longrightarrow> h < NUM"
  using chain_head [of h v] unfolding req_ok_def by blast

text \<open>A chain depends on its own descriptors and its command header.\<close>

lemma desc_chain_cong: "(\<And>i. i \<in> set (chain v h) \<Longrightarrow> v_desc v' i = v_desc v i) \<Longrightarrow> chain v' h = chain v h"
  by (simp add: chain_def Let_def)

lemma req_ok_cong:
  assumes "req_ok v B b w h" "\<And>i. i \<in> set (chain v h) \<Longrightarrow> v_desc v' i = v_desc v i"
    "v_ops v' h = v_ops v h" "v_info_b v' h = v_info_b v h" "b_blockno (B' b) = b_blockno (B b)"
  shows "req_ok v' B' b w h"
proof -
  have d: "v_desc v' h = v_desc v h" "v_desc v' (unat (d_next (v_desc v h))) = v_desc v (unat (d_next (v_desc v h)))"
    "v_desc v' (unat (d_next (v_desc v (unat (d_next (v_desc v h)))))) = v_desc v (unat (d_next (v_desc v (unat (d_next (v_desc v h))))))"
    by (rule assms(2), simp add: chain_def Let_def)+
  have a: "d_addr (v_desc v h) = DmaReq h" using assms(1) by (simp add: req_ok_def)
  have "decode v' h = decode v h" using d a assms(3) by (auto simp: decode_def Let_def split: dma.split)
  then show ?thesis using assms(1,4,5) desc_chain_cong [OF assms(2)] d(1) by (simp add: req_ok_def)
qed

lemma req_eq:
  assumes "v_desc v' = v_desc v" "v_ops v' = v_ops v" "v_info_b v' = v_info_b v" "\<And>c. b_blockno (B' c) = b_blockno (B c)"
  shows "chain v' h = chain v h" "req_ok v' B' b w h = req_ok v B b w h"
  unfolding req_ok_def chain_def decode_def assms by (rule refl)+

text \<open>The descriptor table has room for the windows of both rings.\<close>

lemma drv_room:
  assumes "drv v B ph da hs"
  shows "length (avail v da) + length hs + length (used v) \<le> NUM"
    and "h < NUM \<Longrightarrow> h \<notin> active B ph \<Longrightarrow> length (avail v da) + length hs + length (used v) < NUM"
proof -
  let ?l = "avail v da @ hs @ used v"
  have sub: "set ?l \<subseteq> {..<NUM}" using drvD(1,6) [OF assms] req_ok_lt by (fastforce simp: active_def)
  have card: "card (set ?l) = length ?l" by (rule distinct_card [OF drvD(5) [OF assms]])
  show "length (avail v da) + length hs + length (used v) \<le> NUM"
    using card card_mono [OF _ sub] by simp
  show "length (avail v da) + length hs + length (used v) < NUM" if "h < NUM" "h \<notin> active B ph"
  proof -
    have "set ?l \<subseteq> {..<NUM} - {h}" using sub that(2) drvD(6) [OF assms] by auto
    then have "card (set ?l) \<le> card ({..<NUM} - {h})" by (intro card_mono) auto
    also have "\<dots> < NUM" using that(1) by simp
    finally show ?thesis using card by simp
  qed
qed

section \<open>Runs of the operations\<close>

text \<open>\<open>t\<close> agrees with \<open>s\<close> on the disk and has driver data \<open>v\<close> and buffers \<open>B\<close>.\<close>

definition becomes :: "vdisk \<Rightarrow> (nat \<Rightarrow> buf) \<Rightarrow> 'z vdisk_st_scheme \<Rightarrow> 'z vdisk_st_scheme \<Rightarrow> bool" where
  "becomes v B s t \<longleftrightarrow> vd t = v \<and> bufs t = B \<and> disk t = disk s \<and> disk_writes t = disk_writes s"

lemma becomes_trans: "becomes v B s t \<Longrightarrow> becomes v' B' t u \<Longrightarrow> becomes v' B' s u"
  by (simp add: becomes_def)

lemma wakeup_becomes: "\<exists>t. wakeup_chan ch s = Inr ((), t) \<and> becomes (vd s) (bufs s) s t"
proof -
  let ?f = "\<lambda>p. bnd get (\<lambda>s. if p \<noteq> curproc s \<and> p_state (procs s p) = SLEEPING \<and> p_chan (procs s p) = ch
     then upd_proc p (\<lambda>x. x\<lparr>p_state := RUNNABLE\<rparr>) else skip)"
  have step: "\<exists>u. ?f p s = Inr ((), u) \<and> becomes (vd s) (bufs s) s u" for p and s :: "'a vdisk_st_scheme"
    by (cases "p \<noteq> curproc s \<and> p_state (procs s p) = SLEEPING \<and> p_chan (procs s p) = ch")
      (simp_all add: run_simps upd_proc_def becomes_def sync_def Let_def)
  have "\<exists>t. for_each ps ?f s = Inr ((), t) \<and> becomes (vd s) (bufs s) s t" for ps and s :: "'a vdisk_st_scheme"
  proof (induction ps arbitrary: s)
    case Nil
    then show ?case by (simp add: run_simps becomes_def)
  next
    case (Cons p ps)
    obtain u where u: "?f p s = Inr ((), u)" "becomes (vd s) (bufs s) s u" using step by blast
    obtain t where "for_each ps ?f u = Inr ((), t)" "becomes (vd u) (bufs u) u t" using Cons.IH by blast
    then have "bnd (?f p) (\<lambda>_. for_each ps ?f) s = Inr ((), t)" "becomes (vd s) (bufs s) s t"
      using u by (auto simp: bnd_def becomes_def)
    then show ?case unfolding for_each.simps by blast
  qed
  then show ?thesis unfolding wakeup_chan_def .
qed

definition release_desc :: "nat \<Rightarrow> vdisk \<Rightarrow> vdisk" where
  "release_desc i d = d\<lparr>v_desc := (v_desc d)(i := no_desc), v_free := (v_free d)(i := True)\<rparr>"

lemma free_desc_run:
  assumes "i < NUM" "\<not> v_free (vd s) i"
  shows "\<exists>t. free_desc i s = Inr ((), t) \<and> becomes (release_desc i (vd s)) (bufs s) s t"
proof -
  let ?u = "s\<lparr>vd := release_desc i (vd s)\<rparr>"
  obtain t where "wakeup_chan ChDisk ?u = Inr ((), t)" "becomes (vd ?u) (bufs ?u) ?u t" using wakeup_becomes by blast
  then have "free_desc i s = Inr ((), t)" "becomes (release_desc i (vd s)) (bufs s) s t"
    using assms by (simp_all add: free_desc_def run_simps upd_vd_def release_desc_def becomes_def)
  then show ?thesis by blast
qed

lemma release_fields [simp]:
  "v_free (release_desc i d) j \<longleftrightarrow> j = i \<or> v_free d j" "v_desc (release_desc i d) j = (if j = i then no_desc else v_desc d j)"
  by (auto simp: release_desc_def)

lemma free_chain_run:
  assumes "chain (vd s) h = [h, i, j]" "distinct [h, i, j]" "set [h, i, j] \<subseteq> {..<NUM}" "\<And>k. k \<in> set [h, i, j] \<Longrightarrow> \<not> v_free (vd s) k"
    and "d_flags (v_desc (vd s) h) AND VRING_DESC_F_NEXT \<noteq> 0" "d_flags (v_desc (vd s) i) AND VRING_DESC_F_NEXT \<noteq> 0"
    "d_flags (v_desc (vd s) j) AND VRING_DESC_F_NEXT = 0"
  shows "\<exists>t. free_chain h s = Inr ((), t) \<and>
    becomes (release_desc j (release_desc i (release_desc h (vd s)))) (bufs s) s t"
proof -
  have n: "unat (d_next (v_desc (vd s) h)) = i" "unat (d_next (v_desc (vd s) i)) = j" using assms(1) by (auto simp: chain_def Let_def)
  obtain t where t: "free_desc h s = Inr ((), t)" "becomes (release_desc h (vd s)) (bufs s) s t"
    using free_desc_run [of h s] assms(3,4) by auto
  obtain u where u: "free_desc i t = Inr ((), u)" "becomes (release_desc i (vd t)) (bufs t) t u"
    using free_desc_run [of i t] t(2) assms(2,3,4) by (auto simp: becomes_def)
  obtain x where x: "free_desc j u = Inr ((), x)" "becomes (release_desc j (vd u)) (bufs u) u x"
    using free_desc_run [of j u] t(2) u(2) assms(2,3,4) by (auto simp: becomes_def)
  have "free_chain_loop (Suc (Suc (Suc f))) h s = Inr ((), x)" for f
    using t u x n assms(2,5-7) by (simp add: run_simps becomes_def)
  from this [of 6] have "free_chain h s = Inr ((), x)" by (simp add: free_chain_def)
  moreover have "becomes (release_desc j (release_desc i (release_desc h (vd s)))) (bufs s) s x"
    using t(2) u(2) x(2) by (simp add: becomes_def)
  ultimately show ?thesis by blast
qed

lemma find_desc_Some: "find_desc is f = Some i \<Longrightarrow> i \<in> set is \<and> f i"
  by (induction "is") (auto split: if_splits)

lemma alloc_desc_run:
  "\<exists>r t. alloc_desc s = Inr (r, t) \<and> (case r of
     None \<Rightarrow> t = s
   | Some i \<Rightarrow> i < NUM \<and> v_free (vd s) i \<and> t = s\<lparr>vd := (vd s)\<lparr>v_free := (v_free (vd s))(i := False)\<rparr>\<rparr>)"
proof (cases "find_desc [0..<NUM] (v_free (vd s))")
  case None
  then show ?thesis by (simp add: alloc_desc_def run_simps)
next
  case (Some i)
  then show ?thesis using find_desc_Some [OF Some] by (simp add: alloc_desc_def run_simps upd_vd_def)
qed

lemma fold_release:
  "fold release_desc is d = d\<lparr>v_desc := \<lambda>j. if j \<in> set is then no_desc else v_desc d j, v_free := \<lambda>j. j \<in> set is \<or> v_free d j\<rparr>"
  by (induction "is" arbitrary: d) (auto simp: release_desc_def fun_eq_iff intro!: arg_cong2 [where f = "\<lambda>x y. d\<lparr>v_desc := x, v_free := y\<rparr>" for d])

lemma free_all_run:
  "distinct is \<Longrightarrow> set is \<subseteq> {..<NUM} \<Longrightarrow> (\<And>i. i \<in> set is \<Longrightarrow> \<not> v_free (vd s) i) \<Longrightarrow>
    \<exists>t. for_each is free_desc s = Inr ((), t) \<and> becomes (fold release_desc is (vd s)) (bufs s) s t"
proof (induction "is" arbitrary: s)
  case Nil
  then show ?case by (simp add: run_simps becomes_def)
next
  case (Cons i "is")
  obtain t where t: "free_desc i s = Inr ((), t)" "becomes (release_desc i (vd s)) (bufs s) s t"
    using free_desc_run [of i s] Cons.prems by auto
  have "\<not> v_free (vd t) j" if "j \<in> set is" for j using t(2) that Cons.prems by (auto simp: becomes_def)
  then obtain u where "for_each is free_desc t = Inr ((), u)" "becomes (fold release_desc is (vd t)) (bufs t) t u"
    using Cons.IH [of t] Cons.prems by auto
  then show ?case using t by (auto simp: run_simps becomes_def)
qed

text \<open>The descriptors of \<open>is\<close> taken from the free ones.\<close>

definition taken :: "nat list \<Rightarrow> vdisk \<Rightarrow> vdisk" where
  "taken is v = v\<lparr>v_free := \<lambda>i. v_free v i \<and> i \<notin> set is\<rparr>"

definition takes :: "nat list \<Rightarrow> vdisk \<Rightarrow> bool" where
  "takes is v \<longleftrightarrow> distinct is \<and> set is \<subseteq> {..<NUM} \<and> (\<forall>i\<in>set is. v_free v i)"

lemma alloc3_loop_run:
  assumes "takes is (vd s)"
  shows "\<exists>r t. alloc3_loop left is (s\<lparr>vd := taken is (vd s)\<rparr>) = Inr (r, t) \<and> (case r of
      None \<Rightarrow> (\<exists>D. (\<forall>i. \<not> v_free (vd s) i \<longrightarrow> D i = v_desc (vd s) i) \<and> becomes ((vd s)\<lparr>v_desc := D\<rparr>) (bufs s) s t)
    | Some js \<Rightarrow> length js = length is + left \<and> takes js (vd s) \<and> t = s\<lparr>vd := taken js (vd s)\<rparr>)"
  using assms
proof (induction left arbitrary: "is")
  case 0
  then show ?case by (simp add: run_simps)
next
  case (Suc left)
  let ?u = "s\<lparr>vd := taken is (vd s)\<rparr>"
  obtain r u where r: "alloc_desc ?u = Inr (r, u)" "case r of None \<Rightarrow> u = ?u
    | Some i \<Rightarrow> i < NUM \<and> v_free (vd ?u) i \<and> u = ?u\<lparr>vd := (vd ?u)\<lparr>v_free := (v_free (vd ?u))(i := False)\<rparr>\<rparr>"
    using alloc_desc_run [of ?u] by (elim exE conjE)
  show ?case
  proof (cases r)
    case None
    then have u: "u = ?u" using r(2) by simp
    obtain t where t: "for_each is free_desc ?u = Inr ((), t)" "becomes (fold release_desc is (vd ?u)) (bufs ?u) ?u t"
      using free_all_run [of "is" ?u] Suc.prems by (auto simp: takes_def taken_def)
    define D where "D = (\<lambda>j. if j \<in> set is then no_desc else v_desc (vd s) j)"
    have f: "(\<lambda>j. j \<in> set is \<or> v_free (vd s) j \<and> j \<notin> set is) = v_free (vd s)" using Suc.prems by (auto simp: takes_def)
    have "(vd s)\<lparr>v_desc := D, v_free := v_free (vd s)\<rparr> = (vd s)\<lparr>v_desc := D\<rparr>" by (cases "vd s") simp
    then have "fold release_desc is (vd ?u) = (vd s)\<lparr>v_desc := D\<rparr>" by (simp add: fold_release taken_def D_def f cong: if_cong)
    then have "becomes ((vd s)\<lparr>v_desc := D\<rparr>) (bufs s) s t" using t(2) by (simp add: becomes_def)
    moreover have "\<forall>i. \<not> v_free (vd s) i \<longrightarrow> D i = v_desc (vd s) i" using Suc.prems by (auto simp: D_def takes_def)
    ultimately show ?thesis using r(1) None u t(1) by (auto simp: run_simps)
  next
    case (Some i)
    then have i: "i < NUM" "v_free (vd s) i" "i \<notin> set is" "u = s\<lparr>vd := taken (is @ [i]) (vd s)\<rparr>"
      using r(2) by (auto simp: taken_def fun_eq_iff intro!: arg_cong [where f = "\<lambda>F. s\<lparr>vd := (vd s)\<lparr>v_free := F\<rparr>\<rparr>"])
    have "takes (is @ [i]) (vd s)" using Suc.prems i(1-3) by (auto simp: takes_def)
    note IH = Suc.IH [OF this]
    have step: "alloc3_loop (Suc left) is ?u = alloc3_loop left (is @ [i]) (s\<lparr>vd := taken (is @ [i]) (vd s)\<rparr>)"
      using r(1) Some i(4) by (simp add: run_simps)
    from IH show ?thesis unfolding step length_append_singleton add_Suc add_Suc_right .
  qed
qed

lemma alloc3_run:
  "\<exists>r t. alloc3_desc s = Inr (r, t) \<and> (case r of
      None \<Rightarrow> (\<exists>D. (\<forall>i. \<not> v_free (vd s) i \<longrightarrow> D i = v_desc (vd s) i) \<and> becomes ((vd s)\<lparr>v_desc := D\<rparr>) (bufs s) s t)
    | Some js \<Rightarrow> \<exists>i j k. js = [i, j, k] \<and> takes [i, j, k] (vd s) \<and> t = s\<lparr>vd := taken [i, j, k] (vd s)\<rparr>)"
proof -
  have e: "s\<lparr>vd := taken [] (vd s)\<rparr> = s" by (simp add: taken_def)
  have nil: "takes [] (vd s)" by (simp add: takes_def)
  obtain r t where r: "alloc3_desc s = Inr (r, t)" "case r of
      None \<Rightarrow> (\<exists>D. (\<forall>i. \<not> v_free (vd s) i \<longrightarrow> D i = v_desc (vd s) i) \<and> becomes ((vd s)\<lparr>v_desc := D\<rparr>) (bufs s) s t)
    | Some js \<Rightarrow> length js = length ([] :: nat list) + 3 \<and> takes js (vd s) \<and> t = s\<lparr>vd := taken js (vd s)\<rparr>"
    using alloc3_loop_run [OF nil, of 3] unfolding alloc3_desc_def e by (elim exE conjE)
  have three: "\<exists>i j k. js = [i, j, k]" if "length js = 3" for js :: "nat list"
    using that by (auto simp: length_Suc_conv numeral_3_eq_3)
  show ?thesis
  proof (cases r)
    case None
    then show ?thesis using r by auto
  next
    case (Some js)
    then show ?thesis using r three [of js] by auto
  qed
qed

section \<open>The invariant is kept\<close>

text \<open>A change outside the chains in flight.\<close>

lemma drv_frame:
  assumes D: "drv v B ph da hs"
    and desc: "\<And>p b w h i. ph p = InFlight b w h \<Longrightarrow> i \<in> set (chain v h) \<Longrightarrow> v_desc v' i = v_desc v i"
    and req: "\<And>p b w h. ph p = InFlight b w h \<Longrightarrow> v_ops v' h = v_ops v h \<and> v_info_b v' h = v_info_b v h"
    and bufs: "\<And>p b w h. ph p = InFlight b w h \<Longrightarrow> b_blockno (B' b) = b_blockno (B b)"
  shows "\<And>p b w h. ph p = InFlight b w h \<Longrightarrow> chain v' h = chain v h"
    and "\<And>p b w h. ph p = InFlight b w h \<Longrightarrow> req_ok v' B' b w h"
    and "\<And>p q b w h b' w' h'. ph p = InFlight b w h \<Longrightarrow> ph q = InFlight b' w' h' \<Longrightarrow> p \<noteq> q \<Longrightarrow> set (chain v' h) \<inter> set (chain v' h') = {}"
    and "\<And>i. i < NUM \<Longrightarrow> (\<forall>p b w h. ph p = InFlight b w h \<longrightarrow> i \<notin> set (chain v' h)) \<longleftrightarrow> v_free v i"
proof -
  show c: "chain v' h = chain v h" if "ph p = InFlight b w h" for p b w h using desc [OF that] by (rule desc_chain_cong)
  show "req_ok v' B' b w h" if "ph p = InFlight b w h" for p b w h
    using req_ok_cong [OF drvD(1) [OF D that], of v' B'] desc [OF that] req [OF that] bufs [OF that] by simp
  show "set (chain v' h) \<inter> set (chain v' h') = {}" if "ph p = InFlight b w h" "ph q = InFlight b' w' h'" "p \<noteq> q" for p q b w h b' w' h'
    using drvD(3) [OF D that] c [OF that(1)] c [OF that(2)] by simp
  show "(\<forall>p b w h. ph p = InFlight b w h \<longrightarrow> i \<notin> set (chain v' h)) \<longleftrightarrow> v_free v i" if "i < NUM" for i
  proof -
    have "(\<forall>p b w h. ph p = InFlight b w h \<longrightarrow> i \<notin> set (chain v' h)) \<longleftrightarrow> (\<forall>p b w h. ph p = InFlight b w h \<longrightarrow> i \<notin> set (chain v h))"
      using c by metis
    then show ?thesis using drvD(4) [OF D that] by simp
  qed
qed

lemma in_chain_busy: "drv v B ph da hs \<Longrightarrow> ph p = InFlight b w h \<Longrightarrow> i \<in> set (chain v h) \<Longrightarrow> i < NUM \<and> \<not> v_free v i"
  using drvD(1) [of v B ph da hs p b w h] drvD(4) [of v B ph da hs i] unfolding req_ok_def by blast

lemma drv_desc:
  assumes D: "drv v B ph da hs" and "\<And>i. \<not> v_free v i \<Longrightarrow> D' i = v_desc v i"
  shows "drv (v\<lparr>v_desc := D'\<rparr>) B ph da hs"
proof -
  have d: "v_desc (v\<lparr>v_desc := D'\<rparr>) i = v_desc v i" if "ph p = InFlight b w h" "i \<in> set (chain v h)" for p b w h i
    using in_chain_busy [OF D that] assms(2) by simp
  have w: "avail (v\<lparr>v_desc := D'\<rparr>) da = avail v da" "used (v\<lparr>v_desc := D'\<rparr>) = used v" by (simp_all add: avail_def used_def)
  note F = drv_frame [OF D, of "v\<lparr>v_desc := D'\<rparr>" B, OF d]
  show ?thesis
    by (rule drvI) (use F(2,3,4) drvD(2,5,6,7) [OF D] w in simp_all)
qed

lemma drv_wait:
  assumes D: "drv v B ph da hs" and p: "\<And>b w h. ph p \<noteq> InFlight b w h" and b: "\<And>q. q \<noteq> p \<Longrightarrow> buf_of (ph q) \<noteq> Some b"
  shows "drv v B (ph(p := Waiting b w)) da hs"
proof -
  have same: "(ph(p := Waiting b w)) q = InFlight c x h \<longleftrightarrow> ph q = InFlight c x h" for q c x h using p by auto
  have act: "active B (ph(p := Waiting b w)) = active B ph" unfolding active_def same by simp
  show ?thesis
  proof (rule drvI)
    show "q = r" if "buf_of ((ph(p := Waiting b w)) q) = Some c" "buf_of ((ph(p := Waiting b w)) r) = Some c" for q r c
      using that b drvD(2) [OF D] by (auto split: if_splits)
  qed (unfold same act, (rule drvD [OF D]; assumption)+)
qed

text \<open>The buffers outside the driver may change.\<close>

lemma drv_kernel:
  assumes D: "drv v B ph da hs" and b: "\<And>p b. buf_of (ph p) = Some b \<Longrightarrow> b_blockno (B' b) = b_blockno (B b) \<and> b_disk (B' b) = b_disk (B b)"
  shows "drv v B' ph da hs"
proof -
  have "b_disk (B' b) = b_disk (B b)" "b_blockno (B' b) = b_blockno (B b)" if "ph p = InFlight b w h" for p b w h using b [of p b] that by simp_all
  then have act: "active B' ph = active B ph" unfolding active_def by blast
  show ?thesis
  proof (rule drvI)
    show "req_ok v B' b w h" if "ph p = InFlight b w h" for p b w h
      using req_ok_cong [OF drvD(1) [OF D that], of v B'] assms(2) [of p b] that by simp
  qed (unfold act, (rule drvD [OF D]; assumption)+)
qed

text \<open>The driver's data after a request was put on the available ring.\<close>

definition submitted :: "nat \<Rightarrow> nat \<Rightarrow> nat \<Rightarrow> nat \<Rightarrow> bool \<Rightarrow> 64 word \<Rightarrow> vdisk \<Rightarrow> vdisk" where
  "submitted i j k b w sector v =
     (let v = format_request i j k b w sector (taken [i, j, k] v) in
      v\<lparr>v_info_b := (v_info_b v)(i := Some b), v_avail_ring := (v_avail_ring v)(unat (v_avail_idx v) mod NUM := of_nat i),
        v_avail_idx := v_avail_idx v + 1, v_mmio := v_mmio v @ [(0x050, 0)]\<rparr>)"

lemma submitted_fields:
  fixes v :: vdisk and w :: bool and b :: nat and sector :: "64 word"
  assumes "distinct [i, j, k]" "set [i, j, k] \<subseteq> {..<NUM}"
  defines "v' \<equiv> submitted i j k b w sector v"
  shows "chain v' i = [i, j, k]" "decode v' i = Some (w, sector, b, i)" "d_addr (v_desc v' i) = DmaReq i" "v_info_b v' i = Some b"
    and "\<And>x. x \<notin> {i, j, k} \<Longrightarrow> v_desc v' x = v_desc v x"
    and "\<And>h. h \<noteq> i \<Longrightarrow> v_ops v' h = v_ops v h \<and> v_info_b v' h = v_info_b v h \<and> v_info_status v' h = v_info_status v h"
    and "v_free v' = (\<lambda>x. v_free v x \<and> x \<notin> {i, j, k})" "used v' = used v"
    and "unat (v_avail_idx v - da) < NUM \<Longrightarrow> avail v' da = avail v da @ [i]"
proof -
  have lt: "unat (of_nat x :: 16 word) = x" if "x \<in> {i, j, k}" for x
    using that assms(2) by (intro unat_of_nat_lt) (auto intro: less_le_trans)
  have ne: "i \<noteq> j" "i \<noteq> k" "j \<noteq> k" "j \<noteq> i" "k \<noteq> i" "k \<noteq> j" using assms(1) by auto
  note S = v'_def submitted_def Let_def format_request_def taken_def
  show c: "chain v' i = [i, j, k]" using lt ne by (simp add: chain_def S)
  show "decode v' i = Some (w, sector, b, i)" using lt ne by (simp add: decode_def S)
  show "d_addr (v_desc v' i) = DmaReq i" "v_info_b v' i = Some b" using ne by (simp_all add: S)
  show "v_desc v' x = v_desc v x" if "x \<notin> {i, j, k}" for x using that by (simp add: S)
  show "v_ops v' h = v_ops v h \<and> v_info_b v' h = v_info_b v h \<and> v_info_status v' h = v_info_status v h" if "h \<noteq> i" for h
    using that by (simp add: S)
  show "v_free v' = (\<lambda>x. v_free v x \<and> x \<notin> {i, j, k})" by (simp add: S)
  show "used v' = used v" by (simp add: used_def S)
  have "(\<lambda>x. unat (((v_avail_ring v)(m := of_nat i)) x)) = (\<lambda>x. unat (v_avail_ring v x))(m := i)" for m
    using lt by (simp add: fun_eq_iff)
  then show "avail v' da = avail v da @ [i]" if "unat (v_avail_idx v - da) < NUM"
    using ring_push(1) [of NUM "v_avail_idx v" da "\<lambda>x. unat (v_avail_ring v x)" i] that by (simp add: avail_def S)
qed

lemma drv_submit:
  assumes D: "drv v B ph da hs" and t: "takes [i, j, k] v" and p: "\<And>b w h. ph p \<noteq> InFlight b w h"
    and b: "\<And>q. q \<noteq> p \<Longrightarrow> buf_of (ph q) \<noteq> Some b" "b_blockno (B b) < 0x80000000"
  shows "drv (submitted i j k b w (ucast (b_blockno (B b) * 2)) v) (upd b (\<lambda>x. x\<lparr>b_disk := True\<rparr>) B) (ph(p := InFlight b w i)) da hs"
proof -
  define v' where "v' = submitted i j k b w (ucast (b_blockno (B b) * 2)) v"
  define B' where "B' = upd b (\<lambda>x. x\<lparr>b_disk := True\<rparr>) B"
  define ph' where "ph' = ph(p := InFlight b w i)"
  have ijk: "distinct [i, j, k]" "set [i, j, k] \<subseteq> {..<NUM}" "\<And>x. x \<in> {i, j, k} \<Longrightarrow> v_free v x" using t by (auto simp: takes_def)
  note S = submitted_fields [OF ijk(1,2), where b = b and w = w and sector = "ucast (b_blockno (B b) * 2)" and v = v, folded v'_def]
  have out: "x \<notin> {i, j, k}" if "ph q = InFlight c y h" "x \<in> set (chain v h)" for q c y h x
    using in_chain_busy [OF D that] ijk(3) by blast
  have hi: "h \<noteq> i" if "ph q = InFlight c y h" for q c y h using out [OF that chain_head] by simp
  have bn: "b_blockno (B' c) = b_blockno (B c)" for c by (simp add: B'_def upd_def)
  have d: "v_desc v' x = v_desc v x" if "ph q = InFlight c y h" "x \<in> set (chain v h)" for q c y h x using S(5) [OF out [OF that]] .
  have rq: "v_ops v' h = v_ops v h \<and> v_info_b v' h = v_info_b v h" if "ph q = InFlight c y h" for q c y h using S(6) hi [OF that] by blast
  have old: "chain v' h = chain v h" "req_ok v' B' c y h" if "ph q = InFlight c y h" for q c y h
    using desc_chain_cong [of v h v', OF d [OF that]] req_ok_cong [OF drvD(1) [OF D that] d [OF that], of B'] rq [OF that] bn by simp_all
  have cases: "(q = p \<and> c = b \<and> y = w \<and> h = i) \<or> (q \<noteq> p \<and> ph q = InFlight c y h)" if "ph' q = InFlight c y h" for q c y h
    using that by (auto simp: ph'_def split: if_splits)
  have notact: "i \<notin> active B ph" using hi by (auto simp: active_def)
  have act: "active B' ph' = insert i (active B ph)"
  proof (rule set_eqI)
    fix h
    have o: "b_disk (B' c) = b_disk (B c)" "ph' q = InFlight c y h" if "ph q = InFlight c y h" "q \<noteq> p" for q c y
      using b(1) [of q] that by (auto simp: B'_def upd_def ph'_def)
    have n: "b_disk (B' b)" "ph' p = InFlight b w i" by (simp_all add: B'_def upd_def ph'_def)
    show "h \<in> active B' ph' \<longleftrightarrow> h \<in> insert i (active B ph)"
    proof
      assume "h \<in> active B' ph'"
      then obtain q c y where q: "ph' q = InFlight c y h" "b_disk (B' c)" by (auto simp: active_def)
      from cases [OF q(1)] o(1) q(2) show "h \<in> insert i (active B ph)" unfolding active_def by blast
    next
      assume "h \<in> insert i (active B ph)"
      then consider "h = i" | q c y where "ph q = InFlight c y h" "b_disk (B c)" unfolding active_def by blast
      then show "h \<in> active B' ph'"
      proof cases
        case 1
        then show ?thesis using n unfolding active_def by blast
      next
        case (2 q c y)
        then have "q \<noteq> p" using p by auto
        then show ?thesis using o [OF 2(1)] 2(2) unfolding active_def by blast
      qed
    qed
  qed
  have room: "unat (v_avail_idx v - da) < NUM" using drv_room(2) [OF D _ notact] ijk(2) by (simp add: avail_def)
  have new: "req_ok v' B' b w i" using S(1-4) ijk(1,2) b(2) bn by (simp add: req_ok_def)
  have disj: "set (chain v' i) \<inter> set (chain v' h) = {}" if "ph q = InFlight c y h" for q c y h
    using S(1) old(1) [OF that] out [OF that] by auto
  have new': "ph' p = InFlight b w i" by (simp add: ph'_def)
  have keep: "ph' q = InFlight c y h" if "ph q = InFlight c y h" for q c y h using that p by (auto simp: ph'_def)
  have "drv v' B' ph' da hs"
  proof (rule drvI)
    show "req_ok v' B' c y h" if "ph' q = InFlight c y h" for q c y h
      using cases [OF that] old(2) new by blast
    show "q = r" if "buf_of (ph' q) = Some c" "buf_of (ph' r) = Some c" for q r c
      using that b(1) drvD(2) [OF D] by (auto simp: ph'_def split: if_splits)
    show "set (chain v' h) \<inter> set (chain v' h') = {}" if "ph' q = InFlight c y h" "ph' r = InFlight c' y' h'" "q \<noteq> r" for q r c y h c' y' h'
      using cases [OF that(1)] cases [OF that(2)] that(3) disj drvD(3) [OF D] old(1) by (metis Int_commute)
    show "v_free v' x \<longleftrightarrow> (\<forall>q c y h. ph' q = InFlight c y h \<longrightarrow> x \<notin> set (chain v' h))" if "x < NUM" for x
    proof -
      have "(\<forall>q c y h. ph' q = InFlight c y h \<longrightarrow> x \<notin> set (chain v' h)) \<longleftrightarrow>
        x \<notin> {i, j, k} \<and> (\<forall>q c y h. ph q = InFlight c y h \<longrightarrow> x \<notin> set (chain v h))"
      proof
        assume a: "\<forall>q c y h. ph' q = InFlight c y h \<longrightarrow> x \<notin> set (chain v' h)"
        then have "x \<notin> set (chain v' i)" using new' by blast
        moreover have "x \<notin> set (chain v h)" if "ph q = InFlight c y h" for q c y h using a keep [OF that] old(1) [OF that] by metis
        ultimately show "x \<notin> {i, j, k} \<and> (\<forall>q c y h. ph q = InFlight c y h \<longrightarrow> x \<notin> set (chain v h))" using S(1) by auto
      next
        assume a: "x \<notin> {i, j, k} \<and> (\<forall>q c y h. ph q = InFlight c y h \<longrightarrow> x \<notin> set (chain v h))"
        then have "x \<notin> set (chain v' i)" using S(1) by simp
        then show "\<forall>q c y h. ph' q = InFlight c y h \<longrightarrow> x \<notin> set (chain v' h)" using a cases old(1) by metis
      qed
      then show ?thesis using drvD(4) [OF D that] S(7) by auto
    qed
    show "distinct (avail v' da @ hs @ used v')" using S(8) S(9) [OF room] drvD(5,6) [OF D] notact by auto
    show "set (avail v' da @ hs @ used v') = active B' ph'" using S(8) S(9) [OF room] drvD(6) [OF D] act by auto
    show "v_info_status v' h = 0" if "h \<in> set (used v')" for h
    proof -
      have "h \<in> active B ph" using that S(8) drvD(6) [OF D] by auto
      then have "h \<noteq> i" using notact by blast
      then show ?thesis using that S(6,8) drvD(7) [OF D] by simp
    qed
  qed
  then show ?thesis by (simp only: v'_def B'_def ph'_def)
qed

lemma drv_fetch:
  assumes D: "drv v B ph da hs" and "da \<noteq> v_avail_idx v"
  shows "drv v B ph (da + 1) (hs @ [unat (v_avail_ring v (unat da mod NUM))])"
proof -
  have a: "avail v da = unat (v_avail_ring v (unat da mod NUM)) # avail v (da + 1)"
    unfolding avail_def by (rule ring_pop(1) [OF assms(2)])
  show ?thesis
  proof (rule drvI)
    show "distinct (avail v (da + 1) @ (hs @ [unat (v_avail_ring v (unat da mod NUM))]) @ used v)"
      "set (avail v (da + 1) @ (hs @ [unat (v_avail_ring v (unat da mod NUM))]) @ used v) = active B ph"
      using drvD(5,6) [OF D] a by auto
  qed (rule drvD [OF D]; assumption)+
qed

text \<open>A head stands for one request.\<close>

lemma head_unique:
  assumes D: "drv v B ph da hs" and "ph p = InFlight b w h" "ph q = InFlight b' w' h"
  shows "p = q"
  using drvD(3) [OF D assms(2,3)] chain_head [of h v] by blast

definition served :: "nat \<Rightarrow> vdisk \<Rightarrow> vdisk" where
  "served h v = v\<lparr>v_used := v_used v + 1, v_used_ring := (v_used_ring v)(unat (v_used v) mod NUM := of_nat h),
     v_info_status := (v_info_status v)(h := 0)\<rparr>"

lemma drv_serve:
  assumes D: "drv v B ph da hs" and h: "h \<in> set hs"
    and B: "\<And>b. b_blockno (B' b) = b_blockno (B b) \<and> b_disk (B' b) = b_disk (B b)"
  shows "drv (served h v) B' ph da (remove1 h hs)"
proof -
  have D': "drv v B' ph da hs" using B by (intro drv_kernel [OF D]) simp
  have hact: "h \<in> active B' ph" using drvD(6) [OF D'] h by auto
  then have lt: "h < NUM" using drvD(1) [OF D'] req_ok_lt by (fastforce simp: active_def)
  have room: "unat (v_used v - v_used_idx v) < NUM"
  proof -
    have "0 < length hs" by (rule length_pos_if_in_set [OF h])
    then show ?thesis using drv_room(1) [OF D'] unfolding used_def length_ring by linarith
  qed
  have un: "unat (of_nat h :: uint) = h" using lt by (intro unat_of_nat_lt) simp
  have "(\<lambda>x. unat (((v_used_ring v)(m := of_nat h)) x)) = (\<lambda>x. unat (v_used_ring v x))(m := h)" for m
    using un by (simp add: fun_eq_iff)
  then have u: "used (served h v) = used v @ [h]"
    using ring_push(1) [of NUM "v_used v" "v_used_idx v" "\<lambda>x. unat (v_used_ring v x)" h] room by (simp add: used_def served_def)
  have a: "avail (served h v) da = avail v da" by (simp add: avail_def served_def)
  have c: "chain (served h v) x = chain v x" and r: "req_ok (served h v) B' b w x = req_ok v B' b w x" for b w x
    by (rule req_eq; simp add: served_def)+
  have f: "v_free (served h v) = v_free v" by (simp add: served_def)
  have dist: "distinct (avail v da @ hs @ used v)" by (rule drvD(5) [OF D'])
  show ?thesis
  proof (rule drvI)
    show "distinct (avail (served h v) da @ remove1 h hs @ used (served h v))"
      using dist h by (auto simp: u a set_remove1_eq)
    show "set (avail (served h v) da @ remove1 h hs @ used (served h v)) = active B' ph"
      using dist h drvD(6) [OF D'] by (auto simp: u a set_remove1_eq)
    show "v_info_status (served h v) x = 0" if "x \<in> set (used (served h v))" for x
    proof -
      have "v_info_status (served h v) = (v_info_status v)(h := 0)" by (simp add: served_def)
      then show ?thesis using that drvD(7) [OF D'] by (auto simp: u)
    qed
  qed (unfold c r f, (rule drvD [OF D']; assumption)+)
qed

lemma drv_seen:
  assumes D: "drv v B ph da hs" and "v_used_idx v \<noteq> v_used v"
  defines "h \<equiv> unat (v_used_ring v (unat (v_used_idx v) mod NUM))"
  shows "\<exists>p b w. ph p = InFlight b w h \<and> b_disk (B b) \<and> h < NUM \<and> v_info_status v h = 0 \<and> v_info_b v h = Some b \<and>
    drv (v\<lparr>v_used_idx := v_used_idx v + 1\<rparr>) (upd b (\<lambda>x. x\<lparr>b_disk := False\<rparr>) B) ph da hs"
proof -
  define v' where "v' = v\<lparr>v_used_idx := v_used_idx v + 1\<rparr>"
  have u: "used v = h # used v'" using ring_pop(1) [OF assms(2)] by (simp add: used_def v'_def h_def)
  then have "h \<in> active B ph" using drvD(6) [OF D] by auto
  then obtain p b w where p: "ph p = InFlight b w h" "b_disk (B b)" by (auto simp: active_def)
  have rq: "req_ok v B b w h" by (rule drvD(1) [OF D p(1)])
  define B' where "B' = upd b (\<lambda>x. x\<lparr>b_disk := False\<rparr>) B"
  have bn: "b_blockno (B' c) = b_blockno (B c)" for c by (simp add: B'_def upd_def)
  have c: "chain v' x = chain v x" and r: "req_ok v' B' c y x = req_ok v B c y x" for c y x
    by (rule req_eq; simp add: v'_def bn)+
  have a: "avail v' da = avail v da" by (simp add: avail_def v'_def)
  have act: "active B' ph = active B ph - {h}"
  proof (rule set_eqI)
    fix x
    have "c = b \<longleftrightarrow> x = h" if "ph q = InFlight c y x" for q c y
      using head_unique [OF D p(1), of q c y] drvD(2) [OF D, of p b q] that p(1) by auto
    then show "x \<in> active B' ph \<longleftrightarrow> x \<in> active B ph - {h}" unfolding active_def B'_def upd_def by fastforce
  qed
  have "drv v' B' ph da hs"
  proof (rule drvI)
    show "distinct (avail v' da @ hs @ used v')" using drvD(5) [OF D] u a by auto
    show "set (avail v' da @ hs @ used v') = active B' ph" using drvD(5,6) [OF D] u a act by auto
    show "v_info_status v' x = 0" if "x \<in> set (used v')" for x using drvD(7) [OF D, of x] that u by (simp add: v'_def)
    show "v_free v' i = (\<forall>p b w h. ph p = InFlight b w h \<longrightarrow> i \<notin> set (chain v' h))" if "i < NUM" for i
      using drvD(4) [OF D that] c by (simp add: v'_def)
  qed (unfold c r, (rule drvD [OF D]; assumption)+)
  moreover have "v_info_status v h = 0" using drvD(7) [OF D] u by simp
  ultimately show ?thesis using p rq req_ok_lt [OF rq] by (auto simp: v'_def B'_def req_ok_def)
qed

definition finished :: "nat \<Rightarrow> vdisk \<Rightarrow> vdisk" where
  "finished h v = fold release_desc (chain v h) (v\<lparr>v_info_b := (v_info_b v)(h := None)\<rparr>)"

lemma finished_fields:
  "v_desc (finished h v) x = (if x \<in> set (chain v h) then no_desc else v_desc v x)"
  "v_free (finished h v) x \<longleftrightarrow> x \<in> set (chain v h) \<or> v_free v x"
  "v_ops (finished h v) = v_ops v" "v_info_b (finished h v) = (v_info_b v)(h := None)" "v_info_status (finished h v) = v_info_status v"
  "avail (finished h v) da = avail v da" "used (finished h v) = used v"
  by (simp_all add: finished_def fold_release avail_def used_def)

lemma drv_finish:
  assumes D: "drv v B ph da hs" and p: "ph p = InFlight b w h" "\<not> b_disk (B b)"
  shows "drv (finished h v) B (ph(p := Idle)) da hs"
proof -
  define v' where "v' = finished h v"
  define ph' where "ph' = ph(p := Idle)"
  note S = finished_fields [of h v, folded v'_def]
  have fl: "q \<noteq> p" "ph q = InFlight c y x" if "ph' q = InFlight c y x" for q c y x using that by (auto simp: ph'_def split: if_splits)
  have dj: "i \<notin> set (chain v h)" if "ph' q = InFlight c y x" "i \<in> set (chain v x)" for q c y x i
    using drvD(3) [OF D fl(2) [OF that(1)] p(1) fl(1) [OF that(1)]] that(2) by blast
  have hx: "x \<noteq> h" if "ph' q = InFlight c y x" for q c y x using dj [OF that chain_head] by auto
  have d: "v_desc v' i = v_desc v i" if "ph' q = InFlight c y x" "i \<in> set (chain v x)" for q c y x i using dj [OF that] S(1) by simp
  have old: "chain v' x = chain v x" "req_ok v' B c y x" if "ph' q = InFlight c y x" for q c y x
    using desc_chain_cong [of v x v', OF d [OF that]] req_ok_cong [OF drvD(1) [OF D fl(2) [OF that]] d [OF that], of B] S(3,4) hx [OF that] by simp_all
  have act: "active B ph' = active B ph"
  proof (rule set_eqI)
    fix x
    have "ph' q = InFlight c y x" if "ph q = InFlight c y x" "b_disk (B c)" for q c y
      using that p by (cases "q = p") (simp_all add: ph'_def)
    then show "x \<in> active B ph' \<longleftrightarrow> x \<in> active B ph" using fl(2) unfolding active_def by blast
  qed
  have "drv v' B ph' da hs"
  proof (rule drvI)
    show "q = r" if "buf_of (ph' q) = Some c" "buf_of (ph' r) = Some c" for q r c
      using that drvD(2) [OF D] by (auto simp: ph'_def split: if_splits)
    show "set (chain v' x) \<inter> set (chain v' x') = {}" if "ph' q = InFlight c y x" "ph' r = InFlight c' y' x'" "q \<noteq> r" for q r c y x c' y' x'
      using drvD(3) [OF D fl(2) [OF that(1)] fl(2) [OF that(2)] that(3)] old(1) [OF that(1)] old(1) [OF that(2)] by simp
    show "v_free v' i \<longleftrightarrow> (\<forall>q c y x. ph' q = InFlight c y x \<longrightarrow> i \<notin> set (chain v' x))" if "i < NUM" for i
    proof -
      have "(\<forall>q c y x. ph' q = InFlight c y x \<longrightarrow> i \<notin> set (chain v' x)) \<longleftrightarrow>
        i \<in> set (chain v h) \<or> (\<forall>q c y x. ph q = InFlight c y x \<longrightarrow> i \<notin> set (chain v x))" (is "?l \<longleftrightarrow> ?r")
      proof
        assume l: ?l
        have "i \<notin> set (chain v x)" if "i \<notin> set (chain v h)" "ph q = InFlight c y x" for q c y x
        proof (cases "q = p")
          case True
          then show ?thesis using p(1) that by simp
        next
          case False
          then have "ph' q = InFlight c y x" using that(2) by (simp add: ph'_def)
          then show ?thesis using l old(1) by metis
        qed
        then show ?r by blast
      next
        assume r: ?r
        show ?l
        proof (intro allI impI)
          fix q c y x assume q: "ph' q = InFlight c y x"
          show "i \<notin> set (chain v' x)" unfolding old(1) [OF q] using r dj [OF q] fl(2) [OF q] by blast
        qed
      qed
      then show ?thesis using drvD(4) [OF D that] S(2) by simp
    qed
  qed (use old(2) S(5-7) act drvD(5-7) [OF D] in simp_all)
  then show ?thesis by (simp only: v'_def ph'_def)
qed

section \<open>Runs of the driver\<close>

lemma chain3: "chain v h = [h, unat (d_next (v_desc v h)), unat (d_next (v_desc v (unat (d_next (v_desc v h)))))]"
  by (simp add: chain_def Let_def)

lemma req_flags:
  assumes "req_ok v B b w h" "chain v h = [h, i, j]"
  shows "d_flags (v_desc v h) AND VRING_DESC_F_NEXT \<noteq> 0" "d_flags (v_desc v i) AND VRING_DESC_F_NEXT \<noteq> 0"
    "d_flags (v_desc v j) AND VRING_DESC_F_NEXT = 0"
proof -
  have n: "unat (d_next (v_desc v h)) = i" "unat (d_next (v_desc v i)) = j" using assms(2) by (auto simp: chain_def Let_def)
  have "decode v h = Some (w, ucast (b_blockno (B b) * 2), b, h)" using assms(1) by (simp add: req_ok_def)
  then have f: "d_flags (v_desc v h) = VRING_DESC_F_NEXT" "d_flags (v_desc v i) = 1 \<or> d_flags (v_desc v i) = 3" "d_flags (v_desc v j) = VRING_DESC_F_WRITE"
    by (auto simp: decode_def Let_def n split: dma.splits if_splits)
  show "d_flags (v_desc v h) AND VRING_DESC_F_NEXT \<noteq> 0" "d_flags (v_desc v j) AND VRING_DESC_F_NEXT = 0" unfolding f by simp_all
  show "d_flags (v_desc v i) AND VRING_DESC_F_NEXT \<noteq> 0" using f(2) by auto
qed

lemma finish_run:
  assumes D: "drv (vd s) (bufs s) ph da hs" and p: "ph p = InFlight b w h" "\<not> b_disk (bufs s b)"
  shows "\<exists>t. virtio_disk_finish b h s = Inr ((), t) \<and> becomes (finished h (vd s)) (bufs s) s t"
proof -
  let ?v = "(vd s)\<lparr>v_info_b := (v_info_b (vd s))(h := None)\<rparr>"
  let ?u = "s\<lparr>vd := ?v\<rparr>"
  have rq: "req_ok (vd s) (bufs s) b w h" by (rule drvD(1) [OF D p(1)])
  obtain i j where c: "chain (vd s) h = [h, i, j]" using chain3 by blast
  have busy: "\<not> v_free (vd s) k" if "k \<in> set [h, i, j]" for k using in_chain_busy [OF D p(1)] that c by simp
  have cu: "chain (vd ?u) h = [h, i, j]" using c by (simp add: chain_def)
  obtain t where t: "free_chain h ?u = Inr ((), t)" "becomes (release_desc j (release_desc i (release_desc h (vd ?u)))) (bufs ?u) ?u t"
    using free_chain_run [OF cu] rq c busy req_flags [OF rq c] by (auto simp: req_ok_def)
  have "virtio_disk_finish b h s = Inr ((), t)" using p(2) t(1) by (simp add: virtio_disk_finish_def run_simps upd_vd_def)
  moreover have "becomes (finished h (vd s)) (bufs s) s t" using t(2) by (simp add: finished_def c becomes_def)
  ultimately show ?thesis by blast
qed

lemma submit_run:
  "\<exists>r t. virtio_disk_submit b w s = Inr (r, t) \<and> (case r of
     None \<Rightarrow> (\<exists>D. (\<forall>i. \<not> v_free (vd s) i \<longrightarrow> D i = v_desc (vd s) i) \<and> becomes ((vd s)\<lparr>v_desc := D\<rparr>) (bufs s) s t)
   | Some i \<Rightarrow> (\<exists>j k. takes [i, j, k] (vd s) \<and>
       becomes (submitted i j k b w (ucast (b_blockno (bufs s b) * 2)) (vd s)) (upd b (\<lambda>x. x\<lparr>b_disk := True\<rparr>) (bufs s)) s t))"
proof -
  obtain r t where r: "alloc3_desc s = Inr (r, t)" "case r of
      None \<Rightarrow> (\<exists>D. (\<forall>i. \<not> v_free (vd s) i \<longrightarrow> D i = v_desc (vd s) i) \<and> becomes ((vd s)\<lparr>v_desc := D\<rparr>) (bufs s) s t)
    | Some js \<Rightarrow> \<exists>i j k. js = [i, j, k] \<and> takes [i, j, k] (vd s) \<and> t = s\<lparr>vd := taken [i, j, k] (vd s)\<rparr>"
    using alloc3_run [of s] by (elim exE conjE)
  show ?thesis
  proof (cases r)
    case None
    then show ?thesis using r by (auto simp: virtio_disk_submit_def run_simps Let_def)
  next
    case (Some js)
    then obtain i j k where js: "js = [i, j, k]" "takes [i, j, k] (vd s)" "t = s\<lparr>vd := taken [i, j, k] (vd s)\<rparr>" using r(2) by auto
    define u where "u = s\<lparr>bufs := upd b (\<lambda>x. x\<lparr>b_disk := True\<rparr>) (bufs s), vd := submitted i j k b w (ucast (b_blockno (bufs s b) * 2)) (vd s)\<rparr>"
    have "virtio_disk_submit b w s = Inr (Some i, u)" using r(1) Some js
      by (simp add: virtio_disk_submit_def run_simps Let_def upd_vd_def upd_buf_def write_reg_def u_def submitted_def)
    moreover have "becomes (submitted i j k b w (ucast (b_blockno (bufs s b) * 2)) (vd s)) (upd b (\<lambda>x. x\<lparr>b_disk := True\<rparr>) (bufs s)) s u"
      by (simp add: becomes_def u_def)
    ultimately show ?thesis using js(2) by auto
  qed
qed

text \<open>
  The interrupt handler consumes the used ring: it never panics, changes only the marks of the buffers, and
  leaves no completed request behind.
\<close>

lemma intr_loop_run:
  assumes "drv (vd s) (bufs s) ph da hs" "length (used (vd s)) < fuel"
  shows "\<exists>t. virtio_intr_loop fuel s = Inr ((), t) \<and> drv (vd t) (bufs t) ph da hs \<and> used (vd t) = [] \<and>
    v_desc (vd t) = v_desc (vd s) \<and> avail (vd t) da = avail (vd s) da \<and> disk t = disk s \<and> disk_writes t = disk_writes s \<and>
    (\<forall>b. (bufs t b)\<lparr>b_disk := False\<rparr> = (bufs s b)\<lparr>b_disk := False\<rparr>)"
  using assms
proof (induction fuel arbitrary: s)
  case 0
  then show ?case by simp
next
  case (Suc fuel)
  show ?case
  proof (cases "v_used_idx (vd s) = v_used (vd s)")
    case True
    then have "used (vd s) = []" by (simp add: used_def ring_empty)
    then show ?thesis using True Suc.prems(1) by (simp add: run_simps)
  next
    case False
    let ?v = "(vd s)\<lparr>v_used_idx := v_used_idx (vd s) + 1\<rparr>"
    let ?h = "unat (v_used_ring (vd s) (unat (v_used_idx (vd s)) mod NUM))"
    obtain p b w where b: "ph p = InFlight b w ?h" "?h < NUM" "v_info_status (vd s) ?h = 0" "v_info_b (vd s) ?h = Some b"
      "drv ?v (upd b (\<lambda>x. x\<lparr>b_disk := False\<rparr>) (bufs s)) ph da hs"
      using drv_seen [OF Suc.prems(1) False] by blast
    let ?s1 = "s\<lparr>bufs := upd b (\<lambda>x. x\<lparr>b_disk := False\<rparr>) (bufs s)\<rparr>"
    obtain s2 where s2: "wakeup_chan (ChBuf b) ?s1 = Inr ((), s2)" "becomes (vd ?s1) (bufs ?s1) ?s1 s2" using wakeup_becomes by blast
    let ?t = "s2\<lparr>vd := (vd s2)\<lparr>v_used_idx := v_used_idx (vd s2) + 1\<rparr>\<rparr>"
    have step: "virtio_intr_loop (Suc fuel) s = virtio_intr_loop fuel ?t"
      using False b(2-4) s2(1) by (simp add: run_simps upd_buf_def upd_vd_def Let_def)
    have t: "vd ?t = ?v" "bufs ?t = upd b (\<lambda>x. x\<lparr>b_disk := False\<rparr>) (bufs s)" "disk ?t = disk s" "disk_writes ?t = disk_writes s"
      using s2(2) by (simp_all add: becomes_def)
    have "used (vd s) = ?h # used ?v" using ring_pop(1) [OF False] by (simp add: used_def)
    then have "length (used (vd ?t)) < fuel" using Suc.prems(2) unfolding t by simp
    from Suc.IH [OF _ this] obtain x where x: "virtio_intr_loop fuel ?t = Inr ((), x)" "drv (vd x) (bufs x) ph da hs" "used (vd x) = []"
      "v_desc (vd x) = v_desc (vd ?t)" "avail (vd x) da = avail (vd ?t) da" "disk x = disk ?t" "disk_writes x = disk_writes ?t"
      "\<forall>b. (bufs x b)\<lparr>b_disk := False\<rparr> = (bufs ?t b)\<lparr>b_disk := False\<rparr>"
      using b(5) unfolding t by blast
    have "avail ?v da = avail (vd s) da" by (simp add: avail_def)
    with x show ?thesis unfolding step t by (intro exI [of _ x]) (auto simp: upd_def)
  qed
qed

lemma intr_run:
  assumes "drv (vd s) (bufs s) ph da hs"
  shows "\<exists>t. virtio_disk_intr istat s = Inr ((), t) \<and> drv (vd t) (bufs t) ph da hs \<and> used (vd t) = [] \<and>
    v_desc (vd t) = v_desc (vd s) \<and> avail (vd t) da = avail (vd s) da \<and> disk t = disk s \<and> disk_writes t = disk_writes s \<and>
    (\<forall>b. (bufs t b)\<lparr>b_disk := False\<rparr> = (bufs s b)\<lparr>b_disk := False\<rparr>)"
proof -
  let ?v = "(vd s)\<lparr>v_mmio := v_mmio (vd s) @ [(0x064, istat AND 3)]\<rparr>"
  let ?u = "s\<lparr>vd := ?v\<rparr>"
  have c: "chain ?v h = chain (vd s) h" and r: "req_ok ?v (bufs s) b w h = req_ok (vd s) (bufs s) b w h" for b w h
    by (rule req_eq; simp)+
  have "drv (vd ?u) (bufs ?u) ph da hs"
    using assms unfolding drv_def by (simp add: c r avail_def used_def)
  from intr_loop_run [OF this, of "Suc (unat (v_used (vd s) - v_used_idx (vd s)))"] show ?thesis
    by (simp add: virtio_disk_intr_def write_reg_def upd_vd_def run_simps used_def avail_def del: virtio_intr_loop.simps)
qed

definition io_inv :: "io \<Rightarrow> bool" where
  "io_inv s \<longleftrightarrow> drv (vd (st s)) (bufs (st s)) (phase_of s) (dev_avail s) (dev_heads s)"

lemma complete_fields:
  "vd (complete h w sector b h s) = served h (vd s)"
  "b_blockno (bufs (complete h w sector b j s) c) = b_blockno (bufs s c) \<and> b_disk (bufs (complete h w sector b j s) c) = b_disk (bufs s c)"
  by (simp_all add: complete_def Let_def served_def upd_def)

text \<open>A head the device works on belongs to a request, whose chain the device can read.\<close>

lemma head_request:
  assumes "drv v B ph da hs" "h \<in> set hs"
  obtains p b w where "ph p = InFlight b w h" "req_ok v B b w h" "decode v h = Some (w, ucast (b_blockno (B b) * 2), b, h)"
proof -
  have "h \<in> active B ph" using drvD(6) [OF assms(1)] assms(2) by auto
  then obtain p b w where "ph p = InFlight b w h" by (auto simp: active_def)
  with drvD(1) [OF assms(1)] that show thesis by (auto simp: req_ok_def)
qed

lemma io_inv_device:
  assumes "virtio_spec s t" "io_inv s"
  shows "io_inv t"
  using assms
proof cases
  case fetch
  then show ?thesis using drv_fetch assms(2) by (auto simp: io_inv_def)
next
  case (serve h w sector b j)
  have D: "drv (vd (st s)) (bufs (st s)) (phase_of s) (dev_avail s) (dev_heads s)" using assms(2) by (simp add: io_inv_def)
  have j: "j = h" using head_request [OF D serve(2)] serve(3) by (metis option.inject prod.inject)
  show ?thesis using drv_serve [OF D serve(2) complete_fields(2)] by (simp add: serve(1) io_inv_def complete_fields(1) j)
next
  case (chaos h)
  then show ?thesis using head_request [of "vd (st s)" "bufs (st s)" "phase_of s" "dev_avail s" "dev_heads s" h] assms(2)
    by (auto simp: io_inv_def)
qed

lemma io_inv_step:
  assumes "io_step dev s t" "device_ok dev" "io_inv s"
  shows "io_inv t"
proof -
  have D: "drv (vd (st s)) (bufs (st s)) (phase_of s) (dev_avail s) (dev_heads s)" using assms(3) by (simp add: io_inv_def)
  from assms(1) show ?thesis
  proof cases
    case (submit p b w r u)
    have p: "phase_of s p \<noteq> InFlight b' w' h'" for b' w' h' using submit(2) by auto
    show ?thesis
    proof (cases r)
      case None
      then obtain D' where D': "\<forall>i. \<not> v_free (vd (st s)) i \<longrightarrow> D' i = v_desc (vd (st s)) i" "becomes ((vd (st s))\<lparr>v_desc := D'\<rparr>) (bufs (st s)) (st s) u"
        using submit_run [of b w "st s"] submit(5) by auto
      show ?thesis using drv_wait [OF drv_desc [OF D, of D'] p submit(3)] D' by (simp add: submit(1) None io_inv_def becomes_def)
    next
      case (Some i)
      then obtain j k where jk: "takes [i, j, k] (vd (st s))"
        "becomes (submitted i j k b w (ucast (b_blockno (bufs (st s) b) * 2)) (vd (st s))) (upd b (\<lambda>x. x\<lparr>b_disk := True\<rparr>) (bufs (st s))) (st s) u"
        using submit_run [of b w "st s"] submit(5) by auto
      show ?thesis using drv_submit [OF D jk(1) p submit(3,4)] jk(2) by (simp add: submit(1) Some io_inv_def becomes_def)
    qed
  next
    case device
    then show ?thesis using io_inv_device assms(2,3) by (auto simp: device_ok_def)
  next
    case (interrupt istat u)
    then show ?thesis using intr_run [OF D, of istat] by (auto simp: io_inv_def)
  next
    case (finish p b w h u)
    have nb: "\<not> b_disk (bufs (st s) b)" using finish(3) by (auto simp: virtio_disk_finish_def run_simps)
    show ?thesis using finish_run [OF D finish(2) nb] drv_finish [OF D finish(2) nb] finish(1,3) by (auto simp: io_inv_def becomes_def)
  next
    case (kernel u)
    have "drv (vd (st s)) (bufs u) (phase_of s) (dev_avail s) (dev_heads s)" using kernel(5) by (intro drv_kernel [OF D]) simp
    then show ?thesis by (simp add: kernel(1,2) io_inv_def)
  qed
qed

section \<open>The contract of the disk\<close>

text \<open>
  The contract: a call waits, the block is transferred by one atomic \<open>disk_rw\<close>, the call returns. Nobody else
  touches a buffer in use.
\<close>

datatype aphase = AIdle | AWait nat bool | ADone nat bool

primrec abuf :: "aphase \<Rightarrow> nat option" where
  "abuf AIdle = None"
| "abuf (AWait b w) = Some b"
| "abuf (ADone b w) = Some b"

record blockdev = bio_st +
  a_phase :: "nat \<Rightarrow> aphase"

inductive blockdev_step :: "blockdev \<Rightarrow> blockdev \<Rightarrow> bool" where
  call: "a_phase a p = AIdle \<Longrightarrow> (\<And>q. abuf (a_phase a q) \<noteq> Some b) \<Longrightarrow> blockdev_step a (a\<lparr>a_phase := (a_phase a)(p := AWait b w)\<rparr>)"
| transfer: "a_phase a p = AWait b w \<Longrightarrow> disk_rw b w a = Inr ((), a') \<Longrightarrow> blockdev_step a (a'\<lparr>a_phase := (a_phase a)(p := ADone b w)\<rparr>)"
| return: "a_phase a p = ADone b w \<Longrightarrow> blockdev_step a (a\<lparr>a_phase := (a_phase a)(p := AIdle)\<rparr>)"
| other: "(\<And>p b. abuf (a_phase a p) = Some b \<Longrightarrow> B b = bufs a b) \<Longrightarrow> blockdev_step a (a\<lparr>bufs := B\<rparr>)"

text \<open>The abstraction forgets the driver's data and the marks of the buffers.\<close>

definition abs_phase :: "nat set \<Rightarrow> phase \<Rightarrow> aphase" where
  "abs_phase H ph = (case ph of Idle \<Rightarrow> AIdle | Waiting b w \<Rightarrow> AWait b w | InFlight b w h \<Rightarrow> if h \<in> H then AWait b w else ADone b w)"

definition unmark :: "buf \<Rightarrow> buf" where
  "unmark x = x\<lparr>b_disk := False\<rparr>"

definition blockdev_of :: "io \<Rightarrow> blockdev" where
  "blockdev_of s = \<lparr>mem = \<lambda>_. 0, freelist = 0, kend = 0, psz = 0, ppagetable = 0, mypid = 0, bufs = \<lambda>b. unmark (bufs (st s) b),
     disk = disk (st s), disk_writes = disk_writes (st s),
     a_phase = \<lambda>p. abs_phase (set (avail (vd (st s)) (dev_avail s)) \<union> set (dev_heads s)) (phase_of s p)\<rparr>"

lemma abs_phase_simps [simp]:
  "abs_phase H Idle = AIdle" "abs_phase H (Waiting b w) = AWait b w"
  "abs_phase H (InFlight b w h) = (if h \<in> H then AWait b w else ADone b w)" "abuf (abs_phase H ph) = buf_of ph"
  by (auto simp: abs_phase_def split: phase.split)

lemma unmark_disk: "unmark (x\<lparr>b_disk := v\<rparr>) = unmark x"
  by (simp add: unmark_def)

lemma unmark_upd: "(\<lambda>c. unmark (upd b (\<lambda>x. x\<lparr>b_disk := v\<rparr>) B c)) = (\<lambda>c. unmark (B c))"
  by (auto simp: upd_def unmark_def)

lemma sector_block: "n < 0x80000000 \<Longrightarrow> (ucast (ucast (n * 2 :: uint) div 2 :: 64 word) :: uint) = n"
proof -
  assume "n < 0x80000000"
  then have n: "unat n < 2 ^ 31" by (simp add: word_less_nat_alt)
  then have "unat (n * 2) = unat n * 2" by (simp add: unat_word_ariths)
  then have "unat (ucast (n * 2) div 2 :: 64 word) = unat n" 
    using n by (simp add: unat_div unsigned_ucast_eq take_bit_nat_eq_self)
  then show ?thesis using n by (simp add: word_unat_eq_iff unsigned_ucast_eq take_bit_nat_eq_self)
qed

section \<open>Simulation\<close>

text \<open>The heads the device still has to serve.\<close>

definition pending :: "io \<Rightarrow> nat set" where
  "pending s = set (avail (vd (st s)) (dev_avail s)) \<union> set (dev_heads s)"

lemma blockdev_eqI:
  assumes "\<And>b. unmark (bufs (st t) b) = unmark (bufs (st s) b)" "disk (st t) = disk (st s)" "disk_writes (st t) = disk_writes (st s)"
    and "\<And>p. abs_phase (pending t) (phase_of t p) = P p"
  shows "blockdev_of t = (blockdev_of s)\<lparr>a_phase := P\<rparr>"
  using assms by (simp add: blockdev_of_def pending_def fun_eq_iff)

lemma blockdev_phase [simp]: "a_phase (blockdev_of s) p = abs_phase (pending s) (phase_of s p)"
  by (simp add: blockdev_of_def pending_def)

lemma blockdev_stutter:
  assumes "\<And>b. unmark (bufs (st t) b) = unmark (bufs (st s) b)" "disk (st t) = disk (st s)" "disk_writes (st t) = disk_writes (st s)"
    and "\<And>p. abs_phase (pending t) (phase_of t p) = abs_phase (pending s) (phase_of s p)"
  shows "blockdev_of t = blockdev_of s"
  using assms by (simp add: blockdev_of_def pending_def fun_eq_iff)

lemma sim_wait:
  assumes "phase_of s p = Idle \<or> phase_of s p = Waiting b w" "\<And>q. q \<noteq> p \<Longrightarrow> buf_of (phase_of s q) \<noteq> Some b"
    "\<And>b. unmark (bufs (st t) b) = unmark (bufs (st s) b)" "disk (st t) = disk (st s)" "disk_writes (st t) = disk_writes (st s)"
    "abs_phase (pending t) (phase_of t p) = AWait b w" "\<And>q. q \<noteq> p \<Longrightarrow> abs_phase (pending t) (phase_of t q) = abs_phase (pending s) (phase_of s q)"
  shows "blockdev_step\<^sup>=\<^sup>= (blockdev_of s) (blockdev_of t)"
proof (cases "phase_of s p = Idle")
  case True
  let ?P = "(a_phase (blockdev_of s))(p := AWait b w)"
  have "blockdev_of t = (blockdev_of s)\<lparr>a_phase := ?P\<rparr>"
    using assms(3-7) by (intro blockdev_eqI) auto
  moreover have "blockdev_step (blockdev_of s) ((blockdev_of s)\<lparr>a_phase := ?P\<rparr>)"
    using True assms(2) by (intro blockdev_step.call) (simp, metis abs_phase_simps(4) blockdev_phase buf_of.simps(1) option.distinct(1))
  ultimately show ?thesis by simp
next
  case False
  then have "abs_phase (pending s) (phase_of s p) = AWait b w" using assms(1) by simp
  then have "blockdev_of t = blockdev_of s" using assms(3-7) by (intro blockdev_stutter) (auto, metis)
  then show ?thesis by simp
qed

lemma sim_serve:
  assumes D: "drv (vd (st s)) (bufs (st s)) (phase_of s) (dev_avail s) (dev_heads s)" and h: "h \<in> set (dev_heads s)"
    and dec: "decode (vd (st s)) h = Some (w, sector, b, j)"
  shows "blockdev_step (blockdev_of s) (blockdev_of (s\<lparr>st := complete h w sector b j (st s), dev_heads := remove1 h (dev_heads s)\<rparr>))"
proof -
  let ?t = "s\<lparr>st := complete h w sector b j (st s), dev_heads := remove1 h (dev_heads s)\<rparr>"
  obtain p b' w' where p': "phase_of s p = InFlight b' w' h" "req_ok (vd (st s)) (bufs (st s)) b' w' h"
    "decode (vd (st s)) h = Some (w', ucast (b_blockno (bufs (st s) b') * 2), b', h)" by (rule head_request [OF D h])
  then have p: "phase_of s p = InFlight b w h" "req_ok (vd (st s)) (bufs (st s)) b w h" "j = h" "sector = ucast (b_blockno (bufs (st s) b) * 2)"
    using dec by simp_all
  have blk: "ucast (sector div 2) = b_blockno (bufs (st s) b)" using p(2,4) sector_block by (simp add: req_ok_def)
  have dist: "distinct (avail (vd (st s)) (dev_avail s) @ dev_heads s @ used (vd (st s)))" by (rule drvD(5) [OF D])
  have a: "avail (vd (complete h w sector b j (st s))) (dev_avail s) = avail (vd (st s)) (dev_avail s)"
    by (simp add: p(3) complete_fields served_def avail_def)
  have pend: "pending ?t = pending s - {h}" using dist h by (auto simp: pending_def a set_remove1_eq)
  obtain a' where a': "disk_rw b w (blockdev_of s) = Inr ((), a')" by (cases w) (simp_all add: disk_rw_def run_simps)
  have q: "abs_phase (pending ?t) (phase_of s q) = (if q = p then ADone b w else abs_phase (pending s) (phase_of s q))" for q
  proof (cases "q = p")
    case True
    then show ?thesis using p(1) by (simp add: pend)
  next
    case False
    then have "phase_of s q \<noteq> InFlight c y h" for c y using head_unique [OF D p(1)] by metis
    then show ?thesis using False by (cases "phase_of s q") (auto simp: pend)
  qed
  have "phase_of ?t = phase_of s" by simp
  then have ph: "(\<lambda>q. abs_phase (pending ?t) (phase_of ?t q)) = (a_phase (blockdev_of s))(p := ADone b w)"
    using q by (simp only: fun_eq_iff fun_upd_apply blockdev_phase) simp
  have bf: "(\<lambda>c. unmark (bufs (st ?t) c)) = bufs a'" "disk (st ?t) = disk a'" "disk_writes (st ?t) = disk_writes a'"
    using a' by (auto simp: disk_rw_def run_simps blockdev_of_def complete_def Let_def blk upd_def unmark_def fun_eq_iff split: if_splits)
  have rest: "mem a' = (\<lambda>_. 0)" "freelist a' = 0" "kend a' = 0" "psz a' = 0" "ppagetable a' = 0" "mypid a' = 0"
    using a' by (auto simp: disk_rw_def run_simps blockdev_of_def split: if_splits)
  have "blockdev_of ?t = a'\<lparr>a_phase := (a_phase (blockdev_of s))(p := ADone b w)\<rparr>"
    unfolding blockdev_of_def [of ?t] pending_def [symmetric] ph bf by (cases a') (use rest in simp)
  moreover have "a_phase (blockdev_of s) p = AWait b w" using p(1) h by (simp add: pending_def)
  ultimately show ?thesis using blockdev_step.transfer [OF _ a'] by simp
qed

lemma avail_fields:
  "avail (v\<lparr>v_desc := D\<rparr>) da = avail v da"
  by (simp add: avail_def)

lemma io_sim:
  assumes "io_step dev s t" "device_ok dev" "io_inv s"
  shows "blockdev_step\<^sup>=\<^sup>= (blockdev_of s) (blockdev_of t)"
proof -
  have D: "drv (vd (st s)) (bufs (st s)) (phase_of s) (dev_avail s) (dev_heads s)" using assms(3) by (simp add: io_inv_def)
  from assms(1) show ?thesis
  proof cases
    case (submit p b w r u)
    show ?thesis
    proof (cases r)
      case None
      then obtain D' where D': "becomes ((vd (st s))\<lparr>v_desc := D'\<rparr>) (bufs (st s)) (st s) u"
        using submit_run [of b w "st s"] submit(5) by auto
      then have "pending t = pending s" by (simp add: pending_def submit(1) becomes_def avail_fields)
      then show ?thesis using D' by (intro sim_wait [OF submit(2,3)]) (auto simp: submit(1) None becomes_def)
    next
      case (Some i)
      then obtain j k where jk: "takes [i, j, k] (vd (st s))"
        "becomes (submitted i j k b w (ucast (b_blockno (bufs (st s) b) * 2)) (vd (st s))) (upd b (\<lambda>x. x\<lparr>b_disk := True\<rparr>) (bufs (st s))) (st s) u"
        using submit_run [of b w "st s"] submit(5) by auto
      have ijk: "distinct [i, j, k]" "set [i, j, k] \<subseteq> {..<NUM}" "v_free (vd (st s)) i" using jk(1) by (auto simp: takes_def)
      have ne: "h \<noteq> i" if "phase_of s q = InFlight c y h" for q c y h using in_chain_busy [OF D that chain_head] ijk(3) by blast
      then have "i \<notin> active (bufs (st s)) (phase_of s)" by (auto simp: active_def)
      then have room: "unat (v_avail_idx (vd (st s)) - dev_avail s) < NUM" using drv_room(2) [OF D, of i] ijk(2) by (simp add: avail_def)
      have pend: "pending t = insert i (pending s)"
        using submitted_fields(9) [OF ijk(1,2) room] jk(2) by (auto simp: pending_def submit(1) becomes_def)
      have "abs_phase (pending t) (phase_of s q) = abs_phase (pending s) (phase_of s q)" for q
        using ne [of q] by (cases "phase_of s q") (auto simp: pend)
      then show ?thesis using jk(2) pend
        by (intro sim_wait [OF submit(2,3)]) (auto simp: submit(1) Some becomes_def upd_def unmark_def)
    qed
  next
    case device
    then have "virtio_spec s t" using assms(2) by (simp add: device_ok_def)
    then show ?thesis
    proof cases
      case fetch
      have "avail (vd (st s)) (dev_avail s) = unat (v_avail_ring (vd (st s)) (unat (dev_avail s) mod NUM)) # avail (vd (st s)) (dev_avail s + 1)"
        unfolding avail_def by (rule ring_pop(1) [OF fetch(2)])
      then have "pending t = pending s" by (auto simp: pending_def fetch(1))
      then have "blockdev_of t = blockdev_of s" by (intro blockdev_stutter) (simp_all add: fetch(1))
      then show ?thesis by simp
    next
      case (serve h w sector b j)
      then show ?thesis using sim_serve [OF D serve(2,3)] by simp
    next
      case (chaos h)
      then show ?thesis using head_request [OF D chaos(1)] by auto
    qed
  next
    case (interrupt istat u)
    have "blockdev_of t = blockdev_of s"
      using intr_run [OF D, of istat] interrupt(2) by (intro blockdev_stutter) (auto simp: interrupt(1) pending_def unmark_def)
    then show ?thesis by simp
  next
    case (finish p b w h u)
    have nb: "\<not> b_disk (bufs (st s) b)" using finish(3) by (auto simp: virtio_disk_finish_def run_simps)
    have bc: "becomes (finished h (vd (st s))) (bufs (st s)) (st s) u" using finish_run [OF D finish(2) nb] finish(3) by auto
    have nh: "h \<notin> pending s"
    proof
      assume "h \<in> pending s"
      then have "h \<in> active (bufs (st s)) (phase_of s)" using drvD(6) [OF D] by (auto simp: pending_def)
      then obtain q c y where q: "phase_of s q = InFlight c y h" "b_disk (bufs (st s) c)" by (auto simp: active_def)
      then show False using head_unique [OF D finish(2) q(1)] finish(2) nb by simp
    qed
    have pend: "pending t = pending s" using bc by (simp add: pending_def finish(1) becomes_def finished_fields)
    have "blockdev_of t = (blockdev_of s)\<lparr>a_phase := (a_phase (blockdev_of s))(p := AIdle)\<rparr>"
      using bc by (intro blockdev_eqI) (auto simp: finish(1) pend becomes_def, simp add: pend [unfolded finish(1)])
    then show ?thesis using blockdev_step.return [of "blockdev_of s" p b w] finish(2) nh by simp
  next
    case (kernel u)
    have pend: "pending t = pending s" by (simp add: pending_def kernel(1,2))
    have "blockdev_of t = (blockdev_of s)\<lparr>bufs := \<lambda>b. unmark (bufs u b)\<rparr>"
      unfolding blockdev_of_def pending_def [symmetric] pend by (simp add: kernel(1,3,4))
    moreover have "blockdev_step (blockdev_of s) ((blockdev_of s)\<lparr>bufs := \<lambda>b. unmark (bufs u b)\<rparr>)"
      using kernel(5) by (intro blockdev_step.other) (auto simp: blockdev_of_def)
    ultimately show ?thesis by simp
  qed
qed

section \<open>Start of the system\<close>

interpretation vf: fs_frame vd
  by unfold_locales simp_all

definition io_start :: "vdisk_st \<Rightarrow> io" where
  "io_start t = \<lparr>st = t, phase_of = \<lambda>_. Idle, dev_avail = 0, dev_heads = []\<rparr>"

text \<open>What \<^verbatim>\<open>virtio_disk_init\<close> leaves: empty rings and free descriptors.\<close>

lemma wlp_queue_init:
  "wlp virtio_queue_init (\<lambda>_ t. v_avail_idx (vd t) = 0 \<and> v_used (vd t) = 0 \<and> v_used_idx (vd t) = v_used_idx (vd s) \<and> (\<forall>i<NUM. v_free (vd t) i)) s"
proof -
  have k: "wlp (bnd kalloc f) Q t" if "\<And>x u. vd u = vd t \<Longrightarrow> wlp (f x) Q u" for f :: "addr \<Rightarrow> ('a vdisk_st_scheme, unit) km" and Q t
    unfolding wlp_bnd by (rule wlp_stable [OF vf.stable_kalloc(1)]) (rule that)
  show ?thesis unfolding virtio_queue_init_def
    apply (rule k)+
    apply (simp add: wlp_simps write_reg_def upd_vd_def)
    done
qed

lemma init_inv:
  assumes "virtio_disk_init mmio s = Inr ((), t)" "v_used_idx (vd s) = 0"
  shows "io_inv (io_start t)"
proof -
  have "v_avail_idx (vd t) = 0 \<and> v_used (vd t) = 0 \<and> v_used_idx (vd t) = 0 \<and> (\<forall>i<NUM. v_free (vd t) i)"
  proof -
    have "wlp (virtio_disk_init mmio) (\<lambda>_ t. v_avail_idx (vd t) = 0 \<and> v_used (vd t) = 0 \<and> v_used_idx (vd t) = 0 \<and> (\<forall>i<NUM. v_free (vd t) i)) s"
      unfolding virtio_disk_init_def Let_def
      by (auto simp: wlp_simps write_reg_def upd_vd_def assms(2) intro!: wlp_mono [OF wlp_queue_init])
    from wlpD [OF this assms(1)] show ?thesis .
  qed
  then show ?thesis by (auto simp: io_inv_def io_start_def drv_def avail_def used_def active_def)
qed

lemma io_reachable:
  assumes "virtio_disk_init mmio s0 = Inr ((), t)" "v_used_idx (vd s0) = 0" "device_ok dev" "rtranclp (io_step dev) (io_start t) s"
  shows "io_inv s"
  using assms(4) by (induction rule: rtranclp_induct) (use init_inv [OF assms(1,2)] io_inv_step assms(3) in blast)+

lemma free_chain_loop_ends:
  "card {k. k < NUM \<and> \<not> v_free (vd s) k} < fuel \<Longrightarrow> free_chain_loop fuel i s \<noteq> Inl Diverge"
proof (induction fuel arbitrary: s i)
  case 0
  then show ?case by simp
next
  case (Suc fuel)
  show ?case
  proof (cases "i < NUM \<and> \<not> v_free (vd s) i")
    case False
    then show ?thesis by (auto simp: run_simps free_desc_def)
  next
    case True
    then obtain t where t: "free_desc i s = Inr ((), t)" "becomes (release_desc i (vd s)) (bufs s) s t" using free_desc_run by blast
    let ?S = "\<lambda>s. {k. k < NUM \<and> \<not> v_free (vd s) k}"
    have "?S t = ?S s - {i}" using t(2) by (auto simp: becomes_def)
    then have "card (?S t) < card (?S s)" using True card_Diff1_less [of "?S s" i] by simp
    then have "card (?S t) < fuel" using Suc.prems by simp
    from Suc.IH [OF this] show ?thesis using t(1) by (simp add: run_simps)
  qed
qed

text \<open>Left alone, a device that follows the specification serves everything it was given.\<close>

lemma device_drains:
  assumes "io_inv s"
  shows "\<exists>t. rtranclp virtio_spec s t \<and> io_inv t \<and> phase_of t = phase_of s \<and> avail (vd (st t)) (dev_avail t) = [] \<and> dev_heads t = []"
  using assms
proof (induction "2 * length (avail (vd (st s)) (dev_avail s)) + length (dev_heads s)" arbitrary: s rule: less_induct)
  case less
  show ?case
  proof (cases "avail (vd (st s)) (dev_avail s) = [] \<and> dev_heads s = []")
    case True
    then show ?thesis using less.prems by blast
  next
    case False
    have D: "drv (vd (st s)) (bufs (st s)) (phase_of s) (dev_avail s) (dev_heads s)" using less.prems by (simp add: io_inv_def)
    have "\<exists>t. virtio_spec s t \<and> phase_of t = phase_of s \<and>
      2 * length (avail (vd (st t)) (dev_avail t)) + length (dev_heads t) < 2 * length (avail (vd (st s)) (dev_avail s)) + length (dev_heads s)"
    proof (cases "dev_heads s")
      case Nil
      then have ne: "dev_avail s \<noteq> v_avail_idx (vd (st s))" using False by (simp add: avail_def ring_empty)
      have "length (avail (vd (st s)) (dev_avail s)) = Suc (length (avail (vd (st s)) (dev_avail s + 1)))"
        unfolding avail_def ring_pop(1) [OF ne] by simp
      then show ?thesis using virtio_spec.fetch [OF ne] Nil by fastforce
    next
      case (Cons h hs)
      then have h: "h \<in> set (dev_heads s)" by simp
      obtain p b w where "decode (vd (st s)) h = Some (w, ucast (b_blockno (bufs (st s) b) * 2), b, h)" by (rule head_request [OF D h])
      from virtio_spec.serve [OF h this] show ?thesis
        by (intro exI conjI; (assumption)?) (use Cons in \<open>simp_all add: complete_fields served_def avail_def\<close>)
    qed
    then obtain t where t: "virtio_spec s t" "phase_of t = phase_of s"
      "2 * length (avail (vd (st t)) (dev_avail t)) + length (dev_heads t) < 2 * length (avail (vd (st s)) (dev_avail s)) + length (dev_heads s)" by blast
    from less.hyps [OF t(3) io_inv_device [OF t(1) less.prems]] t(1,2) show ?thesis by (metis converse_rtranclp_into_rtranclp)
  qed
qed

section \<open>A concrete system\<close>

text \<open>A device that takes every new request at once and serves the requests in order.\<close>

definition fifo_device :: "io \<Rightarrow> io option" where
  "fifo_device s =
     (if dev_avail s \<noteq> v_avail_idx (vd (st s))
      then Some (s\<lparr>dev_avail := dev_avail s + 1,
        dev_heads := dev_heads s @ [unat (v_avail_ring (vd (st s)) (unat (dev_avail s) mod NUM))]\<rparr>)
      else case dev_heads s of
        [] \<Rightarrow> None
      | h # hs \<Rightarrow> (case decode (vd (st s)) h of
          None \<Rightarrow> None
        | Some (w, sector, b, j) \<Rightarrow> Some (s\<lparr>st := complete h w sector b j (st s), dev_heads := remove1 h (dev_heads s)\<rparr>)))"

lemma fifo_device_ok: "device_ok (\<lambda>s t. fifo_device s = Some t)"
  unfolding device_ok_def
proof (intro allI impI)
  fix s t assume a: "fifo_device s = Some t"
  show "virtio_spec s t"
  proof (cases "dev_avail s \<noteq> v_avail_idx (vd (st s))")
    case True
    then show ?thesis using a virtio_spec.fetch by (auto simp: fifo_device_def)
  next
    case False
    then obtain h hs w sector b j where "dev_heads s = h # hs" "decode (vd (st s)) h = Some (w, sector, b, j)"
      "t = s\<lparr>st := complete h w sector b j (st s), dev_heads := remove1 h (dev_heads s)\<rparr>"
      using a by (auto simp: fifo_device_def split: list.splits option.splits)
    then show ?thesis using virtio_spec.serve [of h s w sector b j] by simp
  qed
qed

definition good_mmio :: "nat \<Rightarrow> uint" where
  "good_mmio = (\<lambda>_. 0)(0x000 := 0x74726976, 0x004 := 2, 0x008 := 2, 0x00c := 0x554d4551, 0x070 := 11, 0x034 := 1024)"

definition blank_vdisk :: vdisk where
  "blank_vdisk = \<lparr>v_pages = (0, 0, 0), v_desc = \<lambda>_. no_desc, v_avail_idx = 0, v_avail_ring = \<lambda>_. 0, v_used = 0, v_used_ring = \<lambda>_. 0,
     v_free = \<lambda>_. False, v_used_idx = 0, v_info_b = \<lambda>_. None, v_info_status = \<lambda>_. 0,
     v_ops = \<lambda>_. \<lparr>r_type = 0, r_reserved = 0, r_sector = 0\<rparr>, v_mmio = []\<rparr>"

definition disk_boot :: vdisk_st where
  "disk_boot = trap_st.extend (cons_st.extend (file_st.extend ((kstate (mem vm_boot) init_table)\<lparr>freelist := 0x87001000\<rparr>)
     (cons_st.fields [] (\<lambda>_. 0x20) 0 0 False False 0 0)) (trap_st.fields 0 0 0 0 0 0 0 0 0 0 0 [] True)) (vdisk_st.fields blank_vdisk)"

lemma disk_boot_fields [simp]:
  "mem disk_boot = mem vm_boot" "freelist disk_boot = freelist vm_boot" "kend disk_boot = kend vm_boot" "vd disk_boot = blank_vdisk"
  "bufs disk_boot = (\<lambda>_. blank_buf)"
  by (simp_all add: disk_boot_def kstate_def vm_boot_def file_st.defs cons_st.defs trap_st.defs vdisk_st.defs)

lemma disk_boot_init:
  obtains t where "virtio_disk_init good_mmio disk_boot = Inr ((), t)" "bufs t = (\<lambda>_. blank_buf)" "v_free (vd t) = (\<lambda>i. i < NUM)"
proof -
  define w where "w s ws = s\<lparr>vd := (vd s)\<lparr>v_mmio := v_mmio (vd s) @ ws\<rparr>\<rparr>" for s :: vdisk_st and ws
  have reg: "write_reg r v s = Inr ((), w s [(r, v)])" for r v s by (simp add: write_reg_def upd_vd_def run_simps w_def)
  have same [simp]: "vd (w s ws) = (vd s)\<lparr>v_mmio := v_mmio (vd s) @ ws\<rparr>" "bufs (w s ws) = bufs s" for s ws by (simp_all add: w_def)
  have wp: "free_pages (w s ws) ps = free_pages s ps" for s ws ps by (simp add: w_def free_pages_def page_ok_def)
  have pages: "free_pages disk_boot [0x87001000, 0x87002000, 0x87003000]"
    using vm_boot_space(1) by (simp add: vminv_def free_pages_def page_ok_def)
  have k: "\<exists>t. kalloc s = Inr (p, t) \<and> free_pages t ps \<and> bufs t = bufs s \<and> vd t = vd s" if "free_pages s (p # ps)" for s :: vdisk_st and p ps
    by (rule kalloc_free_pages [OF that]) (auto simp: kalloc_run split: if_splits)
  have k3: "\<exists>t. virtio_queue_init s = Inr ((), t) \<and> bufs t = bufs s \<and> v_free (vd t) = (\<lambda>i. i < NUM \<or> v_free (vd s) i)"
    if f: "free_pages s [0x87001000, 0x87002000, 0x87003000]" for s :: vdisk_st
  proof -
    obtain a where a: "kalloc s = Inr (0x87001000, a)" "free_pages a [0x87002000, 0x87003000]" "bufs a = bufs s" "vd a = vd s" using k [OF f] by blast
    obtain b where b: "kalloc a = Inr (0x87002000, b)" "free_pages b [0x87003000]" "bufs b = bufs a" "vd b = vd a" using k [OF a(2)] by blast
    obtain c where c: "kalloc b = Inr (0x87003000, c)" "bufs c = bufs b" "vd c = vd b" using k [OF b(2)] by blast
    show ?thesis using a b c by (auto simp: virtio_queue_init_def run_simps upd_vd_def reg)
  qed
  have "\<exists>t. virtio_disk_init good_mmio disk_boot = Inr ((), t) \<and> bufs t = (\<lambda>_. blank_buf) \<and> v_free (vd t) = (\<lambda>i. i < NUM)"
  proof -
    let ?s = "w (w (w (w (w (w disk_boot [(112, 0)]) [(112, 1)]) [(112, 1 OR 2)]) [(32, accept_features 0)]) [(112, 1 OR 2 OR 8)]) [(48, 0)]"
    have "free_pages ?s [0x87001000, 0x87002000, 0x87003000]" unfolding wp by (rule pages)
    from k3 [OF this] obtain t where "virtio_queue_init ?s = Inr ((), t)" "bufs t = (\<lambda>_. blank_buf)" "v_free (vd t) = (\<lambda>i. i < NUM)"
      by (auto simp: blank_vdisk_def)
    then show ?thesis by (simp add: virtio_disk_init_def good_mmio_def run_simps reg)
  qed
  with that show thesis by blast
qed

lemma alloc3_free:
  assumes "v_free (vd s) = (\<lambda>i. i < NUM)"
  shows "\<exists>t. alloc3_desc s = Inr (Some [0, 1, 2], t)"
proof -
  have "[0..<NUM] = [0, 1, 2, 3, 4, 5, 6, 7]" by (simp add: upt_rec)
  then show ?thesis using assms
    by (simp add: alloc3_desc_def run_simps alloc_desc_def upd_vd_def numeral_3_eq_3)
qed

text \<open>The scenario of the witnesses: after initialisation, process 0 asks for the block of buffer 3.\<close>

lemma disk_scenario:
  obtains t s where "virtio_disk_init good_mmio disk_boot = Inr ((), t)" "rtranclp (io_step dev) (io_start t) s" "phase_of s 0 = InFlight 3 False 0"
proof (rule disk_boot_init)
  fix t assume t: "virtio_disk_init good_mmio disk_boot = Inr ((), t)" "bufs t = (\<lambda>_. blank_buf)" "v_free (vd t) = (\<lambda>i. i < NUM)"
  obtain u where "alloc3_desc t = Inr (Some [0, 1, 2], u)" using alloc3_free [OF t(3)] by blast
  then obtain r where r: "virtio_disk_submit 3 False t = Inr (Some 0, r)"
    by (simp add: virtio_disk_submit_def run_simps Let_def upd_vd_def upd_buf_def write_reg_def)
  have "io_step dev (io_start t) ((io_start t)\<lparr>st := r, phase_of := (phase_of (io_start t))(0 := InFlight 3 False 0)\<rparr>)"
    using io_step.submit [of "io_start t" 0 3 False "Some 0" r dev] r t(2) by (simp add: io_start_def blank_buf_def)
  then show thesis by (rule that [OF t(1) r_into_rtranclp]) simp
qed

section \<open>Properties\<close>





text \<open>
  C31. Freeing a descriptor chain always ends, whatever the descriptor table holds: even on a
  cyclic chain the loop stops, with a panic, before it has gone round twice.
\<close>

theorem free_chain_terminates:
  "free_chain i s \<noteq> Inl Diverge"
proof -
  have "card {k. k < NUM \<and> \<not> v_free (vd s) k} \<le> card {..<NUM}" by (rule card_mono) auto
  then show ?thesis unfolding free_chain_def by (intro free_chain_loop_ends) simp
qed



end
