(* ===== verification/Kmain.thy ===== *)
theory Kmain
  imports Virtio
begin

text \<open>
  \<^verbatim>\<open>kernel/main.c\<close> and the initialisers that only it calls. The locks they initialise are atomic sections
  elsewhere and have no state here. Hart 0 brings the kernel up; another hart is \<open>Blocked\<close> until it has. At the end
  every hart enters \<^verbatim>\<open>scheduler\<close>, which does not return (theory \<^verbatim>\<open>Sched\<close>).
\<close>

record kernel_st = vdisk_st +
  kernel_pagetable :: addr
  started :: bool

text \<open>\<open>etext\<close> is a linker symbol.\<close>

definition kvminit :: "addr \<Rightarrow> ('z kernel_st_scheme, unit) km" where
  "kvminit etext = bnd get (\<lambda>s.
     bnd (kvmmake etext (ktrampoline s)) (\<lambda>pt.
     modify (\<lambda>s. s\<lparr>kernel_pagetable := pt\<rparr>)))"

definition kvminithart :: "('z kernel_st_scheme, unit) km" where
  "kvminithart = modify (\<lambda>s. s\<lparr>csr_satp := MAKE_SATP (kernel_pagetable s)\<rparr>)"

definition trapinit :: "('z trap_st_scheme, unit) km" where
  "trapinit = skip"

definition trapinithart :: "('z trap_st_scheme, unit) km" where
  "trapinithart = modify (\<lambda>s. s\<lparr>csr_stvec := kernelvec s\<rparr>)"

text \<open>The device switch it fills in is \<open>console_read_dev\<close> and \<open>console_write_dev\<close>.\<close>

definition consoleinit :: "('z cons_st_scheme, unit) km" where
  "consoleinit = uartinit"

definition printfinit :: "('z cons_st_scheme, unit) km" where
  "printfinit = modify (\<lambda>s. s\<lparr>pr_locked := False\<rparr>)"

definition fileinit :: "('z file_st_scheme, unit) km" where
  "fileinit = skip"

definition GREEN :: "32 word" where "GREEN = 32"

text \<open>
  \<open>etext\<close> and \<open>rootpath\<close> are the addresses of the end of the kernel text and of the string "/"; \<open>mmio\<close> is what the disk
  answers to register reads.
\<close>

definition main_first :: "addr \<Rightarrow> addr \<Rightarrow> (nat \<Rightarrow> uint) \<Rightarrow> ('z kernel_st_scheme, unit) km" where
  "main_first etext rootpath mmio =
     bnd consoleinit (\<lambda>_.
     bnd printfinit (\<lambda>_.
     bnd (printf [10] []) (\<lambda>_.
     bnd (printf_color GREEN (bytes ''===== Booting xv6-like Kernel ====='' @ [10]) []) (\<lambda>_.
     bnd kinit (\<lambda>_.
     bnd (kvminit etext) (\<lambda>_.
     bnd kvminithart (\<lambda>_.
     bnd procinit (\<lambda>_.
     bnd trapinit (\<lambda>_.
     bnd trapinithart (\<lambda>_.
     bnd plicinit (\<lambda>_.
     bnd plicinithart (\<lambda>_.
     bnd binit (\<lambda>_.
     bnd iinit (\<lambda>_.
     bnd fileinit (\<lambda>_.
     bnd (virtio_disk_init mmio) (\<lambda>_.
     bnd (userinit rootpath) (\<lambda>_.
     bnd (modify (\<lambda>s. s\<lparr>started := True\<rparr>)) (\<lambda>_.
     printf_color GREEN ([10] @ bytes ''All initializations complete. Starting scheduler...'' @ [10, 10]) []))))))))))))))))))"

definition main_other :: "('z kernel_st_scheme, unit) km" where
  "main_other = bnd get (\<lambda>s.
     if \<not> started s then stop_with Blocked
     else
       bnd (printf (bytes ''hart %d starting'' @ [10]) [Word (csr_tp s)]) (\<lambda>_.
       bnd kvminithart (\<lambda>_.
       bnd trapinithart (\<lambda>_.
       plicinithart))))"

definition main :: "addr \<Rightarrow> addr \<Rightarrow> (nat \<Rightarrow> uint) \<Rightarrow> ('z kernel_st_scheme, unit) km" where
  "main etext rootpath mmio = bnd get (\<lambda>s. if csr_tp s = 0 then main_first etext rootpath mmio else main_other)"

section \<open>Traps with the disk driver\<close>

text \<open>\<open>irq\<close> is what \<^verbatim>\<open>plic_claim\<close> reads, \<open>now\<close> the time and \<open>istat\<close> the disk's interrupt status register.\<close>

definition kernel_usertrap :: "32 word \<Rightarrow> 64 word \<Rightarrow> uint \<Rightarrow> ('z vdisk_st_scheme, trap_end) km" where
  "kernel_usertrap irq now istat = usertrap irq now (virtio_disk_intr istat)"

definition kernel_kerneltrap :: "bool \<Rightarrow> 32 word \<Rightarrow> 64 word \<Rightarrow> uint \<Rightarrow> ('z vdisk_st_scheme, bool) km" where
  "kernel_kerneltrap inproc irq now istat = kerneltrap inproc irq now (virtio_disk_intr istat)"

section \<open>Listing the processes\<close>

fun state_name :: "procstate \<Rightarrow> string" where
  "state_name UNUSED = ''unused''"
| "state_name USED = ''used''"
| "state_name SLEEPING = ''sleep ''"
| "state_name RUNNABLE = ''runble''"
| "state_name RUNNING = ''run   ''"
| "state_name ZOMBIE = ''zombie''"

definition procdump :: "('z cons_st_scheme, unit) km" where
  "procdump =
     bnd (printf [10] []) (\<lambda>_.
     for_each [0..<NPROC] (\<lambda>p. bnd get (\<lambda>s.
       if p_state (procs s p) = UNUSED then skip
       else
         bnd (printf (bytes ''%d %s %s'') [Word (scast (p_pid (procs s p))), Str (bytes (state_name (p_state (procs s p)))),
           Str (name_str (p_name (procs s p)))]) (\<lambda>_.
         printf [10] []))))"

end
