(* ===== verification/Machine.thy ===== *)
theory Machine
  imports Vm
begin

text \<open>
  One hart at the level of its registers: the control-register accessors of \<^verbatim>\<open>kernel/riscv.h\<close>, the
  machine-mode start of \<^verbatim>\<open>kernel/start.c\<close>, and the assembly of \<^verbatim>\<open>kernel/entry.S\<close>, \<^verbatim>\<open>kernel/trampoline.S\<close>,
  \<^verbatim>\<open>kernel/kernelvec.S\<close> and \<^verbatim>\<open>kernel/swtch.S\<close> as lists of instructions. As the privileged architecture has it,
  \<^verbatim>\<open>sstatus\<close> is a view of \<^verbatim>\<open>mstatus\<close>, and \<^verbatim>\<open>sie\<close> and \<^verbatim>\<open>sip\<close> are views of the delegated bits of \<^verbatim>\<open>mie\<close> and \<^verbatim>\<open>mip\<close>.
  The translation of addresses by the page table in \<^verbatim>\<open>satp\<close> is hardware and an argument of the semantics.
\<close>

section \<open>Registers\<close>

datatype reg = Ra | Sp | Gp | Tp | T0 | T1 | T2 | S0 | S1 | A0 | A1 | A2 | A3 | A4 | A5 | A6 | A7
  | S2 | S3 | S4 | S5 | S6 | S7 | S8 | S9 | S10 | S11 | T3 | T4 | T5 | T6

datatype privilege = User | Supervisor | Machine_Mode

record hart = phys +
  xreg :: "reg \<Rightarrow> 64 word"
  priv :: privilege
  jump :: addr
  h_mhartid :: "64 word"
  h_mstatus :: "64 word"
  h_mepc :: "64 word"
  h_mie :: "64 word"
  h_mip :: "64 word"
  h_medeleg :: "64 word"
  h_mideleg :: "64 word"
  h_menvcfg :: "64 word"
  h_mcounteren :: "64 word"
  h_pmpcfg0 :: "64 word"
  h_pmpaddr0 :: "64 word"
  h_time :: "64 word"
  h_stimecmp :: "64 word"
  h_sepc :: "64 word"
  h_stvec :: "64 word"
  h_satp :: "64 word"
  h_scause :: "64 word"
  h_stval :: "64 word"
  h_sscratch :: "64 word"

text \<open>The bits of \<^verbatim>\<open>mstatus\<close> that \<^verbatim>\<open>sstatus\<close> shows.\<close>

abbreviation SSTATUS_VIEW :: "64 word" where "SSTATUS_VIEW \<equiv> 0x80000003000DE762"

definition merge_bits :: "64 word \<Rightarrow> 64 word \<Rightarrow> 64 word \<Rightarrow> 64 word" where
  "merge_bits sel old new = (old AND NOT sel) OR (new AND sel)"

text \<open>Where \<^verbatim>\<open>struct trapframe\<close> keeps each user register.\<close>

primrec trapframe_off :: "reg \<Rightarrow> nat" where
  "trapframe_off Ra = 40" | "trapframe_off Sp = 48" | "trapframe_off Gp = 56" | "trapframe_off Tp = 64"
| "trapframe_off T0 = 72" | "trapframe_off T1 = 80" | "trapframe_off T2 = 88" | "trapframe_off S0 = 96"
| "trapframe_off S1 = 104" | "trapframe_off A0 = 112" | "trapframe_off A1 = 120" | "trapframe_off A2 = 128"
| "trapframe_off A3 = 136" | "trapframe_off A4 = 144" | "trapframe_off A5 = 152" | "trapframe_off A6 = 160"
| "trapframe_off A7 = 168" | "trapframe_off S2 = 176" | "trapframe_off S3 = 184" | "trapframe_off S4 = 192"
| "trapframe_off S5 = 200" | "trapframe_off S6 = 208" | "trapframe_off S7 = 216" | "trapframe_off S8 = 224"
| "trapframe_off S9 = 232" | "trapframe_off S10 = 240" | "trapframe_off S11 = 248" | "trapframe_off T3 = 256"
| "trapframe_off T4 = 264" | "trapframe_off T5 = 272" | "trapframe_off T6 = 280"

section \<open>Accessors\<close>

definition r_mhartid :: "('z hart_scheme, 64 word) km" where
  "r_mhartid = bnd get (\<lambda>s. ret (h_mhartid s))"

definition r_mstatus :: "('z hart_scheme, 64 word) km" where
  "r_mstatus = bnd get (\<lambda>s. ret (h_mstatus s))"

definition w_mstatus :: "64 word \<Rightarrow> ('z hart_scheme, unit) km" where
  "w_mstatus x = modify (\<lambda>s. s\<lparr>h_mstatus := x\<rparr>)"

definition w_mepc :: "64 word \<Rightarrow> ('z hart_scheme, unit) km" where
  "w_mepc x = modify (\<lambda>s. s\<lparr>h_mepc := x\<rparr>)"

definition r_sstatus :: "('z hart_scheme, 64 word) km" where
  "r_sstatus = bnd get (\<lambda>s. ret (h_mstatus s AND SSTATUS_VIEW))"

definition w_sstatus :: "64 word \<Rightarrow> ('z hart_scheme, unit) km" where
  "w_sstatus x = modify (\<lambda>s. s\<lparr>h_mstatus := merge_bits (SSTATUS_VIEW) (h_mstatus s) x\<rparr>)"

definition r_sip :: "('z hart_scheme, 64 word) km" where
  "r_sip = bnd get (\<lambda>s. ret (h_mip s AND h_mideleg s))"

definition w_sip :: "64 word \<Rightarrow> ('z hart_scheme, unit) km" where
  "w_sip x = modify (\<lambda>s. s\<lparr>h_mip := merge_bits (h_mideleg s) (h_mip s) x\<rparr>)"

definition r_sie :: "('z hart_scheme, 64 word) km" where
  "r_sie = bnd get (\<lambda>s. ret (h_mie s AND h_mideleg s))"

definition w_sie :: "64 word \<Rightarrow> ('z hart_scheme, unit) km" where
  "w_sie x = modify (\<lambda>s. s\<lparr>h_mie := merge_bits (h_mideleg s) (h_mie s) x\<rparr>)"

definition r_mie :: "('z hart_scheme, 64 word) km" where
  "r_mie = bnd get (\<lambda>s. ret (h_mie s))"

definition w_mie :: "64 word \<Rightarrow> ('z hart_scheme, unit) km" where
  "w_mie x = modify (\<lambda>s. s\<lparr>h_mie := x\<rparr>)"

definition w_sepc :: "64 word \<Rightarrow> ('z hart_scheme, unit) km" where
  "w_sepc x = modify (\<lambda>s. s\<lparr>h_sepc := x\<rparr>)"

definition r_sepc :: "('z hart_scheme, 64 word) km" where
  "r_sepc = bnd get (\<lambda>s. ret (h_sepc s))"

definition r_medeleg :: "('z hart_scheme, 64 word) km" where
  "r_medeleg = bnd get (\<lambda>s. ret (h_medeleg s))"

definition w_medeleg :: "64 word \<Rightarrow> ('z hart_scheme, unit) km" where
  "w_medeleg x = modify (\<lambda>s. s\<lparr>h_medeleg := x\<rparr>)"

definition r_mideleg :: "('z hart_scheme, 64 word) km" where
  "r_mideleg = bnd get (\<lambda>s. ret (h_mideleg s))"

definition w_mideleg :: "64 word \<Rightarrow> ('z hart_scheme, unit) km" where
  "w_mideleg x = modify (\<lambda>s. s\<lparr>h_mideleg := x\<rparr>)"

definition w_stvec :: "64 word \<Rightarrow> ('z hart_scheme, unit) km" where
  "w_stvec x = modify (\<lambda>s. s\<lparr>h_stvec := x\<rparr>)"

definition r_stvec :: "('z hart_scheme, 64 word) km" where
  "r_stvec = bnd get (\<lambda>s. ret (h_stvec s))"

definition r_stimecmp :: "('z hart_scheme, 64 word) km" where
  "r_stimecmp = bnd get (\<lambda>s. ret (h_stimecmp s))"

definition w_stimecmp :: "64 word \<Rightarrow> ('z hart_scheme, unit) km" where
  "w_stimecmp x = modify (\<lambda>s. s\<lparr>h_stimecmp := x\<rparr>)"

definition r_menvcfg :: "('z hart_scheme, 64 word) km" where
  "r_menvcfg = bnd get (\<lambda>s. ret (h_menvcfg s))"

definition w_menvcfg :: "64 word \<Rightarrow> ('z hart_scheme, unit) km" where
  "w_menvcfg x = modify (\<lambda>s. s\<lparr>h_menvcfg := x\<rparr>)"

definition w_pmpcfg0 :: "64 word \<Rightarrow> ('z hart_scheme, unit) km" where
  "w_pmpcfg0 x = modify (\<lambda>s. s\<lparr>h_pmpcfg0 := x\<rparr>)"

definition w_pmpaddr0 :: "64 word \<Rightarrow> ('z hart_scheme, unit) km" where
  "w_pmpaddr0 x = modify (\<lambda>s. s\<lparr>h_pmpaddr0 := x\<rparr>)"

definition w_satp :: "64 word \<Rightarrow> ('z hart_scheme, unit) km" where
  "w_satp x = modify (\<lambda>s. s\<lparr>h_satp := x\<rparr>)"

definition r_satp :: "('z hart_scheme, 64 word) km" where
  "r_satp = bnd get (\<lambda>s. ret (h_satp s))"

definition r_scause :: "('z hart_scheme, 64 word) km" where
  "r_scause = bnd get (\<lambda>s. ret (h_scause s))"

definition r_stval :: "('z hart_scheme, 64 word) km" where
  "r_stval = bnd get (\<lambda>s. ret (h_stval s))"

definition w_mcounteren :: "64 word \<Rightarrow> ('z hart_scheme, unit) km" where
  "w_mcounteren x = modify (\<lambda>s. s\<lparr>h_mcounteren := x\<rparr>)"

definition r_mcounteren :: "('z hart_scheme, 64 word) km" where
  "r_mcounteren = bnd get (\<lambda>s. ret (h_mcounteren s))"

definition r_time :: "('z hart_scheme, 64 word) km" where
  "r_time = bnd get (\<lambda>s. ret (h_time s))"

definition csr_intr_on :: "('z hart_scheme, unit) km" where
  "csr_intr_on = bnd r_sstatus (\<lambda>x. w_sstatus (x OR push_bit 1 1))"

definition csr_intr_off :: "('z hart_scheme, unit) km" where
  "csr_intr_off = bnd r_sstatus (\<lambda>x. w_sstatus (x AND NOT (push_bit 1 1)))"

definition csr_intr_get :: "('z hart_scheme, bool) km" where
  "csr_intr_get = bnd r_sstatus (\<lambda>x. ret (x AND push_bit 1 1 \<noteq> 0))"

definition r_sp :: "('z hart_scheme, 64 word) km" where
  "r_sp = bnd get (\<lambda>s. ret (xreg s Sp))"

definition r_tp :: "('z hart_scheme, 64 word) km" where
  "r_tp = bnd get (\<lambda>s. ret (xreg s Tp))"

definition w_tp :: "64 word \<Rightarrow> ('z hart_scheme, unit) km" where
  "w_tp x = modify (\<lambda>s. s\<lparr>xreg := (xreg s)(Tp := x)\<rparr>)"

definition r_ra :: "('z hart_scheme, 64 word) km" where
  "r_ra = bnd get (\<lambda>s. ret (xreg s Ra))"

definition w_sscratch :: "64 word \<Rightarrow> ('z hart_scheme, unit) km" where
  "w_sscratch x = modify (\<lambda>s. s\<lparr>h_sscratch := x\<rparr>)"

lemmas csr_defs = r_mhartid_def r_mstatus_def w_mstatus_def w_mepc_def r_sstatus_def w_sstatus_def r_sip_def w_sip_def
  r_sie_def w_sie_def r_mie_def w_mie_def w_sepc_def r_sepc_def r_medeleg_def w_medeleg_def r_mideleg_def w_mideleg_def
  w_stvec_def r_stvec_def r_stimecmp_def w_stimecmp_def r_menvcfg_def w_menvcfg_def w_pmpcfg0_def w_pmpaddr0_def
  w_satp_def r_satp_def r_scause_def r_stval_def w_mcounteren_def r_mcounteren_def r_time_def r_sp_def r_tp_def w_tp_def
  r_ra_def w_sscratch_def

section \<open>Machine-mode start\<close>

text \<open>\<^verbatim>\<open>mret\<close>: to the mode in \<^verbatim>\<open>MPP\<close> at \<^verbatim>\<open>mepc\<close>; \<^verbatim>\<open>MIE\<close> takes the value of \<^verbatim>\<open>MPIE\<close>, which is set, and \<^verbatim>\<open>MPP\<close> is cleared.\<close>

definition privilege_of :: "64 word \<Rightarrow> privilege" where
  "privilege_of n = (if n = 0 then User else if n = 1 then Supervisor else Machine_Mode)"

definition mret :: "('z hart_scheme, unit) km" where
  "mret = modify (\<lambda>s. s\<lparr>priv := privilege_of (drop_bit 11 (h_mstatus s) AND 3), jump := h_mepc s,
     h_mstatus := merge_bits (push_bit 11 3) (merge_bits (push_bit 3 1) (h_mstatus s) (if bit (h_mstatus s) 7 then push_bit 3 1 else 0) OR push_bit 7 1) 0\<rparr>)"

definition timerinit :: "('z hart_scheme, unit) km" where
  "timerinit =
     bnd r_mie (\<lambda>x. bnd (w_mie (x OR push_bit 5 1)) (\<lambda>_.
     bnd r_menvcfg (\<lambda>x. bnd (w_menvcfg (x OR push_bit 63 1)) (\<lambda>_.
     bnd r_mcounteren (\<lambda>x. bnd (w_mcounteren (x OR 2)) (\<lambda>_.
     bnd r_time (\<lambda>x. w_stimecmp (x + 1000000))))))))"

text \<open>\<open>kmain\<close> is the address of \<^verbatim>\<open>main\<close>; the hart number passes through an \<^verbatim>\<open>int\<close>.\<close>

definition start :: "addr \<Rightarrow> ('z hart_scheme, unit) km" where
  "start kmain =
     bnd r_mstatus (\<lambda>x.
     let x = x AND NOT (push_bit 11 3); x = x OR push_bit 11 1 in
     bnd (w_mstatus x) (\<lambda>_.
     bnd (w_mepc kmain) (\<lambda>_.
     bnd (w_satp 0) (\<lambda>_.
     bnd (w_medeleg 0xffff) (\<lambda>_.
     bnd (w_mideleg 0xffff) (\<lambda>_.
     bnd r_sie (\<lambda>x.
     bnd (w_sie (x OR push_bit 9 1 OR push_bit 5 1)) (\<lambda>_.
     bnd (w_pmpaddr0 0x3fffffffffffff) (\<lambda>_.
     bnd (w_pmpcfg0 0xf) (\<lambda>_.
     bnd timerinit (\<lambda>_.
     bnd r_mhartid (\<lambda>id.
     bnd (w_tp (scast (ucast id :: 32 word))) (\<lambda>_.
     mret)))))))))))))"

section \<open>Assembly\<close>

datatype csr = Sscratch | Satp | Mhartid

datatype instr = Sd reg nat reg | Ld reg nat reg | Li reg "64 word" | Addi reg reg "64 word" | Mul reg reg reg | Add reg reg reg
  | Csrw csr reg | Csrr reg csr | Sfence_vma | Jalr reg | Ret | Sret

definition set_reg :: "reg \<Rightarrow> 64 word \<Rightarrow> 'z hart_scheme \<Rightarrow> 'z hart_scheme" where
  "set_reg r v s = s\<lparr>xreg := (xreg s)(r := v)\<rparr>"

text \<open>
  \<open>tr satp va\<close> is the physical address of \<open>va\<close>; \<open>link\<close> is the address after a call. \<^verbatim>\<open>sret\<close> goes back to the mode in
  \<^verbatim>\<open>SPP\<close> at \<^verbatim>\<open>sepc\<close>; \<^verbatim>\<open>SIE\<close> takes the value of \<^verbatim>\<open>SPIE\<close>, which is set, and \<^verbatim>\<open>SPP\<close> is cleared.
\<close>

definition sret :: "'z hart_scheme \<Rightarrow> 'z hart_scheme" where
  "sret s = s\<lparr>priv := (if bit (h_mstatus s) 8 then Supervisor else User), jump := h_sepc s,
     h_mstatus := merge_bits (push_bit 8 1) (merge_bits (push_bit 1 1) (h_mstatus s) (if bit (h_mstatus s) 5 then push_bit 1 1 else 0) OR push_bit 5 1) 0\<rparr>"

primrec exec_instr :: "(64 word \<Rightarrow> addr \<Rightarrow> addr) \<Rightarrow> addr \<Rightarrow> instr \<Rightarrow> 'z hart_scheme \<Rightarrow> 'z hart_scheme" where
  "exec_instr tr link (Sd r off b) s = s\<lparr>mem := store64 (mem s) (tr (h_satp s) (xreg s b + of_nat off)) (xreg s r)\<rparr>"
| "exec_instr tr link (Ld r off b) s = set_reg r (load64 (mem s) (tr (h_satp s) (xreg s b + of_nat off))) s"
| "exec_instr tr link (Li r v) s = set_reg r v s"
| "exec_instr tr link (Addi r a v) s = set_reg r (xreg s a + v) s"
| "exec_instr tr link (Mul r a b) s = set_reg r (xreg s a * xreg s b) s"
| "exec_instr tr link (Add r a b) s = set_reg r (xreg s a + xreg s b) s"
| "exec_instr tr link (Csrw c r) s = (case c of Sscratch \<Rightarrow> s\<lparr>h_sscratch := xreg s r\<rparr> | Satp \<Rightarrow> s\<lparr>h_satp := xreg s r\<rparr> | Mhartid \<Rightarrow> s)"
| "exec_instr tr link (Csrr r c) s = set_reg r (case c of Sscratch \<Rightarrow> h_sscratch s | Satp \<Rightarrow> h_satp s | Mhartid \<Rightarrow> h_mhartid s) s"
| "exec_instr tr link Sfence_vma s = s"
| "exec_instr tr link (Jalr r) s = (set_reg Ra link s)\<lparr>jump := xreg s r\<rparr>"
| "exec_instr tr link Ret s = s\<lparr>jump := xreg s Ra\<rparr>"
| "exec_instr tr link Sret s = sret s"

definition run_code :: "(64 word \<Rightarrow> addr \<Rightarrow> addr) \<Rightarrow> addr \<Rightarrow> instr list \<Rightarrow> 'z hart_scheme \<Rightarrow> 'z hart_scheme" where
  "run_code tr link is s = fold (exec_instr tr link) is s"

text \<open>\<^verbatim>\<open>sd r, off(b)\<close> and \<^verbatim>\<open>ld r, off(b)\<close> for each pair of a list.\<close>

definition sd_all :: "reg \<Rightarrow> (reg \<times> nat) list \<Rightarrow> instr list" where
  "sd_all b rs = map (\<lambda>(r, off). Sd r off b) rs"

definition ld_all :: "reg \<Rightarrow> (reg \<times> nat) list \<Rightarrow> instr list" where
  "ld_all b rs = map (\<lambda>(r, off). Ld r off b) rs"

definition uservec_saves :: "(reg \<times> nat) list" where
  "uservec_saves =
     [(Ra, 40), (Sp, 48), (Gp, 56), (Tp, 64), (T0, 72), (T1, 80), (T2, 88), (S0, 96), (S1, 104), (A1, 120),
      (A2, 128), (A3, 136), (A4, 144), (A5, 152), (A6, 160), (A7, 168), (S2, 176), (S3, 184), (S4, 192), (S5, 200),
      (S6, 208), (S7, 216), (S8, 224), (S9, 232), (S10, 240), (S11, 248), (T3, 256), (T4, 264), (T5, 272),
      (T6, 280)]"

definition uservec_code :: "instr list" where
  "uservec_code =
     [Csrw Sscratch A0, Li A0 TRAPFRAME] @ sd_all A0 uservec_saves @
     [Csrr T0 Sscratch, Sd T0 112 A0,
      Ld Sp 8 A0, Ld Tp 32 A0, Ld T0 16 A0, Ld T1 0 A0,
      Sfence_vma, Csrw Satp T1, Sfence_vma, Jalr T0]"

definition userret_loads :: "(reg \<times> nat) list" where
  "userret_loads =
     [(Ra, 40), (Sp, 48), (Gp, 56), (Tp, 64), (T0, 72), (T1, 80), (T2, 88), (S0, 96), (S1, 104), (A1, 120),
      (A2, 128), (A3, 136), (A4, 144), (A5, 152), (A6, 160), (A7, 168), (S2, 176), (S3, 184), (S4, 192), (S5, 200),
      (S6, 208), (S7, 216), (S8, 224), (S9, 232), (S10, 240), (S11, 248), (T3, 256), (T4, 264), (T5, 272),
      (T6, 280)]"

definition userret_code :: "instr list" where
  "userret_code =
     [Sfence_vma, Csrw Satp A0, Sfence_vma, Li A0 TRAPFRAME] @ ld_all A0 userret_loads @ [Ld A0 112 A0, Sret]"

definition kernelvec_saves :: "(reg \<times> nat) list" where
  "kernelvec_saves =
     [(Ra, 0), (Gp, 16), (Tp, 24), (T0, 32), (T1, 40), (T2, 48), (A0, 72), (A1, 80), (A2, 88), (A3, 96), (A4, 104),
      (A5, 112), (A6, 120), (A7, 128), (T3, 216), (T4, 224), (T5, 232), (T6, 240)]"

definition kernelvec_loads :: "(reg \<times> nat) list" where
  "kernelvec_loads =
     [(Ra, 0), (Gp, 16), (T0, 32), (T1, 40), (T2, 48), (A0, 72), (A1, 80), (A2, 88), (A3, 96), (A4, 104),
      (A5, 112), (A6, 120), (A7, 128), (T3, 216), (T4, 224), (T5, 232), (T6, 240)]"

text \<open>\<^verbatim>\<open>kernelvec\<close> up to the call of \<^verbatim>\<open>kerneltrap\<close>, and after it.\<close>

definition kernelvec_entry :: "instr list" where
  "kernelvec_entry = Addi Sp Sp (- 256) # sd_all Sp kernelvec_saves"

definition kernelvec_exit :: "instr list" where
  "kernelvec_exit = ld_all Sp kernelvec_loads @ [Addi Sp Sp 256, Sret]"

definition swtch_saves :: "(reg \<times> nat) list" where
  "swtch_saves =
     [(Ra, 0), (Sp, 8), (S0, 16), (S1, 24), (S2, 32), (S3, 40), (S4, 48), (S5, 56), (S6, 64), (S7, 72), (S8, 80),
      (S9, 88), (S10, 96), (S11, 104)]"

definition swtch_loads :: "(reg \<times> nat) list" where
  "swtch_loads =
     [(Ra, 0), (Sp, 8), (S0, 16), (S1, 24), (S2, 32), (S3, 40), (S4, 48), (S5, 56), (S6, 64), (S7, 72), (S8, 80),
      (S9, 88), (S10, 96), (S11, 104)]"

definition swtch_code :: "instr list" where
  "swtch_code = sd_all A0 swtch_saves @ ld_all A1 swtch_loads @ [Ret]"

text \<open>\<open>stack0\<close> and \<open>kstart\<close> are the addresses the linker gives to the stacks and to \<^verbatim>\<open>start\<close>; \<^verbatim>\<open>call\<close> goes through \<^verbatim>\<open>ra\<close>.\<close>

definition entry_code :: "addr \<Rightarrow> addr \<Rightarrow> instr list" where
  "entry_code stack0 kstart =
     [Li Sp stack0, Li A0 (1024 * 4), Csrr A1 Mhartid, Addi A1 A1 1, Mul A0 A0 A1, Add Sp Sp A0, Li Ra kstart, Jalr Ra]"

end
