(* ===== verification/Machine_Spec.thy ===== *)
theory Machine_Spec
  imports Machine
begin

text \<open>
  What the assembly saves and restores: a trap from user space and the return from it give every user
  register back, a context switch resumes where the other context stopped, and an interrupt inside the kernel
  leaves the interrupted code as it was.
\<close>

section \<open>Saving and loading registers\<close>

definition saved :: "(nat \<Rightarrow> addr) \<Rightarrow> (reg \<Rightarrow> 64 word) \<Rightarrow> (reg \<times> nat) list \<Rightarrow> memory \<Rightarrow> memory" where
  "saved f v rs m = fold (\<lambda>(r, off) m. store64 m (f off) (v r)) rs m"

lemma run_append: "run_code tr link (xs @ ys) s = run_code tr link ys (run_code tr link xs s)"
  by (simp add: run_code_def)

lemma run_Cons: "run_code tr link (x # xs) s = run_code tr link xs (exec_instr tr link x s)"
  by (simp add: run_code_def)

lemma run_Nil: "run_code tr link [] s = s"
  by (simp add: run_code_def)

lemmas run_asm = run_append run_Cons run_Nil exec_instr.simps set_reg_def

lemma run_sd_all:
  "run_code tr link (sd_all b rs) s = s\<lparr>mem := saved (\<lambda>off. tr (h_satp s) (xreg s b + of_nat off)) (xreg s) rs (mem s)\<rparr>"
  by (induction rs arbitrary: s) (auto simp: sd_all_def saved_def run_asm)

lemma run_ld_all:
  assumes "b \<notin> fst ` set rs" "distinct (map fst rs)"
  shows "run_code tr link (ld_all b rs) s = s\<lparr>xreg := \<lambda>r. case map_of rs r of None \<Rightarrow> xreg s r
    | Some off \<Rightarrow> load64 (mem s) (tr (h_satp s) (xreg s b + of_nat off))\<rparr>"
  using assms
proof (induction rs arbitrary: s)
  case Nil
  then show ?case by (simp add: ld_all_def run_asm)
next
  case (Cons x rs)
  obtain r off where x: "x = (r, off)" by (cases x)
  let ?t = "set_reg r (load64 (mem s) (tr (h_satp s) (xreg s b + of_nat off))) s"
  have "run_code tr link (ld_all b (x # rs)) s = run_code tr link (ld_all b rs) ?t"
    by (simp add: ld_all_def run_Cons x)
  moreover have "map_of rs r = None" using Cons.prems(2) x by (simp add: map_of_eq_None_iff)
  ultimately show ?case using Cons x by (auto simp: set_reg_def fun_eq_iff split: option.splits)
qed

lemma load_saved:
  assumes al: "\<And>o'. o' \<in> A \<Longrightarrow> aligned8 (f o')" and inj: "inj_on f A" and rs: "snd ` set rs \<subseteq> A"
  shows "o' \<in> A \<Longrightarrow> o' \<notin> snd ` set rs \<Longrightarrow> load64 (saved f v rs m) (f o') = load64 m (f o')"
    and "distinct (map snd rs) \<Longrightarrow> (r, o') \<in> set rs \<Longrightarrow> load64 (saved f v rs m) (f o') = v r"
proof -
  have other: "load64 (saved f v rs m) (f o') = load64 m (f o')" if "o' \<in> A" "o' \<notin> snd ` set rs" "snd ` set rs \<subseteq> A" for o' rs m
    using that
  proof (induction rs arbitrary: m)
    case Nil
    then show ?case by (simp add: saved_def)
  next
    case (Cons x rs)
    obtain q k where x: "x = (q, k)" by (cases x)
    have "f k \<noteq> f o'" using inj_onD [OF inj, of k o'] Cons.prems x by auto
    then have "load64 (store64 m (f k) (v q)) (f o') = load64 m (f o')"
      using Cons.prems x by (intro load64_store64_other al) auto
    then show ?case using Cons x by (simp add: saved_def)
  qed
  then show "o' \<in> A \<Longrightarrow> o' \<notin> snd ` set rs \<Longrightarrow> load64 (saved f v rs m) (f o') = load64 m (f o')" using rs by blast
  show "distinct (map snd rs) \<Longrightarrow> (r, o') \<in> set rs \<Longrightarrow> load64 (saved f v rs m) (f o') = v r"
    using rs
  proof (induction rs arbitrary: m)
    case Nil
    then show ?case by simp
  next
    case (Cons x rs)
    obtain q k where x: "x = (q, k)" by (cases x)
    show ?case
    proof (cases "x = (r, o')")
      case True
      have "load64 (saved f v rs (store64 m (f o') (v r))) (f o') = load64 (store64 m (f o') (v r)) (f o')"
        using Cons.prems True by (intro other) force+
      then show ?thesis using True by (simp add: saved_def)
    next
      case False
      then have "(r, o') \<in> set rs" using Cons.prems by auto
      then show ?thesis using Cons.IH [of "store64 m (f k) (v q)"] Cons.prems x by (simp add: saved_def)
    qed
  qed
qed

lemma saved_outside:
  assumes "\<And>off. off \<in> snd ` set rs \<Longrightarrow> \<not> unat (x - f off) < 8"
  shows "saved f v rs m x = m x"
  using assms by (induction rs arbitrary: m) (auto simp: saved_def store64_def)

section \<open>Traps from user space\<close>

lemma page_slots:
  assumes "page_aligned p"
  shows "i < 512 \<Longrightarrow> aligned8 (p + of_nat (8 * i))"
    and "inj_on (\<lambda>off. p + of_nat off) {off. off < 4096}"
proof -
  show "i < 512 \<Longrightarrow> aligned8 (p + of_nat (8 * i))" by (rule aligned8_entry [OF assms])
  show "inj_on (\<lambda>off. p + of_nat off) {off. off < 4096}"
    by (rule inj_onI) (simp add: word_of_nat_eq_iff take_bit_nat_eq_self)
qed

lemma saved_cong:
  "(\<And>r off. (r, off) \<in> set rs \<Longrightarrow> f off = g off \<and> v r = w r) \<Longrightarrow> saved f v rs m = saved g w rs m"
  unfolding saved_def by (rule fold_cong) auto

text \<open>The doublewords of a trapframe.\<close>

definition slots :: "nat set" where
  "slots = {off. off < 4096 \<and> 8 dvd off}"

lemma slot_addresses:
  assumes "page_aligned p"
  shows "off \<in> slots \<Longrightarrow> aligned8 (p + of_nat off)" and "inj_on (\<lambda>off. p + of_nat off) slots"
proof -
  show "off \<in> slots \<Longrightarrow> aligned8 (p + of_nat off)" using page_slots(1) [OF assms] by (auto simp: slots_def elim!: dvdE)
  show "inj_on (\<lambda>off. p + of_nat off) slots" by (rule inj_on_subset [OF page_slots(2) [OF assms]]) (auto simp: slots_def)
qed

lemma frame_saves:
  "snd ` set uservec_saves \<subseteq> slots" "distinct (map snd uservec_saves)" "112 \<notin> snd ` set uservec_saves"
  "(r, off) \<in> set uservec_saves \<longleftrightarrow> r \<noteq> A0 \<and> off = trapframe_off r"
  subgoal by (simp add: uservec_saves_def slots_def)
  subgoal by (simp add: uservec_saves_def)
  subgoal by (simp add: uservec_saves_def)
  subgoal by (cases r) (simp_all add: uservec_saves_def)
  done

lemma frame_loads:
  "A0 \<notin> fst ` set userret_loads" "distinct (map fst userret_loads)"
  "map_of userret_loads r = (if r = A0 then None else Some (trapframe_off r))"
  subgoal by (simp add: userret_loads_def)
  subgoal by (simp add: userret_loads_def)
  subgoal by (cases r) (simp_all add: userret_loads_def)
  done

lemma trapframe_off_slot: "trapframe_off r \<in> slots" "trapframe_off r < 288" "40 \<le> trapframe_off r"
  by (cases r; simp add: slots_def)+

lemma trapframe_off_A0: "trapframe_off r = 112 \<longleftrightarrow> r = A0"
  by (cases r) simp_all

definition frame_mem :: "addr \<Rightarrow> (reg \<Rightarrow> 64 word) \<Rightarrow> memory \<Rightarrow> memory" where
  "frame_mem tf v m = store64 (saved (\<lambda>off. tf + of_nat off) v uservec_saves m) (tf + 112) (v A0)"

lemma frame_mem_load:
  assumes "page_aligned tf"
  shows "load64 (frame_mem tf v m) (tf + of_nat (trapframe_off r)) = v r"
    and "off \<in> slots \<Longrightarrow> off < 40 \<Longrightarrow> load64 (frame_mem tf v m) (tf + of_nat off) = load64 m (tf + of_nat off)"
proof -
  note sa = slot_addresses [OF assms]
  have s112: "112 \<in> slots" by (simp add: slots_def)
  have other: "load64 (frame_mem tf v m) (tf + of_nat off) = load64 (saved (\<lambda>off. tf + of_nat off) v uservec_saves m) (tf + of_nat off)"
    if "off \<in> slots" "off \<noteq> 112" for off
  proof -
    have "tf + of_nat off \<noteq> tf + of_nat 112" using inj_onD [OF sa(2) _ that(1) s112] that(2) by auto
    then show ?thesis unfolding frame_mem_def using sa(1) [OF that(1)] sa(1) [OF s112] by (intro load64_store64_other) auto
  qed
  show "load64 (frame_mem tf v m) (tf + of_nat (trapframe_off r)) = v r"
  proof (cases "r = A0")
    case True
    then show ?thesis by (simp add: frame_mem_def)
  next
    case False
    then have "load64 (saved (\<lambda>off. tf + of_nat off) v uservec_saves m) (tf + of_nat (trapframe_off r)) = v r"
      by (intro load_saved(2) [OF sa frame_saves(1,2)]) (auto simp: frame_saves(4))
    then show ?thesis using False by (simp add: other trapframe_off_slot trapframe_off_A0)
  qed
  show "load64 (frame_mem tf v m) (tf + of_nat off) = load64 m (tf + of_nat off)" if "off \<in> slots" "off < 40"
  proof -
    have "off \<notin> snd ` set uservec_saves" using frame_saves(4) trapframe_off_slot(3) that(2) by (force simp: not_le [symmetric])
    then show ?thesis using that by (simp add: other load_saved(1) [OF sa frame_saves(1)])
  qed
qed

lemma uservec_run:
  assumes al: "page_aligned tf" and tr: "\<And>off. off < 4096 \<Longrightarrow> tr (h_satp m) (TRAPFRAME + of_nat off) = tf + of_nat off"
  shows "run_code tr link uservec_code m = m\<lparr>mem := frame_mem tf (xreg m) (mem m),
    xreg := (xreg m)(A0 := TRAPFRAME, Sp := load64 (mem m) (tf + 8), Tp := load64 (mem m) (tf + 32),
      T0 := load64 (mem m) (tf + 16), T1 := load64 (mem m) tf, Ra := link),
    jump := load64 (mem m) (tf + 16), h_satp := load64 (mem m) tf, h_sscratch := xreg m A0\<rparr>"
proof -
  have sv: "saved (\<lambda>off. tr (h_satp m) (TRAPFRAME + of_nat off)) ((xreg m)(A0 := TRAPFRAME)) uservec_saves M =
    saved (\<lambda>off. tf + of_nat off) (xreg m) uservec_saves M" for M
  proof (rule saved_cong)
    fix r off assume "(r, off) \<in> set uservec_saves"
    then have "r \<noteq> A0" "off < 4096" using trapframe_off_slot(2) [of r] by (simp_all add: frame_saves(4))
    with tr [of off] show "tr (h_satp m) (TRAPFRAME + of_nat off) = tf + of_nat off \<and> ((xreg m)(A0 := TRAPFRAME)) r = xreg m r" by simp
  qed
  have at: "tr (h_satp m) (TRAPFRAME + 112) = tf + 112" "tr (h_satp m) (TRAPFRAME + 8) = tf + 8" "tr (h_satp m) (TRAPFRAME + 32) = tf + 32"
    "tr (h_satp m) (TRAPFRAME + 16) = tf + 16" "tr (h_satp m) (TRAPFRAME + 0) = tf + 0"
    using tr [of 112] tr [of 8] tr [of 32] tr [of 16] tr [of 0] by simp_all
  have ld: "load64 (frame_mem tf (xreg m) (mem m)) (tf + of_nat off) = load64 (mem m) (tf + of_nat off)" if "off \<in> {0, 8, 16, 32}" for off
    using that by (intro frame_mem_load(2) [OF al]) (auto simp: slots_def)
  show ?thesis
    using ld [of 0] ld [of 8] ld [of 16] ld [of 32] at
    by (simp add: uservec_code_def run_asm run_sd_all sv [simplified] frame_mem_def [symmetric])
qed

lemma userret_run:
  assumes tr: "\<And>off. off < 4096 \<Longrightarrow> tr (xreg n A0) (TRAPFRAME + of_nat off) = tf + of_nat off"
  shows "run_code tr link userret_code n =
    sret (n\<lparr>h_satp := xreg n A0, xreg := \<lambda>r. load64 (mem n) (tf + of_nat (trapframe_off r))\<rparr>)"
proof -
  have at: "tr (xreg n A0) (TRAPFRAME + of_nat (trapframe_off r)) = tf + of_nat (trapframe_off r)" for r
    using trapframe_off_slot(1) by (intro tr) (simp add: slots_def)
  have a0: "tr (xreg n A0) (TRAPFRAME + 112) = tf + 112" using at [of A0] by simp
  have loads: "(\<lambda>r. case map_of userret_loads r of None \<Rightarrow> u r | Some off \<Rightarrow> f off) = (\<lambda>r. if r = A0 then u r else f (trapframe_off r))"
    for u and f :: "nat \<Rightarrow> 64 word"
    by (simp add: fun_eq_iff frame_loads(3))
  have all: "(\<lambda>r. if r = A0 then u r else load64 (mem n) (tf + of_nat (trapframe_off r)))(A0 := load64 (mem n) (tf + 112)) =
    (\<lambda>r. load64 (mem n) (tf + of_nat (trapframe_off r)))" for u
    by (simp add: fun_eq_iff)
  show ?thesis
    by (simp add: userret_code_def run_asm run_ld_all [OF frame_loads(1,2)] loads at [simplified] a0 [simplified] all cong: if_cong)
qed

section \<open>Context switches and traps inside the kernel\<close>

definition context_regs :: "reg set" where
  "context_regs = {Ra, Sp, S0, S1, S2, S3, S4, S5, S6, S7, S8, S9, S10, S11}"

lemma swtch_lists:
  "distinct (map snd swtch_saves)" "A1 \<notin> fst ` set swtch_loads" "distinct (map fst swtch_loads)"
  "snd ` set swtch_saves \<subseteq> {off. off < 112 \<and> 8 dvd off}"
  "r \<in> context_regs \<Longrightarrow> \<exists>off < 112. 8 dvd off \<and> (r, off) \<in> set swtch_saves \<and> map_of swtch_loads r = Some off"
  "r \<notin> context_regs \<Longrightarrow> map_of swtch_loads r = None"
  by (auto simp: swtch_saves_def swtch_loads_def context_regs_def)

lemma aligned8_add:
  assumes "aligned8 a" "8 dvd off" "off < 2 ^ 32"
  shows "aligned8 (a + of_nat off)"
proof -
  have "unat (a + of_nat off) = (unat a + off) mod 2 ^ 64"
    using assms(3) by (simp add: unat_word_ariths unat_of_nat_lt)
  moreover have "8 dvd (unat a + off) mod 2 ^ 64" using assms by (intro dvd_mod dvd_add) (auto simp: aligned8_def)
  ultimately have "8 dvd unat (a + of_nat off)" by simp
  then show ?thesis by (simp add: aligned8_def)
qed

lemma saved_elsewhere:
  assumes "aligned8 b" "\<And>off. off \<in> snd ` set rs \<Longrightarrow> aligned8 (f off) \<and> f off \<noteq> b"
  shows "load64 (saved f v rs m) b = load64 m b"
  using assms(2)
proof (induction rs arbitrary: m)
  case Nil
  then show ?case by (simp add: saved_def)
next
  case (Cons x rs)
  obtain q k where x: "x = (q, k)" by (cases x)
  have "load64 (store64 m (f k) (v q)) b = load64 m b"
    using Cons.prems [of k] assms(1) x by (intro load64_store64_other) auto
  then show ?case using Cons x by (simp add: saved_def)
qed

lemma apart_offsets:
  fixes a b :: addr
  assumes "n \<le> unat (a - b)" "n \<le> unat (b - a)" "i < n" "j < n" "n < 2 ^ 32"
  shows "a + of_nat i \<noteq> b + of_nat j"
proof
  assume e: "a + of_nat i = b + of_nat j"
  show False
  proof (cases "i \<le> j")
    case True
    then have "a - b = of_nat (j - i)" using e by (simp add: of_nat_diff algebra_simps)
    then have "unat (a - b) = j - i" using assms by (simp add: unat_of_nat_lt)
    then show False using assms by simp
  next
    case False
    then have "b - a = of_nat (i - j)" using e by (simp add: of_nat_diff algebra_simps)
    then have "unat (b - a) = i - j" using assms by (simp add: unat_of_nat_lt)
    then show False using assms by simp
  qed
qed

text \<open>\<open>swtch_ready tr m\<close>: the two contexts are distinct kernel objects, which the kernel page table maps directly.\<close>

definition swtch_ready :: "(64 word \<Rightarrow> addr \<Rightarrow> addr) \<Rightarrow> 'z hart_scheme \<Rightarrow> bool" where
  "swtch_ready tr m \<longleftrightarrow> (\<forall>off<112. tr (h_satp m) (xreg m A0 + of_nat off) = xreg m A0 + of_nat off \<and>
       tr (h_satp m) (xreg m A1 + of_nat off) = xreg m A1 + of_nat off) \<and>
     aligned8 (xreg m A0) \<and> aligned8 (xreg m A1) \<and>
     112 \<le> unat (xreg m A0 - xreg m A1) \<and> 112 \<le> unat (xreg m A1 - xreg m A0)"

lemma swtch_run:
  assumes ok: "swtch_ready tr m"
  shows "(r, off) \<in> set swtch_saves \<Longrightarrow> load64 (mem (run_code tr link swtch_code m)) (xreg m A0 + of_nat off) = xreg m r"
    and "xreg (run_code tr link swtch_code m) q =
      (case map_of swtch_loads q of None \<Rightarrow> xreg m q | Some off \<Rightarrow> load64 (mem m) (xreg m A1 + of_nat off))"
    and "jump (run_code tr link swtch_code m) = xreg (run_code tr link swtch_code m) Ra"
    and "h_satp (run_code tr link swtch_code m) = h_satp m"
proof -
  let ?f = "\<lambda>off. xreg m A0 + of_nat off" and ?A = "{off. off < 112 \<and> 8 dvd off}"
  have al: "aligned8 (xreg m A0 + of_nat off)" "aligned8 (xreg m A1 + of_nat off)" if "off \<in> ?A" for off
    using ok that by (auto simp: swtch_ready_def intro!: aligned8_add)
  have inj: "inj_on ?f ?A" by (rule inj_onI) (simp add: word_of_nat_eq_iff take_bit_nat_eq_self)
  have ne: "xreg m A0 + of_nat i \<noteq> xreg m A1 + of_nat j" if "i < 112" "j < 112" for i j
    using ok that apart_offsets [of 112 "xreg m A0" "xreg m A1" i j] by (simp add: swtch_ready_def)
  have sv: "saved (\<lambda>off. tr (h_satp m) (xreg m A0 + of_nat off)) (xreg m) swtch_saves M = saved ?f (xreg m) swtch_saves M" for M
    by (rule saved_cong) (use ok swtch_lists(4) in \<open>force simp: swtch_ready_def\<close>)
  define M where "M = saved ?f (xreg m) swtch_saves (mem m)"
  have new: "load64 M (xreg m A1 + of_nat off) = load64 (mem m) (xreg m A1 + of_nat off)" if "off \<in> ?A" for off
    unfolding M_def using that al ne swtch_lists(4) by (intro saved_elsewhere) auto
  have off: "off \<in> ?A" if "map_of swtch_loads q = Some off" for q off
    using that swtch_lists(5) [of q] swtch_lists(6) [of q] by (cases "q \<in> context_regs") auto
  have tr1: "tr (h_satp m) (xreg m A1 + of_nat off) = xreg m A1 + of_nat off" if "off \<in> ?A" for off
    using ok that by (simp add: swtch_ready_def)
  have run: "run_code tr link swtch_code m = (let x = \<lambda>r. case map_of swtch_loads r of None \<Rightarrow> xreg m r
      | Some off \<Rightarrow> load64 M (tr (h_satp m) (xreg m A1 + of_nat off)) in m\<lparr>mem := M, xreg := x, jump := x Ra\<rparr>)"
    by (simp add: swtch_code_def run_asm run_sd_all sv run_ld_all [OF swtch_lists(2,3)] M_def [symmetric] Let_def cong: option.case_cong)
  show "load64 (mem (run_code tr link swtch_code m)) (xreg m A0 + of_nat off) = xreg m r" if "(r, off) \<in> set swtch_saves"
    using load_saved(2) [OF al(1) inj swtch_lists(4,1) that, of "xreg m" "mem m"] by (simp add: run M_def Let_def)
  show "xreg (run_code tr link swtch_code m) q =
      (case map_of swtch_loads q of None \<Rightarrow> xreg m q | Some off \<Rightarrow> load64 (mem m) (xreg m A1 + of_nat off))"
    using off [of q] new tr1 by (simp add: run Let_def split: option.split)
  show "jump (run_code tr link swtch_code m) = xreg (run_code tr link swtch_code m) Ra"
    and "h_satp (run_code tr link swtch_code m) = h_satp m"
    by (simp_all add: run Let_def)
qed

text \<open>\<open>kframe\<close>: the doublewords that \<^verbatim>\<open>kernelvec\<close> pushes on the kernel stack.\<close>

definition kframe :: "nat set" where
  "kframe = {off. off < 256 \<and> 8 dvd off}"

definition callee_saved :: "reg set" where
  "callee_saved = {S0, S1, S2, S3, S4, S5, S6, S7, S8, S9, S10, S11}"

lemma kernelvec_lists:
  "snd ` set kernelvec_saves \<subseteq> kframe" "distinct (map snd kernelvec_saves)"
  "Sp \<notin> fst ` set kernelvec_loads" "distinct (map fst kernelvec_loads)"
  "r \<notin> callee_saved \<Longrightarrow> r \<noteq> Sp \<Longrightarrow> r \<noteq> Tp \<Longrightarrow> \<exists>off. map_of kernelvec_loads r = Some off \<and> (r, off) \<in> set kernelvec_saves"
  "r \<in> callee_saved \<Longrightarrow> map_of kernelvec_loads r = None"
  subgoal by (simp add: kernelvec_saves_def kframe_def)
  subgoal by (simp add: kernelvec_saves_def)
  subgoal by (simp add: kernelvec_loads_def)
  subgoal by (simp add: kernelvec_loads_def)
  subgoal by (cases r) (simp_all add: kernelvec_saves_def kernelvec_loads_def callee_saved_def)
  subgoal by (auto simp: kernelvec_loads_def callee_saved_def)
  done

section \<open>Properties\<close>

text \<open>
  C15. A trap from user space loses nothing. \<^verbatim>\<open>uservec\<close> saves all 31 user registers in the trapframe, at the
  offsets of \<^verbatim>\<open>struct trapframe\<close>, touches no other memory, and enters \<^verbatim>\<open>usertrap\<close> with the kernel's stack, hart
  number and page table from the trapframe. When the kernel comes back through \<^verbatim>\<open>userret\<close>, every register whose
  slot it left alone has its value from before the trap, whatever happened in between; control returns to
  \<^verbatim>\<open>sepc\<close> under the user's page table.
\<close>

theorem user_trap_roundtrip:
  assumes tf: "page_aligned tf" "\<And>off. off < 4096 \<Longrightarrow> tr (h_satp m) (TRAPFRAME + of_nat off) = tf + of_nat off"
    and k: "k = run_code tr userret uservec_code m"
  shows "(\<forall>r. load64 (mem k) (tf + of_nat (trapframe_off r)) = xreg m r) \<and>
    (\<forall>x. unat (x - tf) < 40 \<or> 288 \<le> unat (x - tf) \<longrightarrow> mem k x = mem m x) \<and>
    jump k = load64 (mem m) (tf + 16) \<and> xreg k Ra = userret \<and> xreg k Sp = load64 (mem m) (tf + 8) \<and>
    xreg k Tp = load64 (mem m) (tf + 32) \<and> h_satp k = load64 (mem m) tf \<and>
    (\<forall>n r. xreg n A0 = h_satp m \<longrightarrow>
       load64 (mem n) (tf + of_nat (trapframe_off r)) = load64 (mem k) (tf + of_nat (trapframe_off r)) \<longrightarrow>
       (let u = run_code tr link userret_code n in xreg u r = xreg m r \<and> jump u = h_sepc n \<and> h_satp u = h_satp m \<and> mem u = mem n))"
proof -
  note run = uservec_run [where tf = tf and tr = tr and m = m and link = userret, OF tf]
  have mem: "mem k = frame_mem tf (xreg m) (mem m)" by (simp add: k run)
  have sl: "load64 (mem k) (tf + of_nat (trapframe_off r)) = xreg m r" for r
    unfolding mem by (rule frame_mem_load(1) [OF tf(1)])
  have out: "mem k x = mem m x" if x: "unat (x - tf) < 40 \<or> 288 \<le> unat (x - tf)" for x
  proof -
    have far: "\<not> unat (x - (tf + of_nat off)) < 8" if "40 \<le> off" "off \<le> 280" for off
    proof
      assume a: "unat (x - (tf + of_nat off)) < 8"
      define d where "d = unat (x - (tf + of_nat off))"
      have "x - tf = of_nat (d + off)" by (simp add: d_def)
      then have "unat (x - tf) = d + off" using a that by (simp add: d_def unat_of_nat_lt del: of_nat_add)
      then show False using x that a by (simp add: d_def)
    qed
    have "40 \<le> off \<and> off \<le> 280" if "off \<in> snd ` set uservec_saves" for off
      using that by (auto simp: uservec_saves_def)
    then have "saved (\<lambda>off. tf + of_nat off) (xreg m) uservec_saves (mem m) x = mem m x"
      using far by (intro saved_outside) blast
    then show ?thesis using far [of 112] by (simp add: mem frame_mem_def store64_def)
  qed
  have ends: "let u = run_code tr link userret_code n in xreg u r = xreg m r \<and> jump u = h_sepc n \<and> h_satp u = h_satp m \<and> mem u = mem n"
    if "xreg n A0 = h_satp m" "load64 (mem n) (tf + of_nat (trapframe_off r)) = load64 (mem k) (tf + of_nat (trapframe_off r))" for n r
  proof -
    have "run_code tr link userret_code n = sret (n\<lparr>h_satp := xreg n A0, xreg := \<lambda>r. load64 (mem n) (tf + of_nat (trapframe_off r))\<rparr>)"
      by (rule userret_run) (unfold that(1), rule tf(2))
    then show ?thesis using that sl by (simp add: sret_def)
  qed
  show ?thesis
    by (intro conjI allI impI; (rule sl out ends; assumption)?) (simp_all add: k run)
qed

text \<open>
  C16. A context switch there and back resumes the first context: after \<^verbatim>\<open>swtch(a, b)\<close> on one side and a later
  \<^verbatim>\<open>swtch(b, a)\<close> that finds the saved context unchanged, the callee-saved registers, the stack pointer and the
  return address are those of the first call, and control goes on after it.
\<close>

theorem swtch_there_and_back:
  assumes "swtch_ready tr m" "k = run_code tr link swtch_code m"
    and "swtch_ready tr n" "xreg n A1 = xreg m A0" "\<And>off. off < 112 \<Longrightarrow> load64 (mem n) (xreg m A0 + of_nat off) = load64 (mem k) (xreg m A0 + of_nat off)"
  shows "(\<forall>r\<in>context_regs. xreg (run_code tr link swtch_code n) r = xreg m r) \<and> jump (run_code tr link swtch_code n) = xreg m Ra"
proof -
  have r: "xreg (run_code tr link swtch_code n) r = xreg m r" if "r \<in> context_regs" for r
    using swtch_lists(5) [OF that] swtch_run(2) [OF assms(3), of link r] swtch_run(1) [OF assms(1), of r] assms(2,4,5) by auto
  have "Ra \<in> context_regs" by (simp add: context_regs_def)
  with r show ?thesis by (auto simp: swtch_run(3) [OF assms(3)])
qed

text \<open>
  An interrupt inside the kernel is invisible to the interrupted code: when \<^verbatim>\<open>kerneltrap\<close> keeps the calling
  convention and the stack frame, \<^verbatim>\<open>kernelvec\<close> gives back every register but \<^verbatim>\<open>tp\<close>, which may have changed with the hart.
\<close>

theorem kernel_trap_roundtrip:
  assumes f: "\<And>off. off \<in> kframe \<Longrightarrow> aligned8 (f off) \<and> tr (h_satp m) (xreg m Sp - 256 + of_nat off) = f off" "inj_on f kframe"
    and k: "k = run_code tr link kernelvec_entry m"
    and n: "xreg n Sp = xreg k Sp" "h_satp n = h_satp m" "\<And>off. off \<in> kframe \<Longrightarrow> load64 (mem n) (f off) = load64 (mem k) (f off)"
      "\<And>r. r \<in> callee_saved \<Longrightarrow> xreg n r = xreg k r"
  shows "\<forall>r. r \<noteq> Tp \<longrightarrow> xreg (run_code tr link kernelvec_exit n) r = xreg m r"
proof -
  have ks: "xreg k = (xreg m)(Sp := xreg m Sp - 256)" by (simp add: k kernelvec_entry_def run_asm run_sd_all)
  have saved_k: "load64 (mem k) (f off) = xreg m r" if "(r, off) \<in> set kernelvec_saves" for r off
  proof -
    have sv: "saved (\<lambda>off. tr (h_satp m) (xreg m Sp - 256 + of_nat off)) v kernelvec_saves M = saved f v kernelvec_saves M" for v M
      by (rule saved_cong) (use f(1) kernelvec_lists(1) in force)
    have "r \<noteq> Sp" using that by (auto simp: kernelvec_saves_def)
    moreover have "mem k = saved f ((xreg m)(Sp := xreg m Sp - 256)) kernelvec_saves (mem m)"
      by (simp add: k kernelvec_entry_def run_asm run_sd_all sv [simplified])
    ultimately show ?thesis using load_saved(2) [OF _ f(2) kernelvec_lists(1,2) that, of "(xreg m)(Sp := xreg m Sp - 256)" "mem m"] f(1) by simp
  qed
  have sp: "map_of kernelvec_loads Sp = None" by (simp add: kernelvec_loads_def)
  show ?thesis
  proof (intro allI impI)
    fix r assume r: "r \<noteq> Tp"
    have x: "xreg (run_code tr link kernelvec_exit n) r = (if r = Sp then xreg n Sp + 256 else case map_of kernelvec_loads r of None \<Rightarrow> xreg n r
      | Some off \<Rightarrow> load64 (mem n) (tr (h_satp m) (xreg m Sp - 256 + of_nat off)))"
      by (simp add: kernelvec_exit_def run_asm run_ld_all [OF kernelvec_lists(3,4)] sret_def n(1,2) ks sp cong: option.case_cong)
    consider "r = Sp" | "r \<in> callee_saved" "r \<noteq> Sp" | off where "r \<noteq> Sp" "map_of kernelvec_loads r = Some off" "(r, off) \<in> set kernelvec_saves"
      using kernelvec_lists(5) r by blast
    then show "xreg (run_code tr link kernelvec_exit n) r = xreg m r"
    proof cases
      case 1
      then show ?thesis using x n(1) ks by simp
    next
      case 2
      then show ?thesis using x n(4) ks kernelvec_lists(6) by simp
    next
      case 3
      have "off \<in> kframe" using kernelvec_lists(1) 3(3) by force
      then show ?thesis using x 3 f(1) n(3) saved_k by simp
    qed
  qed
qed

section \<open>The start of a hart\<close>

definition start_mstatus :: "64 word \<Rightarrow> 64 word" where
  "start_mstatus x = (x AND NOT (push_bit 11 3)) OR push_bit 11 1"

definition mret_mstatus :: "64 word \<Rightarrow> 64 word" where
  "mret_mstatus x = merge_bits (push_bit 11 3) (merge_bits (push_bit 3 1) x (if bit x 7 then push_bit 3 1 else 0) OR push_bit 7 1) 0"

definition start_mie :: "64 word \<Rightarrow> 64 word" where
  "start_mie x = merge_bits 0xffff x ((x AND 0xffff) OR push_bit 9 1 OR push_bit 5 1) OR push_bit 5 1"

lemma start_run:
  "start kmain s = Inr ((), s\<lparr>priv := privilege_of (drop_bit 11 (start_mstatus (h_mstatus s)) AND 3), jump := kmain,
     h_mstatus := mret_mstatus (start_mstatus (h_mstatus s)), h_mepc := kmain, h_satp := 0, h_medeleg := 0xffff, h_mideleg := 0xffff,
     h_mie := start_mie (h_mie s), h_pmpaddr0 := 0x3fffffffffffff, h_pmpcfg0 := 0xf, h_menvcfg := h_menvcfg s OR push_bit 63 1,
     h_mcounteren := h_mcounteren s OR 2, h_stimecmp := h_time s + 1000000,
     xreg := (xreg s)(Tp := scast (ucast (h_mhartid s) :: 32 word))\<rparr>)"
  by (simp add: start_def timerinit_def mret_def csr_defs run_simps Let_def start_mstatus_def mret_mstatus_def start_mie_def)

lemma small_bits:
  "bit (0xFFFF :: 64 word) i \<longleftrightarrow> i < 16" "bit (3 :: 64 word) i \<longleftrightarrow> i < 2" "bit (2 :: 64 word) i \<longleftrightarrow> i = 1"
proof -
  have e: "(0xFFFF :: 64 word) = mask 16" "(3 :: 64 word) = mask 2" "(2 :: 64 word) = push_bit 1 1" by (simp_all add: mask_eq_exp_minus_1)
  show "bit (0xFFFF :: 64 word) i \<longleftrightarrow> i < 16" unfolding e(1) bit_mask_iff by auto
  show "bit (3 :: 64 word) i \<longleftrightarrow> i < 2" unfolding e(2) bit_mask_iff by auto
  show "bit (2 :: 64 word) i \<longleftrightarrow> i = 1" unfolding e(3) bit_push_bit_iff bit_1_iff by auto
qed

lemmas bitwise = merge_bits_def bit_and_iff bit_or_iff bit_drop_bit_eq comp_def bit_push_bit_iff bit_not_iff small_bits bit_1_iff

lemma start_mode: "privilege_of (drop_bit 11 (start_mstatus x) AND 3) = Supervisor"
proof -
  have "drop_bit 11 (start_mstatus x) AND 3 = 1"
    by (rule bit_word_eqI) (unfold start_mstatus_def bitwise, auto)
  then show ?thesis by (simp add: privilege_of_def)
qed

lemma start_bits:
  "bit (start_mie x AND 0xffff) i \<longleftrightarrow> i < 16 \<and> bit x i \<or> i = 5 \<or> i = 9"
  "i \<notin> {3, 7, 11, 12} \<Longrightarrow> bit (mret_mstatus x) i = bit x i"
  "i \<notin> {11, 12} \<Longrightarrow> bit (start_mstatus x) i = bit x i"
  subgoal unfolding start_mie_def bitwise by auto
  subgoal by (cases "bit x 7"; simp only: mret_mstatus_def if_True if_False bitwise; auto dest: bit_imp_le_length)
  subgoal unfolding start_mstatus_def bitwise by (auto dest: bit_imp_le_length)
  done

text \<open>
  C30. The machine-mode start hands over to \<^verbatim>\<open>main\<close> as the kernel expects it: in supervisor mode, with paging off, all
  traps delegated, external and timer interrupts enabled in the supervisor's view, access to all memory, the first timer
  interrupt armed and the hart number in \<^verbatim>\<open>tp\<close>; of \<^verbatim>\<open>mstatus\<close> only the bits that \<^verbatim>\<open>mret\<close> and the previous mode
  concern change.
\<close>

theorem start_enters_main:
  "wp (start kmain) (\<lambda>_ t. priv t = Supervisor \<and> jump t = kmain \<and> h_satp t = 0 \<and> h_medeleg t = 0xffff \<and> h_mideleg t = 0xffff \<and>
     wp r_sie (\<lambda>x _. \<forall>i. bit x i = (i < 16 \<and> bit (h_mie s) i \<or> i = 5 \<or> i = 9)) t \<and>
     h_pmpcfg0 t = 0xf \<and> h_pmpaddr0 t = mask 54 \<and> bit (h_menvcfg t) 63 \<and> bit (h_mcounteren t) 1 \<and>
     h_stimecmp t = h_time s + 1000000 \<and> xreg t Tp = scast (ucast (h_mhartid s) :: 32 word) \<and> mem t = mem s \<and>
     (\<forall>i. bit (h_mstatus t) i = bit (h_mstatus s) i \<or> i \<in> {3, 7, 11, 12})) s"
proof -
  have e: "bit (h_menvcfg s OR push_bit 63 1) 63" "bit (h_mcounteren s OR 2) 1" unfolding bitwise by simp_all
  have m: "0x3fffffffffffff = (mask 54 :: 64 word)" by (simp add: mask_eq_exp_minus_1)
  have b: "bit (mret_mstatus (start_mstatus x)) i = bit x i \<or> i \<in> {3, 7, 11, 12}" for x i
    using start_bits(2) [of i "start_mstatus x"] start_bits(3) [of i x] by blast
  show ?thesis unfolding wp_run [OF start_run] start_mode
    using e m b by (simp add: wp_def r_sie_def run_simps start_bits(1))
qed

section \<open>Witnesses\<close>

definition hart0 :: hart where
  "hart0 = \<lparr>mem = \<lambda>_. 0, xreg = \<lambda>r. of_nat (trapframe_off r), priv = User, jump = 0, h_mhartid = 0, h_mstatus = 0, h_mepc = 0, h_mie = 0,
     h_mip = 0, h_medeleg = 0, h_mideleg = 0, h_menvcfg = 0, h_mcounteren = 0, h_pmpcfg0 = 0, h_pmpaddr0 = 0, h_time = 0, h_stimecmp = 0,
     h_sepc = 0, h_stvec = 0, h_satp = 0, h_scause = 0, h_stval = 0, h_sscratch = 0\<rparr>"

lemma hart0_fields: "xreg hart0 r = of_nat (trapframe_off r)" "h_satp hart0 = 0" "mem hart0 = (\<lambda>_. 0)"
  by (simp_all add: hart0_def)

text \<open>The trapframe of the process is the physical page at 0x87001000.\<close>

definition frame_tr :: "64 word \<Rightarrow> addr \<Rightarrow> addr" where
  "frame_tr satp a = a - TRAPFRAME + 0x87001000"

theorem user_trap_roundtrip_witness:
  "let k = run_code frame_tr 0x1000 uservec_code hart0 in
     load64 (mem k) (0x87001000 + 168) = 168 \<and> xreg (run_code frame_tr 0 userret_code (k\<lparr>xreg := (xreg k)(A0 := 0)\<rparr>)) S3 = 184"
proof -
  define k where "k = run_code frame_tr 0x1000 uservec_code hart0"
  have "page_aligned 0x87001000" by (simp add: page_aligned_def)
  moreover have "frame_tr (h_satp hart0) (TRAPFRAME + of_nat off) = 0x87001000 + of_nat off" for off by (simp add: frame_tr_def)
  ultimately have u: "(\<forall>r. load64 (mem k) (0x87001000 + of_nat (trapframe_off r)) = xreg hart0 r) \<and>
     (\<forall>n r. xreg n A0 = h_satp hart0 \<longrightarrow>
       load64 (mem n) (0x87001000 + of_nat (trapframe_off r)) = load64 (mem k) (0x87001000 + of_nat (trapframe_off r)) \<longrightarrow>
       xreg (run_code frame_tr 0 userret_code n) r = xreg hart0 r)"
    using user_trap_roundtrip [where tr = frame_tr and m = hart0 and link = 0 and tf = "0x87001000" and k = k and userret = "0x1000"] k_def
    unfolding Let_def by blast
  from u have all: "\<forall>r. load64 (mem k) (0x87001000 + of_nat (trapframe_off r)) = xreg hart0 r"
    and ends: "\<forall>n r. xreg n A0 = h_satp hart0 \<longrightarrow>
       load64 (mem n) (0x87001000 + of_nat (trapframe_off r)) = load64 (mem k) (0x87001000 + of_nat (trapframe_off r)) \<longrightarrow>
       xreg (run_code frame_tr 0 userret_code n) r = xreg hart0 r"
    by blast+
  show ?thesis using all [rule_format, of A7] ends [rule_format, of "k\<lparr>xreg := (xreg k)(A0 := 0)\<rparr>" S3]
    unfolding k_def [symmetric] Let_def by (simp add: hart0_fields)
qed

definition hart_in :: "addr \<Rightarrow> addr \<Rightarrow> 'z hart_scheme \<Rightarrow> 'z hart_scheme" where
  "hart_in old new s = s\<lparr>xreg := (xreg s)(A0 := old, A1 := new)\<rparr>"

theorem swtch_there_and_back_witness:
  "let k = run_code (\<lambda>_ a. a) 0 swtch_code (hart_in 0x1000 0x2000 hart0) in
     xreg k S0 = 0 \<and> xreg (run_code (\<lambda>_ a. a) 0 swtch_code (hart_in 0x2000 0x1000 k)) S0 = 96"
proof -
  define m where "m = hart_in 0x1000 0x2000 hart0"
  define k where "k = run_code (\<lambda>_ a. a) 0 swtch_code m"
  have ready: "swtch_ready (\<lambda>_ a. a) (hart_in 0x1000 0x2000 x)" "swtch_ready (\<lambda>_ a. a) (hart_in 0x2000 0x1000 x)" for x :: hart
    by (simp_all add: swtch_ready_def hart_in_def aligned8_def)
  have "xreg (run_code (\<lambda>_ a. a) 0 swtch_code (hart_in 0x2000 0x1000 k)) S0 = 96"
    using swtch_there_and_back [where m = m and n = "hart_in 0x2000 0x1000 k", OF _ k_def ready(2)] ready(1) [of hart0]
    by (simp add: m_def hart_in_def hart0_fields context_regs_def)
  moreover have "xreg k S0 = 0"
  proof -
    have "map_of swtch_loads S0 = Some 16" by (simp add: swtch_loads_def)
    then show ?thesis using swtch_run(2) [OF ready(1), of 0 hart0 S0]
      by (simp add: k_def m_def hart_in_def hart0_fields load64_zero)
  qed
  ultimately show ?thesis by (simp add: k_def m_def Let_def)
qed

end
