(* ===== verification/Mkfs.thy ===== *)
theory Mkfs
  imports Fs
begin

text \<open>
  \<^verbatim>\<open>mkfs/mkfs.c\<close>: the host program that builds the initial disk image. \<open>img\<close> is the image file, sector by
  sector, and \<open>img_len\<close> its length in sectors, what was never written being zero; a read past the end is a short read. The host's other I/O
  succeeds, and the host stores integers in little-endian order, as the program itself relies on where it
  reads \<^verbatim>\<open>sb\<close> without \<^verbatim>\<open>xint\<close>. \<^verbatim>\<open>die\<close> and a failed \<^verbatim>\<open>assert\<close> stop the program. The progress messages are not
  part of the state.
\<close>

section \<open>State\<close>

record dinode =
  di_type :: "16 word"
  di_major :: "16 word"
  di_minor :: "16 word"
  di_nlink :: "16 word"
  di_size :: uint
  di_addrs :: "nat \<Rightarrow> uint"

record mkfs_st =
  img :: "nat \<Rightarrow> block"
  img_len :: nat
  mk_sb :: superblock
  freeinode :: uint
  freeblock :: uint

abbreviation FSSIZE :: nat where "FSSIZE \<equiv> 2000"
abbreviation NINODES :: nat where "NINODES \<equiv> 200"

definition nbitmap :: nat where "nbitmap = FSSIZE div BPB + 1"
definition ninodeblocks :: nat where "ninodeblocks = NINODES div IPB + 1"
definition nlog :: nat where "nlog = LOGBLOCKS + 1"
definition nmeta :: nat where "nmeta = 2 + nlog + ninodeblocks + nbitmap"

definition xshort :: "16 word \<Rightarrow> 16 word" where
  "xshort x = le_get 2 ((\<lambda>_. 0)(0 := ucast x, 1 := ucast (drop_bit 8 x)))"

definition xint :: "uint \<Rightarrow> uint" where
  "xint x = le_get 4 ((\<lambda>_. 0)(0 := ucast x, 1 := ucast (drop_bit 8 x), 2 := ucast (drop_bit 16 x), 3 := ucast (drop_bit 24 x)))"

definition die :: "string \<Rightarrow> ('s, 'a) km" where
  "die s = panic s"

definition assert :: "bool \<Rightarrow> ('s, unit) km" where
  "assert b = (if b then skip else panic ''assert'')"

section \<open>Sectors and inodes\<close>

text \<open>\<^verbatim>\<open>sec * BSIZE\<close> is computed in 32 bits.\<close>

definition sector :: "uint \<Rightarrow> nat" where
  "sector sec = unat (sec * of_nat BSIZE) div BSIZE"

definition wsect :: "uint \<Rightarrow> block \<Rightarrow> ('z mkfs_st_scheme, unit) km" where
  "wsect sec buf = modify (\<lambda>s. s\<lparr>img := (img s)(sector sec := buf), img_len := max (img_len s) (Suc (sector sec))\<rparr>)"

definition rsect :: "uint \<Rightarrow> ('z mkfs_st_scheme, block) km" where
  "rsect sec = bnd get (\<lambda>s. if sector sec < img_len s then ret (img s (sector sec)) else die ''read'')"

definition load_dinode :: "block \<Rightarrow> nat \<Rightarrow> dinode" where
  "load_dinode d off = \<lparr>di_type = get16 d off, di_major = get16 d (off + 2), di_minor = get16 d (off + 4),
     di_nlink = get16 d (off + 6), di_size = get32 d (off + 8),
     di_addrs = \<lambda>k. if k \<le> NDIRECT then get32 d (off + 12 + 4 * k) else 0\<rparr>"

definition store_dinode :: "dinode \<Rightarrow> nat \<Rightarrow> block \<Rightarrow> block" where
  "store_dinode x off d =
     (let d = put16 d off (di_type x); d = put16 d (off + 2) (di_major x); d = put16 d (off + 4) (di_minor x);
          d = put16 d (off + 6) (di_nlink x); d = put32 d (off + 8) (di_size x)
      in fold (\<lambda>k d. put32 d (off + 12 + 4 * k) (di_addrs x k)) [0..<Suc NDIRECT] d)"

definition winode :: "uint \<Rightarrow> dinode \<Rightarrow> ('z mkfs_st_scheme, unit) km" where
  "winode inum ip = bnd get (\<lambda>s.
     let bn = IBLOCK inum (mk_sb s) in
     bnd (rsect bn) (\<lambda>buf.
     wsect bn (store_dinode ip (dinode_off inum) buf)))"

definition rinode :: "uint \<Rightarrow> ('z mkfs_st_scheme, dinode) km" where
  "rinode inum = bnd get (\<lambda>s.
     bnd (rsect (IBLOCK inum (mk_sb s))) (\<lambda>buf.
     ret (load_dinode buf (dinode_off inum))))"

definition mkfs_ialloc :: "16 word \<Rightarrow> ('z mkfs_st_scheme, uint) km" where
  "mkfs_ialloc type = bnd get (\<lambda>s.
     let inum = freeinode s in
     bnd (modify (\<lambda>s. s\<lparr>freeinode := freeinode s + 1\<rparr>)) (\<lambda>_.
     bnd (winode inum \<lparr>di_type = xshort type, di_major = 0, di_minor = 0, di_nlink = xshort 1, di_size = xint 0, di_addrs = \<lambda>_. 0\<rparr>) (\<lambda>_.
     ret inum)))"

text \<open>\<^verbatim>\<open>used\<close> is an \<^verbatim>\<open>int\<close>.\<close>

definition mkfs_balloc :: "int \<Rightarrow> ('z mkfs_st_scheme, unit) km" where
  "mkfs_balloc used =
     bnd (assert (used < int BPB)) (\<lambda>_.
     bnd get (\<lambda>s.
     wsect (sb_bmapstart (mk_sb s)) (fold bmset [0..<nat used] (\<lambda>_. 0))))"

section \<open>Appending to a file\<close>

text \<open>\<^verbatim>\<open>freeblock++\<close>\<close>

definition take_block :: "('z mkfs_st_scheme, uint) km" where
  "take_block = bnd get (\<lambda>s. bnd (modify (\<lambda>s. s\<lparr>freeblock := freeblock s + 1\<rparr>)) (\<lambda>_. ret (freeblock s)))"

text \<open>The block of the file that holds block \<^verbatim>\<open>fbn\<close> of its contents, allocated when it is missing.\<close>

definition file_block :: "dinode \<Rightarrow> nat \<Rightarrow> ('z mkfs_st_scheme, uint \<times> dinode) km" where
  "file_block din fbn =
     (if fbn < NDIRECT then
        bnd (if xint (di_addrs din fbn) = 0
             then bnd take_block (\<lambda>b. ret (din\<lparr>di_addrs := (di_addrs din)(fbn := xint b)\<rparr>)) else ret din) (\<lambda>din.
        ret (xint (di_addrs din fbn), din))
      else
        bnd (if xint (di_addrs din NDIRECT) = 0
             then bnd take_block (\<lambda>b. ret (din\<lparr>di_addrs := (di_addrs din)(NDIRECT := xint b)\<rparr>)) else ret din) (\<lambda>din.
        bnd (rsect (xint (di_addrs din NDIRECT))) (\<lambda>indirect.
        bnd (if get32 indirect (4 * (fbn - NDIRECT)) = 0
             then bnd take_block (\<lambda>b.
                  let indirect = put32 indirect (4 * (fbn - NDIRECT)) (xint b) in
                  bnd (wsect (xint (di_addrs din NDIRECT)) indirect) (\<lambda>_. ret indirect))
             else ret indirect) (\<lambda>indirect.
        ret (xint (get32 indirect (4 * (fbn - NDIRECT))), din)))))"

text \<open>\<^verbatim>\<open>bcopy(p, buf + k, n1)\<close>\<close>

definition overlay :: "8 word list \<Rightarrow> nat \<Rightarrow> block \<Rightarrow> block" where
  "overlay p k buf = (\<lambda>x. if k \<le> unat x \<and> unat x < k + length p then p ! (unat x - k) else buf x)"

text \<open>Every turn appends at least one byte, so a turn per byte is enough.\<close>

primrec iappend_loop :: "nat \<Rightarrow> dinode \<Rightarrow> uint \<Rightarrow> 8 word list \<Rightarrow> ('z mkfs_st_scheme, dinode \<times> uint) km" where
  "iappend_loop 0 din off p = (if p = [] then ret (din, off) else stop_with Diverge)"
| "iappend_loop (Suc fuel) din off p =
     (if p = [] then ret (din, off)
      else
        let fbn = off div of_nat BSIZE in
        bnd (assert (fbn < of_nat MAXFILE)) (\<lambda>_.
        bnd (file_block din (unat fbn)) (\<lambda>(x, din).
        let n1 = min (of_nat (length p)) ((fbn + 1) * of_nat BSIZE - off) in
        bnd (rsect x) (\<lambda>buf.
        bnd (wsect x (overlay (take (unat n1) p) (unat (off - fbn * of_nat BSIZE)) buf)) (\<lambda>_.
        iappend_loop fuel din (off + n1) (drop (unat n1) p))))))"

definition iappend :: "uint \<Rightarrow> 8 word list \<Rightarrow> ('z mkfs_st_scheme, unit) km" where
  "iappend inum p =
     bnd (rinode inum) (\<lambda>din.
     bnd (iappend_loop (length p) din (xint (di_size din)) p) (\<lambda>(din, off).
     winode inum (din\<lparr>di_size := xint off\<rparr>)))"

section \<open>The program\<close>

text \<open>\<^verbatim>\<open>struct dirent\<close> with a zero-padded name of at most 14 bytes.\<close>

definition dirent_bytes :: "uint \<Rightarrow> string \<Rightarrow> 8 word list" where
  "dirent_bytes inum name =
     (let n = xshort (ucast inum) in [byte_of n 0, byte_of n 1] @ map of_char name @ replicate (DIRSIZ - length name) 0)"

definition put_superblock :: "superblock \<Rightarrow> block \<Rightarrow> block" where
  "put_superblock x d =
     put32 (put32 (put32 (put32 (put32 (put32 (put32 (put32 d 0 (sb_magic x)) 4 (sb_size x)) 8 (sb_nblocks x)) 12 (sb_ninodes x))
       16 (sb_nlog x)) 20 (sb_logstart x)) 24 (sb_inodestart x)) 28 (sb_bmapstart x)"

definition mkfs_superblock :: superblock where
  "mkfs_superblock = \<lparr>sb_magic = FSMAGIC, sb_size = xint (of_nat FSSIZE), sb_nblocks = xint (of_nat (FSSIZE - nmeta)),
     sb_ninodes = xint (of_nat NINODES), sb_nlog = xint (of_nat nlog), sb_logstart = xint 2,
     sb_inodestart = xint (of_nat (2 + nlog)), sb_bmapstart = xint (of_nat (2 + nlog + ninodeblocks))\<rparr>"

definition mkfs_shortname :: "string \<Rightarrow> string" where
  "mkfs_shortname arg = (if take 5 arg = ''user/'' then drop 5 arg else arg)"

definition skip_underscore :: "string \<Rightarrow> string" where
  "skip_underscore name = (case name of [] \<Rightarrow> [] | c # cs \<Rightarrow> if c = CHR ''_'' then cs else name)"

text \<open>\<open>host arg\<close> is what the successive calls of \<^verbatim>\<open>read\<close> on the file deliver, \<open>None\<close> if it cannot be opened.\<close>

definition add_file :: "(string \<Rightarrow> 8 word list list option) \<Rightarrow> uint \<Rightarrow> string \<Rightarrow> ('z mkfs_st_scheme, unit) km" where
  "add_file host rootino arg =
     (let shortname = mkfs_shortname arg in
      bnd (assert (CHR ''/'' \<notin> set shortname)) (\<lambda>_.
      case host arg of
        None \<Rightarrow> die arg
      | Some chunks \<Rightarrow>
          let shortname = skip_underscore shortname in
          bnd (assert (length shortname \<le> DIRSIZ)) (\<lambda>_.
          bnd (mkfs_ialloc T_FILE) (\<lambda>inum.
          bnd (iappend rootino (dirent_bytes inum shortname)) (\<lambda>_.
          for_each chunks (iappend inum))))))"

definition mkfs_layout :: "('z mkfs_st_scheme, unit) km" where
  "mkfs_layout =
     bnd (modify (\<lambda>s. s\<lparr>mk_sb := mkfs_superblock\<rparr>)) (\<lambda>_.
     bnd (modify (\<lambda>s. s\<lparr>freeblock := of_nat nmeta\<rparr>)) (\<lambda>_.
     bnd (for_each [0..<FSSIZE] (\<lambda>i. wsect (of_nat i) (\<lambda>_. 0))) (\<lambda>_.
     wsect 1 (put_superblock mkfs_superblock (\<lambda>_. 0)))))"

definition fix_root_size :: "uint \<Rightarrow> ('z mkfs_st_scheme, unit) km" where
  "fix_root_size rootino =
     bnd (rinode rootino) (\<lambda>din.
     let off = xint (di_size din); off = (off div of_nat BSIZE + 1) * of_nat BSIZE in
     winode rootino (din\<lparr>di_size := xint off\<rparr>))"

text \<open>\<open>creat\<close> tells whether the image file can be created.\<close>

definition mkfs_main :: "(string \<Rightarrow> bool) \<Rightarrow> (string \<Rightarrow> 8 word list list option) \<Rightarrow> string list \<Rightarrow> ('z mkfs_st_scheme, unit) km" where
  "mkfs_main creat host argv =
     (case argv of
       prog # imgfile # files \<Rightarrow>
         if \<not> creat imgfile then die imgfile
         else
           bnd (modify (\<lambda>s. s\<lparr>img := \<lambda>_ _. 0, img_len := 0\<rparr>)) (\<lambda>_.
           bnd mkfs_layout (\<lambda>_.
           bnd (mkfs_ialloc T_DIR) (\<lambda>rootino.
           bnd (assert (rootino = ROOTINO)) (\<lambda>_.
           bnd (iappend rootino (dirent_bytes rootino ''.'')) (\<lambda>_.
           bnd (iappend rootino (dirent_bytes rootino ''..'')) (\<lambda>_.
           bnd (for_each files (add_file host rootino)) (\<lambda>_.
           bnd (fix_root_size rootino) (\<lambda>_.
           bnd get (\<lambda>s.
           mkfs_balloc (sint (freeblock s)))))))))))
     | _ \<Rightarrow> panic ''Usage: mkfs fs.img files...'')"

end
