(* ===== verification/Mkfs_Spec.thy ===== *)
theory Mkfs_Spec
  imports Mkfs Fs_Block
begin

text \<open>
  The image that \<^verbatim>\<open>mkfs\<close> builds. Every block past the metadata is at most one of the blocks of a file: slot
  \<open>Data k\<close> of an inode is its \<open>k\<close>-th data block and \<open>Ind\<close> its indirect block. \<open>files_ok\<close> says that the slots in use
  are exactly the blocks handed out so far; on it rests that appending to a file changes that file alone.
\<close>

section \<open>Words and sectors\<close>

lemma xint_id [simp]: "xint x = x"
  unfolding xint_def by (rule le_get_byte_of_eq) (auto simp: byte_of_def numeral_eq_Suc less_Suc_eq)

lemma xshort_id [simp]: "xshort x = x"
  unfolding xshort_def by (rule le_get_byte_of_eq) (auto simp: byte_of_def numeral_eq_Suc less_Suc_eq)

lemma sector_small: "unat x < 4194304 \<Longrightarrow> sector x = unat x"
  by (simp add: sector_def unat_word_ariths)

lemma meta_layout [simp]: "nbitmap = 1" "ninodeblocks = 13" "nlog = 31" "nmeta = 47"
  by (simp_all add: nbitmap_def ninodeblocks_def nlog_def nmeta_def)

section \<open>Blocks of files\<close>

datatype slot = Data nat | Ind

primrec slot_addr :: "(nat \<Rightarrow> block) \<Rightarrow> dinode \<Rightarrow> slot \<Rightarrow> uint" where
  "slot_addr M d (Data k) =
     (if k < NDIRECT then di_addrs d k else get32 (M (unat (di_addrs d NDIRECT))) (4 * (k - NDIRECT)))"
| "slot_addr M d Ind = di_addrs d NDIRECT"

text \<open>The slots a file can have while its slots \<open>u\<close> are in use: an indirect entry needs the indirect block.\<close>

definition ready :: "slot set \<Rightarrow> slot set" where
  "ready u = {Data k |k. k < MAXFILE \<and> (NDIRECT \<le> k \<longrightarrow> Ind \<in> u)} \<union> {Ind}"

definition files_ok :: "(uint \<Rightarrow> dinode) \<Rightarrow> uint set \<Rightarrow> (uint \<Rightarrow> slot set) \<Rightarrow> (nat \<Rightarrow> block) \<Rightarrow> nat \<Rightarrow> bool" where
  "files_ok D I U M fb \<longleftrightarrow>
     (\<forall>i\<in>I. U i \<subseteq> ready (U i)) \<and>
     bij_betw (\<lambda>(i, sl). unat (slot_addr M (D i) sl)) (SIGMA i:I. U i) {nmeta..<fb} \<and>
     (\<forall>i\<in>I. \<forall>sl\<in>ready (U i) - U i. slot_addr M (D i) sl = 0) \<and>
     (\<forall>b\<ge>fb. M b = (\<lambda>_. 0)) \<and> nmeta \<le> fb \<and> fb \<le> FSSIZE"

lemma files_okD:
  assumes "files_ok D I U M fb"
  shows "i \<in> I \<Longrightarrow> sl \<in> U i \<Longrightarrow> nmeta \<le> unat (slot_addr M (D i) sl) \<and> unat (slot_addr M (D i) sl) < fb"
    and "i \<in> I \<Longrightarrow> sl \<in> U i \<Longrightarrow> j \<in> I \<Longrightarrow> sl' \<in> U j \<Longrightarrow> unat (slot_addr M (D i) sl) = unat (slot_addr M (D j) sl') \<Longrightarrow> i = j \<and> sl = sl'"
    and "i \<in> I \<Longrightarrow> sl \<in> ready (U i) \<Longrightarrow> sl \<notin> U i \<Longrightarrow> slot_addr M (D i) sl = 0"
    and "i \<in> I \<Longrightarrow> sl \<in> U i \<Longrightarrow> sl \<in> ready (U i)"
    and "b \<ge> fb \<Longrightarrow> M b = (\<lambda>_. 0)" and "fb \<le> FSSIZE" and "nmeta \<le> fb"
proof -
  have b: "bij_betw (\<lambda>(i, sl). unat (slot_addr M (D i) sl)) (SIGMA i:I. U i) {nmeta..<fb}" using assms by (simp add: files_ok_def)
  show "nmeta \<le> unat (slot_addr M (D i) sl) \<and> unat (slot_addr M (D i) sl) < fb" if "i \<in> I" "sl \<in> U i"
    using bij_betw_apply [OF b, of "(i, sl)"] that by simp
  show "i = j \<and> sl = sl'" if "i \<in> I" "sl \<in> U i" "j \<in> I" "sl' \<in> U j" "unat (slot_addr M (D i) sl) = unat (slot_addr M (D j) sl')"
    using bij_betw_imp_inj_on [OF b] that by (auto dest!: inj_onD [where x = "(i, sl)" and y = "(j, sl')"])
qed (use assms in \<open>auto simp: files_ok_def\<close>)

text \<open>One more block handed out, for slot \<open>sl\<close> of inode \<open>i\<close>.\<close>

lemma files_ok_alloc:
  assumes ok: "files_ok D I U M fb" and i: "i \<in> I" "sl \<in> ready (U i)" "sl \<notin> U i" and room: "fb < FSSIZE"
    and new: "slot_addr M' (D' i) sl = of_nat fb"
    and used: "\<And>j sl'. j \<in> I \<Longrightarrow> sl' \<in> U j \<Longrightarrow> slot_addr M' (D' j) sl' = slot_addr M (D j) sl'"
    and free: "\<And>j sl'. j \<in> I \<Longrightarrow> sl' \<in> ready ((U(i := insert sl (U i))) j) \<Longrightarrow> sl' \<notin> (U(i := insert sl (U i))) j \<Longrightarrow> slot_addr M' (D' j) sl' = 0"
    and zero: "\<And>b. b > fb \<Longrightarrow> M' b = (\<lambda>_. 0)"
  shows "files_ok D' I (U(i := insert sl (U i))) M' (Suc fb)"
proof -
  let ?f = "\<lambda>(i, sl). unat (slot_addr M (D i) sl)" and ?f' = "\<lambda>(i, sl). unat (slot_addr M' (D' i) sl)"
  let ?U = "U(i := insert sl (U i))"
  have nm: "nmeta \<le> fb" using ok by (simp add: files_ok_def)
  have b: "bij_betw ?f (SIGMA i:I. U i) {nmeta..<fb}" using ok by (simp add: files_ok_def)
  have "bij_betw ?f' (SIGMA i:I. U i) {nmeta..<fb}"
    by (rule bij_betw_cong [THEN iffD1, OF _ b]) (auto simp: used)
  moreover have fi: "?f' (i, sl) = fb" using new room by (simp add: unat_of_nat_lt)
  ultimately have "bij_betw ?f' ((SIGMA i:I. U i) \<union> {(i, sl)}) ({nmeta..<fb} \<union> {?f' (i, sl)})"
    using i(3) by (intro notIn_Un_bij_betw) auto
  moreover have "(SIGMA i:I. U i) \<union> {(i, sl)} = (SIGMA i:I. ?U i)" using i(1) by (auto split: if_splits)
  moreover have "{nmeta..<fb} \<union> {fb} = {nmeta..<Suc fb}" using nm by auto
  ultimately have "bij_betw ?f' (SIGMA i:I. ?U i) {nmeta..<Suc fb}" using fi by simp
  moreover have "?U j \<subseteq> ready (?U j)" if "j \<in> I" for j
    using files_okD(4) [OF ok that] i(2) by (auto simp: ready_def)
  ultimately show ?thesis using free zero room nm by (auto simp: files_ok_def)
qed

lemma alloc_direct:
  assumes ok: "files_ok D I U M fb" and i: "i \<in> I" "Data k \<notin> U i" "k < NDIRECT" and room: "fb < FSSIZE"
    and D': "D' = D(i := (D i)\<lparr>di_addrs := (di_addrs (D i))(k := of_nat fb)\<rparr>)"
  shows "files_ok D' I (U(i := insert (Data k) (U i))) M (Suc fb)"
    and "j \<in> I \<Longrightarrow> sl \<in> U j \<Longrightarrow> slot_addr M (D' j) sl = slot_addr M (D j) sl"
proof -
  have same: "slot_addr M (D' j) sl = slot_addr M (D j) sl" if "j = i \<Longrightarrow> sl \<noteq> Data k" for j sl
    using that i(3) D' by (cases sl) auto
  have used: "slot_addr M (D' j) sl = slot_addr M (D j) sl" if "j \<in> I" "sl \<in> U j" for j sl
    using that i(2) by (intro same) auto
  then show "j \<in> I \<Longrightarrow> sl \<in> U j \<Longrightarrow> slot_addr M (D' j) sl = slot_addr M (D j) sl" .
  show "files_ok D' I (U(i := insert (Data k) (U i))) M (Suc fb)"
  proof (rule files_ok_alloc [OF ok i(1) _ i(2) room _ used])
    show "Data k \<in> ready (U i)" using i(3) by (simp add: ready_def)
    show "slot_addr M (D' i) (Data k) = of_nat fb" using i(3) D' by simp
    show "slot_addr M (D' j) sl = 0" if "j \<in> I" "sl \<in> ready ((U(i := insert (Data k) (U i))) j)" "sl \<notin> (U(i := insert (Data k) (U i))) j" for j sl
    proof -
      have "slot_addr M (D' j) sl = slot_addr M (D j) sl" using that by (intro same) auto
      also have "\<dots> = 0" using that i(3) by (intro files_okD(3) [OF ok]) (auto simp: ready_def split: if_splits)
      finally show ?thesis .
    qed
  qed (use files_okD(5) [OF ok] in auto)
qed

lemma alloc_ind:
  assumes ok: "files_ok D I U M fb" and i: "i \<in> I" "Ind \<notin> U i" and room: "fb < FSSIZE"
    and D': "D' = D(i := (D i)\<lparr>di_addrs := (di_addrs (D i))(NDIRECT := of_nat fb)\<rparr>)"
  shows "files_ok D' I (U(i := insert Ind (U i))) M (Suc fb)"
    and "j \<in> I \<Longrightarrow> sl \<in> U j \<Longrightarrow> slot_addr M (D' j) sl = slot_addr M (D j) sl"
proof -
  have z: "get32 (M fb) off = 0" for off
    unfolding get_le_def files_okD(5) [OF ok order_refl] by (simp add: le_get_zero)
  have same: "slot_addr M (D' j) sl = slot_addr M (D j) sl" if "j = i \<Longrightarrow> \<exists>k<NDIRECT. sl = Data k" for j sl
    using that D' by auto
  have used: "slot_addr M (D' j) sl = slot_addr M (D j) sl" if "j \<in> I" "sl \<in> U j" for j sl
    using files_okD(4) [OF ok that] that i(2) by (intro same) (auto simp: ready_def not_le [symmetric])
  then show "j \<in> I \<Longrightarrow> sl \<in> U j \<Longrightarrow> slot_addr M (D' j) sl = slot_addr M (D j) sl" .
  show "files_ok D' I (U(i := insert Ind (U i))) M (Suc fb)"
  proof (rule files_ok_alloc [OF ok i(1) _ i(2) room _ used])
    show "Ind \<in> ready (U i)" by (simp add: ready_def)
    show "slot_addr M (D' i) Ind = of_nat fb" using D' by simp
    show "slot_addr M (D' j) sl = 0" if "j \<in> I" "sl \<in> ready ((U(i := insert Ind (U i))) j)" "sl \<notin> (U(i := insert Ind (U i))) j" for j sl
    proof (cases "j = i \<and> (\<forall>k<NDIRECT. sl \<noteq> Data k)")
      case True
      then show ?thesis using that z room D' by (cases sl) (auto simp: unat_of_nat_lt)
    next
      case False
      then have "slot_addr M (D' j) sl = slot_addr M (D j) sl" by (intro same) auto
      also have "\<dots> = 0" using that False by (intro files_okD(3) [OF ok]) (auto simp: ready_def split: if_splits)
      finally show ?thesis .
    qed
  qed (use files_okD(5) [OF ok] in auto)
qed

text \<open>Changing a block that is not an indirect block in use leaves every slot where it is.\<close>

lemma slot_addr_write:
  assumes "\<And>j. j \<in> I \<Longrightarrow> Ind \<in> U j \<Longrightarrow> unat (di_addrs (D j) NDIRECT) \<noteq> a" "j \<in> I" "sl \<in> ready (U j)"
  shows "slot_addr (M(a := buf)) (D j) sl = slot_addr M (D j) sl"
  using assms by (cases sl) (auto simp: ready_def)

lemma alloc_entry:
  assumes ok: "files_ok D I U M fb" and i: "i \<in> I" "Data k \<notin> U i" "Ind \<in> U i" "NDIRECT \<le> k" "k < MAXFILE" and room: "fb < FSSIZE"
    and a: "a = unat (di_addrs (D i) NDIRECT)" and M': "M' = M(a := put32 (M a) (4 * (k - NDIRECT)) (of_nat fb))"
  shows "files_ok D I (U(i := insert (Data k) (U i))) M' (Suc fb)"
    and "j \<in> I \<Longrightarrow> sl \<in> U j \<Longrightarrow> slot_addr M' (D j) sl = slot_addr M (D j) sl"
proof -
  have a': "a = unat (slot_addr M (D i) Ind)" by (simp add: a)
  have ne: "unat (di_addrs (D j) NDIRECT) \<noteq> a" if "j \<in> I" "Ind \<in> U j" "j \<noteq> i" for j
    using files_okD(2) [OF ok that(1,2) i(1,3)] that(3) a by auto
  have same: "slot_addr M' (D j) sl = slot_addr M (D j) sl"
    if "j \<in> I" "sl \<in> ready (U j)" "j = i \<Longrightarrow> sl \<noteq> Data k" for j sl
  proof (cases sl)
    case (Data k')
    show ?thesis
    proof (cases "k' < NDIRECT")
      case False
      then have U: "Ind \<in> U j" "k' < MAXFILE" using that Data by (auto simp: ready_def)
      show ?thesis
      proof (cases "j = i")
        case True
        then have "k' \<noteq> k" using that Data by auto
        then have "get32 (put32 (M a) (4 * (k - NDIRECT)) (of_nat fb)) (4 * (k' - NDIRECT)) = get32 (M a) (4 * (k' - NDIRECT))"
          using False U i(4,5) by (intro get_put_other) auto
        then show ?thesis using True False Data a M' by simp
      qed (use ne [OF that(1) U(1)] False Data M' in simp)
    qed (use Data in simp)
  qed simp
  have used: "slot_addr M' (D j) sl = slot_addr M (D j) sl" if "j \<in> I" "sl \<in> U j" for j sl
    using that i(2) files_okD(4) [OF ok that] by (intro same) auto
  then show "j \<in> I \<Longrightarrow> sl \<in> U j \<Longrightarrow> slot_addr M' (D j) sl = slot_addr M (D j) sl" .
  show "files_ok D I (U(i := insert (Data k) (U i))) M' (Suc fb)"
  proof (rule files_ok_alloc [OF ok i(1) _ i(2) room _ used])
    show "Data k \<in> ready (U i)" using i by (simp add: ready_def)
    have "get32 (put32 (M a) (4 * (k - NDIRECT)) (of_nat fb)) (4 * (k - NDIRECT)) = of_nat fb" using i(4,5) by (intro get_put_same) auto
    then show "slot_addr M' (D i) (Data k) = of_nat fb" using i(4) a M' by simp
    show "slot_addr M' (D j) sl = 0" if "j \<in> I" "sl \<in> ready ((U(i := insert (Data k) (U i))) j)" "sl \<notin> (U(i := insert (Data k) (U i))) j" for j sl
    proof -
      have r: "sl \<in> ready (U j)" "sl \<notin> U j" using that by (auto simp: ready_def split: if_splits)
      then have "slot_addr M' (D j) sl = slot_addr M (D j) sl" using that by (intro same) auto
      then show ?thesis using files_okD(3) [OF ok that(1) r] by simp
    qed
    show "M' b = (\<lambda>_. 0)" if "b > fb" for b
      using that files_okD(1) [OF ok i(1,3)] files_okD(5) [OF ok, of b] a' M' by auto
  qed
qed

text \<open>Writing a data block.\<close>

lemma write_data:
  assumes ok: "files_ok D I U M fb" and i: "i \<in> I" "Data k \<in> U i" and a: "a = unat (slot_addr M (D i) (Data k))"
  shows "files_ok D I U (M(a := buf)) fb"
    and "j \<in> I \<Longrightarrow> sl \<in> ready (U j) \<Longrightarrow> slot_addr (M(a := buf)) (D j) sl = slot_addr M (D j) sl"
    and "j \<in> I \<Longrightarrow> sl \<in> U j \<Longrightarrow> (unat (slot_addr M (D j) sl) = a) = (j = i \<and> sl = Data k)"
proof -
  have eq: "(unat (slot_addr M (D j) sl) = a) = (j = i \<and> sl = Data k)" if "j \<in> I" "sl \<in> U j" for j sl
    using files_okD(2) [OF ok that i] a by auto
  then show "j \<in> I \<Longrightarrow> sl \<in> U j \<Longrightarrow> (unat (slot_addr M (D j) sl) = a) = (j = i \<and> sl = Data k)" .
  have same: "slot_addr (M(a := buf)) (D j) sl = slot_addr M (D j) sl" if "j \<in> I" "sl \<in> ready (U j)" for j sl
    using that eq [of _ Ind] by (intro slot_addr_write [where I = I and U = U]) auto
  then show "j \<in> I \<Longrightarrow> sl \<in> ready (U j) \<Longrightarrow> slot_addr (M(a := buf)) (D j) sl = slot_addr M (D j) sl" .
  have "bij_betw (\<lambda>(i, sl). unat (slot_addr M (D i) sl)) (SIGMA i:I. U i) {nmeta..<fb}" using ok by (simp add: files_ok_def)
  then have "bij_betw (\<lambda>(i, sl). unat (slot_addr (M(a := buf)) (D i) sl)) (SIGMA i:I. U i) {nmeta..<fb}"
    by (rule bij_betw_cong [THEN iffD1, rotated]) (use same files_okD(4) [OF ok] in auto)
  moreover have "a < fb" using files_okD(1) [OF ok i] a by simp
  ultimately show "files_ok D I U (M(a := buf)) fb" using ok same by (auto simp: files_ok_def)
qed

section \<open>Appending to a file\<close>

lemma rsect_run:
  assumes "unat x < FSSIZE" "img_len s = FSSIZE"
  shows "rsect x s = Inr (img s (unat x), s)"
  using assms by (simp add: rsect_def sector_small run_simps)

lemma wsect_run:
  assumes "unat x < FSSIZE" "img_len s = FSSIZE"
  shows "wsect x b s = Inr ((), s\<lparr>img := (img s)(unat x := b)\<rparr>)"
proof -
  have "s\<lparr>img := M, img_len := FSSIZE\<rparr> = s\<lparr>img := M\<rparr>" for M
    using assms(2) by (intro mkfs_st.equality) simp_all
  then show ?thesis using assms by (simp add: wsect_def sector_small run_simps max_def)
qed

definition slots_of :: "nat \<Rightarrow> slot set" where
  "slots_of n = {Data k |k. k < n} \<union> (if n > NDIRECT then {Ind} else {})"

lemma slots_of_simps:
  "Data k \<in> slots_of n \<longleftrightarrow> k < n" "Ind \<in> slots_of n \<longleftrightarrow> n > NDIRECT"
  by (auto simp: slots_of_def)

lemma slots_of_Suc:
  "n < NDIRECT \<Longrightarrow> insert (Data n) (slots_of n) = slots_of (Suc n)"
  "n > NDIRECT \<Longrightarrow> insert (Data n) (slots_of n) = slots_of (Suc n)"
  "insert (Data NDIRECT) (insert Ind (slots_of NDIRECT)) = slots_of (Suc NDIRECT)"
  by (auto simp: slots_of_def less_Suc_eq)

text \<open>\<open>nb i\<close> is the number of data blocks of inode \<open>i\<close>; \<open>file_blocks\<close> counts the indirect block as well.\<close>

definition mk :: "'z mkfs_st_scheme \<Rightarrow> (uint \<Rightarrow> dinode) \<Rightarrow> uint set \<Rightarrow> (uint \<Rightarrow> nat) \<Rightarrow> bool" where
  "mk s D I nb \<longleftrightarrow> mk_sb s = mkfs_superblock \<and> img_len s = FSSIZE \<and>
     files_ok D I (\<lambda>i. slots_of (nb i)) (img s) (unat (freeblock s))"

definition file_blocks :: "nat \<Rightarrow> nat" where
  "file_blocks n = n + (if n > NDIRECT then 1 else 0)"

definition kept :: "'z mkfs_st_scheme \<Rightarrow> (uint \<Rightarrow> dinode) \<Rightarrow> 'z mkfs_st_scheme \<Rightarrow> (uint \<Rightarrow> dinode) \<Rightarrow> uint \<Rightarrow> nat \<Rightarrow> bool" where
  "kept s D t D' i k \<longleftrightarrow> slot_addr (img t) (D' i) (Data k) = slot_addr (img s) (D i) (Data k) \<and>
     img t (unat (slot_addr (img s) (D i) (Data k))) = img s (unat (slot_addr (img s) (D i) (Data k)))"

text \<open>What a step of \<^verbatim>\<open>iappend\<close> leaves alone outside the data blocks.\<close>

definition same_meta :: "'z mkfs_st_scheme \<Rightarrow> 'z mkfs_st_scheme \<Rightarrow> bool" where
  "same_meta s t \<longleftrightarrow> (\<forall>b<nmeta. img t b = img s b) \<and> freeinode t = freeinode s \<and> mkfs_st.more t = mkfs_st.more s"

lemma slots_upd: "(\<lambda>j. slots_of (nb j))(i := slots_of m) = (\<lambda>j. slots_of ((nb(i := m)) j))"
  by (simp add: fun_eq_iff)

text \<open>The result of \<open>file_block\<close>.\<close>

definition gives_block :: "'z mkfs_st_scheme \<Rightarrow> (uint \<Rightarrow> dinode) \<Rightarrow> uint set \<Rightarrow> (uint \<Rightarrow> nat) \<Rightarrow> uint \<Rightarrow> nat \<Rightarrow> uint \<Rightarrow> dinode \<Rightarrow> 'z mkfs_st_scheme \<Rightarrow> bool" where
  "gives_block s D I nb i n x d t \<longleftrightarrow>
     mk t (D(i := d)) I (nb(i := max (nb i) (Suc n))) \<and> x = slot_addr (img t) d (Data n) \<and>
     (\<forall>j\<in>I. \<forall>k<nb j. kept s D t (D(i := d)) j k) \<and> same_meta s t \<and> d = (D i)\<lparr>di_addrs := di_addrs d\<rparr>"

lemma file_block_old:
  assumes mk: "mk s D I nb" and i: "i \<in> I" "n < nb i"
  shows "\<exists>x. file_block (D i) n s = Inr ((x, D i), s) \<and> gives_block s D I nb i n x (D i) s"
proof -
  have ok: "files_ok D I (\<lambda>i. slots_of (nb i)) (img s) (unat (freeblock s))" and len: "img_len s = FSSIZE" using mk by (simp_all add: mk_def)
  have u: "nmeta \<le> unat (slot_addr (img s) (D i) sl) \<and> unat (slot_addr (img s) (D i) sl) < FSSIZE" if "sl \<in> slots_of (nb i)" for sl
    using files_okD(1) [OF ok i(1) that] files_okD(6) [OF ok] by simp
  have "gives_block s D I nb i n (slot_addr (img s) (D i) (Data n)) (D i) s"
    using mk i by (simp add: gives_block_def kept_def same_meta_def max_absorb1 Suc_leI)
  moreover have "file_block (D i) n s = Inr ((slot_addr (img s) (D i) (Data n), D i), s)"
  proof (cases "n < NDIRECT")
    case True
    then show ?thesis using u [of "Data n"] i(2) by (auto simp: file_block_def run_simps slots_of_simps)
  next
    case False
    then have "unat (di_addrs (D i) NDIRECT) < FSSIZE" "di_addrs (D i) NDIRECT \<noteq> 0" using u [of Ind] i(2) by (auto simp: slots_of_simps)
    moreover have "get32 (img s (unat (di_addrs (D i) NDIRECT))) (4 * (n - NDIRECT)) \<noteq> 0"
      using u [of "Data n"] i(2) False by (auto simp: slots_of_simps)
    ultimately show ?thesis using False by (simp add: file_block_def run_simps rsect_run len)
  qed
  ultimately show ?thesis by blast
qed

lemma take_block_run:
  "take_block s = Inr (freeblock s, s\<lparr>freeblock := freeblock s + 1\<rparr>)"
  by (simp add: take_block_def run_simps)

lemma unat_next: "unat (x :: uint) < FSSIZE \<Longrightarrow> unat (x + 1) = Suc (unat x)"
  by (simp add: unat_word_ariths)

lemma file_block_direct:
  assumes mk: "mk s D I nb" and i: "i \<in> I" "nb i < NDIRECT" and room: "unat (freeblock s) < FSSIZE"
  shows "\<exists>x d t. file_block (D i) (nb i) s = Inr ((x, d), t) \<and> gives_block s D I nb i (nb i) x d t"
proof -
  have ok: "files_ok D I (\<lambda>i. slots_of (nb i)) (img s) (unat (freeblock s))" using mk by (simp add: mk_def)
  define d where "d = (D i)\<lparr>di_addrs := (di_addrs (D i))(nb i := freeblock s)\<rparr>"
  define t where "t = s\<lparr>freeblock := freeblock s + 1\<rparr>"
  have z: "di_addrs (D i) (nb i) = 0" using files_okD(3) [OF ok i(1), of "Data (nb i)"] i(2) by (simp add: ready_def slots_of_simps)
  have D: "D(i := d) = D(i := (D i)\<lparr>di_addrs := (di_addrs (D i))(nb i := of_nat (unat (freeblock s)))\<rparr>)" by (simp add: d_def)
  have nu: "Data (nb i) \<notin> slots_of (nb i)" by (simp add: slots_of_simps)
  note al = alloc_direct [OF ok i(1) nu i(2) room D]
  have mkt: "mk t (D(i := d)) I (nb(i := Suc (nb i)))"
    using mk al(1) room unfolding slots_of_Suc(1) [OF i(2)] slots_upd by (simp add: mk_def t_def unat_next)
  have kept: "kept s D t (D(i := d)) j k" if "j \<in> I" "k < nb j" for j k
    using al(2) [OF that(1), of "Data k"] that by (simp add: kept_def t_def slots_of_simps)
  have "gives_block s D I nb i (nb i) (freeblock s) d t"
    using mkt kept i(2) by (simp add: gives_block_def same_meta_def d_def t_def)
  moreover have "file_block (D i) (nb i) s = Inr ((freeblock s, d), t)"
    using i(2) z by (simp add: file_block_def run_simps take_block_run d_def t_def)
  ultimately show ?thesis by blast
qed

lemma file_block_entry:
  assumes mk: "mk s D I nb" and i: "i \<in> I" "nb i > NDIRECT" "nb i < MAXFILE" and room: "unat (freeblock s) < FSSIZE"
  shows "\<exists>x d t. file_block (D i) (nb i) s = Inr ((x, d), t) \<and> gives_block s D I nb i (nb i) x d t"
proof -
  have ok: "files_ok D I (\<lambda>i. slots_of (nb i)) (img s) (unat (freeblock s))" and len: "img_len s = FSSIZE" using mk by (simp_all add: mk_def)
  let ?off = "4 * (nb i - NDIRECT)"
  define a where "a = unat (di_addrs (D i) NDIRECT)"
  define M where "M = (img s)(a := put32 (img s a) ?off (freeblock s))"
  define t where "t = s\<lparr>freeblock := freeblock s + 1, img := M\<rparr>"
  have ind: "Ind \<in> slots_of (nb i)" and nu: "Data (nb i) \<notin> slots_of (nb i)" using i(2) by (simp_all add: slots_of_simps)
  have a: "nmeta \<le> a" "a < FSSIZE" using files_okD(1) [OF ok i(1) ind] files_okD(6) [OF ok] by (simp_all add: a_def)
  then have nz: "di_addrs (D i) NDIRECT \<noteq> 0" by (auto simp: a_def)
  have z: "get32 (img s a) ?off = 0"
    using files_okD(3) [OF ok i(1), of "Data (nb i)"] i ind nu by (simp add: ready_def a_def)
  have M: "M = (img s)(a := put32 (img s a) ?off (of_nat (unat (freeblock s))))" by (simp add: M_def)
  note al = alloc_entry [OF ok i(1) nu ind less_imp_le [OF i(2)] i(3) room a_def M]
  have mkt: "mk t D I (nb(i := Suc (nb i)))"
    using mk al(1) room unfolding slots_of_Suc(2) [OF i(2)] slots_upd by (simp add: mk_def t_def unat_next)
  have kept: "kept s D t D j k" if "j \<in> I" "k < nb j" for j k
  proof -
    have u: "Data k \<in> slots_of (nb j)" using that by (simp add: slots_of_simps)
    have "unat (slot_addr (img s) (D j) (Data k)) \<noteq> a"
      using files_okD(2) [OF ok that(1) u i(1) ind] by (auto simp: a_def)
    then show ?thesis using al(2) [OF that(1) u] by (simp add: kept_def t_def M_def)
  qed
  have x: "get32 (put32 (img s a) ?off (freeblock s)) ?off = freeblock s" using i by (intro get_put_same) auto
  have "gives_block s D I nb i (nb i) (freeblock s) (D i) t"
    using mkt kept i(2) a x by (simp add: gives_block_def same_meta_def t_def M_def a_def [symmetric])
  moreover have "file_block (D i) (nb i) s = Inr ((freeblock s, D i), t)"
    using i(2) z nz a len x by (simp add: file_block_def Let_def run_simps take_block_run rsect_run wsect_run t_def M_def a_def [symmetric])
  ultimately show ?thesis by blast
qed

lemma file_block_first_indirect:
  assumes mk: "mk s D I nb" and i: "i \<in> I" "nb i = NDIRECT" and room: "Suc (unat (freeblock s)) < FSSIZE"
  shows "\<exists>x d t. file_block (D i) (nb i) s = Inr ((x, d), t) \<and> gives_block s D I nb i (nb i) x d t"
proof -
  have ok: "files_ok D I (\<lambda>i. slots_of (nb i)) (img s) (unat (freeblock s))" and len: "img_len s = FSSIZE" using mk by (simp_all add: mk_def)
  define a where "a = unat (freeblock s)"
  define d where "d = (D i)\<lparr>di_addrs := (di_addrs (D i))(NDIRECT := freeblock s)\<rparr>"
  define M where "M = (img s)(a := put32 (img s a) 0 (freeblock s + 1))"
  define t where "t = s\<lparr>freeblock := freeblock s + 1 + 1, img := M\<rparr>"
  have un: "unat (freeblock s + 1) = Suc a" "unat (freeblock s + 1 + 1) = Suc (Suc a)"
    using room unat_next [of "freeblock s"] unat_next [of "freeblock s + 1"] by (simp_all add: a_def)
  have nu: "Ind \<notin> slots_of (nb i)" using i(2) by (simp add: slots_of_simps)
  have z: "di_addrs (D i) NDIRECT = 0" using files_okD(3) [OF ok i(1), of Ind] nu by (simp add: ready_def)
  have zero: "img s a = (\<lambda>_. 0)" unfolding a_def by (rule files_okD(5) [OF ok order_refl])
  have D: "D(i := d) = D(i := (D i)\<lparr>di_addrs := (di_addrs (D i))(NDIRECT := of_nat a)\<rparr>)" by (simp add: d_def a_def)
  note al = alloc_ind [OF ok [folded a_def] i(1) nu less_trans [OF lessI room, folded a_def] D]
  let ?U = "(\<lambda>i. slots_of (nb i))(i := insert Ind (slots_of (nb i)))"
  have M: "M = (img s)(a := put32 (img s a) (4 * (NDIRECT - NDIRECT)) (of_nat (Suc a)))"
    by (simp add: M_def a_def add.commute)
  have da: "a = unat (di_addrs ((D(i := d)) i) NDIRECT)" by (simp add: d_def a_def)
  have nu2: "Data NDIRECT \<notin> ?U i" "Ind \<in> ?U i" using i(2) by (simp_all add: slots_of_simps)
  have k12: "(NDIRECT :: nat) < MAXFILE" by simp
  note al2 = alloc_entry [OF al(1) i(1) nu2 order_refl k12 room [folded a_def] da M]
  have U: "?U(i := insert (Data NDIRECT) (?U i)) = (\<lambda>j. slots_of ((nb(i := Suc (nb i))) j))"
    using i(2) slots_of_Suc(3) by (simp add: fun_eq_iff)
  have f: "files_ok (D(i := d)) I (\<lambda>j. slots_of ((nb(i := Suc (nb i))) j)) M (Suc (Suc a))" using al2(1) unfolding U .
  have mkt: "mk t (D(i := d)) I (nb(i := Suc (nb i)))" using mk f un(2) by (simp add: mk_def t_def)
  have kept: "kept s D t (D(i := d)) j k" if "j \<in> I" "k < nb j" for j k
  proof -
    have u: "Data k \<in> slots_of (nb j)" using that by (simp add: slots_of_simps)
    have "unat (slot_addr (img s) (D j) (Data k)) \<noteq> a" using files_okD(1) [OF ok that(1) u] by (simp add: a_def)
    moreover have "slot_addr M ((D(i := d)) j) (Data k) = slot_addr (img s) (D j) (Data k)"
      using al2(2) [OF that(1), of "Data k"] al(2) [OF that(1) u] u by auto
    ultimately show ?thesis by (simp add: kept_def t_def M_def)
  qed
  have x: "get32 (put32 (img s a) 0 (freeblock s + 1)) 0 = freeblock s + 1" by (intro get_put_same) auto
  have g: "get32 (img s a) 0 = 0" unfolding zero get_le_def by (simp add: le_get_zero)
  have nm: "nmeta \<le> a" using files_okD(7) [OF ok] by (simp add: a_def)
  then have fz: "freeblock s \<noteq> 0" by (auto simp: a_def)
  have "gives_block s D I nb i (nb i) (freeblock s + 1) d t"
    using mkt kept i(2) nm x by (simp add: gives_block_def same_meta_def t_def M_def d_def a_def [symmetric])
  moreover have "file_block (D i) (nb i) s = Inr ((freeblock s + 1, d), t)"
    using i(2) z g fz room len x
    by (simp add: file_block_def Let_def run_simps take_block_run rsect_run wsect_run t_def M_def d_def a_def [symmetric])
  ultimately show ?thesis by blast
qed

lemma card_slots: "card (slots_of n) = file_blocks n" "finite (slots_of n)"
proof -
  have e: "{Data k |k. k < n} = Data ` {..<n}" by auto
  then show "finite (slots_of n)" by (simp add: slots_of_def)
  have "card (Data ` {..<n}) = n" by (simp add: card_image inj_on_def)
  moreover have "Ind \<notin> Data ` {..<n}" by auto
  ultimately show "card (slots_of n) = file_blocks n" by (simp add: slots_of_def file_blocks_def e)
qed

text \<open>The blocks handed out are those of the files.\<close>

lemma mk_count:
  assumes "mk s D I nb" "finite I"
  shows "unat (freeblock s) = nmeta + (\<Sum>j\<in>I. file_blocks (nb j))"
proof -
  have ok: "files_ok D I (\<lambda>i. slots_of (nb i)) (img s) (unat (freeblock s))" using assms by (simp add: mk_def)
  then have "card (SIGMA i:I. slots_of (nb i)) = card {nmeta..<unat (freeblock s)}"
    unfolding files_ok_def by (blast intro: bij_betw_same_card)
  moreover have "card (SIGMA i:I. slots_of (nb i)) = (\<Sum>j\<in>I. file_blocks (nb j))"
    using assms(2) by (simp add: card_SigmaI card_slots)
  ultimately show ?thesis using files_okD(7) [OF ok] by simp
qed

lemma sum_upd:
  fixes f :: "nat \<Rightarrow> nat"
  assumes "finite I" "i \<in> I"
  shows "(\<Sum>j\<in>I. f ((nb(i := m)) j)) + f (nb i) = (\<Sum>j\<in>I. f (nb j)) + f m"
proof -
  have "(\<Sum>j\<in>I - {i}. f ((nb(i := m)) j)) = (\<Sum>j\<in>I - {i}. f (nb j))" by (rule sum.cong) auto
  then show ?thesis using assms by (simp add: sum.remove)
qed

lemma file_block_run:
  assumes mk: "mk s D I nb" and i: "finite I" "i \<in> I" "n \<le> nb i" "n < MAXFILE"
    and room: "nmeta + (\<Sum>j\<in>I. file_blocks ((nb(i := max (nb i) (Suc n))) j)) \<le> FSSIZE"
  shows "\<exists>x d t. file_block (D i) n s = Inr ((x, d), t) \<and> gives_block s D I nb i n x d t"
proof (cases "n < nb i")
  case True
  then show ?thesis using file_block_old [OF mk i(2)] by blast
next
  case False
  then have n: "n = nb i" using i(3) by simp
  then have "unat (freeblock s) + file_blocks (Suc n) \<le> FSSIZE + file_blocks n"
    using room mk_count [OF mk i(1)] sum_upd [OF i(1,2), of file_blocks nb "Suc n"] by simp
  then have r: "n = NDIRECT \<Longrightarrow> Suc (unat (freeblock s)) < FSSIZE" "n \<noteq> NDIRECT \<Longrightarrow> unat (freeblock s) < FSSIZE"
    by (auto simp: file_blocks_def split: if_splits)
  consider "n < NDIRECT" | "n = NDIRECT" | "n > NDIRECT" by linarith
  then show ?thesis
  proof cases
    case 1
    then show ?thesis unfolding n using r n by (intro file_block_direct [OF mk i(2)]) auto
  next
    case 2
    then show ?thesis unfolding n using r n by (intro file_block_first_indirect [OF mk i(2)]) auto
  next
    case 3
    then show ?thesis unfolding n using r n i(4) by (intro file_block_entry [OF mk i(2)]) auto
  qed
qed

definition fbyte :: "(nat \<Rightarrow> block) \<Rightarrow> dinode \<Rightarrow> nat \<Rightarrow> 8 word" where
  "fbyte M d b = M (unat (slot_addr M d (Data (b div BSIZE)))) (of_nat (b mod BSIZE))"

definition nblocks :: "nat \<Rightarrow> nat" where
  "nblocks n = (n + (BSIZE - 1)) div BSIZE"

lemma nblocks_turn:
  assumes "0 < m" "n mod BSIZE + m \<le> BSIZE"
  shows "nblocks (n + m) = Suc (n div BSIZE)"
proof -
  have "n = BSIZE * (n div BSIZE) + n mod BSIZE" by simp
  then have "n + m + (BSIZE - 1) = BSIZE * (n div BSIZE) + (n mod BSIZE + m + 1023)" by simp
  then have "nblocks (n + m) = n div BSIZE + (n mod BSIZE + m + 1023) div BSIZE" unfolding nblocks_def by (metis div_mult_self4 zero_neq_numeral)
  moreover have "(n mod BSIZE + m + 1023) div BSIZE = 1" using assms by (intro div_nat_eqI) auto
  ultimately show ?thesis by simp
qed

lemma nblocks_more: "0 < n mod BSIZE \<Longrightarrow> nblocks n = Suc (n div BSIZE)"
proof -
  assume a: "0 < n mod BSIZE"
  have "n = (n - n mod BSIZE) + n mod BSIZE" by simp
  then show ?thesis using nblocks_turn [of "n mod BSIZE" "n - n mod BSIZE"] a
    by (simp add: minus_mod_eq_mult_div less_imp_le)
qed

lemma div_less_mono': "a div BSIZE < b div BSIZE \<Longrightarrow> a < (b :: nat)"
  by (meson div_le_mono not_le)

text \<open>One turn of the loop of \<^verbatim>\<open>iappend\<close> at offset \<open>n\<close>, with the bytes \<open>p\<close> that fit in the block.\<close>

lemma append_block:
  assumes mk: "mk s D I nb" and i: "finite I" "i \<in> I" "nb i = nblocks n"
    and p: "p \<noteq> []" "n mod BSIZE + length p \<le> BSIZE" "n + length p \<le> MAXFILE * BSIZE"
    and room: "nmeta + (\<Sum>j\<in>I. file_blocks ((nb(i := nblocks (n + length p))) j)) \<le> FSSIZE"
  shows "\<exists>x d t u. file_block (D i) (n div BSIZE) s = Inr ((x, d), t) \<and> unat x < FSSIZE \<and> img_len t = FSSIZE \<and>
    u = t\<lparr>img := (img t)(unat x := overlay p (n mod BSIZE) (img t (unat x)))\<rparr> \<and>
    mk u (D(i := d)) I (nb(i := nblocks (n + length p))) \<and> same_meta s u \<and> d = (D i)\<lparr>di_addrs := di_addrs d\<rparr> \<and>
    (\<forall>j\<in>I - {i}. \<forall>k<nb j. kept s D u (D(i := d)) j k) \<and>
    (\<forall>b<n + length p. fbyte (img u) d b = (if b < n then fbyte (img s) (D i) b else p ! (b - n)))"
proof -
  let ?n = "n div BSIZE"
  have len: "0 < length p" using p(1) by simp
  have mx: "?n < MAXFILE" using p(3) len by (intro less_mult_imp_div_less) linarith
  have nn: "nblocks (n + length p) = Suc ?n" using len p(2) by (rule nblocks_turn)
  have nb: "?n \<le> nb i" "max (nb i) (Suc ?n) = nblocks (n + length p)"
    unfolding nn using i(3) by (auto simp: nblocks_def)
  have "nmeta + (\<Sum>j\<in>I. file_blocks ((nb(i := max (nb i) (Suc ?n))) j)) \<le> FSSIZE" using room nb(2) by simp
  from file_block_run [OF mk i(1,2) nb(1) mx this] obtain x d t
    where f: "file_block (D i) ?n s = Inr ((x, d), t)" and g: "gives_block s D I nb i ?n x d t" by blast
  let ?D = "D(i := d)" and ?nb = "nb(i := nblocks (n + length p))"
  have mkt: "mk t ?D I ?nb" and x: "x = slot_addr (img t) d (Data ?n)" and same: "same_meta s t" and d: "d = (D i)\<lparr>di_addrs := di_addrs d\<rparr>"
    and kept: "\<And>j k. j \<in> I \<Longrightarrow> k < nb j \<Longrightarrow> kept s D t ?D j k"
    using g by (simp_all add: gives_block_def nb(2))
  define a where "a = unat x"
  define buf where "buf = overlay p (n mod BSIZE) (img t a)"
  define u where "u = t\<lparr>img := (img t)(a := buf)\<rparr>"
  have ok: "files_ok ?D I (\<lambda>j. slots_of (?nb j)) (img t) (unat (freeblock t))" using mkt by (simp add: mk_def)
  have un: "Data ?n \<in> slots_of (?nb i)" by (simp add: slots_of_simps nn)
  have a: "a = unat (slot_addr (img t) (?D i) (Data ?n))" by (simp add: a_def x)
  note wd = write_data(1,2) [OF ok i(2) un a, where buf = buf] write_data(3) [OF ok i(2) un a]
  have "files_ok ?D I (\<lambda>j. slots_of (?nb j)) ((img t)(a := buf)) (unat (freeblock t))" by (rule wd(1))
  then have mku: "mk u ?D I ?nb" using mkt by (simp add: mk_def u_def)
  have bounds: "nmeta \<le> a" "a < FSSIZE" using files_okD(1) [OF ok i(2) un] files_okD(6) [OF ok] by (simp_all add: a)
  have same_u: "same_meta s u" using same bounds by (simp add: same_meta_def u_def)
  have blk: "slot_addr (img u) (?D j) (Data k) = slot_addr (img t) (?D j) (Data k) \<and>
      img u (unat (slot_addr (img t) (?D j) (Data k))) = (if j = i \<and> k = ?n then buf else img t (unat (slot_addr (img t) (?D j) (Data k))))"
    if "j \<in> I" "k < ?nb j" for j k
  proof -
    have u: "Data k \<in> slots_of (?nb j)" using that(2) unfolding slots_of_simps .
    show ?thesis using wd(2) [OF that(1) files_okD(4) [OF ok that(1) u]] wd(3) [OF that(1) u] by (simp add: u_def)
  qed
  have ku: "kept s D u ?D j k" if "j \<in> I - {i}" "k < nb j" for j k
    using blk [of j k] kept [of j k] that by (auto simp: kept_def)
  have bytes: "fbyte (img u) d b = (if b < n then fbyte (img s) (D i) b else p ! (b - n))" if b: "b < n + length p" for b
  proof -
    let ?k = "b div BSIZE"
    have dm: "b = BSIZE * ?k + b mod BSIZE" "n = BSIZE * ?n + n mod BSIZE" by simp_all
    have "b < BSIZE + ?n * BSIZE" using b p(2) dm(2) by linarith
    then have "?k < Suc ?n" by (intro less_mult_imp_div_less) simp
    then have kn: "?k \<le> ?n" "?k < ?nb i" by (simp_all add: nn)
    have e: "fbyte (img u) d b = (if ?k = ?n then buf else img t (unat (slot_addr (img t) d (Data ?k)))) (of_nat (b mod BSIZE))"
      using blk [OF i(2) kn(2)] by (simp add: fbyte_def)
    show ?thesis
    proof (cases "?k = ?n")
      case False
      then have "b < n" "?k < nb i" using kn(1) nb(1) div_less_mono' [of b n] by auto
      then show ?thesis using e False kept [OF i(2), of ?k] by (simp add: kept_def fbyte_def)
    next
      case True
      have off: "unat (of_nat (b mod BSIZE) :: 10 word) = b mod BSIZE" by (rule unat_offset) simp
      show ?thesis
      proof (cases "b < n")
        case True
        then have lt: "b mod BSIZE < n mod BSIZE" using dm \<open>?k = ?n\<close> by linarith
        then have "?n < nb i" using i(3) by (simp add: nblocks_more)
        then have "img t a = img s (unat (slot_addr (img s) (D i) (Data ?n)))" using kept [OF i(2), of ?n] by (simp add: kept_def a)
        then show ?thesis using e lt True \<open>?k = ?n\<close> off by (simp add: buf_def overlay_def fbyte_def)
      next
        case False
        then have "n mod BSIZE \<le> b mod BSIZE" "b mod BSIZE - n mod BSIZE = b - n" "b mod BSIZE < n mod BSIZE + length p"
          using dm b \<open>?k = ?n\<close> by linarith+
        then show ?thesis using e False \<open>?k = ?n\<close> off by (simp add: buf_def overlay_def)
      qed
    qed
  qed
  show ?thesis using f bounds mkt mku same_u d ku bytes
    by (intro exI [of _ x] exI [of _ d] exI [of _ t] exI [of _ u]) (auto simp: a_def [symmetric] u_def buf_def mk_def)
qed

lemma turn_words:
  fixes off :: uint
  assumes len: "unat off + length p \<le> MAXFILE * BSIZE" "p \<noteq> []" and fbn: "fbn = off div of_nat BSIZE"
  shows "unat fbn = unat off div BSIZE" "fbn < of_nat MAXFILE" "unat (off - fbn * of_nat BSIZE) = unat off mod BSIZE"
    "unat (min (of_nat (length p)) ((fbn + 1) * of_nat BSIZE - off)) = min (length p) (BSIZE - unat off mod BSIZE)"
proof -
  let ?o = "unat off"
  have dm: "?o = ?o div BSIZE * BSIZE + ?o mod BSIZE" by simp
  have small: "?o < MAXFILE * BSIZE" using len by (cases p) auto
  show f: "unat fbn = ?o div BSIZE" by (simp add: fbn unat_div_distrib)
  have q: "?o div BSIZE < MAXFILE" using small by (rule less_mult_imp_div_less)
  then show "fbn < of_nat MAXFILE" by (simp add: word_less_nat_alt f)
  have m: "unat (fbn * of_nat BSIZE) = ?o div BSIZE * BSIZE" using q by (simp add: unat_word_ariths f)
  then have "fbn * of_nat BSIZE \<le> off" by (simp add: word_le_nat_alt)
  then show "unat (off - fbn * of_nat BSIZE) = ?o mod BSIZE" using m by (simp add: unat_sub minus_div_mult_eq_mod)
  have f1: "unat (fbn + 1) = Suc (?o div BSIZE)" using q by (simp add: unat_word_ariths f)
  then have m1: "unat ((fbn + 1) * of_nat BSIZE) = ?o div BSIZE * BSIZE + BSIZE"
    using q by (subst unat_word_ariths(2), subst f1) simp
  have "?o mod BSIZE < BSIZE" by simp
  then have "off \<le> (fbn + 1) * of_nat BSIZE" unfolding word_le_nat_alt m1 using dm by linarith
  then have s: "unat ((fbn + 1) * of_nat BSIZE - off) = BSIZE - ?o mod BSIZE"
    unfolding unat_sub [OF \<open>off \<le> _\<close>] m1 using dm by linarith
  have "unat (of_nat (length p) :: uint) = length p" using len by (simp add: unat_of_nat_lt)
  then show "unat (min (of_nat (length p)) ((fbn + 1) * of_nat BSIZE - off)) = min (length p) (BSIZE - ?o mod BSIZE)"
    using s by (auto simp: min_def word_le_nat_alt)
qed

lemma kept_trans: "kept s D t D' j k \<Longrightarrow> kept t D' u D'' j k \<Longrightarrow> kept s D u D'' j k"
  by (simp add: kept_def)

lemma same_meta_trans: "same_meta s t \<Longrightarrow> same_meta t u \<Longrightarrow> same_meta s u"
  by (simp add: same_meta_def)

lemma nblocks_mono: "m \<le> n \<Longrightarrow> nblocks m \<le> nblocks n"
  by (simp add: nblocks_def div_le_mono)

lemma iappend_loop_run:
  assumes "mk s D I nb" and i: "finite I" "i \<in> I" and "nb i = nblocks (unat off)" "unat off + length p \<le> MAXFILE * BSIZE" "length p \<le> fuel"
    and "nmeta + (\<Sum>j\<in>I. file_blocks ((nb(i := nblocks (unat off + length p))) j)) \<le> FSSIZE"
  shows "\<exists>d t. iappend_loop fuel (D i) off p s = Inr ((d, off + of_nat (length p)), t) \<and>
    mk t (D(i := d)) I (nb(i := nblocks (unat off + length p))) \<and> same_meta s t \<and> d = (D i)\<lparr>di_addrs := di_addrs d\<rparr> \<and>
    (\<forall>j\<in>I - {i}. \<forall>k<nb j. kept s D t (D(i := d)) j k) \<and>
    (\<forall>b<unat off + length p. fbyte (img t) d b = (if b < unat off then fbyte (img s) (D i) b else p ! (b - unat off)))"
  using assms(1,4-)
proof (induction fuel arbitrary: s D nb off p)
  case 0
  then show ?case by (intro exI [of _ "D i"] exI [of _ s]) (simp add: run_simps same_meta_def kept_def fun_upd_idem)
next
  case (Suc fuel)
  show ?case
  proof (cases "p = []")
    case True
    then show ?thesis using Suc.prems
      by (intro exI [of _ "D i"] exI [of _ s]) (simp add: run_simps same_meta_def kept_def fun_upd_idem)
  next
    case False
    define n where "n = unat off"
    define fbn where "fbn = off div of_nat BSIZE"
    define n1 where "n1 = min (of_nat (length p)) ((fbn + 1) * of_nat BSIZE - off)"
    define m where "m = min (length p) (BSIZE - n mod BSIZE)"
    note tw = turn_words [OF Suc.prems(3) False fbn_def, folded n_def n1_def, folded m_def]
    have len: "n + length p \<le> MAXFILE * BSIZE" using Suc.prems(3) by (simp add: n_def)
    have mlt: "n mod BSIZE < BSIZE" by simp
    have m: "0 < m" "m \<le> length p" "n mod BSIZE + m \<le> BSIZE" using False mlt by (auto simp: m_def min_def)
    have un: "unat (off + n1) = n + m" using tw(4) len m(2) by (simp add: unat_word_ariths n_def)
    let ?nb = "nb(i := nblocks (n + m))"
    have "file_blocks (nblocks (n + m)) \<le> file_blocks (nblocks (n + length p))"
      using nblocks_mono [of "n + m" "n + length p"] m(2) by (auto simp: file_blocks_def)
    then have "(\<Sum>j\<in>I. file_blocks (?nb j)) \<le> (\<Sum>j\<in>I. file_blocks ((nb(i := nblocks (n + length p))) j))"
      by (intro sum_mono) simp
    then have room: "nmeta + (\<Sum>j\<in>I. file_blocks ((nb(i := nblocks (n + length (take m p)))) j)) \<le> FSSIZE"
      using Suc.prems(5) m(2) by (simp add: n_def)
    have "take m p \<noteq> []" "n mod BSIZE + length (take m p) \<le> BSIZE" "n + length (take m p) \<le> MAXFILE * BSIZE"
      using m len False by auto
    from append_block [OF Suc.prems(1) i Suc.prems(2) [folded n_def] this room] obtain x d t u
      where t: "file_block (D i) (n div BSIZE) s = Inr ((x, d), t)" "unat x < FSSIZE" "img_len t = FSSIZE"
        and u: "u = t\<lparr>img := (img t)(unat x := overlay (take m p) (n mod BSIZE) (img t (unat x)))\<rparr>"
          "mk u (D(i := d)) I (nb(i := nblocks (n + length (take m p))))" "same_meta s u" "d = (D i)\<lparr>di_addrs := di_addrs d\<rparr>"
        and ku: "\<forall>j\<in>I - {i}. \<forall>k<nb j. kept s D u (D(i := d)) j k"
        and bu: "\<forall>b<n + length (take m p). fbyte (img u) d b = (if b < n then fbyte (img s) (D i) b else take m p ! (b - n))"
      by (elim exE conjE)
    have lt: "length (take m p) = m" using m(2) by simp
    have mku: "mk u (D(i := d)) I ?nb" using u(2) unfolding lt .
    have run: "iappend_loop (Suc fuel) (D i) off p s = iappend_loop fuel d (off + n1) (drop m p) u"
      unfolding iappend_loop.simps(2) Let_def fbn_def [symmetric] n1_def [symmetric]
      using False t tw by (simp add: assert_def run_simps rsect_run wsect_run u(1))
    have "\<exists>d' v. iappend_loop fuel ((D(i := d)) i) (off + n1) (drop m p) u = Inr ((d', off + n1 + of_nat (length (drop m p))), v) \<and>
      mk v ((D(i := d))(i := d')) I (?nb(i := nblocks (unat (off + n1) + length (drop m p)))) \<and> same_meta u v \<and>
      d' = ((D(i := d)) i)\<lparr>di_addrs := di_addrs d'\<rparr> \<and>
      (\<forall>j\<in>I - {i}. \<forall>k<?nb j. kept u (D(i := d)) v ((D(i := d))(i := d')) j k) \<and>
      (\<forall>b<unat (off + n1) + length (drop m p). fbyte (img v) d' b =
        (if b < unat (off + n1) then fbyte (img u) ((D(i := d)) i) b else drop m p ! (b - unat (off + n1))))"
    proof (rule Suc.IH [OF mku])
      show "?nb i = nblocks (unat (off + n1))" by (simp add: un)
      show "unat (off + n1) + length (drop m p) \<le> MAXFILE * BSIZE" using len m(2) by (simp add: un)
      show "length (drop m p) \<le> fuel" using Suc.prems(4) m by simp
      show "nmeta + (\<Sum>j\<in>I. file_blocks ((?nb(i := nblocks (unat (off + n1) + length (drop m p)))) j)) \<le> FSSIZE"
        using Suc.prems(5) m(2) by (simp add: un n_def)
    qed
    then obtain d' v where v: "iappend_loop fuel d (off + n1) (drop m p) u = Inr ((d', off + n1 + of_nat (length (drop m p))), v)"
      "mk v (D(i := d')) I (nb(i := nblocks (n + length p)))" "same_meta u v" "d' = d\<lparr>di_addrs := di_addrs d'\<rparr>"
      and kv: "\<forall>j\<in>I - {i}. \<forall>k<?nb j. kept u (D(i := d)) v (D(i := d')) j k"
      and bv: "\<forall>b<n + length p. fbyte (img v) d' b = (if b < n + m then fbyte (img u) d b else drop m p ! (b - (n + m)))"
      using m(2) by (auto simp: un)
    have "n1 = of_nat m" by (simp add: tw(4) [symmetric])
    then have oe: "off + n1 + of_nat (length (drop m p)) = off + of_nat (length p)" using m(2) by (simp flip: of_nat_add)
    have kept: "\<forall>j\<in>I - {i}. \<forall>k<nb j. kept s D v (D(i := d')) j k"
      using ku kv kept_trans by fastforce
    have bytes: "fbyte (img v) d' b = (if b < n then fbyte (img s) (D i) b else p ! (b - n))" if "b < n + length p" for b
      using bv bu that m(2) unfolding lt by auto
    have dd: "d' = (D i)\<lparr>di_addrs := di_addrs d'\<rparr>" using v(4) u(4) by (metis dinode.update_convs(6) dinode.surjective)
    show ?thesis unfolding run n_def [symmetric] v(1) oe
      by (intro exI [of _ d'] exI [of _ v] conjI refl v(2) kept dd same_meta_trans [OF u(3) v(3)] allI impI bytes)
  qed
qed

section \<open>The inode table\<close>

definition ino :: "(nat \<Rightarrow> block) \<Rightarrow> uint \<Rightarrow> dinode" where
  "ino M i = load_dinode (M (33 + unat i div IPB)) (dinode_off i)"

lemma get_fold_other:
  assumes "\<And>k. k \<in> set ks \<Longrightarrow> off + w \<le> g k \<or> g k + 4 \<le> off" "\<And>k. k \<in> set ks \<Longrightarrow> g k + 4 \<le> BSIZE" "off + w \<le> BSIZE"
  shows "(get_le w (fold (\<lambda>k d. put32 d (g k) (v k)) ks d) off :: 'a::len word) = get_le w d off"
  using assms(1,2)
proof (induction ks arbitrary: d)
  case (Cons k ks)
  have "(get_le w (put32 d (g k) (v k)) off :: 'a word) = get_le w d off"
    using Cons.prems [of k] assms(3) by (intro get_put_other) auto
  then show ?case using Cons by simp
qed simp

lemma get_fold_same:
  assumes "distinct ks" "k \<in> set ks" "\<And>j. j \<in> set ks \<Longrightarrow> j \<noteq> k \<Longrightarrow> g k + 4 \<le> g j \<or> g j + 4 \<le> g k" "\<And>j. j \<in> set ks \<Longrightarrow> g j + 4 \<le> BSIZE"
  shows "get32 (fold (\<lambda>k d. put32 d (g k) (v k)) ks d) (g k) = v k"
  using assms
proof (induction ks arbitrary: d)
  case (Cons j ks)
  show ?case
  proof (cases "j = k")
    case True
    have "get32 (fold (\<lambda>k d. put32 d (g k) (v k)) ks (put32 d (g k) (v k))) (g k) = get32 (put32 d (g k) (v k)) (g k)"
      using Cons.prems True by (intro get_fold_other) auto
    also have "\<dots> = v k" using Cons.prems True by (intro get_put_same) auto
    finally show ?thesis using True by simp
  next
    case False
    then show ?thesis using Cons by simp
  qed
qed simp

definition trim :: "dinode \<Rightarrow> dinode" where
  "trim d = d\<lparr>di_addrs := \<lambda>k. if k \<le> NDIRECT then di_addrs d k else 0\<rparr>"

lemma load_store_same:
  assumes "off + 64 \<le> BSIZE"
  shows "load_dinode (store_dinode x off d) off = trim x"
proof -
  define b where "b = put32 (put16 (put16 (put16 (put16 d off (di_type x)) (off + 2) (di_major x)) (off + 4) (di_minor x)) (off + 6) (di_nlink x)) (off + 8) (di_size x)"
  define f where "f = fold (\<lambda>k d. put32 d (off + 12 + 4 * k) (di_addrs x k)) [0..<Suc NDIRECT] b"
  have low: "(get_le w f o' :: 'a::len word) = get_le w b o'" if "o' + w \<le> off + 12" for w o'
    unfolding f_def using that assms by (intro get_fold_other [where g = "\<lambda>k. off + 12 + 4 * k"]) auto
  have addrs: "get32 f (off + 12 + 4 * k) = di_addrs x k" if "k \<le> NDIRECT" for k
    unfolding f_def using that assms by (intro get_fold_same [where g = "\<lambda>k. off + 12 + 4 * k"]) auto
  have "get16 b off = di_type x" "get16 b (off + 2) = di_major x" "get16 b (off + 4) = di_minor x" "get16 b (off + 6) = di_nlink x" "get32 b (off + 8) = di_size x"
    unfolding b_def using assms by (simp_all add: get_put_other get_put_same)
  then have "load_dinode f off = trim x" unfolding load_dinode_def
    by (intro dinode.equality) (auto simp: low addrs trim_def)
  moreover have "store_dinode x off d = f" unfolding store_dinode_def Let_def f_def b_def ..
  ultimately show ?thesis by simp
qed

lemma load_store_other:
  assumes "off + 64 \<le> BSIZE" "off' + 64 \<le> BSIZE" "off + 64 \<le> off' \<or> off' + 64 \<le> off"
  shows "load_dinode (store_dinode x off d) off' = load_dinode d off'"
proof -
  let ?d = "put32 (put16 (put16 (put16 (put16 d off (di_type x)) (off + 2) (di_major x)) (off + 4) (di_minor x)) (off + 6) (di_nlink x)) (off + 8) (di_size x)"
  have e: "store_dinode x off d = fold (\<lambda>k d. put32 d (off + 12 + 4 * k) (di_addrs x k)) [0..<Suc NDIRECT] ?d" by (simp add: store_dinode_def Let_def)
  have g: "(get_le w (store_dinode x off d) o' :: 'a::len word) = get_le w d o'" if "off' \<le> o'" "o' + w \<le> off' + 64" for w o'
  proof -
    have "(get_le w (store_dinode x off d) o' :: 'a word) = get_le w ?d o'"
      unfolding e using that assms by (intro get_fold_other [where g = "\<lambda>k. off + 12 + 4 * k"]) auto
    also have "\<dots> = get_le w d o'" using that assms by (auto simp: get_put_other)
    finally show ?thesis .
  qed
  show ?thesis unfolding load_dinode_def by (intro dinode.equality) (simp_all add: g fun_eq_iff)
qed

lemma dinode_off_bound: "dinode_off i + 64 \<le> BSIZE"
proof -
  have "unat i mod IPB < IPB" by simp
  then show ?thesis unfolding dinode_off_def by linarith
qed

lemma ino_write:
  "ino (M(33 + unat i div IPB := store_dinode d (dinode_off i) (M (33 + unat i div IPB)))) j = (if j = i then trim d else ino M j)"
proof (cases "unat j div IPB = unat i div IPB \<and> j \<noteq> i")
  case True
  then have "unat j mod IPB \<noteq> unat i mod IPB" by (metis div_mult_mod_eq word_unat_eq_iff)
  then have "dinode_off i + 64 \<le> dinode_off j \<or> dinode_off j + 64 \<le> dinode_off i" unfolding dinode_off_def by linarith
  then show ?thesis using True by (simp add: ino_def load_store_other [OF dinode_off_bound dinode_off_bound])
next
  case False
  then show ?thesis by (auto simp: ino_def load_store_same [OF dinode_off_bound])
qed

lemma iblock: 
  assumes "unat i < 208"
  shows "unat (IBLOCK i mkfs_superblock) = 33 + unat i div IPB" "33 + unat i div IPB < nmeta - 1"
proof -
  have "unat i div IPB < 13" using assms by (intro less_mult_imp_div_less) simp
  then show "unat (IBLOCK i mkfs_superblock) = 33 + unat i div IPB" "33 + unat i div IPB < nmeta - 1"
    by (simp_all add: IBLOCK_def mkfs_superblock_def unat_word_ariths unat_div_distrib)
qed

lemma rinode_run:
  assumes "unat i < 208" "img_len s = FSSIZE" "mk_sb s = mkfs_superblock"
  shows "rinode i s = Inr (ino (img s) i, s)"
  using iblock [OF assms(1)] assms(2,3) by (simp add: rinode_def run_simps rsect_run ino_def)

lemma winode_run:
  assumes "unat i < 208" "img_len s = FSSIZE" "mk_sb s = mkfs_superblock"
  shows "winode i d s = Inr ((), s\<lparr>img := (img s)(33 + unat i div IPB := store_dinode d (dinode_off i) (img s (33 + unat i div IPB)))\<rparr>)"
  using iblock [OF assms(1)] assms(2,3) by (simp add: winode_def Let_def run_simps rsect_run wsect_run)

lemma files_ok_meta:
  assumes ok: "files_ok D I U M fb"
    and D: "\<And>j k. j \<in> I \<Longrightarrow> k \<le> NDIRECT \<Longrightarrow> di_addrs (D' j) k = di_addrs (D j) k" and M: "\<And>b. nmeta \<le> b \<Longrightarrow> M' b = M b"
  shows "files_ok D' I U M' fb" and "j \<in> I \<Longrightarrow> sl \<in> ready (U j) \<Longrightarrow> slot_addr M' (D' j) sl = slot_addr M (D j) sl"
proof -
  have same: "slot_addr M' (D' j) sl = slot_addr M (D j) sl" if "j \<in> I" "sl \<in> ready (U j)" for j sl
  proof (cases sl)
    case (Data k)
    then show ?thesis
    proof (cases "k < NDIRECT")
      case False
      then have "Ind \<in> U j" using that Data by (auto simp: ready_def)
      then have "M' (unat (di_addrs (D j) NDIRECT)) = M (unat (di_addrs (D j) NDIRECT))"
        using files_okD(1) [OF ok that(1), of Ind] by (intro M) simp
      then show ?thesis using False Data D [OF that(1), of NDIRECT] by simp
    qed (use Data D that in simp)
  qed (use D that in simp)
  then show "j \<in> I \<Longrightarrow> sl \<in> ready (U j) \<Longrightarrow> slot_addr M' (D' j) sl = slot_addr M (D j) sl" .
  have "bij_betw (\<lambda>(i, sl). unat (slot_addr M (D i) sl)) (SIGMA i:I. U i) {nmeta..<fb}" using ok by (simp add: files_ok_def)
  then have "bij_betw (\<lambda>(i, sl). unat (slot_addr M' (D' i) sl)) (SIGMA i:I. U i) {nmeta..<fb}"
    by (rule bij_betw_cong [THEN iffD1, rotated]) (use same files_okD(4) [OF ok] in auto)
  then show "files_ok D' I U M' fb" using ok same M by (auto simp: files_ok_def)
qed

section \<open>The image as a map from inodes to files\<close>

text \<open>
  \<open>holds s F I\<close>: the image has exactly the inodes \<open>I\<close>, and inode \<open>i\<close> has the type and the contents \<open>F i\<close>.
\<close>

type_synonym files = "uint \<Rightarrow> 16 word \<times> 8 word list"

definition has_file :: "(nat \<Rightarrow> block) \<Rightarrow> dinode \<Rightarrow> 16 word \<times> 8 word list \<Rightarrow> bool" where
  "has_file M d f \<longleftrightarrow> di_type d = fst f \<and> di_nlink d = 1 \<and> unat (di_size d) = length (snd f) \<and>
     (\<forall>b<length (snd f). fbyte M d b = snd f ! b)"

definition holds :: "'z mkfs_st_scheme \<Rightarrow> files \<Rightarrow> uint set \<Rightarrow> bool" where
  "holds s F I \<longleftrightarrow> mk s (ino (img s)) I (\<lambda>i. nblocks (length (snd (F i)))) \<and> finite I \<and>
     (\<forall>i\<in>I. unat i < 208 \<and> length (snd (F i)) \<le> MAXFILE * BSIZE \<and> has_file (img s) (ino (img s) i) (F i))"

definition fits :: "files \<Rightarrow> uint set \<Rightarrow> bool" where
  "fits F I \<longleftrightarrow> nmeta + (\<Sum>i\<in>I. file_blocks (nblocks (length (snd (F i))))) \<le> FSSIZE"

text \<open>The sectors outside the inode table and the data blocks.\<close>

definition same_rest :: "'z mkfs_st_scheme \<Rightarrow> 'z mkfs_st_scheme \<Rightarrow> bool" where
  "same_rest s t \<longleftrightarrow> freeinode t = freeinode s \<and> (\<forall>b. b < 33 \<or> b = nmeta - 1 \<longrightarrow> img t b = img s b)"

lemma same_rest_trans: "same_rest s t \<Longrightarrow> same_rest t u \<Longrightarrow> same_rest s u"
  by (simp add: same_rest_def)

lemma block_in_file: "b < n \<Longrightarrow> b div BSIZE < nblocks n"
proof -
  assume "b < n"
  then have "b div BSIZE * BSIZE + BSIZE \<le> n + (BSIZE - 1)" using div_mult_mod_eq [of b BSIZE] by linarith
  then have "(b div BSIZE + 1) * BSIZE div BSIZE \<le> nblocks n" unfolding nblocks_def by (intro div_le_mono) simp
  then show ?thesis by simp
qed

lemma fbyte_meta:
  assumes ok: "files_ok D I (\<lambda>i. slots_of (nblocks (N i))) M fb"
    and D: "\<And>j k. j \<in> I \<Longrightarrow> k \<le> NDIRECT \<Longrightarrow> di_addrs (D' j) k = di_addrs (D j) k" and M: "\<And>b. nmeta \<le> b \<Longrightarrow> M' b = M b"
    and b: "j \<in> I" "b < N j"
  shows "fbyte M' (D' j) b = fbyte M (D j) b"
proof -
  have u: "Data (b div BSIZE) \<in> slots_of (nblocks (N j))" using block_in_file [OF b(2)] by (simp add: slots_of_simps)
  have "slot_addr M' (D' j) (Data (b div BSIZE)) = slot_addr M (D j) (Data (b div BSIZE))"
    by (rule files_ok_meta(2) [OF ok D M b(1) files_okD(4) [OF ok b(1) u]])
  moreover have "nmeta \<le> unat (slot_addr M (D j) (Data (b div BSIZE)))" using files_okD(1) [OF ok b(1) u] by simp
  ultimately show ?thesis using M by (simp add: fbyte_def)
qed

lemma iappend_run:
  assumes h: "holds s F I" and i: "i \<in> I" and len: "length (snd (F i) @ p) \<le> MAXFILE * BSIZE"
    and F': "F' = F(i := (fst (F i), snd (F i) @ p))" and room: "fits F' I"
  shows "\<exists>t. iappend i p s = Inr ((), t) \<and> holds t F' I \<and> same_rest s t"
proof -
  let ?D = "ino (img s)" and ?nb = "\<lambda>i. nblocks (length (snd (F i)))"
  have mk: "mk s ?D I ?nb" and fin: "finite I" and i208: "unat i < 208" and hf: "has_file (img s) (?D i) (F i)"
    using h i by (auto simp: holds_def)
  define off where "off = di_size (?D i)"
  have off: "unat off = length (snd (F i))" using hf by (simp add: has_file_def off_def)
  have nb': "?nb(i := nblocks (unat off + length p)) = (\<lambda>j. nblocks (length (snd (F' j))))"
    by (auto simp: F' off)
  have "?nb i = nblocks (unat off)" "unat off + length p \<le> MAXFILE * BSIZE"
    "nmeta + (\<Sum>j\<in>I. file_blocks ((?nb(i := nblocks (unat off + length p))) j)) \<le> FSSIZE"
    using len room unfolding nb' by (simp_all add: off fits_def)
  from iappend_loop_run [OF mk fin i this(1,2) order_refl this(3)] obtain d u
    where u: "iappend_loop (length p) (?D i) off p s = Inr ((d, off + of_nat (length p)), u)"
      "mk u (?D(i := d)) I (?nb(i := nblocks (unat off + length p)))" "same_meta s u" "d = (?D i)\<lparr>di_addrs := di_addrs d\<rparr>"
      and ku: "\<forall>j\<in>I - {i}. \<forall>k<?nb j. kept s ?D u (?D(i := d)) j k"
      and bu: "\<forall>b<unat off + length p. fbyte (img u) d b = (if b < unat off then fbyte (img s) (?D i) b else p ! (b - unat off))"
    by (elim exE conjE)
  define dd where "dd = d\<lparr>di_size := off + of_nat (length p)\<rparr>"
  let ?sec = "33 + unat i div IPB"
  define t where "t = u\<lparr>img := (img u)(?sec := store_dinode dd (dinode_off i) (img u ?sec))\<rparr>"
  have lens: "img_len s = FSSIZE" "mk_sb s = mkfs_superblock" "img_len u = FSSIZE" "mk_sb u = mkfs_superblock"
    using mk u(2) by (simp_all add: mk_def)
  have run: "iappend i p s = Inr ((), t)"
    using u(1) by (simp add: iappend_def run_simps rinode_run [OF i208 lens(1,2)] winode_run [OF i208 lens(3,4)] off_def [symmetric] t_def dd_def)
  have sec: "?sec < nmeta - 1" by (rule iblock(2) [OF i208])
  have inou: "ino (img u) j = ?D j" if "j \<in> I" for j
  proof -
    have "33 + unat j div IPB < nmeta - 1" using h that by (intro iblock(2)) (simp add: holds_def)
    then show ?thesis using u(3) by (simp add: ino_def same_meta_def)
  qed
  have inot: "ino (img t) j = (if j = i then trim dd else ?D j)" if "j \<in> I" for j
    using inou [OF that] by (simp add: t_def ino_write)
  have oku: "files_ok (?D(i := d)) I (\<lambda>j. slots_of (nblocks (length (snd (F' j))))) (img u) (unat (freeblock u))"
    using u(2) unfolding nb' by (simp add: mk_def)
  have addrs: "di_addrs (ino (img t) j) k = di_addrs ((?D(i := d)) j) k" if "j \<in> I" "k \<le> NDIRECT" for j k
    using inot [OF that(1)] that(2) by (simp add: trim_def dd_def)
  have imgt: "img t b = img u b" if "nmeta \<le> b" for b using that sec by (simp add: t_def)
  have "files_ok (ino (img t)) I (\<lambda>j. slots_of (nblocks (length (snd (F' j))))) (img t) (unat (freeblock u))"
    by (rule files_ok_meta(1) [OF oku addrs imgt])
  then have mkt: "mk t (ino (img t)) I (\<lambda>j. nblocks (length (snd (F' j))))" using lens by (simp add: mk_def t_def)
  have bytes: "fbyte (img t) (ino (img t) j) b = fbyte (img u) ((?D(i := d)) j) b" if "j \<in> I" "b < length (snd (F' j))" for j b
    by (rule fbyte_meta [where D' = "ino (img t)" and M' = "img t", OF oku addrs imgt that])
  have hft: "has_file (img t) (ino (img t) j) (F' j)" if "j \<in> I" for j
  proof (cases "j = i")
    case True
    have "unat (off + of_nat (length p)) = length (snd (F i) @ p)" using len off by (simp add: unat_word_ariths unat_of_nat_lt)
    moreover have "di_type d = fst (F i)" "di_nlink d = 1" using hf by (subst u(4), simp add: has_file_def)+
    moreover have "fbyte (img t) (ino (img t) i) b = (snd (F i) @ p) ! b" if "b < length (snd (F i) @ p)" for b
      using bytes [OF i, of b] bu hf that by (auto simp: F' off has_file_def nth_append)
    ultimately show ?thesis using True inot [OF i] by (simp add: has_file_def trim_def dd_def F')
  next
    case False
    have hj: "has_file (img s) (?D j) (F j)" using h that by (simp add: holds_def)
    have "fbyte (img t) (ino (img t) j) b = snd (F j) ! b" if b: "b < length (snd (F j))" for b
    proof -
      have "kept s ?D u (?D(i := d)) j (b div BSIZE)" using ku False \<open>j \<in> I\<close> block_in_file [OF b] by blast
      then have "fbyte (img u) (?D j) b = fbyte (img s) (?D j) b" using False by (simp add: kept_def fbyte_def)
      then show ?thesis using bytes [OF \<open>j \<in> I\<close>, of b] hj b False by (simp add: F' has_file_def)
    qed
    then show ?thesis using hj False inot [OF that] by (simp add: F' has_file_def)
  qed
  have "holds t F' I" using h mkt hft len by (auto simp: holds_def F')
  moreover have "same_rest s t" using u(3) sec by (auto simp: same_rest_def same_meta_def t_def)
  ultimately show ?thesis using run by blast
qed

lemma nblocks_0 [simp]: "nblocks 0 = 0"
  by (simp add: nblocks_def)

lemma ialloc_run:
  assumes h: "holds s F I" and i: "freeinode s \<notin> I" "unat (freeinode s) < 208" and F': "F' = F(freeinode s := (ty, []))"
  shows "\<exists>t. mkfs_ialloc ty s = Inr (freeinode s, t) \<and> holds t F' (insert (freeinode s) I) \<and> same_rest (s\<lparr>freeinode := freeinode s + 1\<rparr>) t"
proof -
  define i where "i = freeinode s"
  define d where "d = \<lparr>di_type = ty, di_major = 0, di_minor = 0, di_nlink = 1, di_size = 0, di_addrs = \<lambda>_. 0\<rparr>"
  let ?D = "ino (img s)" and ?sec = "33 + unat i div IPB" and ?U = "\<lambda>j. slots_of (nblocks (length (snd (F' j))))"
  define t where "t = s\<lparr>freeinode := i + 1, img := (img s)(?sec := store_dinode d (dinode_off i) (img s ?sec))\<rparr>"
  have mk: "mk s ?D I (\<lambda>j. nblocks (length (snd (F j))))" and lens: "img_len s = FSSIZE" "mk_sb s = mkfs_superblock" using h by (simp_all add: holds_def mk_def)
  have run: "mkfs_ialloc ty s = Inr (i, t)"
    using lens i by (simp add: mkfs_ialloc_def Let_def run_simps winode_run t_def d_def i_def)
  have ni: "j \<noteq> i" if "j \<in> I" for j using i(1) that i_def by auto
  have inot: "ino (img t) j = (if j = i then d else ?D j)" for j
  proof -
    have "trim d = d" by (intro dinode.equality) (auto simp: trim_def d_def)
    then show ?thesis by (simp add: t_def ino_write)
  qed
  have sec: "?sec < nmeta - 1" using i(2) by (intro iblock(2)) (simp add: i_def)
  have imgt: "img t b = img s b" if "nmeta \<le> b" for b using that sec by (simp add: t_def)
  have "files_ok ?D I (\<lambda>j. slots_of (nblocks (length (snd (F j))))) (img s) (unat (freeblock s))" using mk by (simp add: mk_def)
  then have oks: "files_ok ?D I ?U (img s) (unat (freeblock s))"
    using ni unfolding files_ok_def F' i_def [symmetric] by (simp cong: Sigma_cong)
  have addrs: "di_addrs (ino (img t) j) k = di_addrs (?D j) k" if "j \<in> I" "k \<le> NDIRECT" for j k using inot ni that by simp
  note okt = files_ok_meta(1) [OF oks addrs imgt]
  have Ui: "?U i = {}" by (simp add: F' i_def slots_of_def)
  have sig: "(SIGMA j:insert i I. ?U j) = (SIGMA j:I. ?U j)" using Ui by auto
  have "files_ok (ino (img t)) (insert i I) ?U (img t) (unat (freeblock s))"
  proof -
    have "slot_addr (img t) (ino (img t) i) sl = 0" if "sl \<in> ready {}" for sl
      using that inot [of i] by (cases sl) (auto simp: ready_def d_def)
    then show ?thesis using okt Ui unfolding files_ok_def sig by simp
  qed
  then have mkt: "mk t (ino (img t)) (insert i I) (\<lambda>j. nblocks (length (snd (F' j))))" using lens by (simp add: mk_def t_def)
  have hft: "has_file (img t) (ino (img t) j) (F' j)" if "j \<in> insert i I" for j
  proof (cases "j = i")
    case True
    then show ?thesis using inot [of i] by (simp add: has_file_def F' i_def [symmetric] d_def)
  next
    case False
    then have j: "j \<in> I" using that by simp
    have "fbyte (img t) (ino (img t) j) b = fbyte (img s) (?D j) b" if "b < length (snd (F' j))" for b
      by (rule fbyte_meta [where D' = "ino (img t)" and M' = "img t", OF oks addrs imgt j that])
    then show ?thesis using h j False inot [of j] by (auto simp: has_file_def holds_def F' i_def [symmetric])
  qed
  have "holds t F' (insert i I)" using h mkt hft i(2) by (auto simp: holds_def F' i_def [symmetric])
  moreover have "same_rest (s\<lparr>freeinode := i + 1\<rparr>) t" using sec by (auto simp: same_rest_def t_def)
  ultimately show ?thesis using run by (auto simp: i_def)
qed

lemma fits_mono:
  assumes "fits G J" "I \<subseteq> J" "finite J" "\<And>i. i \<in> I \<Longrightarrow> length (snd (F i)) \<le> length (snd (G i))"
  shows "fits F I"
proof -
  have fb: "file_blocks (nblocks m) \<le> file_blocks (nblocks n)" if "m \<le> n" for m n
    using nblocks_mono [OF that] by (auto simp: file_blocks_def)
  have "(\<Sum>i\<in>I. file_blocks (nblocks (length (snd (F i))))) \<le> (\<Sum>i\<in>I. file_blocks (nblocks (length (snd (G i)))))"
    by (intro sum_mono fb assms(4))
  also have "\<dots> \<le> (\<Sum>i\<in>J. file_blocks (nblocks (length (snd (G i)))))" using assms(2,3) by (intro sum_mono2) auto
  finally show ?thesis using assms(1) by (simp add: fits_def)
qed

lemma append_all_run:
  assumes "holds s F I" and i: "i \<in> I" and "length (snd (F i) @ concat cs) \<le> MAXFILE * BSIZE"
    and "F' = F(i := (fst (F i), snd (F i) @ concat cs))" and "fits F' I"
  shows "\<exists>t. for_each cs (iappend i) s = Inr ((), t) \<and> holds t F' I \<and> same_rest s t"
  using assms(1,3-)
proof (induction cs arbitrary: s F)
  case Nil
  then show ?case by (simp add: run_simps same_rest_def fun_upd_idem)
next
  case (Cons c cs)
  let ?F = "F(i := (fst (F i), snd (F i) @ c))"
  have fin: "finite I" using Cons.prems(1) by (simp add: holds_def)
  have "fits ?F I" by (rule fits_mono [OF Cons.prems(4) order_refl fin]) (simp add: Cons.prems(3))
  then obtain t where t: "iappend i c s = Inr ((), t)" "holds t ?F I" "same_rest s t"
    using iappend_run [OF Cons.prems(1) i _ refl, of c] Cons.prems(2) by auto
  have "\<exists>u. for_each cs (iappend i) t = Inr ((), u) \<and> holds u F' I \<and> same_rest t u"
    using Cons.prems by (intro Cons.IH [OF t(2)]) (simp_all add: fun_eq_iff)
  then show ?case using t same_rest_trans by (auto simp: run_simps)
qed

section \<open>The program\<close>

lemma zero_all:
  assumes "n \<le> FSSIZE" "img s = (\<lambda>_ _. 0)" "img_len s = 0"
  shows "for_each [0..<n] (\<lambda>i. wsect (of_nat i) (\<lambda>_. 0)) s = Inr ((), s\<lparr>img_len := n\<rparr>)"
  using assms(1)
proof (induction n)
  case 0
  have "s\<lparr>img_len := 0\<rparr> = s" using assms(3) by (intro mkfs_st.equality) simp_all
  then show ?case by (simp add: run_simps)
next
  case (Suc n)
  have "sector (of_nat n) = n" using Suc.prems by (simp add: sector_small unat_of_nat_lt)
  moreover have "s\<lparr>img_len := m, img := \<lambda>_ _. 0\<rparr> = s\<lparr>img_len := m\<rparr>" for m using assms(2) by (intro mkfs_st.equality) simp_all
  ultimately show ?case using Suc assms(2)
    by (simp add: for_each_append run_simps wsect_def fun_upd_idem del: upt_rec_numeral)
qed

lemma layout_run:
  assumes "img s = (\<lambda>_ _. 0)" "img_len s = 0"
  shows "\<exists>t. mkfs_layout s = Inr ((), t) \<and> holds t F {} \<and> freeinode t = freeinode s \<and> img t 1 = put_superblock mkfs_superblock (\<lambda>_. 0)"
proof -
  let ?s = "s\<lparr>mk_sb := mkfs_superblock, freeblock := of_nat nmeta\<rparr>"
  define t where "t = ?s\<lparr>img_len := FSSIZE, img := (\<lambda>_ _. 0)(1 := put_superblock mkfs_superblock (\<lambda>_. 0))\<rparr>"
  have "for_each [0..<FSSIZE] (\<lambda>i. wsect (of_nat i) (\<lambda>_. 0)) ?s = Inr ((), ?s\<lparr>img_len := FSSIZE\<rparr>)"
    by (rule zero_all) (simp_all add: assms)
  then have "mkfs_layout s = Inr ((), t)"
    by (simp add: mkfs_layout_def run_simps wsect_run assms t_def del: upt_rec_numeral)
  moreover have "files_ok D {} U (img t) nmeta" for D U by (simp add: files_ok_def t_def bij_betw_def)
  then have "holds t F {}" by (simp add: holds_def mk_def t_def)
  ultimately show ?thesis by (auto simp: t_def)
qed

lemma holds_cong:
  assumes "\<And>i. i \<in> I \<Longrightarrow> F i = G i"
  shows "holds s F I = holds s G I"
proof -
  have "files_ok D I (\<lambda>i. slots_of (nblocks (length (snd (F i))))) M fb = files_ok D I (\<lambda>i. slots_of (nblocks (length (snd (G i))))) M fb" for D M fb
    unfolding files_ok_def by (simp add: assms cong: Sigma_cong)
  then show ?thesis using assms by (auto simp: holds_def mk_def)
qed

text \<open>The name under which a file is entered, its contents, and the directory entries of the first \<open>k\<close> files.\<close>

definition entry_name :: "string \<Rightarrow> string" where
  "entry_name arg = skip_underscore (mkfs_shortname arg)"

definition file_bytes :: "(string \<Rightarrow> 8 word list list option) \<Rightarrow> string \<Rightarrow> 8 word list" where
  "file_bytes host arg = (case host arg of None \<Rightarrow> [] | Some cs \<Rightarrow> concat cs)"

definition root_bytes :: "string list \<Rightarrow> nat \<Rightarrow> 8 word list" where
  "root_bytes args k = dirent_bytes 1 ''.'' @ dirent_bytes 1 ''..'' @
     concat (map (\<lambda>j. dirent_bytes (of_nat (j + 2)) (entry_name (args ! j))) [0..<k])"

definition tree :: "(string \<Rightarrow> 8 word list list option) \<Rightarrow> string list \<Rightarrow> nat \<Rightarrow> files" where
  "tree host args k i = (if i = 1 then (T_DIR, root_bytes args k) else (T_FILE, file_bytes host (args ! (unat i - 2))))"

definition inums :: "nat \<Rightarrow> uint set" where
  "inums k = {i. 1 \<le> unat i \<and> unat i < k + 2}"

definition good_arg :: "(string \<Rightarrow> 8 word list list option) \<Rightarrow> string \<Rightarrow> bool" where
  "good_arg host arg \<longleftrightarrow> host arg \<noteq> None \<and> CHR ''/'' \<notin> set (mkfs_shortname arg) \<and> length (entry_name arg) \<le> DIRSIZ \<and>
     length (file_bytes host arg) \<le> MAXFILE * BSIZE"

lemma dirent_length: "length name \<le> DIRSIZ \<Longrightarrow> length (dirent_bytes i name) = 16"
  by (simp add: dirent_bytes_def Let_def)

lemma root_length:
  assumes "\<And>j. j < k \<Longrightarrow> length (entry_name (args ! j)) \<le> DIRSIZ"
  shows "length (root_bytes args k) = 16 * (k + 2)"
  using assms
proof (induction k)
  case 0
  then show ?case by (simp add: root_bytes_def dirent_length)
next
  case (Suc k)
  have "root_bytes args (Suc k) = root_bytes args k @ dirent_bytes (of_nat (k + 2)) (entry_name (args ! k))"
    by (simp add: root_bytes_def)
  then show ?case using Suc by (simp add: dirent_length)
qed

lemma inums_simps:
  assumes "k + 2 < 2 ^ 32"
  shows "inums (Suc k) = insert (of_nat (k + 2)) (inums k)" "of_nat (k + 2) \<notin> inums k" "1 \<in> inums k" "finite (inums k)"
proof -
  have u: "unat (of_nat (k + 2) :: uint) = k + 2" using assms by (intro unat_of_nat_lt) simp
  show "inums (Suc k) = insert (of_nat (k + 2)) (inums k)"
  proof (rule set_eqI)
    fix i :: uint
    have "i = of_nat (k + 2) \<longleftrightarrow> unat i = k + 2" using u by (metis word_unat_eq_iff)
    then show "i \<in> inums (Suc k) \<longleftrightarrow> i \<in> insert (of_nat (k + 2)) (inums k)" by (auto simp: inums_def)
  qed
  show "of_nat (k + 2) \<notin> inums k" using u by (simp add: inums_def del: of_nat_add)
qed (simp_all add: inums_def)

lemma add_file_run:
  assumes h: "holds s (tree host args k) (inums k)" and fi: "freeinode s = of_nat (k + 2)" and k: "k < length args" "k + 2 < 208"
    and good: "\<forall>j<length args. good_arg host (args ! j)" and fit: "fits (tree host args (Suc k)) (inums (Suc k))"
  shows "\<exists>t. add_file host 1 (args ! k) s = Inr ((), t) \<and> holds t (tree host args (Suc k)) (inums (Suc k)) \<and>
    freeinode t = of_nat (Suc k + 2) \<and> (\<forall>b. b < 33 \<or> b = nmeta - 1 \<longrightarrow> img t b = img s b)"
proof -
  let ?F = "tree host args k" and ?I = "inums (Suc k)" and ?i = "freeinode s"
  have g: "good_arg host (args ! k)" using good k by blast
  obtain cs where cs: "host (args ! k) = Some cs" "concat cs = file_bytes host (args ! k)" using g by (auto simp: good_arg_def file_bytes_def)
  have u: "unat ?i = k + 2" unfolding fi using k by (intro unat_of_nat_lt) simp
  have ns: "k + 2 < 2 ^ 32" using k(2) by simp
  have nm: "length (entry_name (args ! j)) \<le> DIRSIZ" if "j < Suc k" for j using good that k by (simp add: good_arg_def)
  let ?F1 = "?F(?i := (T_FILE, []))"
  obtain t1 where t1: "mkfs_ialloc T_FILE s = Inr (?i, t1)" "holds t1 ?F1 ?I" "same_rest (s\<lparr>freeinode := ?i + 1\<rparr>) t1"
    using ialloc_run [OF h _ _ refl, of T_FILE] inums_simps(1,2) [OF ns, folded fi] u k(2) by auto
  have i1: "?i \<noteq> 1" "1 \<in> ?I" "?i \<in> ?I" using u inums_simps(1,3) [OF ns, folded fi] by auto
  let ?de = "dirent_bytes ?i (entry_name (args ! k))"
  have root: "root_bytes args (Suc k) = root_bytes args k @ ?de" by (simp add: root_bytes_def fi)
  let ?F2 = "?F1(1 := (T_DIR, root_bytes args (Suc k)))"
  have tr: "tree host args (Suc k) i = (?F2(?i := (T_FILE, file_bytes host (args ! k)))) i" if "i \<in> ?I" for i
    using i1 u by (auto simp: tree_def)
  have fin: "finite ?I" using k(2) by (intro inums_simps) simp
  have "fits ?F2 ?I" by (rule fits_mono [OF fit order_refl fin]) (use i1(1) in \<open>auto simp: tr\<close>)
  moreover have "?F2 = ?F1(1 := (fst (?F1 1), snd (?F1 1) @ ?de))" using i1(1) by (simp add: tree_def root)
  moreover have "length (snd (?F1 1) @ ?de) \<le> MAXFILE * BSIZE"
    using i1(1) root_length [of "Suc k" args, OF nm] k(2) by (simp add: tree_def root)
  ultimately obtain t2 where t2: "iappend 1 ?de t1 = Inr ((), t2)" "holds t2 ?F2 ?I" "same_rest t1 t2"
    using iappend_run [OF t1(2) i1(2), of ?de ?F2] by blast
  let ?F3 = "?F2(?i := (T_FILE, file_bytes host (args ! k)))"
  have "fits ?F3 ?I" by (rule fits_mono [OF fit order_refl fin]) (use i1(1) in \<open>auto simp: tr\<close>)
  moreover have "?F3 = ?F2(?i := (fst (?F2 ?i), snd (?F2 ?i) @ concat cs))" using i1(1) by (simp add: cs(2))
  moreover have "length (snd (?F2 ?i) @ concat cs) \<le> MAXFILE * BSIZE" using i1(1) g by (simp add: cs(2) good_arg_def)
  ultimately obtain t3 where t3: "for_each cs (iappend ?i) t2 = Inr ((), t3)" "holds t3 ?F3 ?I" "same_rest t2 t3"
    using append_all_run [OF t2(2) i1(3), of cs ?F3] by blast
  have "holds t3 (tree host args (Suc k)) ?I" by (rule holds_cong [THEN iffD2, OF tr t3(2)])
  moreover have "add_file host 1 (args ! k) s = Inr ((), t3)"
    using g cs(1) t1(1) t2(1) t3(1) by (simp add: add_file_def assert_def good_arg_def entry_name_def Let_def run_simps)
  moreover have "same_rest (s\<lparr>freeinode := ?i + 1\<rparr>) t3" using t1(3) t2(3) t3(3) same_rest_trans by blast
  then have "freeinode t3 = of_nat (Suc k + 2)" "\<forall>b. b < 33 \<or> b = nmeta - 1 \<longrightarrow> img t3 b = img s b"
    by (simp_all add: same_rest_def fi)
  ultimately show ?thesis by blast
qed

lemma add_files_run:
  assumes h: "holds s (tree host args 0) (inums 0)" and fi: "freeinode s = 2" and N: "length args + 2 \<le> 208"
    and good: "\<forall>j<length args. good_arg host (args ! j)" and fit: "fits (tree host args (length args)) (inums (length args))"
    and k: "k \<le> length args"
  shows "\<exists>t. for_each (take k args) (add_file host 1) s = Inr ((), t) \<and> holds t (tree host args k) (inums k) \<and>
    freeinode t = of_nat (k + 2) \<and> (\<forall>b. b < 33 \<or> b = nmeta - 1 \<longrightarrow> img t b = img s b)"
  using k
proof (induction k)
  case 0
  then show ?case using h fi by (simp add: run_simps)
next
  case (Suc k)
  then obtain t where t: "for_each (take k args) (add_file host 1) s = Inr ((), t)" "holds t (tree host args k) (inums k)"
    "freeinode t = of_nat (k + 2)" "\<forall>b. b < 33 \<or> b = nmeta - 1 \<longrightarrow> img t b = img s b" by auto
  have nm: "length (entry_name (args ! j)) \<le> DIRSIZ" if "j < length args" for j using good that by (simp add: good_arg_def)
  have "fits (tree host args (Suc k)) (inums (Suc k))"
  proof (rule fits_mono [OF fit])
    show "inums (Suc k) \<subseteq> inums (length args)" using Suc.prems by (auto simp: inums_def)
    show "finite (inums (length args))" using N by (intro inums_simps) simp
    show "length (snd (tree host args (Suc k) i)) \<le> length (snd (tree host args (length args) i))" for i
      using Suc.prems nm by (simp add: tree_def root_length)
  qed
  then obtain u where u: "add_file host 1 (args ! k) t = Inr ((), u)" "holds u (tree host args (Suc k)) (inums (Suc k))"
    "freeinode u = of_nat (Suc k + 2)" "\<forall>b. b < 33 \<or> b = nmeta - 1 \<longrightarrow> img u b = img t b"
    using add_file_run [OF t(2,3) _ _ good] Suc.prems N by auto
  have "for_each (take (Suc k) args) (add_file host 1) s = Inr ((), u)"
    using t(1) u(1) Suc.prems by (simp add: take_Suc_conv_app_nth for_each_append run_simps)
  then show ?case using u t(4) by simp
qed

lemma bitmap_prefix:
  assumes "n \<le> BPB" "b < BPB"
  shows "bmbit (fold bmset [0..<n] (\<lambda>_. 0)) b \<longleftrightarrow> b < n"
  using assms(1)
proof (induction n)
  case 0
  then show ?case by (simp add: bmbit_iff)
next
  case (Suc n)
  then show ?case using assms(2) by (auto simp: bmbit_set)
qed

text \<open>The superblock as \<^verbatim>\<open>readsb\<close> takes it from sector 1.\<close>

definition superblock_in :: "block \<Rightarrow> superblock" where
  "superblock_in d = \<lparr>sb_magic = get32 d 0, sb_size = get32 d 4, sb_nblocks = get32 d 8, sb_ninodes = get32 d 12,
     sb_nlog = get32 d 16, sb_logstart = get32 d 20, sb_inodestart = get32 d 24, sb_bmapstart = get32 d 28\<rparr>"

lemma superblock_read: "superblock_in (put_superblock x d) = x"
  unfolding superblock_in_def by (rule superblock.equality) (simp_all add: put_superblock_def get_put_other get_put_same)

lemma root_run:
  assumes fi: "freeinode s = 1" and N: "length args + 2 \<le> 208" and good: "\<forall>j<length args. good_arg host (args ! j)"
    and fit: "fits (tree host args (length args)) (inums (length args))" and img: "img s = (\<lambda>_ _. 0)" "img_len s = 0"
  shows "\<exists>t. (bnd mkfs_layout (\<lambda>_. bnd (mkfs_ialloc T_DIR) (\<lambda>rootino. bnd (assert (rootino = ROOTINO)) (\<lambda>_.
      bnd (iappend rootino (dirent_bytes rootino ''.'')) (\<lambda>_. bnd (iappend rootino (dirent_bytes rootino ''..'')) (\<lambda>_.
      for_each args (add_file host rootino))))))) s = Inr ((), t) \<and>
    holds t (tree host args (length args)) (inums (length args)) \<and> img t 1 = put_superblock mkfs_superblock (\<lambda>_. 0)"
proof -
  let ?de = "dirent_bytes 1 ''.''" and ?dd = "dirent_bytes 1 ''..''"
  obtain t0 where t0: "mkfs_layout s = Inr ((), t0)" "holds t0 (\<lambda>_. (T_DIR, [])) {}" "freeinode t0 = 1"
    "img t0 1 = put_superblock mkfs_superblock (\<lambda>_. 0)"
    using layout_run [OF img, of "\<lambda>_. (T_DIR, [])"] fi by auto
  obtain t1 where t1: "mkfs_ialloc T_DIR t0 = Inr (1, t1)" "holds t1 (\<lambda>_. (T_DIR, [])) {1}" "same_rest (t0\<lparr>freeinode := 2\<rparr>) t1"
    using ialloc_run [OF t0(2), of "\<lambda>_. (T_DIR, [])" T_DIR] t0(3) by (auto simp: fun_eq_iff)
  have i0: "inums 0 = {1}" by (auto simp: inums_def less_Suc_eq word_unat_eq_iff)
  have fin: "finite (inums (length args))" using N by (intro inums_simps) simp
  have nm: "length (entry_name (args ! j)) \<le> DIRSIZ" if "j < length args" for j using good that by (simp add: good_arg_def)
  have small: "fits F {1}" if "length (snd (F 1)) \<le> 32" for F
  proof (rule fits_mono [OF fit _ fin])
    show "{1} \<subseteq> inums (length args)" by (auto simp: inums_def)
    show "length (snd (F i)) \<le> length (snd (tree host args (length args) i))" if "i \<in> {1}" for i
      using \<open>length (snd (F 1)) \<le> 32\<close> that root_length [of "length args" args, OF nm] by (simp add: tree_def)
  qed
  have l: "length ?de = 16" "length ?dd = 16" by (simp_all add: dirent_length)
  obtain t2 where t2: "iappend 1 ?de t1 = Inr ((), t2)" "holds t2 ((\<lambda>_. (T_DIR, []))(1 := (T_DIR, ?de))) {1}" "same_rest t1 t2"
    using iappend_run [OF t1(2), of 1 ?de "(\<lambda>_. (T_DIR, []))(1 := (T_DIR, ?de))"] small l by auto
  obtain t3 where t3: "iappend 1 ?dd t2 = Inr ((), t3)" "holds t3 ((\<lambda>_. (T_DIR, []))(1 := (T_DIR, ?de @ ?dd))) {1}" "same_rest t2 t3"
    using iappend_run [OF t2(2), of 1 ?dd "(\<lambda>_. (T_DIR, []))(1 := (T_DIR, ?de @ ?dd))"] small l by auto
  have h3: "holds t3 (tree host args 0) (inums 0)"
    unfolding i0 by (rule holds_cong [THEN iffD1, OF _ t3(2)]) (simp add: tree_def root_bytes_def)
  have r3: "same_rest (t0\<lparr>freeinode := 2\<rparr>) t3" using t1(3) t2(3) t3(3) same_rest_trans by blast
  then have f3: "freeinode t3 = 2" "img t3 1 = put_superblock mkfs_superblock (\<lambda>_. 0)" using t0(4) by (simp_all add: same_rest_def)
  obtain t where "for_each args (add_file host 1) t3 = Inr ((), t)" "holds t (tree host args (length args)) (inums (length args))" "img t 1 = img t3 1"
    using add_files_run [OF h3 f3(1) N good fit order_refl] by auto
  then show ?thesis using t0 t1 t2 t3 f3 by (auto simp: run_simps assert_def)
qed

lemma close_image_run:
  assumes h: "holds s F I" and one: "1 \<in> I" and n: "n = (length (snd (F 1)) div BSIZE + 1) * BSIZE"
  shows "\<exists>t. (bnd (fix_root_size 1) (\<lambda>_. bnd get (\<lambda>s. mkfs_balloc (sint (freeblock s))))) s = Inr ((), t) \<and>
    img_len t = FSSIZE \<and> img t 1 = img s 1 \<and> (\<forall>b<BPB. bmbit (img t (nmeta - 1)) b \<longleftrightarrow> b < unat (freeblock t)) \<and>
    files_ok (ino (img t)) I (\<lambda>i. slots_of (nblocks (length (snd (F i))))) (img t) (unat (freeblock t)) \<and>
    (\<forall>i\<in>I - {1}. has_file (img t) (ino (img t) i) (F i)) \<and>
    has_file (img t) ((ino (img t) 1)\<lparr>di_size := of_nat (length (snd (F 1)))\<rparr>) (F 1) \<and> unat (di_size (ino (img t) 1)) = n"
proof -
  let ?D = "ino (img s)" and ?U = "\<lambda>i. slots_of (nblocks (length (snd (F i))))"
  have ok: "files_ok ?D I ?U (img s) (unat (freeblock s))" and lens: "img_len s = FSSIZE" "mk_sb s = mkfs_superblock"
    and hf: "\<And>i. i \<in> I \<Longrightarrow> has_file (img s) (?D i) (F i)" and len: "length (snd (F 1)) \<le> MAXFILE * BSIZE"
    using h one by (auto simp: holds_def mk_def)
  define dd where "dd = (?D 1)\<lparr>di_size := (di_size (?D 1) div of_nat BSIZE + 1) * of_nat BSIZE\<rparr>"
  define u where "u = s\<lparr>img := (img s)(33 := store_dinode dd (dinode_off 1) (img s 33))\<rparr>"
  define t where "t = u\<lparr>img := (img u)(nmeta - 1 := fold bmset [0..<unat (freeblock s)] (\<lambda>_. 0))\<rparr>"
  have fb: "unat (freeblock s) \<le> FSSIZE" by (rule files_okD(6) [OF ok])
  then have "int (unat (freeblock s)) \<le> 2000" by linarith
  then have fbu: "uint (freeblock s) \<le> 2000" by simp
  have "- (2 ^ 31) \<le> uint (freeblock s)" by (rule order_trans [OF _ uint_ge_0]) simp
  with fbu have fbi: "sint (freeblock s) = int (unat (freeblock s))" by (simp add: sint_uint signed_take_bit_int_eq_self)
  have "fix_root_size 1 s = Inr ((), u)"
    using lens by (simp add: fix_root_size_def Let_def run_simps rinode_run winode_run dd_def u_def)
  moreover have "mkfs_balloc (sint (freeblock s)) u = Inr ((), t)"
    using lens fbu fbi by (simp add: mkfs_balloc_def assert_def run_simps u_def t_def mkfs_superblock_def wsect_run)
  ultimately have run: "(bnd (fix_root_size 1) (\<lambda>_. bnd get (\<lambda>s. mkfs_balloc (sint (freeblock s))))) s = Inr ((), t)"
    by (simp add: run_simps u_def)
  have inot: "ino (img t) j = (if j = 1 then trim dd else ?D j)" if "j \<in> I" for j
  proof -
    have "33 + unat j div IPB < nmeta - 1" using h that by (intro iblock(2)) (simp add: holds_def)
    then have "ino (img t) j = ino (img u) j" by (simp add: ino_def t_def)
    then show ?thesis using ino_write [of "img s" 1 dd j] by (simp add: u_def)
  qed
  have addrs: "di_addrs (ino (img t) j) k = di_addrs (?D j) k" if "j \<in> I" "k \<le> NDIRECT" for j k
    using inot [OF that(1)] that(2) by (simp add: trim_def dd_def)
  have imgt: "img t b = img s b" if "nmeta \<le> b" for b using that by (simp add: t_def u_def)
  have bytes: "fbyte (img t) (ino (img t) j) b = fbyte (img s) (?D j) b" if "j \<in> I" "b < length (snd (F j))" for j b
    by (rule fbyte_meta [where D' = "ino (img t)" and M' = "img t", OF ok addrs imgt that])
  have others: "has_file (img t) (ino (img t) j) (F j)" if "j \<in> I - {1}" for j
    using hf [of j] bytes [of j] inot [of j] that by (simp add: has_file_def)
  have sz: "unat (di_size (?D 1)) = length (snd (F 1))" using hf [OF one] by (simp add: has_file_def)
  have fbs: "fbyte M (d\<lparr>di_size := x\<rparr>) b = fbyte M d b" for M d x b by (simp add: fbyte_def)
  have root: "has_file (img t) ((ino (img t) 1)\<lparr>di_size := of_nat (length (snd (F 1)))\<rparr>) (F 1)"
    using hf [OF one] bytes [OF one] inot [OF one] len by (simp add: has_file_def fbs unat_of_nat_lt) (simp add: trim_def dd_def)
  have "length (snd (F 1)) div BSIZE \<le> MAXFILE" using div_le_mono [OF len, of BSIZE] by simp
  then have "unat (di_size (ino (img t) 1)) = n"
    using inot [OF one] by (simp add: trim_def dd_def n unat_word_ariths unat_div_distrib sz)
  moreover have "files_ok (ino (img t)) I ?U (img t) (unat (freeblock s))" by (rule files_ok_meta(1) [OF ok addrs imgt])
  moreover have "bmbit (img t (nmeta - 1)) b \<longleftrightarrow> b < unat (freeblock s)" if "b < BPB" for b
    using bitmap_prefix [of "unat (freeblock s)" b] fb that by (simp add: t_def)
  ultimately show ?thesis using run others root lens by (intro exI [of _ t]) (simp add: t_def u_def)
qed

lemma inums_mem: "k + 2 < 2 ^ 32 \<Longrightarrow> j < k \<Longrightarrow> of_nat (j + 2) \<in> inums k - {1}"
proof -
  assume a: "k + 2 < 2 ^ 32" "j < k"
  define i where "i = (of_nat (j + 2) :: uint)"
  have "unat i = j + 2" unfolding i_def using a by (intro unat_of_nat_lt) simp
  then show ?thesis unfolding i_def [symmetric] using a by (auto simp: inums_def)
qed

text \<open>
  C7. \<^verbatim>\<open>mkfs\<close> builds the file system it is asked for. If the image file can be created, every file named on the
  command line can be opened, has a name that fits a directory entry and contents that fit a file, the inode
  table has room for the files and the image has room for their blocks, then the program ends without a failed
  assertion, and in the image it leaves: the image has \<open>FSSIZE\<close> sectors; reading sector 1 as the kernel does gives
  the superblock; inode \<open>j + 2\<close> is a regular file with exactly the bytes of the \<open>j\<close>-th file; the root inode is a
  directory with one link that starts with the entries for \<^verbatim>\<open>.\<close>, \<^verbatim>\<open>..\<close> and every file in order, its size being the
  entries' size rounded up to the next multiple of \<open>BSIZE\<close>; every data block and every indirect block lies in its
  own sector, and together they are exactly the sectors from \<open>nmeta\<close> up to \<open>freeblock\<close>; and the bitmap marks exactly
  the sectors below \<open>freeblock\<close> as in use.
\<close>

theorem mkfs_image_correct:
  fixes s :: "'z mkfs_st_scheme"
  assumes "creat imgfile" and "freeinode s = 1" and "length args + 2 \<le> NINODES"
    and "\<forall>j<length args. good_arg host (args ! j)" and "fits (tree host args (length args)) (inums (length args))"
  shows "\<exists>t. mkfs_main creat host (prog # imgfile # args) s = Inr ((), t) \<and>
    img_len t = FSSIZE \<and> superblock_in (img t 1) = mkfs_superblock \<and>
    (\<forall>j<length args. has_file (img t) (ino (img t) (of_nat (j + 2))) (T_FILE, file_bytes host (args ! j))) \<and>
    has_file (img t) ((ino (img t) 1)\<lparr>di_size := of_nat (16 * (length args + 2))\<rparr>) (T_DIR, root_bytes args (length args)) \<and>
    unat (di_size (ino (img t) 1)) = (16 * (length args + 2) div BSIZE + 1) * BSIZE \<and>
    bij_betw (\<lambda>(i, sl). unat (slot_addr (img t) (ino (img t) i) sl))
      (SIGMA i:inums (length args). slots_of (nblocks (length (snd (tree host args (length args) i))))) {nmeta..<unat (freeblock t)} \<and>
    (\<forall>b<BPB. bmbit (img t (nmeta - 1)) b \<longleftrightarrow> b < unat (freeblock t))"
proof -
  let ?F = "tree host args (length args)" and ?I = "inums (length args)"
  let ?s = "s\<lparr>img := \<lambda>_ _. 0, img_len := 0\<rparr>"
  have nm: "length (entry_name (args ! j)) \<le> DIRSIZ" if "j < length args" for j using assms(4) that by (simp add: good_arg_def)
  have ns: "length args + 2 < 2 ^ 32" using assms(3) by simp
  have rl: "length (snd (?F 1)) = 16 * (length args + 2)" using root_length [of "length args" args, OF nm] by (simp add: tree_def)
  obtain t where t: "(bnd mkfs_layout (\<lambda>_. bnd (mkfs_ialloc T_DIR) (\<lambda>rootino. bnd (assert (rootino = ROOTINO)) (\<lambda>_.
      bnd (iappend rootino (dirent_bytes rootino ''.'')) (\<lambda>_. bnd (iappend rootino (dirent_bytes rootino ''..'')) (\<lambda>_.
      for_each args (add_file host rootino))))))) ?s = Inr ((), t)"
    "holds t ?F ?I" "img t 1 = put_superblock mkfs_superblock (\<lambda>_. 0)"
    using root_run [of ?s args host] assms by auto
  obtain u where u: "(bnd (fix_root_size 1) (\<lambda>_. bnd get (\<lambda>s. mkfs_balloc (sint (freeblock s))))) t = Inr ((), u)"
    "img_len u = FSSIZE" "img u 1 = img t 1" "\<forall>b<BPB. bmbit (img u (nmeta - 1)) b \<longleftrightarrow> b < unat (freeblock u)"
    "files_ok (ino (img u)) ?I (\<lambda>i. slots_of (nblocks (length (snd (?F i))))) (img u) (unat (freeblock u))"
    "\<forall>i\<in>?I - {1}. has_file (img u) (ino (img u) i) (?F i)"
    "has_file (img u) ((ino (img u) 1)\<lparr>di_size := of_nat (length (snd (?F 1)))\<rparr>) (?F 1)"
    "unat (di_size (ino (img u) 1)) = (length (snd (?F 1)) div BSIZE + 1) * BSIZE"
    using close_image_run [OF t(2) inums_simps(3) [OF ns] refl] by (elim exE conjE)
  have "mkfs_main creat host (prog # imgfile # args) s = Inr ((), u)"
    using t(1) u(1) assms(1) by (auto simp: mkfs_main_def run_simps bnd_def assert_def stop_with_def split: sum.splits if_splits)
  moreover have "has_file (img u) (ino (img u) (of_nat (j + 2))) (T_FILE, file_bytes host (args ! j))" if "j < length args" for j
  proof -
    have j: "of_nat (j + 2) \<in> ?I - {1}" by (rule inums_mem [OF ns that])
    have "unat (of_nat (j + 2) :: uint) = j + 2" using that ns by (intro unat_of_nat_lt) simp
    then have "?F (of_nat (j + 2)) = (T_FILE, file_bytes host (args ! j))" using j by (simp add: tree_def del: of_nat_add)
    then show ?thesis using u(6) j by (metis (no_types, lifting))
  qed
  moreover have "?F 1 = (T_DIR, root_bytes args (length args))" by (simp add: tree_def)
  ultimately show ?thesis using u rl t(3) superblock_read
    by (intro exI [of _ u]) (simp add: files_ok_def del: of_nat_add of_nat_mult)
qed

theorem mkfs_image_correct_witness:
  "\<exists>t. mkfs_main (\<lambda>_. True) (\<lambda>_. Some [[1, 2], [3]]) [''mkfs'', ''fs.img'', ''user/_init'']
     \<lparr>img = \<lambda>_ _. 0, img_len = 0, mk_sb = mkfs_superblock, freeinode = 1, freeblock = 0\<rparr> = Inr ((), t) \<and>
   has_file (img t) (ino (img t) 2) (T_FILE, [1, 2, 3]) \<and> unat (di_size (ino (img t) 1)) = 1024"
proof -
  let ?host = "\<lambda>_. Some [[1, 2], [3]] :: 8 word list list option" and ?args = "[''user/_init'']"
  let ?s = "\<lparr>img = \<lambda>_ _. 0, img_len = 0, mk_sb = mkfs_superblock, freeinode = 1, freeblock = 0\<rparr>"
  have name: "mkfs_shortname ''user/_init'' = ''_init''" "entry_name ''user/_init'' = ''init''"
    by (simp_all add: mkfs_shortname_def entry_name_def skip_underscore_def)
  have good: "\<forall>j<length ?args. good_arg ?host (?args ! j)" by (simp add: good_arg_def name file_bytes_def)
  have "length (root_bytes ?args 1) = 48" using root_length [of 1 ?args] by (simp add: name)
  moreover have "inums 1 = {1, 2}" by (auto simp: inums_def less_Suc_eq word_unat_eq_iff numeral_3_eq_3)
  ultimately have "fits (tree ?host ?args (length ?args)) (inums (length ?args))"
    by (simp add: fits_def tree_def file_bytes_def nblocks_def file_blocks_def)
  then have "\<exists>t. mkfs_main (\<lambda>_. True) ?host (''mkfs'' # ''fs.img'' # ?args) ?s = Inr ((), t) \<and>
    (\<forall>j<length ?args. has_file (img t) (ino (img t) (of_nat (j + 2))) (T_FILE, file_bytes ?host (?args ! j))) \<and>
    unat (di_size (ino (img t) 1)) = (16 * (length ?args + 2) div BSIZE + 1) * BSIZE"
    using mkfs_image_correct [of "\<lambda>_. True" "''fs.img''" ?s ?args ?host "''mkfs''"] good by fastforce
  then show ?thesis by (auto simp: file_bytes_def)
qed

end
