(* ===== verification/Spec2Isabelle.thy ===== *)
theory Spec2Isabelle
  imports Kstring Kalloc Vm_Alloc Log_Op Sched Fs_Block Copy_Spec Trap Proc_Spec Proc_Inv File_Spec Pipe_Spec Console_Spec Virtio_Spec Kmain Machine_Spec Mkfs_Spec
begin

text \<open>
  A verification library for the xv6-style RISC-V kernel under \<^verbatim>\<open>src/kernel\<close> and the program under
  \<^verbatim>\<open>src/mkfs\<close> that builds its disk image. Both are translated function by function into HOL and the properties that make its components correct are proved about
  the translation.

  \<^bold>\<open>How C becomes HOL.\<close> A C function is a HOL function in the state monad \<open>('s, 'a) km\<close> of
  \<^verbatim>\<open>Xv6_Prelude\<close>: a state is mapped to \<open>Inr (result, state)\<close>, or to \<open>Inl\<close> of the reason why the run does
  not return: \<open>Panic\<close> with the text of the kernel's \<^verbatim>\<open>panic\<close>, \<open>OutOfBounds\<close> for an access outside every
  object, \<open>Blocked\<close> where the code would sleep or spin, \<open>Diverge\<close> when a loop exceeds its fuel. A C
  integer is a word of its width; memory is a total map from 64-bit addresses to bytes. Loops are
  primitive recursions over the remaining data, or over fuel: the fuel of each loop is computed from the
  values it depends on, and the lemmas on the loop show that it is enough (\<^verbatim>\<open>NUM + 1\<close> turns for a descriptor
  chain, one more than the number of remaining bytes or pages for the copy and mapping loops, the difference
  of the ring counters for the disk interrupt). Total correctness is stated with \<open>wp\<close>, partial
  correctness with \<open>wlp\<close>, which the invariants use.

  \<^bold>\<open>State.\<close> The state is a chain of records, each extending the one of the component below it: physical
  memory (\<open>phys\<close>), the free list (\<open>kmem_st\<close>), the current address space (\<open>vm_st\<close>), the buffer cache and the
  disk (\<open>bio_st\<close>), the log (\<open>log_st\<close>), the inode table (\<open>fs_st\<close>), the process table (\<open>proc_st\<close>), open files
  and pipes (\<open>file_st\<close>), the console (\<open>cons_st\<close>), control registers (\<open>trap_st\<close>), the disk driver (\<open>vdisk_st\<close>), the
  kernel page table and the start flag (\<open>kernel_st\<close>). An operation is polymorphic in the rest of the record, so
  that every layer uses the operations below it unchanged. The theories of the multiprocessor locks and of the
  scheduler core have a state of their own, \<open>smp_st\<close> and \<open>sched_st\<close>, in which the steps of all harts interleave;
  everywhere else a section under a spin lock is one atomic step. A hart that runs assembly is \<open>hart\<close>, physical
  memory with the registers; the image builder has \<open>mkfs_st\<close>, its image file and its counters.

  \<^bold>\<open>Parts.\<close>

  \<^item> \<^verbatim>\<open>Kstring\<close>: \<^verbatim>\<open>string.c\<close>. \<^verbatim>\<open>memmove\<close> is right for overlapping ranges, copied strings compare equal, copies
    are terminated and stay in their buffer.
  \<^item> \<^verbatim>\<open>Phys_Mem\<close>, \<^verbatim>\<open>Kalloc\<close>: loads, stores and pages; \<^verbatim>\<open>kalloc.c\<close> with its list threaded through the free pages.
    Locale \<open>page_allocator\<close> is its contract.
  \<^item> \<^verbatim>\<open>Vm\<close>, \<^verbatim>\<open>Vm_Table\<close>, \<^verbatim>\<open>Vm_Map\<close>, \<^verbatim>\<open>Vm_Alloc\<close>, \<^verbatim>\<open>Copy\<close>, \<^verbatim>\<open>Copy_Spec\<close>: \<^verbatim>\<open>vm.c\<close>. A page table is read as a function
    from addresses to entries; mapping, unmapping, growing an address space and the copies across the user
    boundary are characterised by it, with every failure undone.
  \<^item> \<^verbatim>\<open>Sleeplock\<close>, \<^verbatim>\<open>Bio\<close>, \<^verbatim>\<open>Bio_Spec\<close>: \<^verbatim>\<open>sleeplock.c\<close>, \<^verbatim>\<open>bio.c\<close>. The cache with its LRU list presents the disk as
    one function from block numbers to contents; locale \<open>buffer_cache\<close>.
  \<^item> \<^verbatim>\<open>Block\<close>, \<^verbatim>\<open>Log\<close>, \<^verbatim>\<open>Log_Spec\<close>, \<^verbatim>\<open>Log_Crash\<close>, \<^verbatim>\<open>Log_Op\<close>, \<^verbatim>\<open>Txn\<close>: \<^verbatim>\<open>log.c\<close>. The disk writes of a commit are determined
    exactly, and a crash is any prefix of them: recovery then gives all of a transaction or none of it, and
    may itself crash and be repeated. \<^verbatim>\<open>begin_op\<close> reserves enough space. Locale \<open>block_store\<close> is what the file
    system uses of it.
  \<^item> \<^verbatim>\<open>Fs\<close>, \<^verbatim>\<open>Fs_Block\<close>: \<^verbatim>\<open>fs.c\<close>; properties of the block allocator.
  \<^item> \<^verbatim>\<open>Spinlock\<close>, \<^verbatim>\<open>Sched\<close>: \<^verbatim>\<open>spinlock.c\<close> and the scheduling core of \<^verbatim>\<open>proc.c\<close> for any number of harts: mutual
    exclusion, nesting of interrupt disabling, no process on two harts, no panic in \<^verbatim>\<open>sched\<close>.
  \<^item> \<^verbatim>\<open>Proc\<close>, \<^verbatim>\<open>Proc_Life\<close>, \<^verbatim>\<open>Proc_Spec\<close>, \<^verbatim>\<open>Proc_Inv\<close>: the process table of \<^verbatim>\<open>proc.c\<close> from \<^verbatim>\<open>allocproc\<close> to \<^verbatim>\<open>kwait\<close>,
    and its well-formedness.
  \<^item> \<^verbatim>\<open>File\<close>, \<^verbatim>\<open>File_Spec\<close>, \<^verbatim>\<open>Ring\<close>, \<^verbatim>\<open>Pipe_Spec\<close>: \<^verbatim>\<open>file.c\<close>, \<^verbatim>\<open>pipe.c\<close>: reference counts are exact under all system
    calls; a pipe refines a bounded queue (locale \<open>bounded_fifo\<close>).
  \<^item> \<^verbatim>\<open>Console\<close>, \<^verbatim>\<open>Console_Spec\<close>: \<^verbatim>\<open>uart.c\<close>, \<^verbatim>\<open>console.c\<close>, \<^verbatim>\<open>printf.c\<close>: \<^verbatim>\<open>printf\<close> against a reference formatter.
  \<^item> \<^verbatim>\<open>Syscall\<close>, \<^verbatim>\<open>Exec\<close>, \<^verbatim>\<open>Sysfile\<close>, \<^verbatim>\<open>Trap\<close>: \<^verbatim>\<open>syscall.c\<close>, \<^verbatim>\<open>sysproc.c\<close>, \<^verbatim>\<open>exec.c\<close>, \<^verbatim>\<open>sysfile.c\<close>, \<^verbatim>\<open>trap.c\<close>, \<^verbatim>\<open>plic.c\<close>.
  \<^item> \<^verbatim>\<open>Virtio\<close>, \<^verbatim>\<open>Virtio_Spec\<close>: \<^verbatim>\<open>virtio_disk.c\<close>. The driver, any number of callers and a device constrained only by
    the virtio protocol refine an atomic block device.
  \<^item> \<^verbatim>\<open>Kmain\<close>: \<^verbatim>\<open>main.c\<close> with the initialisation functions it calls, and the trap handlers with the disk driver
    as interrupt handler.
  \<^item> \<^verbatim>\<open>Machine\<close>, \<^verbatim>\<open>Machine_Spec\<close>: the register accessors of \<^verbatim>\<open>riscv.h\<close>, \<^verbatim>\<open>start.c\<close>, and \<^verbatim>\<open>entry.S\<close>, \<^verbatim>\<open>trampoline.S\<close>,
    \<^verbatim>\<open>kernelvec.S\<close> and \<^verbatim>\<open>swtch.S\<close> as lists of instructions that are executed on a hart: a trap and a context switch
    give back every register they took, and \<^verbatim>\<open>start\<close> enters \<^verbatim>\<open>main\<close> in supervisor mode.
  \<^item> \<^verbatim>\<open>Mkfs\<close>, \<^verbatim>\<open>Mkfs_Spec\<close>: \<^verbatim>\<open>mkfs.c\<close>. The image is read as a map from inode numbers to files (\<open>holds\<close>); each operation
    of the program is a lemma about that map, and the final image holds exactly the files of the command line.
  \<^item> \<^verbatim>\<open>Frame\<close>, \<^verbatim>\<open>Sample\<close>: what the lower layers leave alone (locale \<open>fs_frame\<close>), and concrete states for the
    witnesses.

  \<^bold>\<open>Not modelled.\<close> The programs and the library under \<^verbatim>\<open>src/user\<close>, which run above the system calls; the
  prototypes of \<^verbatim>\<open>defs.h\<close>; the linker scripts and the build rules.
\<close>

end
